(* ===== verification/Ossia_Prelude.thy ===== *)
theory Ossia_Prelude
  imports Complex_Main "HOL-Library.Word"
begin

text \<open>
  Shared vocabulary of the development: the result type that carries the C++ exceptions and
  undefined behaviour of the modelled code, its bind and its traversal of a list, the fixed-width
  integer types, and the generic facts on lists and words that the components use.
\<close>

section \<open>Faults and results\<close>

text \<open>
  What the modelled code can do instead of returning: throw one of its exceptions
  (\<open>Bad_variant_type\<close> is the \<open>std::runtime_error("value_variant: bad type")\<close> of the variants,
  \<open>Invalid_value_type\<close> is \<open>invalid_value_type_error\<close>, \<open>Cannot_create_node\<close> is the
  \<open>std::runtime_error\<close> of \<open>create_node_rec\<close>, \<open>Length_error\<close> is the \<open>std::length_error\<close> of a
  vector asked for an impossible size, \<open>Out_of_range\<close> is the \<open>std::out_of_range\<close> of \<open>std::stoi\<close>,
  \<open>Bad_regex\<close> is \<open>std::regex_error\<close>, \<open>No_value_type\<close> is the \<open>std::runtime_error("... no type")\<close>
  of the writers of values, \<open>Invalid_address\<close> is \<open>ossiaException_InvalidAddress\<close>,
  \<open>Architecture_kept\<close> is the \<open>std::runtime_error\<close> of a preset that would change the tree,
  \<open>Node_not_found\<close> is \<open>node_not_found_error\<close>, \<open>Bad_request\<close> is \<open>bad_request_error\<close>,
  \<open>Bad_lexical_cast\<close> is \<open>boost::bad_lexical_cast\<close> and \<open>Promise_already_satisfied\<close> is the
  \<open>std::future_error\<close> of a promise that is kept twice), or run into behaviour that the language leaves
  undefined (a signed overflow, a floating value converted to an integer type that cannot hold it).
\<close>

datatype fault =
    Bad_variant_type
  | Invalid_value_type
  | Cannot_create_node
  | Length_error
  | Out_of_range
  | Bad_regex
  | No_value_type
  | Invalid_address
  | Architecture_kept
  | Node_not_found
  | Bad_request
  | Bad_lexical_cast
  | Promise_already_satisfied
  | Undefined_behaviour

datatype 'a res = Ok 'a | Err fault

fun res_bind :: "'a res \<Rightarrow> ('a \<Rightarrow> 'b res) \<Rightarrow> 'b res" where
  "res_bind (Ok x) f = f x"
| "res_bind (Err e) f = Err e"

fun res_map :: "('a \<Rightarrow> 'b) \<Rightarrow> 'a res \<Rightarrow> 'b res" where
  "res_map f (Ok x) = Ok (f x)"
| "res_map f (Err e) = Err e"

fun map_res :: "('a \<Rightarrow> 'b res) \<Rightarrow> 'a list \<Rightarrow> 'b list res" where
  "map_res f [] = Ok []"
| "map_res f (x # xs) = res_bind (f x) (\<lambda>y. res_map (Cons y) (map_res f xs))"

named_theorems res_elims \<open>inversion of successful results\<close>

lemma res_bind_cong [fundef_cong]:
  "m = m' \<Longrightarrow> (\<And>x. m' = Ok x \<Longrightarrow> f x = f' x) \<Longrightarrow> res_bind m f = res_bind m' f'"
  by (cases m') auto

lemma map_res_cong [fundef_cong]:
  "xs = ys \<Longrightarrow> (\<And>x. x \<in> set ys \<Longrightarrow> f x = g x) \<Longrightarrow> map_res f xs = map_res g ys"
  by (induction ys arbitrary: xs) auto

lemma res_bind_Ok_iff: "res_bind m f = Ok y \<longleftrightarrow> (\<exists>x. m = Ok x \<and> f x = Ok y)"
  by (cases m) auto

lemma res_bind_Err_iff:
  "res_bind m f = Err e \<longleftrightarrow> m = Err e \<or> (\<exists>x. m = Ok x \<and> f x = Err e)"
  by (cases m) auto

lemma res_map_Ok_iff: "res_map f m = Ok y \<longleftrightarrow> (\<exists>x. m = Ok x \<and> y = f x)"
  by (cases m) auto

lemma res_map_Err_iff [simp]: "res_map f m = Err e \<longleftrightarrow> m = Err e"
  by (cases m) auto

lemma res_bind_Ok_right [simp]: "res_bind m Ok = m"
  by (cases m) auto

lemma res_bind_OkE [res_elims, elim!]:
  assumes "res_bind m f = Ok y"
  obtains x where "m = Ok x" and "f x = Ok y"
  using assms by (auto simp: res_bind_Ok_iff)

lemma res_map_OkE [res_elims, elim!]:
  assumes "res_map f m = Ok y"
  obtains x where "m = Ok x" and "y = f x"
  using assms by (auto simp: res_map_Ok_iff)

lemma map_res_Ok_iff: "map_res f xs = Ok ys \<longleftrightarrow> list_all2 (\<lambda>x y. f x = Ok y) xs ys"
  by (induction xs arbitrary: ys)
    (auto simp: res_bind_Ok_iff res_map_Ok_iff list_all2_Cons1)

lemma map_res_length: "map_res f xs = Ok ys \<Longrightarrow> length ys = length xs"
  by (simp add: map_res_Ok_iff list_all2_lengthD)

lemma map_res_Ok_map: "(\<And>x. x \<in> set xs \<Longrightarrow> f x = Ok (g x)) \<Longrightarrow> map_res f xs = Ok (map g xs)"
  by (induction xs) auto

lemma map_res_id: "(\<And>x. x \<in> set xs \<Longrightarrow> f x = Ok x) \<Longrightarrow> map_res f xs = Ok xs"
  by (induction xs) auto

lemma list_all2_list_all_right:
  "list_all2 R xs ys \<Longrightarrow> (\<And>x y. x \<in> set xs \<Longrightarrow> R x y \<Longrightarrow> P y) \<Longrightarrow> list_all P ys"
  by (induction rule: list_all2_induct) auto

lemma map_res_all:
  assumes "map_res f xs = Ok ys" and "\<And>x y. x \<in> set xs \<Longrightarrow> f x = Ok y \<Longrightarrow> P y"
  shows "list_all P ys"
  using assms by (auto simp: map_res_Ok_iff elim: list_all2_list_all_right)

section \<open>Fixed-width integers\<close>

text \<open>
  \<open>int32_t\<close> and \<open>char\<close> (signed, as on the x86 and Apple targets the plug-in is built for) are
  words read with \<^term>\<open>sint\<close>. An \<open>int\<close> operation of the source whose mathematical result
  leaves the range is undefined behaviour; a conversion to a narrower integer type wraps.
\<close>

type_synonym i32 = "32 word"
type_synonym i8 = "8 word"

definition int32_min :: int where "int32_min = - (2 ^ 31)"
definition int32_max :: int where "int32_max = 2 ^ 31 - 1"

definition in_i32 :: "int \<Rightarrow> bool" where
  "in_i32 n \<longleftrightarrow> int32_min \<le> n \<and> n \<le> int32_max"

definition in_i8 :: "int \<Rightarrow> bool" where
  "in_i8 n \<longleftrightarrow> - 128 \<le> n \<and> n \<le> 127"

text \<open>The result of an \<open>int\<close> operation, given its mathematical value.\<close>

definition checked_i32 :: "int \<Rightarrow> i32 res" where
  "checked_i32 n = (if in_i32 n then Ok (word_of_int n) else Err Undefined_behaviour)"

lemma sint_i32_range: "in_i32 (sint (w :: i32))"
  using sint_ge [of w] sint_lt [of w] by (simp add: in_i32_def int32_min_def int32_max_def)

lemma sint_i8_range: "in_i8 (sint (w :: i8))"
  using sint_ge [of w] sint_lt [of w] by (simp add: in_i8_def)

lemma sint_word_of_int_i32: "in_i32 n \<Longrightarrow> sint (word_of_int n :: i32) = n"
  by (simp add: in_i32_def int32_min_def int32_max_def sint_sbintrunc' signed_take_bit_int_eq_self)

lemma sint_word_of_int_i8: "in_i8 n \<Longrightarrow> sint (word_of_int n :: i8) = n"
  by (simp add: in_i8_def sint_sbintrunc' signed_take_bit_int_eq_self)

lemma i8_in_i32: "in_i8 n \<Longrightarrow> in_i32 n"
  by (simp add: in_i8_def in_i32_def int32_min_def int32_max_def)

lemma checked_i32_Ok: "checked_i32 n = Ok w \<Longrightarrow> in_i32 n \<and> sint w = n"
  by (auto simp: checked_i32_def sint_word_of_int_i32 split: if_splits)

lemma sint_eq_iff: "sint (a :: 'a::len word) = sint b \<longleftrightarrow> a = b"
  by (auto intro: signed_word_eqI)

section \<open>Lists\<close>

lemma takeWhile_append_neq:
  "c \<notin> set xs \<Longrightarrow> takeWhile (\<lambda>x. x \<noteq> c) (xs @ c # ys) = xs"
  by (induction xs) auto

lemma dropWhile_append_neq:
  "c \<notin> set xs \<Longrightarrow> dropWhile (\<lambda>x. x \<noteq> c) (xs @ c # ys) = c # ys"
  by (induction xs) auto

end
