(* ===== verification/Ieee_Float.thy ===== *)
theory Ieee_Float
  imports Ossia_Prelude
begin

text \<open>
  The C++ types \<open>float\<close> and \<open>double\<close> as IEEE 754 binary32 and binary64 with rounding to nearest,
  ties to even. A value is a NaN, a signed infinity, or a sign and an exact rational magnitude, so
  a \<open>float\<close> converts to a \<open>double\<close> without any change and -0 is kept apart from +0 only by its
  sign. All operations are executable. The operations are those the modelled code uses: the
  comparisons, sum and difference, product, \<open>std::fabs\<close>, \<open>std::fmod\<close>, \<open>std::remainder\<close> and
  the conversions. The NaN payload and the exception flags are not modelled.
\<close>

section \<open>Formats, values and rounding\<close>

datatype fl = NaN | Infty bool | Fin bool rat

datatype fmt = F32 | F64

fun precision :: "fmt \<Rightarrow> int" where
  "precision F32 = 24"
| "precision F64 = 53"

fun emin :: "fmt \<Rightarrow> int" where
  "emin F32 = - 126"
| "emin F64 = - 1022"

fun emax :: "fmt \<Rightarrow> int" where
  "emax F32 = 127"
| "emax F64 = 1023"

definition pow2 :: "int \<Rightarrow> rat" where
  "pow2 e = (if 0 \<le> e then 2 ^ nat e else 1 / 2 ^ nat (- e))"

function int_log2 :: "int \<Rightarrow> int" where
  "int_log2 n = (if n < 2 then 0 else int_log2 (n div 2) + 1)"
  by pat_completeness auto
termination
  by (relation "measure nat") auto

declare int_log2.simps [simp del]

text \<open>The exponent of a positive rational: the \<open>e\<close> with \<open>2^e \<le> a < 2^(e+1)\<close>.\<close>

definition ilog2 :: "rat \<Rightarrow> int" where
  "ilog2 a =
     (if 1 \<le> a then int_log2 \<lfloor>a\<rfloor> else - (int_log2 (\<lceil>1 / a\<rceil> - 1) + 1))"

definition round_even :: "rat \<Rightarrow> int" where
  "round_even x =
     (let f = \<lfloor>x\<rfloor>; d = x - of_int f
      in if d < 1 / 2 then f else if 1 / 2 < d then f + 1 else if even f then f else f + 1)"

text \<open>Round the magnitude \<open>a \<ge> 0\<close>, without and with the overflow to infinity under the sign \<open>s\<close>.\<close>

definition unit_exp :: "fmt \<Rightarrow> rat \<Rightarrow> int" where
  "unit_exp t a = max (emin t) (ilog2 a) - (precision t - 1)"

definition round_mag :: "fmt \<Rightarrow> rat \<Rightarrow> rat" where
  "round_mag t a = (let u = pow2 (unit_exp t a) in of_int (round_even (a / u)) * u)"

definition fround :: "fmt \<Rightarrow> bool \<Rightarrow> rat \<Rightarrow> fl" where
  "fround t s a =
     (let m = round_mag t a in if m \<noteq> 0 \<and> emax t < ilog2 m then Infty s else Fin s m)"

text \<open>A value of the format: a NaN, an infinity, or a magnitude that rounding does not change.\<close>

fun wf_fl :: "fmt \<Rightarrow> fl \<Rightarrow> bool" where
  "wf_fl t NaN = True"
| "wf_fl t (Infty s) = True"
| "wf_fl t (Fin s m) = (0 \<le> m \<and> fround t False m = Fin False m)"

section \<open>Powers of two, exponents and rounding to an integer\<close>

lemma pow2_powi: "pow2 e = 2 powi e"
  by (simp add: pow2_def power_int_def field_simps)

lemma pow2_pos [simp]: "0 < pow2 e"
  by (simp add: pow2_powi)

lemma pow2_nonzero [simp]: "pow2 e \<noteq> 0"
  by (simp add: pow2_powi)

lemma pow2_0 [simp]: "pow2 0 = 1"
  by (simp add: pow2_def)

lemma pow2_add: "pow2 (a + b) = pow2 a * pow2 b"
  by (simp add: pow2_powi power_int_add)

lemma pow2_Suc: "pow2 (a + 1) = 2 * pow2 a"
  by (simp add: pow2_powi power_int_add)

lemma pow2_diff: "pow2 (a - b) = pow2 a / pow2 b"
  by (simp add: pow2_powi power_int_diff)

lemma pow2_minus: "pow2 (- a) = 1 / pow2 a"
  using pow2_diff [of 0 a] by simp

lemma pow2_nat: "0 \<le> e \<Longrightarrow> pow2 e = of_int (2 ^ nat e)"
  by (simp add: pow2_def)

lemma pow2_le_iff [simp]: "pow2 a \<le> pow2 b \<longleftrightarrow> a \<le> b"
  unfolding pow2_powi by (metis linorder_not_less one_less_numeral_iff power_int_increasing
      power_int_strict_increasing semiring_norm(76) less_imp_le)

lemma pow2_less_iff [simp]: "pow2 a < pow2 b \<longleftrightarrow> a < b"
  by (meson linorder_not_less pow2_le_iff)

lemma int_log2_1: "int_log2 1 = 0"
  by (subst int_log2.simps) simp

lemma int_log2_step: "2 \<le> n \<Longrightarrow> int_log2 n = int_log2 (n div 2) + 1"
  by (subst int_log2.simps) simp

lemma of_int_less_pow2: "0 \<le> e \<Longrightarrow> of_int n < pow2 e \<longleftrightarrow> n < 2 ^ nat e"
  by (simp only: pow2_nat of_int_less_iff)

lemma of_int_ge_pow2: "0 \<le> e \<Longrightarrow> pow2 e \<le> of_int n \<longleftrightarrow> 2 ^ nat e \<le> n"
  by (simp only: pow2_nat of_int_le_iff)

lemma nat_Suc_pow: "0 \<le> k \<Longrightarrow> (2::int) ^ nat (k + 1) = 2 * 2 ^ nat k"
  by (simp add: nat_add_distrib)

lemma int_log2_int_bounds:
  "1 \<le> n \<Longrightarrow> 0 \<le> int_log2 n \<and> 2 ^ nat (int_log2 n) \<le> n \<and> n < 2 ^ nat (int_log2 n + 1)"
proof (induction n rule: int_log2.induct)
  case (1 n)
  show ?case
  proof (cases "n < 2")
    case True
    with 1 have "n = 1" by simp
    then show ?thesis by (simp add: int_log2_1)
  next
    case False
    let ?k = "int_log2 (n div 2)"
    have IH: "0 \<le> ?k" "2 ^ nat ?k \<le> n div 2" "n div 2 < 2 ^ nat (?k + 1)"
      using 1 False by simp_all
    have "2 ^ nat (?k + 1) \<le> n" using IH(1,2) nat_Suc_pow [of ?k] by linarith
    moreover have "n < 2 ^ nat (?k + 1 + 1)"
      using IH(1,3) nat_Suc_pow [of "?k + 1"] by linarith
    ultimately show ?thesis using IH(1) False int_log2_step [of n] by simp
  qed
qed

lemma int_log2_bounds:
  "1 \<le> n \<Longrightarrow> 0 \<le> int_log2 n \<and> pow2 (int_log2 n) \<le> of_int n \<and> of_int n < pow2 (int_log2 n + 1)"
  using int_log2_int_bounds [of n] by (simp add: of_int_less_pow2 of_int_ge_pow2)

lemma ilog2_bounds:
  assumes "0 < a"
  shows "pow2 (ilog2 a) \<le> a \<and> a < pow2 (ilog2 a + 1)"
proof (cases "1 \<le> a")
  case True
  then have "1 \<le> \<lfloor>a\<rfloor>" by simp
  note b = int_log2_bounds [OF this]
  let ?k = "int_log2 \<lfloor>a\<rfloor>"
  have "\<lfloor>a\<rfloor> < 2 ^ nat (?k + 1)" using int_log2_int_bounds [OF \<open>1 \<le> \<lfloor>a\<rfloor>\<close>] by simp
  then have "a < of_int (2 ^ nat (?k + 1))" by linarith
  then have "a < pow2 (?k + 1)" using b by (simp add: pow2_nat)
  moreover have "pow2 ?k \<le> a" using b of_int_floor_le [of a] by linarith
  ultimately show ?thesis using True by (simp add: ilog2_def)
next
  case False
  let ?b = "1 / a"
  have b1: "1 < ?b" using False assms by simp
  let ?c = "\<lceil>?b\<rceil> - 1"
  have c: "1 \<le> ?c" using b1 by linarith
  let ?k = "int_log2 ?c"
  note k = int_log2_bounds [OF c]
  have "?c < 2 ^ nat (?k + 1)" using int_log2_int_bounds [OF c] by simp
  then have "?b \<le> of_int (2 ^ nat (?k + 1))" by linarith
  then have hi: "?b \<le> pow2 (?k + 1)" using k by (simp add: pow2_nat)
  have "of_int ?c < ?b" by linarith
  then have lo: "pow2 ?k < ?b" using k by linarith
  have "pow2 (- (?k + 1)) \<le> a"
    using hi assms unfolding pow2_minus by (simp add: field_simps)
  moreover have "a < pow2 (- (?k + 1) + 1)"
    using lo assms by (simp add: pow2_minus field_simps)
  ultimately show ?thesis using False by (simp add: ilog2_def)
qed
lemma ilog2_unique: "0 < a \<Longrightarrow> pow2 e \<le> a \<Longrightarrow> a < pow2 (e + 1) \<Longrightarrow> ilog2 a = e"
  using ilog2_bounds [of a] pow2_less_iff [of "ilog2 a" "e + 1"] pow2_less_iff [of e "ilog2 a + 1"]
  by linarith

lemma ilog2_less: "0 < a \<Longrightarrow> a < pow2 e \<Longrightarrow> ilog2 a < e"
  using ilog2_bounds [of a] pow2_less_iff [of "ilog2 a" e] by linarith

lemma ilog2_mono: "0 < a \<Longrightarrow> a \<le> b \<Longrightarrow> ilog2 a \<le> ilog2 b"
  using ilog2_bounds [of a] ilog2_bounds [of b] pow2_less_iff [of "ilog2 a" "ilog2 b + 1"] by linarith

lemma round_even_of_int [simp]: "round_even (of_int n) = n"
  by (simp add: round_even_def)

lemma round_even_near: "\<bar>of_int (round_even x) - x\<bar> \<le> 1 / 2"
proof -
  have "0 \<le> x - of_int \<lfloor>x\<rfloor>" "x - of_int \<lfloor>x\<rfloor> < 1" by linarith+
  then show ?thesis by (simp add: round_even_def Let_def abs_le_iff)
qed

lemma round_even_mono: "x \<le> y \<Longrightarrow> round_even x \<le> round_even y"
proof -
  assume le: "x \<le> y"
  show ?thesis
  proof (cases "\<lfloor>x\<rfloor> = \<lfloor>y\<rfloor>")
    case True
    then show ?thesis using le by (simp add: round_even_def Let_def)
  next
    case False
    then have "\<lfloor>x\<rfloor> + 1 \<le> \<lfloor>y\<rfloor>" using le floor_mono [OF le] by linarith
    moreover have "round_even x \<le> \<lfloor>x\<rfloor> + 1" "\<lfloor>y\<rfloor> \<le> round_even y"
      by (simp_all add: round_even_def Let_def)
    ultimately show ?thesis by linarith
  qed
qed

section \<open>Rounding: exactness, closure, monotonicity\<close>

lemma precision_pos: "1 < precision t"
  by (cases t) simp_all

lemma round_mag_0 [simp]: "round_mag t 0 = 0"
  using round_even_of_int [of 0] by (simp add: round_mag_def)

lemma fround_0 [simp]: "fround t s 0 = Fin s 0"
  by (simp add: fround_def)

lemma round_even_nonneg: "0 \<le> x \<Longrightarrow> 0 \<le> round_even x"
  using round_even_mono [of 0 x] round_even_of_int [of 0] by simp

lemma round_mag_nonneg: "0 \<le> a \<Longrightarrow> 0 \<le> round_mag t a"
  by (simp add: round_mag_def Let_def round_even_nonneg less_imp_le)

lemma round_even_le_pow2: "0 \<le> k \<Longrightarrow> x \<le> pow2 k \<Longrightarrow> of_int (round_even x) \<le> pow2 k"
  using round_even_mono [of x "of_int (2 ^ nat k)"] by (simp add: pow2_nat del: of_int_power)

lemma round_even_ge_pow2: "0 \<le> k \<Longrightarrow> pow2 k \<le> x \<Longrightarrow> pow2 k \<le> of_int (round_even x)"
  using round_even_mono [of "of_int (2 ^ nat k)" x] by (simp add: pow2_nat del: of_int_power)

lemma div_unit_less: "0 < a \<Longrightarrow> a / pow2 (unit_exp t a) < pow2 (precision t)"
proof -
  assume "0 < a"
  then have "a < pow2 (ilog2 a + 1)" using ilog2_bounds by blast
  also have "\<dots> \<le> pow2 (precision t + unit_exp t a)" by (simp add: unit_exp_def)
  finally show ?thesis by (simp add: pow2_add field_simps)
qed

lemma round_mag_representable:
  assumes "0 < a"
  obtains n where "round_mag t a = of_int n * pow2 (unit_exp t a)"
    and "0 \<le> n" and "of_int n \<le> pow2 (precision t)"
proof
  let ?n = "round_even (a / pow2 (unit_exp t a))"
  show "round_mag t a = of_int ?n * pow2 (unit_exp t a)" by (simp add: round_mag_def Let_def)
  show "0 \<le> ?n" using assms by (intro round_even_nonneg) (simp add: less_imp_le)
  show "of_int ?n \<le> pow2 (precision t)"
    using div_unit_less [OF assms] precision_pos [of t] by (intro round_even_le_pow2) (auto intro: less_imp_le)
qed

lemma unit_exp_ge: "emin t - (precision t - 1) \<le> unit_exp t a"
  by (simp add: unit_exp_def)

text \<open>A magnitude with at most \<open>precision\<close> bits and an exponent of the format is kept.\<close>

lemma round_mag_exact:
  assumes "0 < n" and "of_int n \<le> pow2 (precision t)" and "emin t - (precision t - 1) \<le> k"
  shows "round_mag t (of_int n * pow2 k) = of_int n * pow2 k"
proof -
  let ?a = "of_int n * pow2 k :: rat"
  have pos: "0 < ?a" using assms(1) by simp
  let ?e = "unit_exp t ?a"
  have upper: "?a \<le> pow2 (precision t + k)" using assms(2) by (simp add: pow2_add)
  have "\<exists>j. of_int j = ?a / pow2 ?e"
  proof (cases "?e \<le> k")
    case True
    then have "?a / pow2 ?e = of_int n * pow2 (k - ?e)" by (simp add: pow2_diff)
    also have "\<dots> = of_int (n * 2 ^ nat (k - ?e))" using True by (simp add: pow2_nat)
    finally show ?thesis by metis
  next
    case False
    then have "precision t + k \<le> ilog2 ?a" using assms(3) by (simp add: unit_exp_def)
    then have "pow2 (precision t + k) \<le> ?a"
      using ilog2_bounds [OF pos] pow2_le_iff order_trans by blast
    then have eq: "?a = pow2 (precision t + k)" using upper by simp
    then have "ilog2 ?a = precision t + k" by (intro ilog2_unique) (simp_all add: pow2_Suc pos)
    then have "?e = k + 1" using False assms(3) by (simp add: unit_exp_def)
    then have "?a / pow2 ?e = of_int (2 ^ nat (precision t - 1))"
      using eq pow2_diff [of "precision t + k" "k + 1"] precision_pos [of t] by (simp add: pow2_nat)
    then show ?thesis by metis
  qed
  then obtain j where "of_int j = ?a / pow2 ?e" by blast
  then show ?thesis
    by (simp add: round_mag_def Let_def)
       (metis round_even_of_int nonzero_eq_divide_eq pow2_nonzero)
qed

lemma round_mag_idem: "0 \<le> a \<Longrightarrow> round_mag t (round_mag t a) = round_mag t a"
proof (cases "a = 0 \<or> round_mag t a = 0")
  case True
  then show ?thesis by auto
next
  case False
  assume "0 \<le> a"
  with False have "0 < a" by simp
  then obtain n where n: "round_mag t a = of_int n * pow2 (unit_exp t a)" "0 \<le> n"
    "of_int n \<le> pow2 (precision t)"
    by (rule round_mag_representable)
  with False have "0 < n" by (cases "n = 0") auto
  with n show ?thesis using round_mag_exact [OF _ n(3) unit_exp_ge] by simp
qed

lemma fround_exact:
  assumes "0 < n" and "of_int n \<le> pow2 (precision t)" and "emin t - (precision t - 1) \<le> k"
    and "of_int n * pow2 k < pow2 (emax t + 1)"
  shows "fround t s (of_int n * pow2 k) = Fin s (of_int n * pow2 k)"
  using ilog2_less [OF _ assms(4)] assms(1)
  by (simp add: fround_def round_mag_exact [OF assms(1-3)])

lemma fround_cases:
  assumes "0 \<le> a"
  obtains (overflow) "fround t s a = Infty s"
  | (finite) "fround t s a = Fin s (round_mag t a)"
    "fround t False (round_mag t a) = Fin False (round_mag t a)" "0 \<le> round_mag t a"
proof (cases "round_mag t a \<noteq> 0 \<and> emax t < ilog2 (round_mag t a)")
  case True
  then show ?thesis by (intro overflow) (simp add: fround_def Let_def)
next
  case False
  with assms show ?thesis
    by (intro finite) (auto simp: fround_def Let_def round_mag_idem round_mag_nonneg)
qed

text \<open>Rounding yields values of the format.\<close>

lemma wf_fround: "0 \<le> a \<Longrightarrow> wf_fl t (fround t s a)"
  by (erule fround_cases [where t = t and s = s]) auto

text \<open>Rounding is monotone.\<close>

lemma round_mag_upper: "0 < a \<Longrightarrow> round_mag t a \<le> pow2 (precision t + unit_exp t a)"
  by (erule round_mag_representable [where t = t]) (simp add: pow2_add)

lemma round_mag_mono:
  assumes "0 \<le> a" and "a \<le> b"
  shows "round_mag t a \<le> round_mag t b"
proof (cases "a = 0")
  case True
  then show ?thesis using assms by (simp add: round_mag_nonneg)
next
  case False
  then have a: "0 < a" and b: "0 < b" using assms by auto
  have le: "unit_exp t a \<le> unit_exp t b"
    using ilog2_mono [OF a assms(2)] by (auto simp: unit_exp_def)
  show ?thesis
  proof (cases "unit_exp t a = unit_exp t b")
    case True
    then show ?thesis using assms
      by (simp add: round_mag_def Let_def round_even_mono divide_right_mono less_imp_le)
  next
    case False
    then have eb: "unit_exp t b = ilog2 b - (precision t - 1)" and lt: "unit_exp t a < unit_exp t b"
      using le by (auto simp: unit_exp_def max_def split: if_splits)
    have "pow2 (precision t - 1) \<le> b / pow2 (unit_exp t b)"
      using ilog2_bounds [OF b] by (simp add: eb field_simps flip: pow2_add)
    then have "pow2 (precision t - 1) \<le> of_int (round_even (b / pow2 (unit_exp t b)))"
      using precision_pos [of t] by (intro round_even_ge_pow2) auto
    then have "pow2 (precision t - 1 + unit_exp t b) \<le> round_mag t b"
      by (simp add: round_mag_def Let_def pow2_add)
    moreover have "pow2 (precision t + unit_exp t a) \<le> pow2 (precision t - 1 + unit_exp t b)"
      using lt by simp
    ultimately show ?thesis using round_mag_upper [OF a, of t] by linarith
  qed
qed

section \<open>Operations\<close>

fun fl_val :: "fl \<Rightarrow> rat" where
  "fl_val (Fin s m) = (if s then - m else m)"
| "fl_val _ = 0"

fun fl_finite :: "fl \<Rightarrow> bool" where
  "fl_finite (Fin s m) = True"
| "fl_finite _ = False"

fun fl_eq :: "fl \<Rightarrow> fl \<Rightarrow> bool" where
  "fl_eq (Infty s) (Infty t) = (s = t)"
| "fl_eq (Fin s m) (Fin t n) = (fl_val (Fin s m) = fl_val (Fin t n))"
| "fl_eq _ _ = False"

fun fl_lt :: "fl \<Rightarrow> fl \<Rightarrow> bool" where
  "fl_lt NaN _ = False"
| "fl_lt _ NaN = False"
| "fl_lt (Infty s) (Infty t) = (s \<and> \<not> t)"
| "fl_lt (Infty s) (Fin t n) = s"
| "fl_lt (Fin s m) (Infty t) = (\<not> t)"
| "fl_lt (Fin s m) (Fin t n) = (fl_val (Fin s m) < fl_val (Fin t n))"

definition fl_le :: "fl \<Rightarrow> fl \<Rightarrow> bool" where
  "fl_le x y \<longleftrightarrow> fl_lt x y \<or> fl_eq x y"

text \<open>Round a signed rational; the sign of an exact zero is given.\<close>

definition fround_val :: "fmt \<Rightarrow> bool \<Rightarrow> rat \<Rightarrow> fl" where
  "fround_val t zs v = (if v = 0 then Fin zs 0 else fround t (v < 0) \<bar>v\<bar>)"

fun fl_neg :: "fl \<Rightarrow> fl" where
  "fl_neg NaN = NaN"
| "fl_neg (Infty s) = Infty (\<not> s)"
| "fl_neg (Fin s m) = Fin (\<not> s) m"

fun fl_abs :: "fl \<Rightarrow> fl" where
  "fl_abs NaN = NaN"
| "fl_abs (Infty s) = Infty False"
| "fl_abs (Fin s m) = Fin False m"

fun fl_add :: "fmt \<Rightarrow> fl \<Rightarrow> fl \<Rightarrow> fl" where
  "fl_add t NaN _ = NaN"
| "fl_add t _ NaN = NaN"
| "fl_add t (Infty a) (Infty b) = (if a = b then Infty a else NaN)"
| "fl_add t (Infty a) (Fin _ _) = Infty a"
| "fl_add t (Fin _ _) (Infty b) = Infty b"
| "fl_add t (Fin a m) (Fin b n) = fround_val t (a \<and> b) (fl_val (Fin a m) + fl_val (Fin b n))"

definition fl_sub :: "fmt \<Rightarrow> fl \<Rightarrow> fl \<Rightarrow> fl" where
  "fl_sub t x y = fl_add t x (fl_neg y)"

fun fl_mul :: "fmt \<Rightarrow> fl \<Rightarrow> fl \<Rightarrow> fl" where
  "fl_mul t NaN _ = NaN"
| "fl_mul t _ NaN = NaN"
| "fl_mul t (Infty a) (Infty b) = Infty (a \<noteq> b)"
| "fl_mul t (Infty a) (Fin b n) = (if n = 0 then NaN else Infty (a \<noteq> b))"
| "fl_mul t (Fin a m) (Infty b) = (if m = 0 then NaN else Infty (a \<noteq> b))"
| "fl_mul t (Fin a m) (Fin b n) = fround t (a \<noteq> b) (m * n)"

text \<open>\<open>std::fmod\<close>: the remainder of the division truncated towards zero, with the sign of the
  dividend. \<open>std::remainder\<close>: the quotient is rounded to the nearest integer, ties to even.\<close>

fun fl_fmod :: "fmt \<Rightarrow> fl \<Rightarrow> fl \<Rightarrow> fl" where
  "fl_fmod t (Fin a m) (Fin b n) =
     (if n = 0 then NaN else fround t a (m - of_int \<lfloor>m / n\<rfloor> * n))"
| "fl_fmod t (Fin a m) (Infty b) = Fin a m"
| "fl_fmod t _ _ = NaN"

fun fl_remainder :: "fmt \<Rightarrow> fl \<Rightarrow> fl \<Rightarrow> fl" where
  "fl_remainder t (Fin a m) (Fin b n) =
     (if n = 0 then NaN
      else let v = fl_val (Fin a m); r = v - of_int (round_even (v / n)) * n
           in fround_val t a r)"
| "fl_remainder t (Fin a m) (Infty b) = Fin a m"
| "fl_remainder t _ _ = NaN"

section \<open>Conversions\<close>

definition fl_of_int :: "fmt \<Rightarrow> int \<Rightarrow> fl" where
  "fl_of_int t n = fround t (n < 0) (of_int \<bar>n\<bar>)"

definition fl_of_bool :: "bool \<Rightarrow> fl" where
  "fl_of_bool b = Fin False (if b then 1 else 0)"

text \<open>\<open>double\<close> to \<open>float\<close>.\<close>

fun fl_narrow :: "fl \<Rightarrow> fl" where
  "fl_narrow (Fin s m) = fround F32 s m"
| "fl_narrow x = x"

text \<open>Truncation towards zero; the result is undefined where the integer type cannot hold it.\<close>

fun fl_trunc :: "fl \<Rightarrow> int res" where
  "fl_trunc (Fin s m) = Ok (if s then - \<lfloor>m\<rfloor> else \<lfloor>m\<rfloor>)"
| "fl_trunc _ = Err Undefined_behaviour"

definition fl_to_i32 :: "fl \<Rightarrow> i32 res" where
  "fl_to_i32 x =
     res_bind (fl_trunc x)
       (\<lambda>n. if in_i32 n then Ok (word_of_int n) else Err Undefined_behaviour)"

definition fl_to_i8 :: "fl \<Rightarrow> i8 res" where
  "fl_to_i8 x =
     res_bind (fl_trunc x)
       (\<lambda>n. if in_i8 n then Ok (word_of_int n) else Err Undefined_behaviour)"

fun fl_to_bool :: "fl \<Rightarrow> bool" where
  "fl_to_bool (Fin s m) = (m \<noteq> 0)"
| "fl_to_bool _ = True"

section \<open>Laws of the operations\<close>

text \<open>Every operation yields a value of its format.\<close>

lemma wf_fround_val: "wf_fl t (fround_val t zs v)"
  by (simp add: fround_val_def wf_fround)

lemma wf_fl_neg: "wf_fl t x \<Longrightarrow> wf_fl t (fl_neg x)"
  by (cases x) auto

lemma wf_fl_abs: "wf_fl t x \<Longrightarrow> wf_fl t (fl_abs x)"
  by (cases x) auto

lemma wf_fl_add: "wf_fl t (fl_add t x y)"
  by (cases x; cases y) (auto simp: wf_fround_val simp del: wf_fl.simps(3))

lemma wf_fl_sub: "wf_fl t (fl_sub t x y)"
  by (simp add: fl_sub_def wf_fl_add)

lemma wf_fl_narrow: "wf_fl t x \<Longrightarrow> wf_fl F32 (fl_narrow x)"
  by (cases x) (auto simp: wf_fround)

lemma wf_fl_of_int: "wf_fl t (fl_of_int t n)"
  by (simp add: fl_of_int_def wf_fround)

lemma fmod_mag_bounds:
  fixes m n :: rat
  assumes "0 < n"
  shows "0 \<le> m - of_int \<lfloor>m / n\<rfloor> * n" and "m - of_int \<lfloor>m / n\<rfloor> * n < n"
proof -
  have "of_int \<lfloor>m / n\<rfloor> \<le> m / n" "m / n < of_int \<lfloor>m / n\<rfloor> + 1" by linarith+
  then show "0 \<le> m - of_int \<lfloor>m / n\<rfloor> * n" and "m - of_int \<lfloor>m / n\<rfloor> * n < n"
    using assms by (simp_all only: pos_le_divide_eq pos_divide_less_eq) (simp_all add: algebra_simps)
qed

lemma wf_fl_fmod: "wf_fl t x \<Longrightarrow> wf_fl t y \<Longrightarrow> wf_fl t (fl_fmod t x y)"
proof (cases "\<exists>a m b n. x = Fin a m \<and> y = Fin b n")
  case True
  assume wf: "wf_fl t x" "wf_fl t y"
  from True obtain a m b n where eq: "x = Fin a m" "y = Fin b n" by blast
  have "n \<noteq> 0 \<Longrightarrow> 0 \<le> m - of_int \<lfloor>m / n\<rfloor> * n"
    using wf eq by (intro fmod_mag_bounds(1)) simp
  then show ?thesis by (auto simp: eq wf_fround simp del: wf_fl.simps(3))
next
  case False
  assume "wf_fl t x"
  with False show ?thesis by (cases x; cases y) simp_all
qed

text \<open>The order of the values other than NaN.\<close>

lemma fl_lt_irrefl [simp]: "\<not> fl_lt x x"
  by (cases x) auto

lemma fl_lt_trans: "fl_lt x y \<Longrightarrow> fl_lt y z \<Longrightarrow> fl_lt x z"
  by (cases x; cases y; cases z) auto

lemma fl_lt_asym: "fl_lt x y \<Longrightarrow> \<not> fl_lt y x"
  using fl_lt_irrefl fl_lt_trans by blast

lemma fl_eq_refl [simp]: "fl_eq x x \<longleftrightarrow> x \<noteq> NaN"
  by (cases x) auto

lemma fl_eq_sym: "fl_eq x y \<Longrightarrow> fl_eq y x"
  by (cases x; cases y) auto

lemma fl_eq_trans: "fl_eq x y \<Longrightarrow> fl_eq y z \<Longrightarrow> fl_eq x z"
  by (cases x; cases y; cases z) auto

lemma fl_trichotomy: "x \<noteq> NaN \<Longrightarrow> y \<noteq> NaN \<Longrightarrow> fl_lt x y \<or> fl_eq x y \<or> fl_lt y x"
  by (cases x; cases y) auto

lemma fl_lt_not_eq: "fl_lt x y \<Longrightarrow> \<not> fl_eq x y"
  by (cases x; cases y) auto

lemma fl_not_lt_iff: "x \<noteq> NaN \<Longrightarrow> y \<noteq> NaN \<Longrightarrow> \<not> fl_lt x y \<longleftrightarrow> fl_le y x"
  unfolding fl_le_def using fl_trichotomy [of x y] fl_lt_asym [of x y] fl_eq_sym fl_lt_not_eq by blast

lemma fl_lt_eq_trans: "fl_lt x y \<Longrightarrow> fl_eq y z \<Longrightarrow> fl_lt x z"
  by (cases x; cases y; cases z) auto

lemma fl_eq_lt_trans: "fl_eq x y \<Longrightarrow> fl_lt y z \<Longrightarrow> fl_lt x z"
  by (cases x; cases y; cases z) auto

lemma fl_le_refl: "x \<noteq> NaN \<Longrightarrow> fl_le x x"
  by (simp add: fl_le_def)

lemma fl_le_trans: "fl_le x y \<Longrightarrow> fl_le y z \<Longrightarrow> fl_le x z"
  unfolding fl_le_def using fl_lt_trans fl_eq_trans fl_lt_eq_trans fl_eq_lt_trans by blast

lemma fl_lt_NaN [simp]: "\<not> fl_lt NaN x" "\<not> fl_lt x NaN"
  by (cases x; simp)+

lemma fl_eq_NaN [simp]: "\<not> fl_eq NaN x" "\<not> fl_eq x NaN"
  by (cases x; simp)+

lemma fl_le_NaN [simp]: "\<not> fl_le NaN x" "\<not> fl_le x NaN"
  by (simp_all add: fl_le_def)

lemma fl_le_Fin: "fl_le (Fin a m) (Fin b n) \<longleftrightarrow> fl_val (Fin a m) \<le> fl_val (Fin b n)"
  by (auto simp: fl_le_def)

text \<open>Integers up to \<open>2^precision\<close> are exact, and so is their arithmetic.\<close>

definition is_int_fl :: "fl \<Rightarrow> int \<Rightarrow> bool" where
  "is_int_fl x n \<longleftrightarrow> (\<exists>s m. x = Fin s m \<and> 0 \<le> m \<and> fl_val x = of_int n)"

definition exact_int :: "fmt \<Rightarrow> int \<Rightarrow> bool" where
  "exact_int t n \<longleftrightarrow> \<bar>n\<bar> \<le> 2 ^ nat (precision t)"

lemma exact_int_pow2: "exact_int t n \<Longrightarrow> of_int n \<le> pow2 (precision t)"
proof -
  assume "exact_int t n"
  then have "n \<le> 2 ^ nat (precision t)" by (simp add: exact_int_def)
  then have "rat_of_int n \<le> of_int (2 ^ nat (precision t))" by (simp only: of_int_le_iff)
  then show ?thesis using precision_pos [of t] by (simp add: pow2_nat)
qed

lemma precision_le_emax: "precision t < emax t + 1" and emin_le: "emin t - (precision t - 1) \<le> 0"
  by (cases t; simp)+

lemma fround_int:
  assumes "0 \<le> n" and "exact_int t n"
  shows "fround t s (of_int n) = Fin s (of_int n)"
proof (cases "n = 0")
  case False
  have le: "of_int n \<le> pow2 (precision t)" using assms(2) by (rule exact_int_pow2)
  also have "\<dots> < pow2 (emax t + 1)" using precision_le_emax by simp
  finally show ?thesis
    using fround_exact [of n t 0 s] le emin_le assms(1) False by simp
qed simp

lemma wf_fl_of_bool: "wf_fl t (fl_of_bool b)"
  using fround_int [of 1 t False] by (cases t) (auto simp: fl_of_bool_def exact_int_def)

lemma is_int_fl_of_int: "exact_int t n \<Longrightarrow> is_int_fl (fl_of_int t n) n"
  using fround_int [of "\<bar>n\<bar>" t "n < 0"] by (auto simp: fl_of_int_def is_int_fl_def exact_int_def)

lemma is_int_fround_val:
  assumes "exact_int t n"
  shows "is_int_fl (fround_val t zs (of_int n)) n"
proof -
  have "exact_int t \<bar>n\<bar>" using assms by (simp add: exact_int_def)
  then show ?thesis
    using fround_int [of "\<bar>n\<bar>" t "n < 0"] by (auto simp: fround_val_def is_int_fl_def)
qed

lemma is_int_fl_abs: "is_int_fl x n \<Longrightarrow> is_int_fl (fl_abs x) \<bar>n\<bar>"
  by (auto simp: is_int_fl_def split: if_splits)

lemma is_int_fl_neg: "is_int_fl x n \<Longrightarrow> is_int_fl (fl_neg x) (- n)"
  by (auto simp: is_int_fl_def split: if_splits)

lemma is_int_fl_add:
  assumes "is_int_fl x m" and "is_int_fl y n" and "exact_int t (m + n)"
  shows "is_int_fl (fl_add t x y) (m + n)"
proof -
  obtain a p b q where x: "x = Fin a p" "fl_val x = of_int m" and y: "y = Fin b q" "fl_val y = of_int n"
    using assms by (auto simp: is_int_fl_def)
  then have "fl_add t x y = fround_val t (a \<and> b) (of_int (m + n))" by (simp only: fl_add.simps of_int_add)
  with assms(3) show ?thesis by (simp only: is_int_fround_val)
qed

lemma is_int_fl_sub:
  "is_int_fl x m \<Longrightarrow> is_int_fl y n \<Longrightarrow> exact_int t (m - n) \<Longrightarrow> is_int_fl (fl_sub t x y) (m - n)"
  using is_int_fl_add [of x m "fl_neg y" "- n" t] is_int_fl_neg by (simp add: fl_sub_def)

lemma is_int_fl_trunc: "is_int_fl x n \<Longrightarrow> fl_trunc x = Ok n"
  by (auto simp: is_int_fl_def split: if_splits) (metis floor_of_int minus_equation_iff of_int_minus)

lemma is_int_fl_fmod:
  assumes "is_int_fl x m" and "is_int_fl y n" and "0 \<le> m" and "0 < n" and "exact_int t n"
  shows "is_int_fl (fl_fmod t x y) (m mod n)"
proof -
  obtain a p where x: "x = Fin a p" "0 \<le> p" "fl_val x = of_int m"
    using assms by (auto simp: is_int_fl_def)
  obtain b q where y: "y = Fin b q" "0 \<le> q" "fl_val y = of_int n"
    using assms by (auto simp: is_int_fl_def)
  have p: "p = of_int m" and q: "q = of_int n"
    using x y assms(3,4) by (auto split: if_splits)
  have "p - of_int \<lfloor>p / q\<rfloor> * q = of_int (m mod n)"
    by (simp add: p q floor_divide_of_int_eq minus_div_mult_eq_mod flip: of_int_mult of_int_diff)
  moreover have "exact_int t (m mod n)" 
    using assms(4,5) by (auto simp: exact_int_def intro: order_trans [OF less_imp_le [OF pos_mod_bound]])
  moreover have "a \<Longrightarrow> m = 0" using x p by auto
  ultimately show ?thesis
    using assms(4) fround_int [of "m mod n" t a] by (auto simp: x y q is_int_fl_def)
qed

text \<open>Rounding a signed value is monotone, and leaves the value of a number of the format.\<close>

lemma fround_neg: "fround t True a = fl_neg (fround t False a)"
  by (simp add: fround_def Let_def)

lemma fl_le_neg: "fl_le x y \<Longrightarrow> fl_le (fl_neg y) (fl_neg x)"
  by (cases x; cases y) (auto simp: fl_le_def)

lemma fround_mono:
  assumes "0 \<le> a" and "a \<le> b"
  shows "fl_le (fround t False a) (fround t False b)"
proof -
  have m: "0 \<le> round_mag t a" "round_mag t a \<le> round_mag t b"
    using assms by (simp_all add: round_mag_nonneg round_mag_mono)
  show ?thesis
  proof (cases "round_mag t a = 0")
    case True
    then show ?thesis using m by (auto simp: fround_def Let_def fl_le_def)
  next
    case False
    then have "ilog2 (round_mag t a) \<le> ilog2 (round_mag t b)" using m by (intro ilog2_mono) auto
    then show ?thesis using m False by (auto simp: fround_def Let_def fl_le_def)
  qed
qed

lemma fround_nonneg: "0 \<le> a \<Longrightarrow> fl_le (Fin z 0) (fround t False a)"
  using fround_mono [of 0 a t] by (cases "fround t False a") (auto simp: fl_le_def)

lemma fround_val_mono: "v \<le> w \<Longrightarrow> fl_le (fround_val t z v) (fround_val t z' w)"
proof -
  assume le: "v \<le> w"
  consider "0 < v" | "v = 0" | "v < 0" "0 < w" | "v < 0" "w = 0" | "w < 0" using le by linarith
  then show ?thesis
  proof cases
    case 1
    then show ?thesis using le fround_mono [of v w t] by (simp add: fround_val_def)
  next
    case 2
    then show ?thesis using le fround_nonneg [of w z t] by (auto simp: fround_val_def fl_le_Fin)
  next
    case 3
    then show ?thesis
      using fl_le_trans [of "fl_neg (fround t False (- v))" "Fin False 0"]
        fl_le_neg [OF fround_nonneg [of "- v" True t]] fround_nonneg [of w False t]
      by (simp add: fround_val_def fround_neg)
  next
    case 4
    then show ?thesis
      using fl_le_neg [OF fround_nonneg [of "- v" "\<not> z'" t]] by (simp add: fround_val_def fround_neg)
  next
    case 5
    then show ?thesis
      using le fl_le_neg [OF fround_mono [of "- w" "- v" t]] by (simp add: fround_val_def fround_neg)
  qed
qed

lemma fround_val_wf: "wf_fl t x \<Longrightarrow> fl_finite x \<Longrightarrow> fl_eq (fround_val t z (fl_val x)) x"
  by (cases x) (auto simp: fround_val_def fround_neg)

lemma fl_add_ge:
  assumes "wf_fl t x" and "fl_finite x" and "fl_le (Fin False 0) r"
  shows "fl_le x (fl_add t x r)"
proof -
  obtain a m where x: "x = Fin a m" using assms(2) by (cases x) auto
  show ?thesis
  proof (cases r)
    case (Fin b n)
    then have "0 \<le> fl_val r" using assms(3) by (simp add: fl_le_Fin)
    then have "fl_le (fround_val t False (fl_val x)) (fround_val t (a \<and> b) (fl_val x + fl_val r))"
      by (intro fround_val_mono) simp
    moreover have "fl_le x (fround_val t False (fl_val x))"
      using fround_val_wf [OF assms(1,2)] fl_eq_sym by (auto simp: fl_le_def)
    moreover have "fl_add t x r = fround_val t (a \<and> b) (fl_val x + fl_val r)"
      by (simp only: x Fin fl_add.simps)
    ultimately show ?thesis using fl_le_trans by metis
  qed (use assms x in \<open>auto simp: fl_le_def\<close>)
qed

lemma fl_sub_le:
  assumes "wf_fl t x" and "fl_finite x" and "fl_le (Fin False 0) r"
  shows "fl_le (fl_sub t x r) x"
proof -
  obtain a m where x: "x = Fin a m" using assms(2) by (cases x) auto
  show ?thesis
  proof (cases r)
    case (Fin b n)
    then have "0 \<le> fl_val r" using assms(3) by (simp add: fl_le_Fin)
    then have "fl_le (fround_val t (a \<and> \<not> b) (fl_val x - fl_val r)) (fround_val t False (fl_val x))"
      by (intro fround_val_mono) simp
    moreover have "fl_le (fround_val t False (fl_val x)) x"
      using fround_val_wf [OF assms(1,2)] by (auto simp: fl_le_def)
    moreover have "fl_sub t x r = fround_val t (a \<and> \<not> b) (fl_val x - fl_val r)"
      by (simp add: x Fin fl_sub_def del: fl_val.simps) (simp)
    ultimately show ?thesis using fl_le_trans by metis
  qed (use assms x in \<open>auto simp: fl_le_def fl_sub_def split: if_splits\<close>)
qed

text \<open>\<open>std::remainder\<close> of integers.\<close>

lemma half_le: "2 * \<bar>x\<bar> \<le> n \<Longrightarrow> \<bar>n\<bar> \<le> b \<Longrightarrow> \<bar>x\<bar> \<le> (b :: int)"
  by linarith

lemma is_int_fl_remainder:
  assumes "is_int_fl x m" and "is_int_fl y n" and "0 < n" and "exact_int t n"
  obtains k where "is_int_fl (fl_remainder t x y) (m - k * n)" and "2 * \<bar>m - k * n\<bar> \<le> n"
proof
  obtain a p where x: "x = Fin a p" "fl_val x = of_int m" using assms by (auto simp: is_int_fl_def)
  obtain b q where y: "y = Fin b q" "0 \<le> q" "fl_val y = of_int n" using assms by (auto simp: is_int_fl_def)
  have q: "q = of_int n" using y assms(3) by (auto split: if_splits)
  let ?k = "round_even (of_int m / of_int n)"
  have "\<bar>of_int ?k - of_int m / of_int n\<bar> * of_int n \<le> 1 / 2 * (of_int n :: rat)"
    using round_even_near [of "of_int m / of_int n"] assms(3) by (intro mult_right_mono) auto
  moreover have "\<bar>of_int ?k - of_int m / of_int n\<bar> * of_int n = \<bar>of_int ?k * of_int n - (of_int m :: rat)\<bar>"
    using assms(3) abs_mult [of "of_int ?k - of_int m / of_int n" "of_int n :: rat"]
    by (simp add: left_diff_distrib)
  ultimately have "\<bar>of_int ?k * of_int n - of_int m\<bar> \<le> 1 / 2 * (of_int n :: rat)" by (simp only:)
  then have "2 * \<bar>of_int ?k * of_int n - of_int m\<bar> \<le> (of_int n :: rat)" by simp
  then have "rat_of_int (2 * \<bar>m - ?k * n\<bar>) \<le> of_int n" by (simp add: abs_minus_commute)
  then show le: "2 * \<bar>m - ?k * n\<bar> \<le> n" by (simp only: of_int_le_iff)
  have "exact_int t (m - ?k * n)" using le assms(4) half_le unfolding exact_int_def by auto
  then have "is_int_fl (fround_val t a (of_int (m - ?k * n))) (m - ?k * n)" by (rule is_int_fround_val)
  moreover have "fl_remainder t x y = fround_val t a (of_int (m - ?k * n))"
    using assms(3) x y by (simp add: q Let_def del: fl_val.simps)
  ultimately show "is_int_fl (fl_remainder t x y) (m - ?k * n)" by simp
qed

lemma wf_fl_remainder: "wf_fl t x \<Longrightarrow> wf_fl t (fl_remainder t x y)"
  by (cases x; cases y) (auto simp: wf_fround_val Let_def simp del: wf_fl.simps(3))

lemma wf_fl_mul: "wf_fl t x \<Longrightarrow> wf_fl t y \<Longrightarrow> wf_fl t (fl_mul t x y)"
  by (cases x; cases y) (auto simp: wf_fround simp del: wf_fl.simps(3) intro!: wf_fround, auto)

end
