(* ===== verification/Math_Bounds.thy ===== *)
theory Math_Bounds
  imports Ieee_Float
begin

text \<open>
  The numeric utilities of \<open>ossia/detail/math.hpp\<close>: \<open>clamp_min\<close>, \<open>clamp_max\<close>, \<open>clamp\<close>,
  \<open>wrap\<close>, \<open>fold\<close>, \<open>ipow\<close>, \<open>constexpr_log2\<close> and \<open>div\<close>. The clamping templates are
  generic in the order they use; their laws are proved once for every strict weak order, in a
  locale that is interpreted on the four types the domains instantiate them with. \<open>wrap\<close> and
  \<open>fold\<close> mix the template type with \<open>double\<close>, so each instance is written out: the operands of
  \<open>int\<close> type may overflow, and the result is converted back from \<open>double\<close>.
\<close>

section \<open>Clamping\<close>

definition clamp_min :: "('a \<Rightarrow> 'a \<Rightarrow> bool) \<Rightarrow> 'a \<Rightarrow> 'a \<Rightarrow> 'a" where
  "clamp_min lt d mn = (if lt d mn then mn else d)"

definition clamp_max :: "('a \<Rightarrow> 'a \<Rightarrow> bool) \<Rightarrow> 'a \<Rightarrow> 'a \<Rightarrow> 'a" where
  "clamp_max lt d mx = (if lt mx d then mx else d)"

definition clamp :: "('a \<Rightarrow> 'a \<Rightarrow> bool) \<Rightarrow> 'a \<Rightarrow> 'a \<Rightarrow> 'a \<Rightarrow> 'a" where
  "clamp lt d mn mx = clamp_min lt (clamp_max lt d mx) mn"

text \<open>The operator \<open><\<close> of the instances.\<close>

definition sint_lt :: "'a::len word \<Rightarrow> 'a word \<Rightarrow> bool" where
  "sint_lt a b \<longleftrightarrow> sint a < sint b"

definition bool_lt :: "bool \<Rightarrow> bool \<Rightarrow> bool" where
  "bool_lt a b \<longleftrightarrow> \<not> a \<and> b"

text \<open>A strict weak order on the values that satisfy \<open>ok\<close>.\<close>

locale strict_weak_order =
  fixes lt :: "'a \<Rightarrow> 'a \<Rightarrow> bool" and ok :: "'a \<Rightarrow> bool"
  assumes irrefl: "ok x \<Longrightarrow> \<not> lt x x"
    and trans: "ok x \<Longrightarrow> ok y \<Longrightarrow> ok z \<Longrightarrow> lt x y \<Longrightarrow> lt y z \<Longrightarrow> lt x z"
    and incomp: "ok x \<Longrightarrow> ok y \<Longrightarrow> ok z \<Longrightarrow> \<not> lt x y \<Longrightarrow> \<not> lt y z \<Longrightarrow> \<not> lt x z"
begin

lemma asym: "ok x \<Longrightarrow> ok y \<Longrightarrow> lt x y \<Longrightarrow> \<not> lt y x"
  using irrefl trans by blast

lemma clamp_ok: "ok d \<Longrightarrow> ok mn \<Longrightarrow> ok mx \<Longrightarrow> ok (clamp lt d mn mx)"
  by (simp add: clamp_def clamp_min_def clamp_max_def)

lemma clamp_min_ge: "ok d \<Longrightarrow> ok mn \<Longrightarrow> \<not> lt (clamp_min lt d mn) mn"
  by (simp add: clamp_min_def irrefl)

lemma clamp_max_le: "ok d \<Longrightarrow> ok mx \<Longrightarrow> \<not> lt mx (clamp_max lt d mx)"
  by (simp add: clamp_max_def irrefl)

lemma clamp_range:
  "ok d \<Longrightarrow> ok mn \<Longrightarrow> ok mx \<Longrightarrow> \<not> lt mx mn \<Longrightarrow>
     \<not> lt (clamp lt d mn mx) mn \<and> \<not> lt mx (clamp lt d mn mx)"
  by (auto simp: clamp_def clamp_min_def clamp_max_def irrefl)

lemma clamp_id: "\<not> lt d mn \<Longrightarrow> \<not> lt mx d \<Longrightarrow> clamp lt d mn mx = d"
  by (simp add: clamp_def clamp_min_def clamp_max_def)

lemma clamp_idem:
  "ok d \<Longrightarrow> ok mn \<Longrightarrow> ok mx \<Longrightarrow> \<not> lt mx mn \<Longrightarrow>
     clamp lt (clamp lt d mn mx) mn mx = clamp lt d mn mx"
  using clamp_range by (intro clamp_id) auto

lemma clamp_max_mono:
  "ok d \<Longrightarrow> ok e \<Longrightarrow> ok mx \<Longrightarrow> \<not> lt e d \<Longrightarrow> \<not> lt (clamp_max lt e mx) (clamp_max lt d mx)"
  using incomp [of mx e d] by (auto simp: clamp_max_def irrefl)

lemma clamp_min_mono:
  "ok d \<Longrightarrow> ok e \<Longrightarrow> ok mn \<Longrightarrow> \<not> lt e d \<Longrightarrow> \<not> lt (clamp_min lt e mn) (clamp_min lt d mn)"
  using incomp [of e d mn] by (auto simp: clamp_min_def irrefl)

lemma clamp_mono:
  "ok d \<Longrightarrow> ok e \<Longrightarrow> ok mn \<Longrightarrow> ok mx \<Longrightarrow> \<not> lt e d \<Longrightarrow>
     \<not> lt (clamp lt e mn mx) (clamp lt d mn mx)"
  using clamp_max_mono [of d e mx] clamp_min_mono [of "clamp_max lt d mx" "clamp_max lt e mx" mn]
  by (simp add: clamp_def clamp_max_def)

end

interpretation i32: strict_weak_order "sint_lt :: i32 \<Rightarrow> i32 \<Rightarrow> bool" "\<lambda>_. True"
  by unfold_locales (auto simp: sint_lt_def)

interpretation i8: strict_weak_order "sint_lt :: i8 \<Rightarrow> i8 \<Rightarrow> bool" "\<lambda>_. True"
  by unfold_locales (auto simp: sint_lt_def)

interpretation bool_order: strict_weak_order bool_lt "\<lambda>_. True"
  by unfold_locales (auto simp: bool_lt_def)

lemma fl_lt_incomp:
  assumes "x \<noteq> NaN" "y \<noteq> NaN" "z \<noteq> NaN" "\<not> fl_lt x y" "\<not> fl_lt y z"
  shows "\<not> fl_lt x z"
proof -
  have "fl_le y x" "fl_le z y" using assms fl_not_lt_iff by blast+
  then have "fl_le z x" using fl_le_trans by blast
  then show ?thesis using assms fl_not_lt_iff by blast
qed

interpretation fl: strict_weak_order fl_lt "\<lambda>x. x \<noteq> NaN"
  by unfold_locales (auto intro: fl_lt_trans dest: fl_lt_incomp)

section \<open>Wrapping and folding\<close>

text \<open>
  The \<open>double\<close> that the two out-of-range branches of \<open>wrap\<close> and the out-of-range branch of
  \<open>fold\<close> compute when the template type is an integer type. The differences are computed in
  \<open>int\<close>; their mathematical values are used here and checked by the callers.
\<close>

definition wrap_above :: "int \<Rightarrow> int \<Rightarrow> int \<Rightarrow> fl" where
  "wrap_above v l h =
     fl_add F64 (fl_of_int F64 l)
       (fl_fmod F64 (fl_of_int F64 (v - l)) (fl_abs (fl_of_int F64 (l - h))))"

definition wrap_below :: "int \<Rightarrow> int \<Rightarrow> int \<Rightarrow> fl" where
  "wrap_below v l h =
     fl_sub F64 (fl_of_int F64 h)
       (fl_fmod F64 (fl_of_int F64 (l - v)) (fl_abs (fl_of_int F64 (l - h))))"

definition fold_outside :: "int \<Rightarrow> int \<Rightarrow> int \<Rightarrow> fl" where
  "fold_outside v l h =
     fl_add F64 (fl_of_int F64 l)
       (fl_abs (fl_remainder F64 (fl_of_int F64 (v - l))
          (fl_mul F64 (Fin False 2) (fl_abs (fl_of_int F64 (l - h))))))"

definition wrap_i32 :: "i32 \<Rightarrow> i32 \<Rightarrow> i32 \<Rightarrow> i32 res" where
  "wrap_i32 val low high =
     (let v = sint val; l = sint low; h = sint high
      in if l \<le> v \<and> v < h then Ok val
         else if l \<le> v then
           (if in_i32 (v - l) \<and> in_i32 (l - h) then fl_to_i32 (wrap_above v l h)
            else Err Undefined_behaviour)
         else
           (if in_i32 (l - v) \<and> in_i32 (l - h) then fl_to_i32 (wrap_below v l h)
            else Err Undefined_behaviour))"

definition fold_i32 :: "i32 \<Rightarrow> i32 \<Rightarrow> i32 \<Rightarrow> i32 res" where
  "fold_i32 val low high =
     (let v = sint val; l = sint low; h = sint high
      in if l \<le> v \<and> v \<le> h then Ok val
         else if in_i32 (v - l) \<and> in_i32 (l - h) then fl_to_i32 (fold_outside v l h)
         else Err Undefined_behaviour)"

text \<open>\<open>char\<close> and \<open>bool\<close> operands are promoted to \<open>int\<close>, where the differences cannot overflow.\<close>

definition wrap_i8 :: "i8 \<Rightarrow> i8 \<Rightarrow> i8 \<Rightarrow> i8 res" where
  "wrap_i8 val low high =
     (let v = sint val; l = sint low; h = sint high
      in if l \<le> v \<and> v < h then Ok val
         else if l \<le> v then fl_to_i8 (wrap_above v l h)
         else fl_to_i8 (wrap_below v l h))"

definition fold_i8 :: "i8 \<Rightarrow> i8 \<Rightarrow> i8 \<Rightarrow> i8 res" where
  "fold_i8 val low high =
     (let v = sint val; l = sint low; h = sint high
      in if l \<le> v \<and> v \<le> h then Ok val else fl_to_i8 (fold_outside v l h))"

definition bool_int :: "bool \<Rightarrow> int" where
  "bool_int b = (if b then 1 else 0)"

definition wrap_bool :: "bool \<Rightarrow> bool \<Rightarrow> bool \<Rightarrow> bool" where
  "wrap_bool val low high =
     (let v = bool_int val; l = bool_int low; h = bool_int high
      in if l \<le> v \<and> v < h then val
         else if l \<le> v then fl_to_bool (wrap_above v l h)
         else fl_to_bool (wrap_below v l h))"

definition fold_bool :: "bool \<Rightarrow> bool \<Rightarrow> bool \<Rightarrow> bool" where
  "fold_bool val low high =
     (let v = bool_int val; l = bool_int low; h = bool_int high
      in if l \<le> v \<and> v \<le> h then val else fl_to_bool (fold_outside v l h))"

text \<open>
  With \<open>float\<close> operands \<open>wrap\<close> stays in \<open>float\<close> (\<open>std::fmod(float, float)\<close>), while the
  literal \<open>2.\<close> of \<open>fold\<close> promotes its computation to \<open>double\<close> before the result is narrowed.
\<close>

definition wrap_f32 :: "fl \<Rightarrow> fl \<Rightarrow> fl \<Rightarrow> fl" where
  "wrap_f32 val low high =
     (if fl_le low val \<and> fl_lt val high then val
      else if fl_le low val then
        fl_add F32 low (fl_fmod F32 (fl_sub F32 val low) (fl_abs (fl_sub F32 low high)))
      else
        fl_sub F32 high (fl_fmod F32 (fl_sub F32 low val) (fl_abs (fl_sub F32 low high))))"

definition fold_f32 :: "fl \<Rightarrow> fl \<Rightarrow> fl \<Rightarrow> fl" where
  "fold_f32 val low high =
     (if fl_le low val \<and> fl_le val high then val
      else fl_narrow
        (fl_add F64 low
          (fl_abs (fl_remainder F64 (fl_sub F32 val low)
             (fl_mul F64 (Fin False 2) (fl_abs (fl_sub F32 low high)))))))"

section \<open>Integer powers, logarithm, quotient and remainder\<close>

text \<open>The loop of \<open>ipow\<close> multiplies \<open>N - 1\<close> times, and not at all when \<open>N \<le> 1\<close>.\<close>

fun ipow_loop :: "('a \<Rightarrow> 'a \<Rightarrow> 'a) \<Rightarrow> 'a \<Rightarrow> nat \<Rightarrow> 'a \<Rightarrow> 'a" where
  "ipow_loop mul x 0 r = r"
| "ipow_loop mul x (Suc k) r = ipow_loop mul x k (mul r x)"

definition ipow :: "('a \<Rightarrow> 'a \<Rightarrow> 'a) \<Rightarrow> 'a \<Rightarrow> int \<Rightarrow> 'a" where
  "ipow mul x N = ipow_loop mul x (nat (N - 1)) x"

fun constexpr_log2 :: "nat \<Rightarrow> nat" where
  "constexpr_log2 n = (if n < 2 then 0 else 1 + constexpr_log2 (n div 2))"

declare constexpr_log2.simps [simp del]

text \<open>\<open>num / denom\<close> and \<open>num % denom\<close> truncate towards zero.\<close>

definition div_i32 :: "i32 \<Rightarrow> i32 \<Rightarrow> (i32 \<times> i32) res" where
  "div_i32 num denom =
     (let n = sint num; d = sint denom; q = sgn n * sgn d * (\<bar>n\<bar> div \<bar>d\<bar>)
      in if d = 0 \<or> \<not> in_i32 q then Err Undefined_behaviour
         else Ok (word_of_int q, word_of_int (n - q * d)))"

section \<open>Functional behaviour on integers\<close>

lemma exact_int_F64: "\<bar>n\<bar> \<le> 9007199254740992 \<Longrightarrow> exact_int F64 n"
  by (simp add: exact_int_def)

lemma in_i32_abs: "in_i32 n \<Longrightarrow> \<bar>n\<bar> \<le> 2147483648"
  unfolding in_i32_def int32_min_def int32_max_def by simp linarith

lemma in_i32_exact: "in_i32 n \<Longrightarrow> exact_int F64 n"
  using in_i32_abs [of n] by (intro exact_int_F64) linarith

lemma wrap_fmod_int:
  assumes "in_i32 d" "in_i32 (l - h)" "0 \<le> d" "l < h"
  shows "is_int_fl (fl_fmod F64 (fl_of_int F64 d) (fl_abs (fl_of_int F64 (l - h)))) (d mod (h - l))"
proof -
  have "is_int_fl (fl_abs (fl_of_int F64 (l - h))) (h - l)"
    using is_int_fl_abs [OF is_int_fl_of_int [OF in_i32_exact [OF assms(2)]]] assms(4) by simp
  moreover have "exact_int F64 (h - l)"
    using in_i32_abs [OF assms(2)] by (intro exact_int_F64) linarith
  ultimately show ?thesis
    using assms by (intro is_int_fl_fmod is_int_fl_of_int) (auto intro: in_i32_exact)
qed

lemma wrap_above_int:
  assumes "in_i32 l" "in_i32 (v - l)" "in_i32 (l - h)" "l \<le> v" "l < h"
  shows "is_int_fl (wrap_above v l h) (l + (v - l) mod (h - l))"
proof -
  have "0 \<le> (v - l) mod (h - l)" "(v - l) mod (h - l) < h - l" using assms(5) by simp_all
  then have "exact_int F64 (l + (v - l) mod (h - l))"
    using in_i32_abs [OF assms(1)] in_i32_abs [OF assms(3)] by (intro exact_int_F64) linarith
  then show ?thesis
    using assms unfolding wrap_above_def
    by (intro is_int_fl_add wrap_fmod_int is_int_fl_of_int) (auto intro: in_i32_exact)
qed

lemma wrap_below_int:
  assumes "in_i32 h" "in_i32 (l - v)" "in_i32 (l - h)" "v \<le> l" "l < h"
  shows "is_int_fl (wrap_below v l h) (h - (l - v) mod (h - l))"
proof -
  have "0 \<le> (l - v) mod (h - l)" "(l - v) mod (h - l) < h - l" using assms(5) by simp_all
  then have "exact_int F64 (h - (l - v) mod (h - l))"
    using in_i32_abs [OF assms(1)] in_i32_abs [OF assms(3)] by (intro exact_int_F64) linarith
  then show ?thesis
    using assms unfolding wrap_below_def
    by (intro is_int_fl_sub wrap_fmod_int is_int_fl_of_int) (auto intro: in_i32_exact)
qed

lemma fl_to_i32_int: "is_int_fl x n \<Longrightarrow> in_i32 n \<Longrightarrow> fl_to_i32 x = Ok (word_of_int n)"
  by (simp add: fl_to_i32_def is_int_fl_trunc)

lemma fl_to_i8_int: "is_int_fl x n \<Longrightarrow> in_i8 n \<Longrightarrow> fl_to_i8 x = Ok (word_of_int n)"
  by (simp add: fl_to_i8_def is_int_fl_trunc)

lemma in_i32_between: "in_i32 l \<Longrightarrow> in_i32 h \<Longrightarrow> l \<le> n \<Longrightarrow> n \<le> h \<Longrightarrow> in_i32 n"
  by (simp add: in_i32_def)

lemma in_i8_between: "in_i8 l \<Longrightarrow> in_i8 h \<Longrightarrow> l \<le> n \<Longrightarrow> n \<le> h \<Longrightarrow> in_i8 n"
  by (simp add: in_i8_def)

text \<open>What \<open>wrap\<close> means on the integers.\<close>

definition wrap_int :: "int \<Rightarrow> int \<Rightarrow> int \<Rightarrow> int" where
  "wrap_int v l h = (if l \<le> v then l + (v - l) mod (h - l) else h - (l - v) mod (h - l))"

lemma wrap_int_range: "l < h \<Longrightarrow> l \<le> wrap_int v l h \<and> wrap_int v l h \<le> h"
proof -
  assume "l < h"
  then have "0 \<le> (v - l) mod (h - l)" "(v - l) mod (h - l) < h - l"
    "0 \<le> (l - v) mod (h - l)" "(l - v) mod (h - l) < h - l" by simp_all
  then show ?thesis unfolding wrap_int_def by (cases "l \<le> v"; simp only: if_True if_False) linarith+
qed

lemma wrap_int_inside: "l \<le> v \<Longrightarrow> v < h \<Longrightarrow> wrap_int v l h = v"
  by (simp add: wrap_int_def)

lemma wrap_int_cong: "(h - l) dvd (wrap_int v l h - v)"
proof (cases "l \<le> v")
  case True
  have "wrap_int v l h - v = - ((v - l) - (v - l) mod (h - l))" using True by (simp add: wrap_int_def)
  then show ?thesis by (metis dvd_minus_iff dvd_minus_mod)
next
  case False
  have "wrap_int v l h - v = (h - l) + ((l - v) - (l - v) mod (h - l))" using False by (simp add: wrap_int_def)
  then show ?thesis by (metis dvd_add dvd_refl dvd_minus_mod)
qed

lemma wrap_i32_eq:
  assumes "sint low < sint high" and "in_i32 (sint val - sint low)"
    and "in_i32 (sint low - sint val)" and "in_i32 (sint low - sint high)"
  shows "wrap_i32 val low high = Ok (word_of_int (wrap_int (sint val) (sint low) (sint high)))"
proof -
  let ?v = "sint val" and ?l = "sint low" and ?h = "sint high"
  have r: "in_i32 (wrap_int ?v ?l ?h)"
    using wrap_int_range [OF assms(1), of ?v] in_i32_between [OF sint_i32_range [of low] sint_i32_range [of high]]
    by blast
  have l: "in_i32 ?l" and h: "in_i32 ?h" by (rule sint_i32_range)+
  consider "?l \<le> ?v" "?v < ?h" | "?l \<le> ?v" "\<not> ?v < ?h" | "\<not> ?l \<le> ?v" by linarith
  then show ?thesis
  proof cases
    case 1
    then show ?thesis by (simp add: wrap_i32_def Let_def wrap_int_inside)
  next
    case 2
    have "is_int_fl (wrap_above ?v ?l ?h) (wrap_int ?v ?l ?h)"
      using wrap_above_int [OF l assms(2,4) _ assms(1)] 2 by (simp add: wrap_int_def)
    then show ?thesis using 2 r assms by (simp add: wrap_i32_def Let_def fl_to_i32_int)
  next
    case 3
    have "is_int_fl (wrap_below ?v ?l ?h) (wrap_int ?v ?l ?h)"
      using wrap_below_int [OF h assms(3,4) _ assms(1)] 3 by (simp add: wrap_int_def)
    then show ?thesis using 3 r assms by (simp add: wrap_i32_def Let_def fl_to_i32_int)
  qed
qed

lemma wrap_i8_eq:
  assumes "sint low < sint high"
  shows "wrap_i8 val low high = Ok (word_of_int (wrap_int (sint val) (sint low) (sint high)))"
proof -
  let ?v = "sint val" and ?l = "sint low" and ?h = "sint high"
  have i8: "in_i8 ?v" "in_i8 ?l" "in_i8 ?h" by (rule sint_i8_range)+
  have r: "in_i8 (wrap_int ?v ?l ?h)"
    using wrap_int_range [OF assms, of ?v] in_i8_between [OF i8(2,3)] by blast
  have i32: "in_i32 ?l" "in_i32 ?h" "in_i32 (?v - ?l)" "in_i32 (?l - ?v)" "in_i32 (?l - ?h)"
    using i8 by (auto simp: in_i8_def in_i32_def int32_min_def int32_max_def)
  consider "?l \<le> ?v" "?v < ?h" | "?l \<le> ?v" "\<not> ?v < ?h" | "\<not> ?l \<le> ?v" by linarith
  then show ?thesis
  proof cases
    case 1
    then show ?thesis by (simp add: wrap_i8_def Let_def wrap_int_inside)
  next
    case 2
    have "is_int_fl (wrap_above ?v ?l ?h) (wrap_int ?v ?l ?h)"
      using wrap_above_int [OF i32(1,3,5) _ assms(1)] 2 by (simp add: wrap_int_def)
    then show ?thesis using 2 r by (simp add: wrap_i8_def Let_def fl_to_i8_int)
  next
    case 3
    have "is_int_fl (wrap_below ?v ?l ?h) (wrap_int ?v ?l ?h)"
      using wrap_below_int [OF i32(2,4,5) _ assms(1)] 3 by (simp add: wrap_int_def)
    then show ?thesis using 3 r by (simp add: wrap_i8_def Let_def fl_to_i8_int)
  qed
qed

text \<open>What \<open>fold\<close> means on the integers: a reflection at both bounds.\<close>

lemma fold_outside_int:
  assumes "in_i32 l" "in_i32 (v - l)" "in_i32 (l - h)" "l < h"
  obtains k where "is_int_fl (fold_outside v l h) (l + \<bar>v - l - k * (2 * (h - l))\<bar>)"
    and "\<bar>v - l - k * (2 * (h - l))\<bar> \<le> h - l"
proof -
  have ab: "is_int_fl (fl_abs (fl_of_int F64 (l - h))) (h - l)"
    using is_int_fl_abs [OF is_int_fl_of_int [OF in_i32_exact [OF assms(3)]]] assms(4) by simp
  have ex: "exact_int F64 (2 * (h - l))"
    using in_i32_abs [OF assms(3)] assms(4) by (intro exact_int_F64) (simp add: abs_if)
  have two: "is_int_fl (fl_mul F64 (Fin False 2) (fl_abs (fl_of_int F64 (l - h)))) (2 * (h - l))"
  proof -
    obtain s m where m: "fl_abs (fl_of_int F64 (l - h)) = Fin s m" "0 \<le> m" "fl_val (Fin s m) = of_int (h - l)"
      using ab by (auto simp: is_int_fl_def)
    then have "m = of_int (h - l)" using assms(4) by (auto split: if_splits)
    moreover have "\<not> s" using m assms(4) by (auto split: if_splits)
    ultimately show ?thesis
      using fround_int [of "2 * (h - l)" F64 False] assms(4) ex m by (auto simp: is_int_fl_def)
  qed
  obtain k where k: "is_int_fl (fl_remainder F64 (fl_of_int F64 (v - l))
        (fl_mul F64 (Fin False 2) (fl_abs (fl_of_int F64 (l - h))))) (v - l - k * (2 * (h - l)))"
      "2 * \<bar>v - l - k * (2 * (h - l))\<bar> \<le> 2 * (h - l)"
    using is_int_fl_remainder [OF is_int_fl_of_int [OF in_i32_exact [OF assms(2)]] two _ ex] assms(4) by auto
  let ?r = "\<bar>v - l - k * (2 * (h - l))\<bar>"
  have r: "?r \<le> h - l"
    using k(2) by (simp only: mult_le_cancel_left_pos zero_less_numeral)
  then have "exact_int F64 (l + ?r)"
    using in_i32_abs [OF assms(1)] in_i32_abs [OF assms(3)] by (intro exact_int_F64) linarith
  then have "is_int_fl (fold_outside v l h) (l + ?r)"
    unfolding fold_outside_def
    by (intro is_int_fl_add is_int_fl_of_int is_int_fl_abs k(1)) (simp_all add: in_i32_exact assms(1))
  then show ?thesis using r by (intro that)
qed

lemma fold_i32_eq:
  assumes "sint low < sint high" and "in_i32 (sint val - sint low)" and "in_i32 (sint low - sint high)"
  obtains r k where "fold_i32 val low high = Ok (word_of_int r)"
    and "sint low \<le> r" and "r \<le> sint high"
    and "\<bar>r - sint low\<bar> = \<bar>sint val - sint low - k * (2 * (sint high - sint low))\<bar>"
proof (cases "sint low \<le> sint val \<and> sint val \<le> sint high")
  case True
  then show ?thesis using that [of "sint val" 0] by (simp add: fold_i32_def Let_def)
next
  case False
  obtain k where k: "is_int_fl (fold_outside (sint val) (sint low) (sint high))
      (sint low + \<bar>sint val - sint low - k * (2 * (sint high - sint low))\<bar>)"
    "\<bar>sint val - sint low - k * (2 * (sint high - sint low))\<bar> \<le> sint high - sint low"
    using fold_outside_int [OF sint_i32_range assms(2,3,1)] by blast
  let ?r = "sint low + \<bar>sint val - sint low - k * (2 * (sint high - sint low))\<bar>"
  have "in_i32 ?r" using k(2) in_i32_between [OF sint_i32_range [of low] sint_i32_range [of high]] by simp
  then have "fold_i32 val low high = Ok (word_of_int ?r)"
    using False assms fl_to_i32_int [OF k(1)]
    by (simp only: fold_i32_def Let_def if_False simp_thms if_True)
  then show ?thesis by (rule that [where r = ?r and k = k]) (use k(2) in simp_all)
qed

section \<open>Functional behaviour on floating-point values\<close>

lemma wf_fl_widen: "wf_fl F32 x \<Longrightarrow> wf_fl F64 x"
proof (cases x)
  case (Fin s m)
  assume "wf_fl F32 x"
  then have m: "0 \<le> m" "fround F32 False m = Fin False m" using Fin by simp_all
  show ?thesis
  proof (cases "m = 0")
    case True
    then show ?thesis using Fin by simp
  next
    case False
    then have pos: "0 < m" using m(1) by simp
    have eq: "round_mag F32 m = m" and lim: "ilog2 m \<le> 127"
      using m(2) False by (auto simp: fround_def Let_def split: if_splits)
    obtain n where n: "round_mag F32 m = of_int n * pow2 (unit_exp F32 m)" "0 \<le> n"
      "of_int n \<le> pow2 (precision F32)"
      using pos by (rule round_mag_representable)
    let ?k = "unit_exp F32 m"
    have "0 < n" using n(1,2) eq False by (cases "n = 0") auto
    moreover have "of_int n \<le> pow2 (precision F64)"
      using n(3) pow2_le_iff [of "precision F32" "precision F64"] order_trans by fastforce
    moreover have "emin F64 - (precision F64 - 1) \<le> ?k"
      using unit_exp_ge [of F32 m] by simp
    moreover have "of_int n * pow2 ?k < pow2 (emax F64 + 1)"
    proof -
      have "m < pow2 (ilog2 m + 1)" using ilog2_bounds [OF pos] by simp
      also have "\<dots> \<le> pow2 (emax F64 + 1)" using lim by simp
      finally show ?thesis using n(1) eq by simp
    qed
    ultimately show ?thesis using fround_exact [of n F64 ?k False] n(1) eq m(1) Fin by simp
  qed
qed simp_all

lemma fl_narrow_fround_val: "0 \<le> m \<Longrightarrow> fl_narrow (Fin s m) = fround_val F32 s (fl_val (Fin s m))"
  by (cases "m = 0") (auto simp: fround_val_def)

lemma fround_not_NaN: "fround t s a \<noteq> NaN"
  by (simp add: fround_def Let_def)

lemma fl_le_Infty: "x \<noteq> NaN \<Longrightarrow> fl_le (Infty True) x" "x \<noteq> NaN \<Longrightarrow> fl_le x (Infty False)"
  by (cases x; auto simp: fl_le_def)+

lemma fl_lt_not_le: "fl_lt x y \<Longrightarrow> \<not> fl_le y x"
  by (cases x; cases y) (auto simp: fl_le_def)

lemma fl_narrow_mono:
  assumes "wf_fl F64 x" and "wf_fl F64 y" and "fl_le x y"
  shows "fl_le (fl_narrow x) (fl_narrow y)"
proof (cases "fl_finite x \<and> fl_finite y")
  case True
  then obtain a m b n where eq: "x = Fin a m" "y = Fin b n" by (cases x; cases y) auto
  have "fl_le (fround_val F32 a (fl_val x)) (fround_val F32 b (fl_val y))"
    using assms(3) by (intro fround_val_mono) (simp add: eq fl_le_Fin)
  moreover have "0 \<le> m" "0 \<le> n" using assms(1,2) by (simp_all add: eq)
  ultimately show ?thesis by (simp only: eq fl_narrow_fround_val)
next
  case False
  then show ?thesis using assms(3) fl_le_Infty fround_not_NaN
    by (cases x; cases y) (auto simp: fl_le_def [of "Infty s" for s] fl_le_def [of "Fin s m" "Infty t" for s m t])
qed

lemma fl_narrow_wf: "wf_fl F32 x \<Longrightarrow> fl_narrow x = x"
proof (cases x)
  case (Fin s m)
  assume "wf_fl F32 x"
  then show ?thesis using Fin by (cases s) (auto simp: fround_neg)
qed simp_all

text \<open>A difference taken downwards, and its \<open>fmod\<close>, are non-negative or NaN.\<close>

definition nonneg_or_nan :: "fl \<Rightarrow> bool" where
  "nonneg_or_nan x \<longleftrightarrow> x = NaN \<or> fl_le (Fin False 0) x"

lemma fl_sub_nonneg: "fl_le y x \<Longrightarrow> nonneg_or_nan (fl_sub t x y)"
proof (cases "fl_finite x \<and> fl_finite y")
  case True
  assume le: "fl_le y x"
  from True obtain a m b n where eq: "x = Fin a m" "y = Fin b n" by (cases x; cases y) auto
  have "fl_sub t x y = fround_val t (a \<and> \<not> b) (fl_val x - fl_val y)"
    by (auto simp: eq fl_sub_def)
  moreover have "fl_le (fround_val t False 0) (fround_val t (a \<and> \<not> b) (fl_val x - fl_val y))"
    using le by (intro fround_val_mono) (simp add: eq fl_le_Fin)
  ultimately show ?thesis by (simp add: nonneg_or_nan_def fround_val_def)
next
  case False
  assume "fl_le y x"
  with False show ?thesis
    by (cases x; cases y) (auto simp: nonneg_or_nan_def fl_sub_def fl_le_def split: if_splits)
qed

lemma fl_fmod_nonneg:
  assumes "nonneg_or_nan x" and "wf_fl t x" and "wf_fl t y"
  shows "nonneg_or_nan (fl_fmod t x y)"
proof (cases "fl_finite x \<and> fl_finite y")
  case True
  then obtain a m b n where eq: "x = Fin a m" "y = Fin b n" by (cases x; cases y) auto
  have "a \<Longrightarrow> m = 0" using assms by (auto simp: eq nonneg_or_nan_def fl_le_Fin)
  moreover have "n \<noteq> 0 \<Longrightarrow> 0 \<le> n" using assms by (simp add: eq)
  then have "\<not> a \<Longrightarrow> n \<noteq> 0 \<Longrightarrow> fl_le (Fin False 0) (fround t False (m - of_int \<lfloor>m / n\<rfloor> * n))"
    by (intro fround_nonneg fmod_mag_bounds(1)) simp
  ultimately show ?thesis
    by (cases a) (simp_all add: eq nonneg_or_nan_def fl_le_Fin)
next
  case False
  then show ?thesis using assms by (cases x; cases y) (auto simp: nonneg_or_nan_def)
qed

text \<open>
  \<open>wrap\<close> on \<open>float\<close>: a value in \<open>[low, high)\<close> is kept, above it the result is not below
  \<open>low\<close>, below it the result is not above \<open>high\<close>; the other bound of each branch may be missed
  by the rounding of the last operation. Equal bounds give NaN outside.
\<close>

lemma wrap_f32_inside: "fl_le low val \<Longrightarrow> fl_lt val high \<Longrightarrow> wrap_f32 val low high = val"
  by (simp add: wrap_f32_def)

lemma wf_wrap_f32: "wf_fl F32 val \<Longrightarrow> wf_fl F32 (wrap_f32 val low high)"
  by (simp add: wrap_f32_def wf_fl_add wf_fl_sub)

lemma fl_fmod_sub_nonneg:
  "fl_le y x \<Longrightarrow> nonneg_or_nan (fl_fmod F32 (fl_sub F32 x y) (fl_abs (fl_sub F32 low high)))"
  by (intro fl_fmod_nonneg fl_sub_nonneg wf_fl_sub wf_fl_abs)

lemma wrap_f32_ge_low:
  assumes "wf_fl F32 low" and "fl_finite low" and "fl_le low val" and "wrap_f32 val low high \<noteq> NaN"
  shows "fl_le low (wrap_f32 val low high)"
proof (cases "fl_lt val high")
  case True
  then show ?thesis using assms by (simp add: wrap_f32_inside)
next
  case False
  let ?r = "fl_fmod F32 (fl_sub F32 val low) (fl_abs (fl_sub F32 low high))"
  have eq: "wrap_f32 val low high = fl_add F32 low ?r" using False assms(3) by (simp add: wrap_f32_def)
  then have "?r \<noteq> NaN" using assms(4) by (cases low) auto
  then have "fl_le (Fin False 0) ?r"
    using fl_fmod_sub_nonneg [OF assms(3), of low high] by (simp add: nonneg_or_nan_def)
  then show ?thesis unfolding eq by (intro fl_add_ge assms)
qed

lemma wrap_f32_le_high:
  assumes "wf_fl F32 high" and "fl_finite high" and "fl_lt val low" and "wrap_f32 val low high \<noteq> NaN"
  shows "fl_le (wrap_f32 val low high) high"
proof -
  let ?r = "fl_fmod F32 (fl_sub F32 low val) (fl_abs (fl_sub F32 low high))"
  have nle: "\<not> fl_le low val" and le: "fl_le val low"
    using assms(3) fl_lt_not_le by (auto simp: fl_le_def)
  then have eq: "wrap_f32 val low high = fl_sub F32 high ?r" by (simp add: wrap_f32_def)
  then have "?r \<noteq> NaN" using assms(4) by (cases high) (auto simp: fl_sub_def)
  then have "fl_le (Fin False 0) ?r"
    using fl_fmod_sub_nonneg [OF le, of low high] by (simp add: nonneg_or_nan_def)
  then show ?thesis unfolding eq by (intro fl_sub_le assms)
qed

lemma fl_sub_self: "fl_finite x \<Longrightarrow> fl_sub t x x = Fin False 0"
  by (cases x) (auto simp: fl_sub_def fround_val_def)

lemma wrap_f32_degenerate:
  assumes "fl_finite b" and "\<not> fl_eq val b"
  shows "wrap_f32 val b b = NaN"
proof -
  have "fl_abs (fl_sub F32 b b) = Fin False 0" using assms(1) by (simp add: fl_sub_self)
  moreover have "fl_fmod F32 x (Fin False 0) = NaN" for x by (cases x) auto
  moreover have "\<not> (fl_le b val \<and> fl_lt val b)" using fl_lt_not_le by blast
  moreover have "fl_add F32 b NaN = NaN" "fl_sub F32 b NaN = NaN" using assms(1) by (cases b; simp add: fl_sub_def)+
  ultimately show ?thesis by (simp only: wrap_f32_def if_False) simp
qed

text \<open>\<open>fold\<close> on \<open>float\<close> never falls below \<open>low\<close>.\<close>

lemma wf_fold_f32: "wf_fl F32 val \<Longrightarrow> wf_fl F32 (fold_f32 val low high)"
  by (simp add: fold_f32_def wf_fl_narrow [where t = F64] wf_fl_add)

lemma fold_f32_inside: "fl_le low val \<Longrightarrow> fl_le val high \<Longrightarrow> fold_f32 val low high = val"
  by (simp add: fold_f32_def)

lemma fl_abs_nonneg: "wf_fl t x \<Longrightarrow> x \<noteq> NaN \<Longrightarrow> fl_le (Fin False 0) (fl_abs x)"
  by (cases x) (auto simp: fl_le_def)

lemma fold_f32_ge_low:
  assumes "wf_fl F32 low" and "fl_finite low" and "fold_f32 val low high \<noteq> NaN"
    and "wf_fl F32 val" "wf_fl F32 high"
  shows "fl_le low (fold_f32 val low high)"
proof (cases "fl_le low val \<and> fl_le val high")
  case True
  then show ?thesis by (simp add: fold_f32_inside)
next
  case False
  let ?m = "fl_remainder F64 (fl_sub F32 val low) (fl_mul F64 (Fin False 2) (fl_abs (fl_sub F32 low high)))"
  let ?s = "fl_add F64 low (fl_abs ?m)"
  have eq: "fold_f32 val low high = fl_narrow ?s" using False by (simp only: fold_f32_def if_False)
  then have "?m \<noteq> NaN" using assms(2,3) by (cases low) auto
  moreover have "wf_fl F64 ?m" by (intro wf_fl_remainder wf_fl_widen wf_fl_sub)
  ultimately have "fl_le (Fin False 0) (fl_abs ?m)" by (intro fl_abs_nonneg)
  then have "fl_le low ?s" using wf_fl_widen [OF assms(1)] assms(2) by (intro fl_add_ge)
  then have "fl_le (fl_narrow low) (fl_narrow ?s)"
    by (intro fl_narrow_mono wf_fl_add wf_fl_widen assms(1))
  then show ?thesis by (simp add: eq fl_narrow_wf assms(1))
qed

end
