(* ===== verification/Value.thy ===== *)
theory Value
  imports Math_Bounds
begin

text \<open>
  The core data type of the library, \<open>ossia::value\<close>: the tagged union \<open>value_variant_type\<close>
  (\<open>network/value/value_variant_impl.hpp\<close>) and its wrapper (\<open>value.hpp\<close>), the type tags of
  \<open>parameter_properties.hpp\<close>, the traits of \<open>value_traits.hpp\<close> and the access to a nested
  element by a \<open>destination_index\<close> (\<open>value_algorithms.hpp\<close>, \<open>value.cpp\<close>). The alternatives are
  in the order of the union, so that the tag of a value is its position; \<open>VUnset\<close> is the state
  without an alternative (\<open>Npos\<close>). A \<open>std::array<float, N>\<close> is a list whose length is fixed by
  the well-formedness predicate \<open>wf_val\<close>.
\<close>

section \<open>Types and values\<close>

datatype val_type =
    T_FLOAT | T_INT | T_VEC2F | T_VEC3F | T_VEC4F | T_IMPULSE | T_BOOL | T_STRING | T_LIST | T_CHAR | T_NONE

datatype val =
    VFloat fl
  | VInt i32
  | VVec2f "fl list"
  | VVec3f "fl list"
  | VVec4f "fl list"
  | VImpulse
  | VBool bool
  | VString string
  | VList "val list"
  | VChar i8
  | VUnset

text \<open>The tag of the union: \<open>Npos\<close> is the largest \<open>int8_t\<close>.\<close>

fun which :: "val \<Rightarrow> int" where
  "which (VFloat _) = 0"
| "which (VInt _) = 1"
| "which (VVec2f _) = 2"
| "which (VVec3f _) = 3"
| "which (VVec4f _) = 4"
| "which VImpulse = 5"
| "which (VBool _) = 6"
| "which (VString _) = 7"
| "which (VList _) = 8"
| "which (VChar _) = 9"
| "which VUnset = 127"

text \<open>The enumerators of \<open>val_type\<close> and the cast \<open>static_cast<val_type>(t)\<close> of \<open>get_type\<close>.\<close>

fun type_code :: "val_type \<Rightarrow> int" where
  "type_code T_FLOAT = 0"
| "type_code T_INT = 1"
| "type_code T_VEC2F = 2"
| "type_code T_VEC3F = 3"
| "type_code T_VEC4F = 4"
| "type_code T_IMPULSE = 5"
| "type_code T_BOOL = 6"
| "type_code T_STRING = 7"
| "type_code T_LIST = 8"
| "type_code T_CHAR = 9"
| "type_code T_NONE = 127"

fun get_type :: "val \<Rightarrow> val_type" where
  "get_type (VFloat _) = T_FLOAT"
| "get_type (VInt _) = T_INT"
| "get_type (VVec2f _) = T_VEC2F"
| "get_type (VVec3f _) = T_VEC3F"
| "get_type (VVec4f _) = T_VEC4F"
| "get_type VImpulse = T_IMPULSE"
| "get_type (VBool _) = T_BOOL"
| "get_type (VString _) = T_STRING"
| "get_type (VList _) = T_LIST"
| "get_type (VChar _) = T_CHAR"
| "get_type VUnset = T_NONE"

definition valid :: "val \<Rightarrow> bool" where
  "valid v \<longleftrightarrow> which v \<noteq> 127"

lemma type_code_get_type: "type_code (get_type v) = which v"
  by (cases v) auto

lemma type_code_inject [simp]: "type_code s = type_code t \<longleftrightarrow> s = t"
  by (cases s; cases t) auto

lemma which_eq_iff: "which v = which w \<longleftrightarrow> get_type v = get_type w"
  by (metis type_code_get_type type_code_inject)

lemma valid_iff [simp]: "valid v \<longleftrightarrow> v \<noteq> VUnset"
  by (cases v) (auto simp: valid_def)

lemma get_type_NONE [simp]: "get_type v = T_NONE \<longleftrightarrow> v = VUnset"
  by (cases v) auto

text \<open>\<open>target<T>()\<close>: the alternative if the value holds it.\<close>

fun target_float :: "val \<Rightarrow> fl option" where
  "target_float (VFloat x) = Some x"
| "target_float _ = None"

fun target_int :: "val \<Rightarrow> i32 option" where
  "target_int (VInt x) = Some x"
| "target_int _ = None"

fun target_bool :: "val \<Rightarrow> bool option" where
  "target_bool (VBool x) = Some x"
| "target_bool _ = None"

fun target_char :: "val \<Rightarrow> i8 option" where
  "target_char (VChar x) = Some x"
| "target_char _ = None"

fun target_string :: "val \<Rightarrow> string option" where
  "target_string (VString x) = Some x"
| "target_string _ = None"

fun target_list :: "val \<Rightarrow> val list option" where
  "target_list (VList x) = Some x"
| "target_list _ = None"

fun target_vec2f :: "val \<Rightarrow> fl list option" where
  "target_vec2f (VVec2f x) = Some x"
| "target_vec2f _ = None"

fun target_vec3f :: "val \<Rightarrow> fl list option" where
  "target_vec3f (VVec3f x) = Some x"
| "target_vec3f _ = None"

fun target_vec4f :: "val \<Rightarrow> fl list option" where
  "target_vec4f (VVec4f x) = Some x"
| "target_vec4f _ = None"

section \<open>Dispatch\<close>

text \<open>
  \<open>ossia::apply\<close> on two and three values calls the visitor with the alternatives, and throws when
  one of them is unset; a visitor is a function that is only consulted on valid values. (On one
  value the unset state is passed on as a call without arguments, so no wrapper is needed.)
\<close>

definition apply2 :: "(val \<Rightarrow> val \<Rightarrow> 'a res) \<Rightarrow> val \<Rightarrow> val \<Rightarrow> 'a res" where
  "apply2 f a b = (if valid a \<and> valid b then f a b else Err Bad_variant_type)"

definition apply3 :: "(val \<Rightarrow> val \<Rightarrow> val \<Rightarrow> 'a res) \<Rightarrow> val \<Rightarrow> val \<Rightarrow> val \<Rightarrow> 'a res" where
  "apply3 f a b c = (if valid a \<and> valid b \<and> valid c then f a b c else Err Bad_variant_type)"

section \<open>Default values and traits\<close>

definition fl_zero :: fl where "fl_zero = Fin False 0"
definition fl_one :: fl where "fl_one = Fin False 1"

fun init_value :: "val_type \<Rightarrow> val res" where
  "init_value T_IMPULSE = Ok VImpulse"
| "init_value T_BOOL = Ok (VBool False)"
| "init_value T_INT = Ok (VInt 0)"
| "init_value T_FLOAT = Ok (VFloat fl_zero)"
| "init_value T_CHAR = Ok (VChar 0)"
| "init_value T_STRING = Ok (VString [])"
| "init_value T_LIST = Ok (VList [])"
| "init_value T_VEC2F = Ok (VVec2f (replicate 2 fl_zero))"
| "init_value T_VEC3F = Ok (VVec3f (replicate 3 fl_zero))"
| "init_value T_VEC4F = Ok (VVec4f (replicate 4 fl_zero))"
| "init_value T_NONE = Err Invalid_value_type"

fun is_numeric :: "val \<Rightarrow> bool" where
  "is_numeric (VInt _) = True"
| "is_numeric (VFloat _) = True"
| "is_numeric (VBool _) = True"
| "is_numeric (VChar _) = True"
| "is_numeric _ = False"

fun is_array :: "val \<Rightarrow> bool" where
  "is_array (VList _) = True"
| "is_array (VVec2f _) = True"
| "is_array (VVec3f _) = True"
| "is_array (VVec4f _) = True"
| "is_array _ = False"

section \<open>Well-formed values\<close>

definition wf_vec :: "nat \<Rightarrow> fl list \<Rightarrow> bool" where
  "wf_vec n xs \<longleftrightarrow> length xs = n \<and> list_all (wf_fl F32) xs"

fun wf_val :: "val \<Rightarrow> bool" where
  "wf_val (VFloat x) = wf_fl F32 x"
| "wf_val (VVec2f xs) = wf_vec 2 xs"
| "wf_val (VVec3f xs) = wf_vec 3 xs"
| "wf_val (VVec4f xs) = wf_vec 4 xs"
| "wf_val (VList vs) = list_all wf_val vs"
| "wf_val _ = True"

lemma wf_fl_zero [simp]: "wf_fl t fl_zero" and wf_fl_one [simp]: "wf_fl t fl_one"
  using wf_fl_of_bool [of t False] wf_fl_of_bool [of t True]
  by (simp_all add: fl_zero_def fl_one_def fl_of_bool_def)

lemma wf_vec_replicate [simp]: "wf_fl F32 x \<Longrightarrow> wf_vec n (replicate n x)"
  by (simp add: wf_vec_def list_all_length)

lemma init_value_ok:
  "t \<noteq> T_NONE \<Longrightarrow> \<exists>v. init_value t = Ok v \<and> get_type v = t \<and> wf_val v"
  by (cases t) auto

lemma init_value_type: "init_value t = Ok v \<Longrightarrow> get_type v = t \<and> wf_val v"
  by (cases t) auto

section \<open>Access by index\<close>

text \<open>
  \<open>destination_index_retriever\<close>. The bound check compares the signed index with the size and
  lets a negative one pass, which then indexes the vector or the array out of its bounds.
\<close>

fun index_vec :: "val \<Rightarrow> fl list \<Rightarrow> i32 list \<Rightarrow> val res" where
  "index_vec v xs [] = Ok v"
| "index_vec v xs (i # is) =
     (if int (length xs) > sint i \<and> is = [] then
        (if sint i < 0 then Err Undefined_behaviour else Ok (VFloat (xs ! nat (sint i))))
      else Ok VUnset)"

fun retrieve_index :: "val \<Rightarrow> i32 list \<Rightarrow> val res" where
  "retrieve_index (VList t) [] = Ok (VList t)"
| "retrieve_index (VList t) (i # is) =
     (if int (length t) > sint i then
        (if sint i < 0 then Err Undefined_behaviour
         else retrieve_index (t ! nat (sint i)) is)
      else Ok VUnset)"
| "retrieve_index (VVec2f xs) is = index_vec (VVec2f xs) xs is"
| "retrieve_index (VVec3f xs) is = index_vec (VVec3f xs) xs is"
| "retrieve_index (VVec4f xs) is = index_vec (VVec4f xs) xs is"
| "retrieve_index v [] = Ok v"
| "retrieve_index v (i # is) = Ok VUnset"

definition get_value_at_index :: "val \<Rightarrow> i32 list \<Rightarrow> val res" where
  "get_value_at_index v idx = (if idx = [] then Ok v else retrieve_index v idx)"

text \<open>The reference: the sub-value reached by following the index.\<close>

fun child :: "val \<Rightarrow> nat \<Rightarrow> val option" where
  "child (VList t) i = (if i < length t then Some (t ! i) else None)"
| "child (VVec2f xs) i = (if i < length xs then Some (VFloat (xs ! i)) else None)"
| "child (VVec3f xs) i = (if i < length xs then Some (VFloat (xs ! i)) else None)"
| "child (VVec4f xs) i = (if i < length xs then Some (VFloat (xs ! i)) else None)"
| "child _ i = None"

fun descend :: "val \<Rightarrow> nat list \<Rightarrow> val option" where
  "descend v [] = Some v"
| "descend v (i # is) = (case child v i of None \<Rightarrow> None | Some w \<Rightarrow> descend w is)"

lemma descend_leaf [simp]: "descend (VFloat x) is = (if is = [] then Some (VFloat x) else None)"
  by (cases "is") auto

lemma index_vec_descend:
  assumes "\<forall>i\<in>set idx. 0 \<le> sint i"
    and "\<And>i. child v i = (if i < length xs then Some (VFloat (xs ! i)) else None)"
  shows "index_vec v xs idx =
    Ok (case descend v (map (\<lambda>i. nat (sint i)) idx) of None \<Rightarrow> VUnset | Some w \<Rightarrow> w)"
  using assms by (cases idx) (auto simp: nat_less_iff zless_nat_conj)

lemma get_value_at_index_descend:
  assumes "\<forall>i\<in>set idx. 0 \<le> sint i"
  shows "get_value_at_index v idx =
    Ok (case descend v (map (\<lambda>i. nat (sint i)) idx) of None \<Rightarrow> VUnset | Some w \<Rightarrow> w)"
proof -
  have "retrieve_index v idx =
    Ok (case descend v (map (\<lambda>i. nat (sint i)) idx) of None \<Rightarrow> VUnset | Some w \<Rightarrow> w)"
    using assms
    by (induction v idx rule: retrieve_index.induct)
      (auto simp: index_vec_descend nat_less_iff simp del: index_vec.simps)
  then show ?thesis by (simp add: get_value_at_index_def)
qed

end
