(* ===== verification/Value_Compare.thy ===== *)
theory Value_Compare
  imports Value "HOL-Library.List_Lexorder" "HOL-Library.Char_ord"
begin

text \<open>
  The comparison operators of \<open>ossia::value\<close> (\<open>network/value/value.cpp\<close>): the visitor
  \<open>value_comparison_visitor2\<close> over all pairs of alternatives, for the five comparators it is
  instantiated with, and the operators themselves, which treat the unset state. Mixed arithmetic
  operands undergo the usual conversions: to \<open>float\<close> when one operand is a \<open>float\<close>, to \<open>int\<close>
  otherwise. \<open>std::string\<close> is ordered lexicographically by unsigned characters.
\<close>

section \<open>The visitor\<close>

datatype comparator = Equal_to | Greater | Greater_equal | Less | Less_equal

fun cmp_int :: "comparator \<Rightarrow> int \<Rightarrow> int \<Rightarrow> bool" where
  "cmp_int Equal_to a b = (a = b)"
| "cmp_int Greater a b = (a > b)"
| "cmp_int Greater_equal a b = (a \<ge> b)"
| "cmp_int Less a b = (a < b)"
| "cmp_int Less_equal a b = (a \<le> b)"

fun cmp_fl :: "comparator \<Rightarrow> fl \<Rightarrow> fl \<Rightarrow> bool" where
  "cmp_fl Equal_to a b = fl_eq a b"
| "cmp_fl Greater a b = fl_lt b a"
| "cmp_fl Greater_equal a b = fl_le b a"
| "cmp_fl Less a b = fl_lt a b"
| "cmp_fl Less_equal a b = fl_le a b"

fun cmp_string :: "comparator \<Rightarrow> string \<Rightarrow> string \<Rightarrow> bool" where
  "cmp_string Equal_to a b = (a = b)"
| "cmp_string Greater a b = (a > b)"
| "cmp_string Greater_equal a b = (a \<ge> b)"
| "cmp_string Less a b = (a < b)"
| "cmp_string Less_equal a b = (a \<le> b)"

text \<open>The operators of \<open>impulse\<close> against any type: equal, and never strictly ordered.\<close>

fun cmp_impulse :: "comparator \<Rightarrow> bool" where
  "cmp_impulse Equal_to = True"
| "cmp_impulse Greater = False"
| "cmp_impulse Greater_equal = True"
| "cmp_impulse Less = False"
| "cmp_impulse Less_equal = True"

text \<open>The operators of \<open>comparisons::String_T\<close>, which stands for a string compared with a number.\<close>

fun cmp_string_other :: "comparator \<Rightarrow> bool" where
  "cmp_string_other Equal_to = False"
| "cmp_string_other Greater = False"
| "cmp_string_other Greater_equal = False"
| "cmp_string_other Less = False"
| "cmp_string_other Less_equal = False"

fun promote :: "val \<Rightarrow> int" where
  "promote (VInt n) = sint n"
| "promote (VChar c) = sint c"
| "promote (VBool b) = bool_int b"
| "promote _ = 0"

fun to_float :: "val \<Rightarrow> fl" where
  "to_float (VFloat x) = x"
| "to_float v = fl_of_int F32 (promote v)"

fun is_float :: "val \<Rightarrow> bool" where
  "is_float (VFloat _) = True"
| "is_float _ = False"

definition cmp_numeric :: "comparator \<Rightarrow> val \<Rightarrow> val \<Rightarrow> bool" where
  "cmp_numeric c a b =
     (if is_float a \<or> is_float b then cmp_fl c (to_float a) (to_float b)
      else cmp_int c (promote a) (promote b))"

text \<open>Two alternatives neither of which is a list.\<close>

fun cmp_atom :: "comparator \<Rightarrow> val \<Rightarrow> val \<Rightarrow> bool" where
  "cmp_atom c (VVec2f xs) b =
     (case b of VVec2f ys \<Rightarrow> list_all2 (cmp_fl c) xs ys
      | VString _ \<Rightarrow> cmp_string_other c | _ \<Rightarrow> False)"
| "cmp_atom c (VVec3f xs) b =
     (case b of VVec3f ys \<Rightarrow> list_all2 (cmp_fl c) xs ys
      | VString _ \<Rightarrow> cmp_string_other c | _ \<Rightarrow> False)"
| "cmp_atom c (VVec4f xs) b =
     (case b of VVec4f ys \<Rightarrow> list_all2 (cmp_fl c) xs ys
      | VString _ \<Rightarrow> cmp_string_other c | _ \<Rightarrow> False)"
| "cmp_atom c VImpulse b =
     (case b of VVec2f _ \<Rightarrow> False | VVec3f _ \<Rightarrow> False | VVec4f _ \<Rightarrow> False
      | _ \<Rightarrow> cmp_impulse c)"
| "cmp_atom c (VString s) b =
     (case b of VString t \<Rightarrow> cmp_string c s t | VImpulse \<Rightarrow> cmp_impulse c
      | _ \<Rightarrow> cmp_string_other c)"
| "cmp_atom c a b =
     (case b of VImpulse \<Rightarrow> cmp_impulse c | VString _ \<Rightarrow> cmp_string_other c
      | VVec2f _ \<Rightarrow> False | VVec3f _ \<Rightarrow> False | VVec4f _ \<Rightarrow> False
      | _ \<Rightarrow> cmp_numeric c a b)"

text \<open>
  With lists: two lists are compared element by element, with the same comparator, as long as they
  have the same size and all their elements are valid; a list and an impulse compare as impulses;
  a list and an array never compare; otherwise the only element of a one-element list is compared.
\<close>

fun compare :: "comparator \<Rightarrow> val \<Rightarrow> val \<Rightarrow> bool" where
  "compare c a b =
     (case a of
        VList xs \<Rightarrow>
          (case b of
             VList ys \<Rightarrow> list_all2 (\<lambda>x y. valid x \<and> valid y \<and> compare c x y) xs ys
           | VImpulse \<Rightarrow> cmp_impulse c
           | VVec2f _ \<Rightarrow> False
           | VVec3f _ \<Rightarrow> False
           | VVec4f _ \<Rightarrow> False
           | _ \<Rightarrow> (case xs of [x] \<Rightarrow> valid x \<and> compare c x b | _ \<Rightarrow> False))
      | _ \<Rightarrow>
          (case b of
             VList ys \<Rightarrow>
               (case a of
                  VImpulse \<Rightarrow> cmp_impulse c
                | VVec2f _ \<Rightarrow> False
                | VVec3f _ \<Rightarrow> False
                | VVec4f _ \<Rightarrow> False
                | _ \<Rightarrow> (case ys of [y] \<Rightarrow> valid y \<and> compare c a y | _ \<Rightarrow> False))
           | _ \<Rightarrow> cmp_atom c a b))"

declare compare.simps [simp del]

section \<open>The operators\<close>

definition value_eq :: "val \<Rightarrow> val \<Rightarrow> bool" where
  "value_eq a b =
     (if valid a \<and> valid b then compare Equal_to a b
      else if \<not> valid a \<and> \<not> valid b then True else False)"

definition value_ne :: "val \<Rightarrow> val \<Rightarrow> bool" where
  "value_ne a b =
     (if valid a \<and> valid b then \<not> compare Equal_to a b
      else if \<not> valid a \<and> \<not> valid b then False else True)"

definition value_gt :: "val \<Rightarrow> val \<Rightarrow> bool" where
  "value_gt a b = (if valid a \<and> valid b then compare Greater a b else False)"

definition value_ge :: "val \<Rightarrow> val \<Rightarrow> bool" where
  "value_ge a b =
     (if valid a \<and> valid b then compare Greater_equal a b
      else if \<not> valid a \<and> \<not> valid b then True else False)"

definition value_lt :: "val \<Rightarrow> val \<Rightarrow> bool" where
  "value_lt a b = (if valid a \<and> valid b then compare Less a b else False)"

definition value_le :: "val \<Rightarrow> val \<Rightarrow> bool" where
  "value_le a b =
     (if valid a \<and> valid b then compare Less_equal a b
      else if \<not> valid a \<and> \<not> valid b then True else False)"

section \<open>Comparison on lists\<close>

lemma compare_VList [simp]:
  "compare c (VList xs) (VList ys) = list_all2 (\<lambda>x y. valid x \<and> valid y \<and> compare c x y) xs ys"
  by (subst compare.simps) simp

fun is_list :: "val \<Rightarrow> bool" where
  "is_list (VList _) = True"
| "is_list _ = False"

lemma compare_scalar: "\<not> is_list a \<Longrightarrow> \<not> is_list b \<Longrightarrow> compare c a b = cmp_atom c a b"
  by (subst compare.simps) (cases a; cases b; simp)

text \<open>A list against a value that is not one.\<close>

definition cmp_only :: "(val \<Rightarrow> bool) \<Rightarrow> val list \<Rightarrow> bool" where
  "cmp_only f xs \<longleftrightarrow> (\<exists>x. xs = [x] \<and> valid x \<and> f x)"

lemma compare_list_left:
  "\<not> is_list b \<Longrightarrow> compare c (VList xs) b =
     (if b = VImpulse then cmp_impulse c else \<not> is_array b \<and> cmp_only (\<lambda>x. compare c x b) xs)"
  by (subst compare.simps) (cases b; auto simp: cmp_only_def split: list.splits)

lemma compare_list_right:
  "\<not> is_list a \<Longrightarrow> compare c a (VList ys) =
     (if a = VImpulse then cmp_impulse c else \<not> is_array a \<and> cmp_only (\<lambda>y. compare c a y) ys)"
  by (subst compare.simps) (cases a; auto simp: cmp_only_def split: list.splits)

text \<open>The comparator with its operands exchanged.\<close>

fun mirror :: "comparator \<Rightarrow> comparator" where
  "mirror Equal_to = Equal_to"
| "mirror Greater = Less"
| "mirror Greater_equal = Less_equal"
| "mirror Less = Greater"
| "mirror Less_equal = Greater_equal"

lemma fl_eq_commute: "fl_eq a b = fl_eq b a"
  using fl_eq_sym by blast

lemma cmp_int_mirror: "cmp_int (mirror c) b a = cmp_int c a b"
  by (cases c) auto

lemma cmp_fl_mirror: "cmp_fl (mirror c) b a = cmp_fl c a b"
  by (cases c) (auto simp: fl_eq_commute)

lemma cmp_string_mirror: "cmp_string (mirror c) b a = cmp_string c a b"
  by (cases c) auto

lemma cmp_const_mirror [simp]:
  "cmp_impulse (mirror c) = cmp_impulse c" "cmp_string_other (mirror c) = cmp_string_other c"
  by (cases c; simp)+

lemma cmp_vec_mirror: "list_all2 (cmp_fl (mirror c)) ys xs = list_all2 (cmp_fl c) xs ys"
  by (auto simp: list_all2_conv_all_nth cmp_fl_mirror)

lemma cmp_atom_mirror: "cmp_atom (mirror c) b a = cmp_atom c a b"
  by (cases a; cases b)
    (simp_all add: cmp_numeric_def cmp_int_mirror cmp_fl_mirror cmp_string_mirror cmp_vec_mirror)

lemma size_list_element: "x \<in> set xs \<Longrightarrow> size x < size (VList xs)"
  using size_list_estimation' [of x xs "size x" size] by simp

lemma cmp_only_cong:
  "(\<And>x. x \<in> set xs \<Longrightarrow> f x = g x) \<Longrightarrow> cmp_only f xs = cmp_only g xs"
  by (auto simp: cmp_only_def)

lemma compare_mirror: "compare (mirror c) b a = compare c a b"
proof (induction "size a + size b" arbitrary: a b rule: less_induct)
  case less
  consider xs ys where "a = VList xs" "b = VList ys" | xs where "a = VList xs" "\<not> is_list b"
    | ys where "\<not> is_list a" "b = VList ys" | "\<not> is_list a" "\<not> is_list b"
    by (cases a; cases b) auto
  then show ?case
  proof cases
    case 1
    have "compare (mirror c) y x = compare c x y" if "x \<in> set xs" "y \<in> set ys" for x y
      using less [of x y] size_list_element [OF that(1)] size_list_element [OF that(2)] 1 by simp
    then show ?thesis using 1 by (auto simp: list_all2_conv_all_nth)
  next
    case 2
    then have "cmp_only (\<lambda>x. compare (mirror c) b x) xs = cmp_only (\<lambda>x. compare c x b) xs"
      using less size_list_element by (intro cmp_only_cong) auto
    then show ?thesis using 2 by (simp add: compare_list_left compare_list_right)
  next
    case 3
    then have "cmp_only (\<lambda>y. compare (mirror c) y a) ys = cmp_only (\<lambda>y. compare c a y) ys"
      using less size_list_element by (intro cmp_only_cong) auto
    then show ?thesis using 3 by (simp add: compare_list_left compare_list_right)
  next
    case 4
    then show ?thesis by (simp add: compare_scalar cmp_atom_mirror)
  qed
qed

lemma value_eq_sym: "value_eq a b = value_eq b a"
  using compare_mirror [of Equal_to a b] by (auto simp: value_eq_def)

lemma value_gt_lt: "value_gt a b = value_lt b a"
  using compare_mirror [of Greater b a] by (auto simp: value_gt_def value_lt_def)

lemma value_ge_le: "value_ge a b = value_le b a"
  using compare_mirror [of Greater_equal b a] by (auto simp: value_ge_def value_le_def)

lemma value_ne_eq: "value_ne a b = (\<not> value_eq a b)"
  by (auto simp: value_ne_def value_eq_def)

section \<open>Reflexivity\<close>

text \<open>The values equal to themselves: no NaN anywhere, and no unset element in a list.\<close>

fun self_equal :: "val \<Rightarrow> bool" where
  "self_equal (VFloat x) = (x \<noteq> NaN)"
| "self_equal (VVec2f xs) = (NaN \<notin> set xs)"
| "self_equal (VVec3f xs) = (NaN \<notin> set xs)"
| "self_equal (VVec4f xs) = (NaN \<notin> set xs)"
| "self_equal (VList vs) = list_all (\<lambda>v. valid v \<and> self_equal v) vs"
| "self_equal _ = True"

lemma list_all2_same_fl: "list_all2 (cmp_fl Equal_to) xs xs = (NaN \<notin> set xs)"
  by (auto simp: list_all2_conv_all_nth in_set_conv_nth)

lemma compare_eq_refl: "valid v \<Longrightarrow> compare Equal_to v v = self_equal v"
proof (induction v)
  case (VList vs)
  then show ?case by (auto simp: list_all2_same list_all_def)
qed (simp_all add: compare_scalar cmp_numeric_def list_all2_same_fl)

lemma value_eq_refl: "value_eq v v = self_equal v"
  by (cases "valid v") (auto simp: value_eq_def compare_eq_refl)

section \<open>Order on the values of one scalar type\<close>

definition scalar_of :: "val_type \<Rightarrow> val \<Rightarrow> bool" where
  "scalar_of t v \<longleftrightarrow> get_type v = t \<and> t \<in> {T_FLOAT, T_INT, T_BOOL, T_CHAR, T_STRING} \<and> v \<noteq> VFloat NaN"

lemma value_lt_same [simp]:
  "value_lt (VFloat x) (VFloat y) = fl_lt x y"
  "value_lt (VInt m) (VInt n) = sint_lt m n"
  "value_lt (VChar c) (VChar d) = sint_lt c d"
  "value_lt (VBool p) (VBool q) = bool_lt p q"
  "value_lt (VString u) (VString w) = (u < w)"
  by (simp_all add: value_lt_def compare_scalar cmp_numeric_def sint_lt_def bool_lt_def bool_int_def)

lemma scalar_of_iff:
  "scalar_of T_FLOAT v \<longleftrightarrow> (\<exists>x. v = VFloat x \<and> x \<noteq> NaN)"
  "scalar_of T_INT v \<longleftrightarrow> (\<exists>n. v = VInt n)"
  "scalar_of T_BOOL v \<longleftrightarrow> (\<exists>b. v = VBool b)"
  "scalar_of T_CHAR v \<longleftrightarrow> (\<exists>c. v = VChar c)"
  "scalar_of T_STRING v \<longleftrightarrow> (\<exists>u. v = VString u)"
  by (cases v; auto simp: scalar_of_def)+

lemma scalar_of_type: "scalar_of t v \<Longrightarrow> t \<in> {T_FLOAT, T_INT, T_BOOL, T_CHAR, T_STRING}"
  by (simp add: scalar_of_def)

interpretation value_order: strict_weak_order value_lt "scalar_of t" for t
proof
  fix x y z
  show "\<not> value_lt x x" if "scalar_of t x"
    using scalar_of_type [OF that] that by (auto simp: scalar_of_iff sint_lt_def bool_lt_def)
  show "value_lt x z" if "scalar_of t x" "scalar_of t y" "scalar_of t z" "value_lt x y" "value_lt y z"
    using scalar_of_type [OF that(1)] that
    by (auto simp: scalar_of_iff sint_lt_def bool_lt_def) (metis fl_lt_trans)
  show "\<not> value_lt x z"
    if "scalar_of t x" "scalar_of t y" "scalar_of t z" "\<not> value_lt x y" "\<not> value_lt y z"
    using scalar_of_type [OF that(1)] that
    by (auto simp: scalar_of_iff sint_lt_def bool_lt_def) (metis fl_lt_incomp)
qed

end
