(* ===== verification/Value_Clamp.thy ===== *)
theory Value_Clamp
  imports Value
begin

text \<open>
  Bounding a value between two values: the visitors of \<open>network/domain/detail/clamp_visitors.hpp\<close>
  and the functions \<open>clamp\<close>, \<open>wrap\<close>, \<open>fold\<close>, \<open>clamp_min\<close> and \<open>clamp_max\<close> on \<open>ossia::value\<close>
  (\<open>clamp.cpp\<close>, \<open>wrap.cpp\<close>, \<open>fold.cpp\<close>, \<open>clamp_min.cpp\<close>, \<open>clamp_max.cpp\<close>). The visitors are
  instantiated with a functor, which is applied to \<open>int32_t\<close> and to \<open>float\<close>; a functor is a record
  of these two instances. \<open>FAST_COMPILES\<close> is defined, so the overloads on r-values forward to the
  ones modelled here.
\<close>

section \<open>The visitors\<close>

record ternary_fun =
  t_int :: "i32 \<Rightarrow> i32 \<Rightarrow> i32 \<Rightarrow> i32 res"
  t_float :: "fl \<Rightarrow> fl \<Rightarrow> fl \<Rightarrow> fl"

record binary_fun =
  b_int :: "i32 \<Rightarrow> i32 \<Rightarrow> i32 res"
  b_float :: "fl \<Rightarrow> fl \<Rightarrow> fl"

text \<open>The conversions between \<open>char\<close>, \<open>bool\<close> and \<open>int32_t\<close>.\<close>

definition char_to_i32 :: "i8 \<Rightarrow> i32" where "char_to_i32 c = word_of_int (sint c)"
definition i32_to_char :: "i32 \<Rightarrow> i8" where "i32_to_char n = word_of_int (sint n)"
definition bool_to_i32 :: "bool \<Rightarrow> i32" where "bool_to_i32 b = word_of_int (bool_int b)"
definition i32_to_bool :: "i32 \<Rightarrow> bool" where "i32_to_bool n \<longleftrightarrow> n \<noteq> 0"

definition map3 :: "('a \<Rightarrow> 'b \<Rightarrow> 'c \<Rightarrow> 'd) \<Rightarrow> 'a list \<Rightarrow> 'b list \<Rightarrow> 'c list \<Rightarrow> 'd list" where
  "map3 f xs ys zs = map (\<lambda>(x, y, z). f x y z) (zip xs (zip ys zs))"

definition ternary_vec ::
  "ternary_fun \<Rightarrow> (fl list \<Rightarrow> val) \<Rightarrow> (val \<Rightarrow> fl list option) \<Rightarrow> fl list \<Rightarrow> val \<Rightarrow> val \<Rightarrow> val" where
  "ternary_vec F con target xs a b =
     (case (target a, target b) of
        (Some ls, Some hs) \<Rightarrow> con (map3 (t_float F) xs ls hs)
      | _ \<Rightarrow>
          (case (target_float a, target_float b) of
             (Some l, Some h) \<Rightarrow> con (map (\<lambda>x. t_float F x l h) xs)
           | _ \<Rightarrow> con xs))"

lemma size_zip_fst [termination_simp]:
  "(x, y) \<in> set (zip xs ys) \<Longrightarrow> size x < Suc (size_list size xs)"
  using size_list_estimation' [OF set_zip_leftD, of x y xs ys "size x" size] by simp

fun ternary :: "ternary_fun \<Rightarrow> val \<Rightarrow> val \<Rightarrow> val \<Rightarrow> val res" where
  "ternary F (VInt x) a b =
     (case (target_int a, target_int b) of
        (Some l, Some h) \<Rightarrow> res_map VInt (t_int F x l h)
      | _ \<Rightarrow> Ok (VInt x))"
| "ternary F (VFloat x) a b =
     (case (target_float a, target_float b) of
        (Some l, Some h) \<Rightarrow> Ok (VFloat (t_float F x l h))
      | _ \<Rightarrow> Ok (VFloat x))"
| "ternary F (VChar x) a b =
     (case (target_char a, target_char b) of
        (Some l, Some h) \<Rightarrow>
          res_map (\<lambda>n. VChar (i32_to_char n))
            (t_int F (char_to_i32 x) (char_to_i32 l) (char_to_i32 h))
      | _ \<Rightarrow> Ok (VChar x))"
| "ternary F (VBool x) a b =
     (case (target_bool a, target_bool b) of
        (Some l, Some h) \<Rightarrow>
          res_map (\<lambda>n. VBool (i32_to_bool n))
            (t_int F (bool_to_i32 x) (bool_to_i32 l) (bool_to_i32 h))
      | _ \<Rightarrow> Ok (VBool x))"
| "ternary F (VVec2f xs) a b = Ok (ternary_vec F VVec2f target_vec2f xs a b)"
| "ternary F (VVec3f xs) a b = Ok (ternary_vec F VVec3f target_vec3f xs a b)"
| "ternary F (VVec4f xs) a b = Ok (ternary_vec F VVec4f target_vec4f xs a b)"
| "ternary F (VList vs) a b =
     (case (target_list a, target_list b) of
        (Some ls, Some hs) \<Rightarrow>
          if length vs = length ls \<and> length vs = length hs then
            res_map VList
              (map_res (\<lambda>(v, l, h). if valid v \<and> valid l \<and> valid h then ternary F v l h
                                    else Err Bad_variant_type) (zip vs (zip ls hs)))
          else Ok (VList [])
      | _ \<Rightarrow> Ok (VList vs))"
| "ternary F v a b = Ok v"

definition binary_vec ::
  "binary_fun \<Rightarrow> (fl list \<Rightarrow> val) \<Rightarrow> (val \<Rightarrow> fl list option) \<Rightarrow> fl list \<Rightarrow> val \<Rightarrow> val" where
  "binary_vec F con target xs a =
     (case target a of
        Some ls \<Rightarrow> con (map2 (b_float F) xs ls)
      | None \<Rightarrow>
          (case target_float a of
             Some l \<Rightarrow> con (map (\<lambda>x. b_float F x l) xs)
           | None \<Rightarrow> con xs))"

fun binary :: "binary_fun \<Rightarrow> val \<Rightarrow> val \<Rightarrow> val res" where
  "binary F (VInt x) a =
     (case target_int a of Some l \<Rightarrow> res_map VInt (b_int F x l) | _ \<Rightarrow> Ok (VInt x))"
| "binary F (VFloat x) a =
     (case target_float a of Some l \<Rightarrow> Ok (VFloat (b_float F x l)) | _ \<Rightarrow> Ok (VFloat x))"
| "binary F (VChar x) a =
     (case target_char a of
        Some l \<Rightarrow> res_map (\<lambda>n. VChar (i32_to_char n)) (b_int F (char_to_i32 x) (char_to_i32 l))
      | _ \<Rightarrow> Ok (VChar x))"
| "binary F (VBool x) a =
     (case target_bool a of
        Some l \<Rightarrow> res_map (\<lambda>n. VBool (i32_to_bool n)) (b_int F (bool_to_i32 x) (bool_to_i32 l))
      | _ \<Rightarrow> Ok (VBool x))"
| "binary F (VVec2f xs) a = Ok (binary_vec F VVec2f target_vec2f xs a)"
| "binary F (VVec3f xs) a = Ok (binary_vec F VVec3f target_vec3f xs a)"
| "binary F (VVec4f xs) a = Ok (binary_vec F VVec4f target_vec4f xs a)"
| "binary F (VList vs) a =
     (case target_list a of
        Some ls \<Rightarrow>
          if length vs = length ls then
            res_map VList
              (map_res (\<lambda>(v, l). if valid v \<and> valid l then binary F v l
                                 else Err Bad_variant_type) (zip vs ls))
          else Ok (VList [])
      | _ \<Rightarrow> Ok (VList vs))"
| "binary F v a = Ok v"

section \<open>The functions on values\<close>

definition clamp_functor :: ternary_fun where
  "clamp_functor = \<lparr>t_int = \<lambda>v l h. Ok (clamp sint_lt v l h), t_float = clamp fl_lt\<rparr>"

definition wrap_functor :: ternary_fun where
  "wrap_functor = \<lparr>t_int = wrap_i32, t_float = wrap_f32\<rparr>"

definition fold_functor :: ternary_fun where
  "fold_functor = \<lparr>t_int = fold_i32, t_float = fold_f32\<rparr>"

definition clamp_min_functor :: binary_fun where
  "clamp_min_functor = \<lparr>b_int = \<lambda>v l. Ok (clamp_min sint_lt v l), b_float = clamp_min fl_lt\<rparr>"

definition clamp_max_functor :: binary_fun where
  "clamp_max_functor = \<lparr>b_int = \<lambda>v h. Ok (clamp_max sint_lt v h), b_float = clamp_max fl_lt\<rparr>"

definition apply_ternary :: "ternary_fun \<Rightarrow> val \<Rightarrow> val \<Rightarrow> val \<Rightarrow> val res" where
  "apply_ternary F v l h =
     (if valid v \<and> valid l \<and> valid h then apply3 (ternary F) v l h else Ok v)"

definition apply_binary :: "binary_fun \<Rightarrow> val \<Rightarrow> val \<Rightarrow> val res" where
  "apply_binary F v l = (if valid v \<and> valid l then apply2 (binary F) v l else Ok v)"

definition value_clamp :: "val \<Rightarrow> val \<Rightarrow> val \<Rightarrow> val res" where
  "value_clamp = apply_ternary clamp_functor"

definition value_wrap :: "val \<Rightarrow> val \<Rightarrow> val \<Rightarrow> val res" where
  "value_wrap = apply_ternary wrap_functor"

definition value_fold :: "val \<Rightarrow> val \<Rightarrow> val \<Rightarrow> val res" where
  "value_fold = apply_ternary fold_functor"

definition value_clamp_min :: "val \<Rightarrow> val \<Rightarrow> val res" where
  "value_clamp_min = apply_binary clamp_min_functor"

definition value_clamp_max :: "val \<Rightarrow> val \<Rightarrow> val res" where
  "value_clamp_max = apply_binary clamp_max_functor"

section \<open>The contract of a ternary functor\<close>

text \<open>
  A relation between a scalar and two scalar bounds, lifted to the values on which the visitor acts:
  bounds of the same type, a pair of \<open>float\<close> for an array, and element by element in a list.
\<close>

definition lift3_vec ::
  "(fl \<Rightarrow> fl \<Rightarrow> fl \<Rightarrow> bool) \<Rightarrow> (val \<Rightarrow> fl list option) \<Rightarrow> fl list \<Rightarrow> val \<Rightarrow> val \<Rightarrow> bool" where
  "lift3_vec Q target xs a b =
     (case (target a, target b) of
        (Some ls, Some hs) \<Rightarrow>
          length xs = length ls \<and> length xs = length hs \<and>
          list_all (\<lambda>(x, l, h). Q x l h) (zip xs (zip ls hs))
      | _ \<Rightarrow>
          (case (target_float a, target_float b) of
             (Some l, Some h) \<Rightarrow> list_all (\<lambda>x. Q x l h) xs
           | _ \<Rightarrow> False))"

fun lift3 ::
  "(i32 \<Rightarrow> i32 \<Rightarrow> i32 \<Rightarrow> bool) \<Rightarrow> (fl \<Rightarrow> fl \<Rightarrow> fl \<Rightarrow> bool) \<Rightarrow> val \<Rightarrow> val \<Rightarrow> val \<Rightarrow> bool" where
  "lift3 P Q (VInt x) a b =
     (case (target_int a, target_int b) of (Some l, Some h) \<Rightarrow> P x l h | _ \<Rightarrow> False)"
| "lift3 P Q (VFloat x) a b =
     (case (target_float a, target_float b) of (Some l, Some h) \<Rightarrow> Q x l h | _ \<Rightarrow> False)"
| "lift3 P Q (VChar x) a b =
     (case (target_char a, target_char b) of
        (Some l, Some h) \<Rightarrow> P (char_to_i32 x) (char_to_i32 l) (char_to_i32 h)
      | _ \<Rightarrow> False)"
| "lift3 P Q (VBool x) a b =
     (case (target_bool a, target_bool b) of
        (Some l, Some h) \<Rightarrow> P (bool_to_i32 x) (bool_to_i32 l) (bool_to_i32 h)
      | _ \<Rightarrow> False)"
| "lift3 P Q (VVec2f xs) a b = lift3_vec Q target_vec2f xs a b"
| "lift3 P Q (VVec3f xs) a b = lift3_vec Q target_vec3f xs a b"
| "lift3 P Q (VVec4f xs) a b = lift3_vec Q target_vec4f xs a b"
| "lift3 P Q (VList vs) a b =
     (case (target_list a, target_list b) of
        (Some ls, Some hs) \<Rightarrow>
          length vs = length ls \<and> length vs = length hs \<and>
          list_all (\<lambda>(v, l, h). valid v \<and> valid l \<and> valid h \<and> lift3 P Q v l h)
            (zip vs (zip ls hs))
      | _ \<Rightarrow> False)"
| "lift3 P Q v a b = False"

lemma sint_char_to_i32 [simp]: "sint (char_to_i32 c) = sint c"
  unfolding char_to_i32_def by (rule sint_word_of_int_i32 [OF i8_in_i32 [OF sint_i8_range]])

lemma sint_bool_to_i32 [simp]: "sint (bool_to_i32 b) = bool_int b"
  by (simp add: bool_to_i32_def bool_int_def)

lemma char_to_i32_of_i32:
  "sint (char_to_i32 l) \<le> sint n \<Longrightarrow> sint n \<le> sint (char_to_i32 h) \<Longrightarrow>
    char_to_i32 (i32_to_char n) = n"
proof -
  assume le: "sint (char_to_i32 l) \<le> sint n" "sint n \<le> sint (char_to_i32 h)"
  then have "in_i8 (sint n)" using sint_i8_range [of l] sint_i8_range [of h] by (simp add: in_i8_def)
  then have "sint (i32_to_char n) = sint n" unfolding i32_to_char_def by (rule sint_word_of_int_i8)
  then show ?thesis by (simp only: sint_char_to_i32 flip: sint_eq_iff)
qed

lemma bool_to_i32_of_i32:
  "sint (bool_to_i32 l) \<le> sint n \<Longrightarrow> sint n \<le> sint (bool_to_i32 h) \<Longrightarrow>
    bool_to_i32 (i32_to_bool n) = n"
proof (intro signed_word_eqI)
  assume "sint (bool_to_i32 l) \<le> sint n" "sint n \<le> sint (bool_to_i32 h)"
  then have "sint n = 0 \<or> sint n = 1" by (auto simp: bool_int_def split: if_splits)
  moreover have "n = 0 \<longleftrightarrow> sint n = 0" using sint_eq_iff [of n 0] by simp
  ultimately show "sint (bool_to_i32 (i32_to_bool n)) = sint n"
    by (auto simp: i32_to_bool_def bool_int_def)
qed

lemma list_all_zip3:
  "length xs = length ys \<Longrightarrow> length xs = length zs \<Longrightarrow>
    list_all (\<lambda>(x, y, z). P x y z) (zip xs (zip ys zs)) \<longleftrightarrow>
    (\<forall>i<length xs. P (xs ! i) (ys ! i) (zs ! i))"
  by (auto simp: list_all_length)

lemma length_map3 [simp]:
  "length xs = length ys \<Longrightarrow> length xs = length zs \<Longrightarrow> length (map3 f xs ys zs) = length xs"
  by (simp add: map3_def)

lemma nth_map3 [simp]:
  "length xs = length ys \<Longrightarrow> length xs = length zs \<Longrightarrow> i < length xs \<Longrightarrow>
    map3 f xs ys zs ! i = f (xs ! i) (ys ! i) (zs ! i)"
  by (simp add: map3_def)

lemma lift3_VList:
  "lift3 P Q (VList vs) a b \<longleftrightarrow>
     (\<exists>ls hs. a = VList ls \<and> b = VList hs \<and> length vs = length ls \<and> length vs = length hs \<and>
       (\<forall>i<length vs. valid (vs ! i) \<and> valid (ls ! i) \<and> valid (hs ! i) \<and>
          lift3 P Q (vs ! i) (ls ! i) (hs ! i)))"
  by (cases a; cases b) (simp_all add: list_all_length cong: conj_cong)

locale range_functor =
  fixes G :: ternary_fun
    and pre_int post_int :: "i32 \<Rightarrow> i32 \<Rightarrow> i32 \<Rightarrow> bool"
    and pre_float post_float :: "fl \<Rightarrow> fl \<Rightarrow> fl \<Rightarrow> bool"
  assumes int_ok: "pre_int n lo hi \<Longrightarrow> \<exists>m. t_int G n lo hi = Ok m \<and> post_int m lo hi"
    and int_range: "post_int n lo hi \<Longrightarrow> sint lo \<le> sint n \<and> sint n \<le> sint hi"
    and float_ok: "pre_float x l h \<Longrightarrow> post_float (t_float G x l h) l h"
begin

lemma ternary_vec_post:
  assumes "lift3_vec pre_float target xs a b" and "\<And>ys. target (con ys) = Some ys"
  shows "\<exists>ys. ternary_vec G con target xs a b = con ys \<and> lift3_vec post_float target ys a b"
  using assms float_ok
  by (auto simp: ternary_vec_def lift3_vec_def list_all_zip3 list_all_length split: option.splits
      intro!: exI)

lemma ternary_post:
  assumes "lift3 pre_int pre_float v a b"
  shows "\<exists>w. ternary G v a b = Ok w \<and> get_type w = get_type v \<and> lift3 post_int post_float w a b"
  using assms
proof (induction v arbitrary: a b)
  case (VInt x)
  then show ?case using int_ok by (force split: option.splits)
next
  case (VFloat x)
  then show ?case using float_ok by (auto split: option.splits)
next
  case (VChar x)
  then obtain l h where ab: "a = VChar l" "b = VChar h"
    by (cases a; cases b) auto
  then obtain y where y: "t_int G (char_to_i32 x) (char_to_i32 l) (char_to_i32 h) = Ok y"
      "post_int y (char_to_i32 l) (char_to_i32 h)"
    using VChar int_ok [of "char_to_i32 x" "char_to_i32 l" "char_to_i32 h"] by auto
  then show ?case using ab int_range [OF y(2)] char_to_i32_of_i32 [of l y h] by simp
next
  case (VBool x)
  then obtain l h where ab: "a = VBool l" "b = VBool h"
    by (cases a; cases b) auto
  then obtain y where y: "t_int G (bool_to_i32 x) (bool_to_i32 l) (bool_to_i32 h) = Ok y"
      "post_int y (bool_to_i32 l) (bool_to_i32 h)"
    using VBool int_ok [of "bool_to_i32 x" "bool_to_i32 l" "bool_to_i32 h"] by auto
  then show ?case using ab int_range [OF y(2)] bool_to_i32_of_i32 [of l y h] by simp
next
  case (VVec2f xs)
  then show ?case using ternary_vec_post [of target_vec2f xs a b VVec2f] by auto
next
  case (VVec3f xs)
  then show ?case using ternary_vec_post [of target_vec3f xs a b VVec3f] by auto
next
  case (VVec4f xs)
  then show ?case using ternary_vec_post [of target_vec4f xs a b VVec4f] by auto
next
  case (VList vs)
  then obtain ls hs where ab: "a = VList ls" "b = VList hs" and len: "length vs = length ls" "length vs = length hs"
    and each: "\<And>i. i < length vs \<Longrightarrow> valid (vs ! i) \<and> valid (ls ! i) \<and> valid (hs ! i) \<and>
      lift3 pre_int pre_float (vs ! i) (ls ! i) (hs ! i)"
    unfolding lift3_VList by blast
  have "\<forall>i<length vs. \<exists>w. ternary G (vs ! i) (ls ! i) (hs ! i) = Ok w \<and>
      get_type w = get_type (vs ! i) \<and> lift3 post_int post_float w (ls ! i) (hs ! i)"
    using each VList.IH nth_mem by blast
  then obtain f where f: "\<And>i. i < length vs \<Longrightarrow> ternary G (vs ! i) (ls ! i) (hs ! i) = Ok (f i) \<and>
      get_type (f i) = get_type (vs ! i) \<and> lift3 post_int post_float (f i) (ls ! i) (hs ! i)"
    by metis
  let ?ws = "map f [0..<length vs]"
  have "map_res (\<lambda>(v, l, h). if valid v \<and> valid l \<and> valid h then ternary G v l h
      else Err Bad_variant_type) (zip vs (zip ls hs)) = Ok ?ws"
    using f each len by (auto simp: map_res_Ok_iff list_all2_conv_all_nth)
  moreover have "valid (f i)" if "i < length vs" for i
    using f [OF that] each [OF that] by (metis get_type_NONE valid_iff)
  ultimately show ?case using ab len f each by (auto simp: lift3_VList simp del: lift3.simps)
qed simp_all

lemma apply_ternary_post:
  assumes "lift3 pre_int pre_float v a b"
  shows "\<exists>w. apply_ternary G v a b = Ok w \<and> get_type w = get_type v \<and> lift3 post_int post_float w a b"
proof -
  have "valid v \<and> valid a \<and> valid b"
    using assms by (cases v) (auto simp: lift3_vec_def split: option.splits)
  then show ?thesis using ternary_post [OF assms] by (simp add: apply_ternary_def apply3_def)
qed

end

section \<open>The functors meet the contract\<close>

definition clamp_pre_int :: "i32 \<Rightarrow> i32 \<Rightarrow> i32 \<Rightarrow> bool" where
  "clamp_pre_int x l h \<longleftrightarrow> sint l \<le> sint h"

definition in_range_int :: "i32 \<Rightarrow> i32 \<Rightarrow> i32 \<Rightarrow> bool" where
  "in_range_int x l h \<longleftrightarrow> sint l \<le> sint x \<and> sint x \<le> sint h"

definition clamp_pre_float :: "fl \<Rightarrow> fl \<Rightarrow> fl \<Rightarrow> bool" where
  "clamp_pre_float x l h \<longleftrightarrow> x \<noteq> NaN \<and> fl_le l h"

definition in_range_float :: "fl \<Rightarrow> fl \<Rightarrow> fl \<Rightarrow> bool" where
  "in_range_float x l h \<longleftrightarrow> fl_le l x \<and> fl_le x h"

definition wrap_pre_int :: "i32 \<Rightarrow> i32 \<Rightarrow> i32 \<Rightarrow> bool" where
  "wrap_pre_int x l h \<longleftrightarrow> sint l < sint h \<and> in_i32 (sint x - sint l) \<and> in_i32 (sint l - sint x) \<and>
     in_i32 (sint l - sint h)"

definition wrap_pre_float :: "fl \<Rightarrow> fl \<Rightarrow> fl \<Rightarrow> bool" where
  "wrap_pre_float x l h \<longleftrightarrow> x \<noteq> NaN \<and> fl_finite l \<and> fl_finite h \<and>
     wf_fl F32 x \<and> wf_fl F32 l \<and> wf_fl F32 h"

definition wrap_post_float :: "fl \<Rightarrow> fl \<Rightarrow> fl \<Rightarrow> bool" where
  "wrap_post_float x l h \<longleftrightarrow> x = NaN \<or> fl_le l x \<or> fl_le x h"

definition fold_pre_int :: "i32 \<Rightarrow> i32 \<Rightarrow> i32 \<Rightarrow> bool" where
  "fold_pre_int x l h \<longleftrightarrow> sint l < sint h \<and> in_i32 (sint x - sint l) \<and> in_i32 (sint l - sint h)"

definition fold_post_float :: "fl \<Rightarrow> fl \<Rightarrow> fl \<Rightarrow> bool" where
  "fold_post_float x l h \<longleftrightarrow> x = NaN \<or> fl_le l x"

lemma fl_le_not_NaN: "fl_le x y \<Longrightarrow> x \<noteq> NaN \<and> y \<noteq> NaN"
  by auto

interpretation clamp_range:
  range_functor clamp_functor clamp_pre_int in_range_int clamp_pre_float in_range_float
proof
  fix x l h :: i32
  show "clamp_pre_int x l h \<Longrightarrow> \<exists>y. t_int clamp_functor x l h = Ok y \<and> in_range_int y l h"
    using i32.clamp_range [where d = x and mn = l and mx = h]
    by (simp add: clamp_functor_def clamp_pre_int_def in_range_int_def sint_lt_def not_less)
next
  fix x l h :: fl
  assume pre: "clamp_pre_float x l h"
  then have nn: "x \<noteq> NaN" "l \<noteq> NaN" "h \<noteq> NaN"
    using fl_le_not_NaN by (auto simp: clamp_pre_float_def)
  then have "clamp fl_lt x l h \<noteq> NaN" by (rule fl.clamp_ok)
  moreover have "\<not> fl_lt (clamp fl_lt x l h) l" "\<not> fl_lt h (clamp fl_lt x l h)"
    using pre nn fl.clamp_range [OF nn] by (auto simp: clamp_pre_float_def fl_not_lt_iff)
  ultimately show "in_range_float (t_float clamp_functor x l h) l h"
    using nn by (simp add: in_range_float_def clamp_functor_def fl_not_lt_iff)
qed (simp add: in_range_int_def)

interpretation wrap_range:
  range_functor wrap_functor wrap_pre_int in_range_int wrap_pre_float wrap_post_float
proof
  fix x l h :: i32
  assume pre: "wrap_pre_int x l h"
  then have "sint l \<le> wrap_int (sint x) (sint l) (sint h)" "wrap_int (sint x) (sint l) (sint h) \<le> sint h"
    using wrap_int_range [of "sint l" "sint h" "sint x"] by (auto simp: wrap_pre_int_def)
  moreover have "in_i32 (wrap_int (sint x) (sint l) (sint h))"
    using calculation in_i32_between [OF sint_i32_range [of l] sint_i32_range [of h]] by blast
  ultimately show "\<exists>y. t_int wrap_functor x l h = Ok y \<and> in_range_int y l h"
    using pre wrap_i32_eq [of l h x]
    by (simp add: wrap_functor_def wrap_pre_int_def in_range_int_def sint_word_of_int_i32)
next
  fix x l h :: fl
  assume pre: "wrap_pre_float x l h"
  show "wrap_post_float (t_float wrap_functor x l h) l h"
  proof (cases "fl_lt x l")
    case True
    then show ?thesis
      using pre wrap_f32_le_high [of h x l]
      by (auto simp: wrap_functor_def wrap_pre_float_def wrap_post_float_def)
  next
    case False
    then have "fl_le l x" using pre fl_not_lt_iff [of x l] by (cases l) (auto simp: wrap_pre_float_def)
    then show ?thesis
      using pre wrap_f32_ge_low [of l x h]
      by (auto simp: wrap_functor_def wrap_pre_float_def wrap_post_float_def)
  qed
qed (simp add: in_range_int_def)

interpretation fold_range:
  range_functor fold_functor fold_pre_int in_range_int wrap_pre_float fold_post_float
proof
  fix x l h :: i32
  assume pre: "fold_pre_int x l h"
  then obtain r k where "fold_i32 x l h = Ok (word_of_int r)" "sint l \<le> r" "r \<le> sint h"
    using fold_i32_eq [of l h x] by (auto simp: fold_pre_int_def)
  moreover have "in_i32 r"
    using calculation in_i32_between [OF sint_i32_range [of l] sint_i32_range [of h]] by blast
  ultimately show "\<exists>y. t_int fold_functor x l h = Ok y \<and> in_range_int y l h"
    by (simp add: fold_functor_def in_range_int_def sint_word_of_int_i32)
next
  fix x l h :: fl
  show "wrap_pre_float x l h \<Longrightarrow> fold_post_float (t_float fold_functor x l h) l h"
    using fold_f32_ge_low [of l x h]
    by (auto simp: fold_functor_def wrap_pre_float_def fold_post_float_def)
qed (simp add: in_range_int_def)

section \<open>Values that are kept\<close>

text \<open>A value within its bounds is returned as it is, whatever the functor, if the functor keeps scalars in range.\<close>

locale identity_functor =
  fixes G :: ternary_fun
    and keep_int :: "i32 \<Rightarrow> i32 \<Rightarrow> i32 \<Rightarrow> bool" and keep_float :: "fl \<Rightarrow> fl \<Rightarrow> fl \<Rightarrow> bool"
  assumes int_id: "keep_int n lo hi \<Longrightarrow> t_int G n lo hi = Ok n"
    and float_id: "keep_float x l h \<Longrightarrow> t_float G x l h = x"
begin

lemma ternary_vec_id:
  assumes "lift3_vec keep_float target xs a b"
  shows "ternary_vec G con target xs a b = con xs"
proof -
  have "map3 (t_float G) xs ls hs = xs"
    if "length xs = length ls" "length xs = length hs" "\<forall>i<length xs. keep_float (xs ! i) (ls ! i) (hs ! i)"
    for ls hs
    using that float_id by (intro nth_equalityI) auto
  moreover have "map (\<lambda>x. t_float G x l h) xs = xs" if "list_all (\<lambda>x. keep_float x l h) xs" for l h
    using that float_id by (intro map_idI) (auto simp: list_all_iff)
  ultimately show ?thesis
    using assms by (auto simp: ternary_vec_def lift3_vec_def list_all_zip3 split: option.splits)
qed

lemma i32_to_char_inv [simp]: "i32_to_char (char_to_i32 c) = c"
  unfolding i32_to_char_def by simp

lemma i32_to_bool_inv [simp]: "i32_to_bool (bool_to_i32 c) = c"
  by (cases c) (simp_all add: i32_to_bool_def bool_to_i32_def bool_int_def)

lemma ternary_id: "lift3 keep_int keep_float v a b \<Longrightarrow> ternary G v a b = Ok v"
proof (induction v arbitrary: a b)
  case (VList vs)
  then obtain ls hs where ab: "a = VList ls" "b = VList hs" and len: "length vs = length ls" "length vs = length hs"
    and each: "\<And>i. i < length vs \<Longrightarrow> valid (vs ! i) \<and> valid (ls ! i) \<and> valid (hs ! i) \<and>
      lift3 keep_int keep_float (vs ! i) (ls ! i) (hs ! i)"
    unfolding lift3_VList by blast
  have "map_res (\<lambda>(v, l, h). if valid v \<and> valid l \<and> valid h then ternary G v l h
      else Err Bad_variant_type) (zip vs (zip ls hs)) = Ok vs"
    using VList.IH each len by (auto simp: map_res_Ok_iff list_all2_conv_all_nth)
  then show ?case using ab len by simp
qed (auto simp: int_id float_id ternary_vec_id split: option.splits)

lemma apply_ternary_id: "lift3 keep_int keep_float v a b \<Longrightarrow> apply_ternary G v a b = Ok v"
  using ternary_id [of v a b] by (simp add: apply_ternary_def apply3_def)

end

interpretation clamp_id: identity_functor clamp_functor in_range_int in_range_float
proof
  show "in_range_int n lo hi \<Longrightarrow> t_int clamp_functor n lo hi = Ok n" for n lo hi
    by (simp add: in_range_int_def clamp_functor_def sint_lt_def i32.clamp_id)
  show "in_range_float x l h \<Longrightarrow> t_float clamp_functor x l h = x" for x l h
    using fl_lt_not_le by (auto simp: in_range_float_def clamp_functor_def intro!: fl.clamp_id)
qed

definition in_wrap_int :: "i32 \<Rightarrow> i32 \<Rightarrow> i32 \<Rightarrow> bool" where
  "in_wrap_int x l h \<longleftrightarrow> sint l \<le> sint x \<and> sint x < sint h"

definition in_wrap_float :: "fl \<Rightarrow> fl \<Rightarrow> fl \<Rightarrow> bool" where
  "in_wrap_float x l h \<longleftrightarrow> fl_le l x \<and> fl_lt x h"

interpretation wrap_id: identity_functor wrap_functor in_wrap_int in_wrap_float
  by unfold_locales
    (simp_all add: in_wrap_int_def in_wrap_float_def wrap_functor_def wrap_i32_def Let_def wrap_f32_inside)

interpretation fold_id: identity_functor fold_functor in_range_int in_range_float
  by unfold_locales
    (simp_all add: in_range_int_def in_range_float_def fold_functor_def fold_i32_def Let_def fold_f32_inside)

section \<open>Types\<close>

text \<open>Whatever the arguments, the type of the value is kept.\<close>

lemma ternary_type: "ternary G v a b = Ok w \<Longrightarrow> get_type w = get_type v"
  by (cases v) (auto simp: ternary_vec_def split: option.splits if_splits)

lemma apply_ternary_type: "apply_ternary G v a b = Ok w \<Longrightarrow> get_type w = get_type v"
  using ternary_type by (auto simp: apply_ternary_def apply3_def split: if_splits)

lemma binary_type: "binary G v a = Ok w \<Longrightarrow> get_type w = get_type v"
  by (cases v) (auto simp: binary_vec_def split: option.splits if_splits)

lemma apply_binary_type: "apply_binary G v a = Ok w \<Longrightarrow> get_type w = get_type v"
  using binary_type by (auto simp: apply_binary_def apply2_def split: if_splits)

section \<open>clamp is clamp_max followed by clamp_min\<close>

text \<open>Bounds of the same shape as the value.\<close>

abbreviation same_shape :: "val \<Rightarrow> val \<Rightarrow> val \<Rightarrow> bool" where
  "same_shape \<equiv> lift3 (\<lambda>_ _ _. True) (\<lambda>_ _ _. True)"

lemma clamp_scalars [simp]:
  "t_int clamp_functor x l h = res_bind (b_int clamp_max_functor x h) (\<lambda>y. b_int clamp_min_functor y l)"
  "t_float clamp_functor u m n = b_float clamp_min_functor (b_float clamp_max_functor u n) m"
  by (simp_all add: clamp_functor_def clamp_max_functor_def clamp_min_functor_def clamp_def)

lemma clamp_max_int [simp]: "b_int clamp_max_functor x h = Ok (clamp_max sint_lt x h)"
  and clamp_min_int [simp]: "b_int clamp_min_functor x l = Ok (clamp_min sint_lt x l)"
  by (simp_all add: clamp_max_functor_def clamp_min_functor_def)

lemma clamp_max_char:
  "char_to_i32 (i32_to_char (clamp_max sint_lt (char_to_i32 x) (char_to_i32 h))) =
    clamp_max sint_lt (char_to_i32 x) (char_to_i32 h)"
  by (simp add: clamp_max_def)

lemma clamp_max_bool:
  "bool_to_i32 (i32_to_bool (clamp_max sint_lt (bool_to_i32 x) (bool_to_i32 h))) =
    clamp_max sint_lt (bool_to_i32 x) (bool_to_i32 h)"
  by (simp add: clamp_max_def)

lemma clamp_vec:
  assumes "lift3_vec (\<lambda>_ _ _. True) target xs a b" and "\<And>ys. target (con ys) = Some ys"
    and "\<And>v ys. target v = Some ys \<Longrightarrow> target_float v = None"
  shows "\<exists>ys. binary_vec clamp_max_functor con target xs b = con ys \<and>
    ternary_vec clamp_functor con target xs a b = binary_vec clamp_min_functor con target ys a"
proof (cases "target a = None \<or> target b = None")
  case True
  then obtain l h where lh: "target_float a = Some l" "target_float b = Some h"
    using assms(1) by (auto simp: lift3_vec_def split: option.splits)
  then have none: "target a = None" "target b = None"
    using assms(3) [of a] assms(3) [of b] by (metis option.exhaust option.distinct(1))+
  show ?thesis
    by (intro exI [of _ "map (\<lambda>x. b_float clamp_max_functor x h) xs"])
      (simp add: binary_vec_def ternary_vec_def lh none comp_def)
next
  case False
  then obtain ls hs where lh: "target a = Some ls" "target b = Some hs" by auto
  then have len: "length xs = length ls" "length xs = length hs"
    using assms(1) by (simp_all add: lift3_vec_def)
  have "map3 (t_float clamp_functor) xs ls hs =
      map2 (b_float clamp_min_functor) (map2 (b_float clamp_max_functor) xs hs) ls"
    using len by (intro nth_equalityI) simp_all
  then show ?thesis
    by (intro exI [of _ "map2 (b_float clamp_max_functor) xs hs"])
      (simp add: binary_vec_def ternary_vec_def lh)
qed

lemma target_vec_not_float:
  "target_vec2f v = Some xs \<Longrightarrow> target_float v = None"
  "target_vec3f v = Some xs \<Longrightarrow> target_float v = None"
  "target_vec4f v = Some xs \<Longrightarrow> target_float v = None"
  by (cases v; simp)+

lemma clamp_two_steps:
  "same_shape v a b \<Longrightarrow>
    \<exists>w u. binary clamp_max_functor v b = Ok w \<and> binary clamp_min_functor w a = Ok u \<and>
      ternary clamp_functor v a b = Ok u"
proof (induction v arbitrary: a b)
  case (VVec2f xs)
  then show ?case using clamp_vec [of target_vec2f xs a b VVec2f] target_vec_not_float by force
next
  case (VVec3f xs)
  then show ?case using clamp_vec [of target_vec3f xs a b VVec3f] target_vec_not_float by force
next
  case (VVec4f xs)
  then show ?case using clamp_vec [of target_vec4f xs a b VVec4f] target_vec_not_float by force
next
  case (VList vs)
  then obtain ls hs where ab: "a = VList ls" "b = VList hs" and len: "length vs = length ls" "length vs = length hs"
    and each: "\<And>i. i < length vs \<Longrightarrow> valid (vs ! i) \<and> valid (ls ! i) \<and> valid (hs ! i) \<and>
      same_shape (vs ! i) (ls ! i) (hs ! i)"
    unfolding lift3_VList by blast
  have "\<forall>i<length vs. \<exists>w u. binary clamp_max_functor (vs ! i) (hs ! i) = Ok w \<and>
      binary clamp_min_functor w (ls ! i) = Ok u \<and> ternary clamp_functor (vs ! i) (ls ! i) (hs ! i) = Ok u"
    using VList.IH each nth_mem by blast
  then obtain f g where fg: "\<And>i. i < length vs \<Longrightarrow> binary clamp_max_functor (vs ! i) (hs ! i) = Ok (f i) \<and>
      binary clamp_min_functor (f i) (ls ! i) = Ok (g i) \<and>
      ternary clamp_functor (vs ! i) (ls ! i) (hs ! i) = Ok (g i)"
    by metis
  have "valid (f i)" if "i < length vs" for i
    using fg [OF that] each [OF that] binary_type by (metis get_type_NONE valid_iff)
  then have "map_res (\<lambda>(v, l). if valid v \<and> valid l then binary clamp_max_functor v l
        else Err Bad_variant_type) (zip vs hs) = Ok (map f [0..<length vs])"
    and "map_res (\<lambda>(v, l). if valid v \<and> valid l then binary clamp_min_functor v l
        else Err Bad_variant_type) (zip (map f [0..<length vs]) ls) = Ok (map g [0..<length vs])"
    and "map_res (\<lambda>(v, l, h). if valid v \<and> valid l \<and> valid h then ternary clamp_functor v l h
        else Err Bad_variant_type) (zip vs (zip ls hs)) = Ok (map g [0..<length vs])"
    using fg each len by (auto simp: map_res_Ok_iff list_all2_conv_all_nth)
  then show ?case using ab len by simp
qed (auto simp: clamp_max_char clamp_max_bool split: option.splits)

lemma value_clamp_decompose:
  assumes "same_shape v a b"
  shows "value_clamp v a b = res_bind (value_clamp_max v b) (\<lambda>w. value_clamp_min w a)"
proof -
  obtain w u where wu: "binary clamp_max_functor v b = Ok w" "binary clamp_min_functor w a = Ok u"
      "ternary clamp_functor v a b = Ok u"
    using clamp_two_steps [OF assms] by blast
  moreover have "valid v" "valid a" "valid b"
    using assms by (cases v; auto simp: lift3_vec_def split: option.splits)+
  moreover have "valid w" using binary_type [OF wu(1)] \<open>valid v\<close> by (metis get_type_NONE valid_iff)
  ultimately show ?thesis
    by (simp add: value_clamp_def value_clamp_max_def value_clamp_min_def apply_ternary_def
        apply_binary_def apply2_def apply3_def)
qed

end
