(* ===== verification/Value_Convert.thy ===== *)
theory Value_Convert
  imports Value_Clamp
begin

text \<open>
  Conversion of values between types: the converters of
  \<open>network/value/detail/value_conversion_impl.hpp\<close> and the functions \<open>convert\<close> of \<open>value.cpp\<close>.
  Reading a number from a string (\<open>boost::spirit::x3\<close>, \<open>boost::lexical_cast\<close>) and printing one
  (\<open>fmt\<close>) is done by libraries; these functions are the parameter \<open>text_io\<close> of the model. A
  failed \<open>lexical_cast\<close>, which the converters catch, is \<open>None\<close>.
\<close>

record text_io =
  read_int :: "string \<Rightarrow> i32"
  read_float :: "string \<Rightarrow> fl"
  read_bool :: "string \<Rightarrow> bool option"
  read_char :: "string \<Rightarrow> i8 option"
  write_int :: "i32 \<Rightarrow> string"
  write_float :: "fl \<Rightarrow> string"
  write_char :: "i8 \<Rightarrow> string"

section \<open>Numbers\<close>

fun convert_int :: "text_io \<Rightarrow> val \<Rightarrow> i32 res" where
  "convert_int io VImpulse = Ok 0"
| "convert_int io (VInt n) = Ok n"
| "convert_int io (VFloat x) = fl_to_i32 x"
| "convert_int io (VBool b) = Ok (bool_to_i32 b)"
| "convert_int io (VChar c) = Ok (char_to_i32 c)"
| "convert_int io VUnset = Ok 0"
| "convert_int io (VString s) = Ok (read_int io s)"
| "convert_int io (VVec2f xs) = fl_to_i32 (hd xs)"
| "convert_int io (VVec3f xs) = fl_to_i32 (hd xs)"
| "convert_int io (VVec4f xs) = fl_to_i32 (hd xs)"
| "convert_int io (VList []) = Ok 0"
| "convert_int io (VList (v # vs)) = convert_int io v"

fun convert_float :: "text_io \<Rightarrow> val \<Rightarrow> fl" where
  "convert_float io VImpulse = fl_zero"
| "convert_float io (VInt n) = fl_of_int F32 (sint n)"
| "convert_float io (VFloat x) = x"
| "convert_float io (VBool b) = fl_of_bool b"
| "convert_float io (VChar c) = fl_of_int F32 (sint c)"
| "convert_float io VUnset = fl_zero"
| "convert_float io (VString s) = read_float io s"
| "convert_float io (VVec2f xs) = hd xs"
| "convert_float io (VVec3f xs) = hd xs"
| "convert_float io (VVec4f xs) = hd xs"
| "convert_float io (VList []) = fl_zero"
| "convert_float io (VList (v # vs)) = convert_float io v"

fun convert_bool :: "text_io \<Rightarrow> val \<Rightarrow> bool" where
  "convert_bool io VImpulse = False"
| "convert_bool io (VInt n) = (n \<noteq> 0)"
| "convert_bool io (VFloat x) = fl_to_bool x"
| "convert_bool io (VBool b) = b"
| "convert_bool io (VChar c) = (c \<noteq> 0)"
| "convert_bool io VUnset = False"
| "convert_bool io (VString s) = (case read_bool io s of Some b \<Rightarrow> b | None \<Rightarrow> False)"
| "convert_bool io (VVec2f xs) = fl_to_bool (hd xs)"
| "convert_bool io (VVec3f xs) = fl_to_bool (hd xs)"
| "convert_bool io (VVec4f xs) = fl_to_bool (hd xs)"
| "convert_bool io (VList []) = False"
| "convert_bool io (VList (v # vs)) = convert_bool io v"

fun convert_char :: "text_io \<Rightarrow> val \<Rightarrow> i8 res" where
  "convert_char io VImpulse = Ok 0"
| "convert_char io (VInt n) = Ok (i32_to_char n)"
| "convert_char io (VFloat x) = fl_to_i8 x"
| "convert_char io (VBool b) = Ok (i32_to_char (bool_to_i32 b))"
| "convert_char io (VChar c) = Ok c"
| "convert_char io VUnset = Ok 0"
| "convert_char io (VString s) = Ok (case read_char io s of Some c \<Rightarrow> c | None \<Rightarrow> 0)"
| "convert_char io (VVec2f xs) = fl_to_i8 (hd xs)"
| "convert_char io (VVec3f xs) = fl_to_i8 (hd xs)"
| "convert_char io (VVec4f xs) = fl_to_i8 (hd xs)"
| "convert_char io (VList []) = Ok 0"
| "convert_char io (VList (v # vs)) = convert_char io v"

section \<open>Strings\<close>

fun join_comma :: "string list \<Rightarrow> string" where
  "join_comma [] = []"
| "join_comma [s] = s"
| "join_comma (s # ss) = s @ '', '' @ join_comma ss"

definition write_vec :: "text_io \<Rightarrow> fl list \<Rightarrow> string" where
  "write_vec io xs = ''['' @ join_comma (map (write_float io) xs) @ '']''"

fun fmt_write :: "text_io \<Rightarrow> val \<Rightarrow> string" where
  "fmt_write io VImpulse = ''impulse''"
| "fmt_write io (VInt n) = write_int io n"
| "fmt_write io (VFloat x) = write_float io x"
| "fmt_write io (VBool b) = (if b then ''true'' else ''false'')"
| "fmt_write io (VChar c) = write_char io c"
| "fmt_write io (VString s) = s"
| "fmt_write io VUnset = ''''"
| "fmt_write io (VVec2f xs) = write_vec io xs"
| "fmt_write io (VVec3f xs) = write_vec io xs"
| "fmt_write io (VVec4f xs) = write_vec io xs"
| "fmt_write io (VList vs) = ''['' @ join_comma (map (fmt_write io) vs) @ '']''"

fun convert_string :: "text_io \<Rightarrow> val \<Rightarrow> string" where
  "convert_string io (VChar c) = [char_of (nat (uint c))]"
| "convert_string io v = fmt_write io v"

section \<open>Lists and arrays\<close>

fun convert_list :: "val \<Rightarrow> val list" where
  "convert_list (VVec2f xs) = map VFloat xs"
| "convert_list (VVec3f xs) = map VFloat xs"
| "convert_list (VVec4f xs) = map VFloat xs"
| "convert_list (VList vs) = vs"
| "convert_list VUnset = []"
| "convert_list v = [v]"

text \<open>The first elements of \<open>ys\<close>, in the place of those of \<open>xs\<close>.\<close>

definition overwrite :: "'a list \<Rightarrow> 'a list \<Rightarrow> 'a list" where
  "overwrite xs ys = take (length xs) ys @ drop (length ys) xs"

definition zeros :: "nat \<Rightarrow> fl list" where
  "zeros n = replicate n fl_zero"

definition list_to_vec :: "text_io \<Rightarrow> nat \<Rightarrow> val list \<Rightarrow> fl list" where
  "list_to_vec io n vs = overwrite (zeros n) (map (convert_float io) (take n vs))"

text \<open>\<open>value_converter<std::array<float, N>>\<close>, with the current array; \<open>N\<close> is its length.\<close>

fun convert_vec :: "text_io \<Rightarrow> fl list \<Rightarrow> val \<Rightarrow> fl list" where
  "convert_vec io cur (VVec2f xs) = overwrite cur xs"
| "convert_vec io cur (VVec3f xs) = overwrite cur xs"
| "convert_vec io cur (VVec4f xs) = overwrite cur xs"
| "convert_vec io cur (VFloat x) = replicate (length cur) x"
| "convert_vec io cur (VInt n) = replicate (length cur) (fl_of_int F32 (sint n))"
| "convert_vec io cur (VChar c) = replicate (length cur) (fl_of_int F32 (sint c))"
| "convert_vec io cur (VBool b) = replicate (length cur) (if b then fl_one else fl_zero)"
| "convert_vec io cur (VList vs) = list_to_vec io (length cur) vs"
| "convert_vec io cur v = zeros (length cur)"

section \<open>Conversion to a type\<close>

fun convert_to :: "text_io \<Rightarrow> val_type \<Rightarrow> val \<Rightarrow> val res" where
  "convert_to io T_IMPULSE v = Ok VImpulse"
| "convert_to io T_BOOL v = Ok (VBool (convert_bool io v))"
| "convert_to io T_INT v = res_map VInt (convert_int io v)"
| "convert_to io T_FLOAT v = Ok (VFloat (convert_float io v))"
| "convert_to io T_CHAR v = res_map VChar (convert_char io v)"
| "convert_to io T_STRING v = Ok (VString (convert_string io v))"
| "convert_to io T_LIST v = Ok (VList (convert_list v))"
| "convert_to io T_VEC2F v = Ok (VVec2f (convert_vec io (zeros 2) v))"
| "convert_to io T_VEC3F v = Ok (VVec3f (convert_vec io (zeros 3) v))"
| "convert_to io T_VEC4F v = Ok (VVec4f (convert_vec io (zeros 4) v))"
| "convert_to io T_NONE v = Ok VUnset"

text \<open>Conversion to the type of a current value, which fills the places that an array leaves open.\<close>

fun convert_like :: "text_io \<Rightarrow> val \<Rightarrow> val \<Rightarrow> val res" where
  "convert_like io v VUnset = Ok VUnset"
| "convert_like io v VImpulse = Ok VImpulse"
| "convert_like io v (VVec2f cur) = Ok (VVec2f (convert_vec io cur v))"
| "convert_like io v (VVec3f cur) = Ok (VVec3f (convert_vec io cur v))"
| "convert_like io v (VVec4f cur) = Ok (VVec4f (convert_vec io cur v))"
| "convert_like io v cur = convert_to io (get_type cur) v"

section \<open>Types and well-formedness\<close>

definition wf_text :: "text_io \<Rightarrow> bool" where
  "wf_text io \<longleftrightarrow> (\<forall>s. wf_fl F32 (read_float io s))"

lemma length_overwrite [simp]: "length (overwrite xs ys) = length xs"
  by (simp add: overwrite_def)

lemma overwrite_same: "length xs = length ys \<Longrightarrow> overwrite xs ys = ys"
  by (simp add: overwrite_def)

lemma nth_overwrite:
  "i < length xs \<Longrightarrow> overwrite xs ys ! i = (if i < length ys then ys ! i else xs ! i)"
  by (simp add: overwrite_def nth_append min_def)

lemma set_overwrite: "set (overwrite xs ys) \<subseteq> set xs \<union> set ys"
  by (auto simp: overwrite_def dest: in_set_takeD in_set_dropD)

lemma length_zeros [simp]: "length (zeros n) = n"
  by (simp add: zeros_def)

lemma length_list_to_vec [simp]: "length (list_to_vec io n vs) = n"
  by (simp add: list_to_vec_def)

lemma length_convert_vec [simp]: "length (convert_vec io cur v) = length cur"
  by (cases v) simp_all

lemma wf_vec_hd: "wf_vec n xs \<Longrightarrow> 0 < n \<Longrightarrow> wf_fl F32 (hd xs)"
  by (cases xs) (auto simp: wf_vec_def)

lemma wf_convert_float: "wf_text io \<Longrightarrow> wf_val v \<Longrightarrow> wf_fl F32 (convert_float io v)"
  by (induction io v rule: convert_float.induct)
    (auto simp: wf_text_def wf_fl_of_int wf_fl_of_bool intro: wf_vec_hd)

lemma wf_overwrite:
  "list_all (wf_fl F32) xs \<Longrightarrow> list_all (wf_fl F32) ys \<Longrightarrow> list_all (wf_fl F32) (overwrite xs ys)"
  using set_overwrite [of xs ys] by (auto simp: list_all_iff)

lemma wf_zeros: "list_all (wf_fl F32) (zeros n)"
  by (simp add: zeros_def list_all_iff)

lemma wf_list_to_vec:
  assumes "wf_text io" "list_all wf_val vs"
  shows "list_all (wf_fl F32) (list_to_vec io n vs)"
  unfolding list_to_vec_def
proof (rule wf_overwrite [OF wf_zeros])
  show "list_all (wf_fl F32) (map (convert_float io) (take n vs))"
    using assms wf_convert_float by (auto simp: list_all_iff dest: in_set_takeD)
qed

lemma wf_replicate: "wf_fl F32 x \<Longrightarrow> list_all (wf_fl F32) (replicate n x)"
  by (simp add: list_all_length)

lemma wf_convert_vec:
  assumes "wf_text io" "wf_val v" "list_all (wf_fl F32) cur"
  shows "list_all (wf_fl F32) (convert_vec io cur v)"
  using assms(2) wf_overwrite [OF assms(3)] wf_list_to_vec [OF assms(1)] wf_zeros
  by (cases v) (simp_all add: wf_vec_def wf_fl_of_int wf_replicate)

lemma convert_to_type: "convert_to io t v = Ok w \<Longrightarrow> get_type w = t"
  by (cases t) auto

lemma wf_convert_list: "wf_val v \<Longrightarrow> list_all wf_val (convert_list v)"
  by (cases v) (auto simp: wf_vec_def list_all_iff)

lemma convert_to_wf:
  assumes "wf_text io" "wf_val v" "convert_to io t v = Ok w"
  shows "wf_val w"
  using assms wf_convert_float [OF assms(1,2)] wf_convert_vec [OF assms(1,2) wf_zeros]
    wf_convert_list [OF assms(2)]
  by (cases t) (auto simp: wf_vec_def)

text \<open>A value of the type is kept.\<close>

lemma convert_to_same:
  "wf_val v \<Longrightarrow> get_type v = t \<Longrightarrow> convert_to io t v = Ok v"
  by (cases v) (auto simp: wf_vec_def overwrite_same)

lemma convert_like_same:
  "wf_val v \<Longrightarrow> wf_val cur \<Longrightarrow> get_type v = get_type cur \<Longrightarrow> convert_like io v cur = Ok v"
  by (cases v; cases cur) (auto simp: wf_vec_def overwrite_same)

lemma convert_like_type: "convert_like io v cur = Ok w \<Longrightarrow> get_type w = get_type cur"
  by (cases cur) (auto dest: convert_to_type)

text \<open>
  Only a floating-point number out of the range of an integer type makes a conversion fail. The
  number a value stands for in a conversion to \<open>int\<close> or \<open>char\<close> is its first scalar.
\<close>

fun first_scalar :: "val \<Rightarrow> val" where
  "first_scalar (VVec2f xs) = VFloat (hd xs)"
| "first_scalar (VVec3f xs) = VFloat (hd xs)"
| "first_scalar (VVec4f xs) = VFloat (hd xs)"
| "first_scalar (VList (v # vs)) = first_scalar v"
| "first_scalar v = v"

lemma convert_int_total:
  "(\<And>x. first_scalar v = VFloat x \<Longrightarrow> \<exists>n. fl_to_i32 x = Ok n) \<Longrightarrow> \<exists>n. convert_int io v = Ok n"
  by (induction io v rule: convert_int.induct) auto

lemma convert_char_total:
  "(\<And>x. first_scalar v = VFloat x \<Longrightarrow> \<exists>n. fl_to_i8 x = Ok n) \<Longrightarrow> \<exists>n. convert_char io v = Ok n"
  by (induction io v rule: convert_char.induct) auto

section \<open>Round trips\<close>

lemma list_to_vec_floats: "length xs = n \<Longrightarrow> list_to_vec io n (map VFloat xs) = xs"
  by (simp add: list_to_vec_def overwrite_same comp_def take_map)

lemma vec_list_roundtrip:
  assumes "wf_val v" and "get_type v \<in> {T_VEC2F, T_VEC3F, T_VEC4F}"
  shows "convert_to io (get_type v) (VList (convert_list v)) = Ok v"
  using assms list_to_vec_floats by (cases v) (auto simp: wf_vec_def)

lemma char_int_roundtrip: "convert_char io (VInt (char_to_i32 c)) = Ok c"
  by (simp add: i32_to_char_def flip: sint_eq_iff)

lemma exact_i32_float:
  assumes "\<bar>sint n\<bar> \<le> 2 ^ 24"
  shows "convert_int io (VFloat (convert_float io (VInt n))) = Ok n"
proof -
  have "exact_int F32 (sint n)" using assms by (simp add: exact_int_def)
  then have "fl_trunc (fl_of_int F32 (sint n)) = Ok (sint n)"
    using is_int_fl_of_int is_int_fl_trunc by blast
  then show ?thesis using sint_i32_range [of n] by (simp add: fl_to_i32_def)
qed

end
