(* ===== verification/Value_Merge.thy ===== *)
theory Value_Merge
  imports Value_Clamp
begin

text \<open>
  Merging a value into another one, and inserting a value at an index of a list: the struct
  \<open>value_merger\<close> of \<open>network/value/value_algorithms.hpp\<close>. The template argument
  \<open>SourcePrecedence\<close> is the first argument of each function.
\<close>

section \<open>Merging\<close>

definition write_float_to :: "val \<Rightarrow> fl \<Rightarrow> fl" where
  "write_float_to v f =
     (case v of
        VInt n \<Rightarrow> fl_of_int F32 (sint n)
      | VFloat x \<Rightarrow> x
      | VChar c \<Rightarrow> fl_of_int F32 (sint c)
      | VBool b \<Rightarrow> fl_of_bool b
      | _ \<Rightarrow> f)"

definition set_first_float :: "fl list \<Rightarrow> val \<Rightarrow> fl list" where
  "set_first_float xs v = xs[0 := write_float_to v (xs ! 0)]"

text \<open>\<open>merge_list\<close> with an array on one side at least.\<close>

definition merge_vec_list :: "fl list \<Rightarrow> val list \<Rightarrow> fl list" where
  "merge_vec_list xs vs =
     (let n = min (length xs) (length vs)
      in map2 write_float_to (take n vs) (take n xs) @ drop n xs)"

definition merge_vec_vec :: "fl list \<Rightarrow> fl list \<Rightarrow> fl list" where
  "merge_vec_vec xs ys =
     (let n = min (length xs) (length ys) in take n ys @ drop n xs)"

definition merge_list_vec :: "val list \<Rightarrow> fl list \<Rightarrow> val list" where
  "merge_list_vec vs xs = map VFloat xs @ drop (length xs) vs"

function merge_value :: "bool \<Rightarrow> val \<Rightarrow> val \<Rightarrow> val"
  and merge_lists :: "bool \<Rightarrow> val list \<Rightarrow> val list \<Rightarrow> val list" where
  "merge_value sp dest src =
     (if \<not> valid dest then src
      else if valid src then
        (case src of
           VList ss \<Rightarrow>
             (case dest of
                VList ds \<Rightarrow> VList (merge_lists sp ds ss)
              | VVec2f xs \<Rightarrow> VVec2f (merge_vec_list xs ss)
              | VVec3f xs \<Rightarrow> VVec3f (merge_vec_list xs ss)
              | VVec4f xs \<Rightarrow> VVec4f (merge_vec_list xs ss)
              | _ \<Rightarrow> dest)
         | VVec2f ys \<Rightarrow>
             (case dest of
                VList ds \<Rightarrow> VList (merge_list_vec ds ys)
              | VVec2f xs \<Rightarrow> VVec2f (merge_vec_vec xs ys)
              | VVec3f xs \<Rightarrow> VVec3f (merge_vec_vec xs ys)
              | VVec4f xs \<Rightarrow> VVec4f (merge_vec_vec xs ys)
              | _ \<Rightarrow> dest)
         | VVec3f ys \<Rightarrow>
             (case dest of
                VList ds \<Rightarrow> VList (merge_list_vec ds ys)
              | VVec2f xs \<Rightarrow> VVec2f (merge_vec_vec xs ys)
              | VVec3f xs \<Rightarrow> VVec3f (merge_vec_vec xs ys)
              | VVec4f xs \<Rightarrow> VVec4f (merge_vec_vec xs ys)
              | _ \<Rightarrow> dest)
         | VVec4f ys \<Rightarrow>
             (case dest of
                VList ds \<Rightarrow> VList (merge_list_vec ds ys)
              | VVec2f xs \<Rightarrow> VVec2f (merge_vec_vec xs ys)
              | VVec3f xs \<Rightarrow> VVec3f (merge_vec_vec xs ys)
              | VVec4f xs \<Rightarrow> VVec4f (merge_vec_vec xs ys)
              | _ \<Rightarrow> dest)
         | _ \<Rightarrow>
             (case dest of
                VList [] \<Rightarrow> VList [src]
              | VList (d # ds) \<Rightarrow> VList (merge_value sp d src # ds)
              | VVec2f xs \<Rightarrow> VVec2f (set_first_float xs src)
              | VVec3f xs \<Rightarrow> VVec3f (set_first_float xs src)
              | VVec4f xs \<Rightarrow> VVec4f (set_first_float xs src)
              | _ \<Rightarrow> if sp then src else dest))
      else
        (case dest of
           VList [] \<Rightarrow> VList [src]
         | VList (d # ds) \<Rightarrow> VList (merge_value sp d src # ds)
         | _ \<Rightarrow> dest))"
| "merge_lists sp ds [] = ds"
| "merge_lists sp [] (s # ss) = merge_value sp VUnset s # merge_lists sp [] ss"
| "merge_lists sp (d # ds) (s # ss) = merge_value sp d s # merge_lists sp ds ss"
  by pat_completeness auto
termination
  by (relation "measure (\<lambda>x. case x of Inl (_, d, s) \<Rightarrow> size d + size s
      | Inr (_, ds, ss) \<Rightarrow> size_list size ds + size_list size ss)") auto

declare merge_value.simps [simp del]

section \<open>Inserting in a list\<close>

definition resize_to :: "nat \<Rightarrow> val list \<Rightarrow> val list" where
  "resize_to n vs = vs @ replicate (n - length vs) VUnset"

text \<open>
  A negative index is converted to \<open>std::size_t\<close>: \<open>-1\<close> makes \<open>pos + 1\<close> wrap to zero and the access
  is out of bounds, a smaller one asks for more elements than a vector can hold.
\<close>

fun insert_in_list :: "bool \<Rightarrow> val list \<Rightarrow> val \<Rightarrow> i32 list \<Rightarrow> val list res" where
  "insert_in_list sp cur v [] = Ok cur"
| "insert_in_list sp cur v (i # is) =
     (if sint i = - 1 then Err Undefined_behaviour
      else if sint i < 0 then Err Length_error
      else
        (let pos = nat (sint i);
             cur' = (if length cur < pos + 1 then resize_to (pos + 1) cur else cur)
         in if is = [] then Ok (cur'[pos := merge_value sp (cur' ! pos) v])
            else
              (let sub = (case cur' ! pos of VList vs \<Rightarrow> vs | w \<Rightarrow> [w])
               in res_map (\<lambda>sub'. cur'[pos := VList sub']) (insert_in_list sp sub v is))))"

section \<open>Laws of merging\<close>

lemma merge_invalid_dest [simp]: "merge_value sp VUnset s = s"
  by (simp add: merge_value.simps)

lemma length_merge_vec_list [simp]: "length (merge_vec_list xs vs) = length xs"
  by (simp add: merge_vec_list_def Let_def)

lemma length_merge_vec_vec [simp]: "length (merge_vec_vec xs ys) = length xs"
  by (simp add: merge_vec_vec_def Let_def)

lemma length_set_first_float [simp]: "length (set_first_float xs v) = length xs"
  by (simp add: set_first_float_def)

lemma length_merge_lists: "length (merge_lists sp ds ss) = max (length ds) (length ss)"
  by (induction sp ds ss rule: merge_value_merge_lists.induct(2) [where P = "\<lambda>_ _ _. True"]) auto

lemma nth_merge_lists:
  "i < length (merge_lists sp ds ss) \<Longrightarrow>
    merge_lists sp ds ss ! i =
      (if i < length ss then merge_value sp (if i < length ds then ds ! i else VUnset) (ss ! i) else ds ! i)"
proof (induction ss arbitrary: ds i)
  case (Cons s ss)
  then show ?case by (cases ds; cases i) (simp_all add: length_merge_lists)
qed (simp add: length_merge_lists)

lemma write_float_wf: "wf_val v \<Longrightarrow> wf_fl F32 f \<Longrightarrow> wf_fl F32 (write_float_to v f)"
  by (cases v) (simp_all add: write_float_to_def wf_fl_of_int wf_fl_of_bool)

text \<open>Without source precedence, a set value that holds no list is not replaced by a value that is
  neither a list nor an array; with it, it is replaced.\<close>

lemma merge_scalar:
  "\<not> is_array dest \<Longrightarrow> \<not> is_array src \<Longrightarrow> valid dest \<Longrightarrow> valid src \<Longrightarrow>
    merge_value sp dest src = (if sp then src else dest)"
  by (cases dest; cases src) (simp_all add: merge_value.simps)

lemma merge_idem_scalar: "\<not> is_array src \<Longrightarrow> merge_value sp src src = src"
  by (cases src) (simp_all add: merge_value.simps)

section \<open>Laws of the insertion\<close>

definition elements :: "val \<Rightarrow> val list" where
  "elements w = (case w of VList vs \<Rightarrow> vs | u \<Rightarrow> [u])"

definition element :: "val list \<Rightarrow> nat \<Rightarrow> val" where
  "element vs i = (if i < length vs then vs ! i else VUnset)"

text \<open>What is stored at an index before the insertion; a value that is not a list counts as the
  first element of the list that replaces it.\<close>

fun slot :: "val list \<Rightarrow> nat list \<Rightarrow> val" where
  "slot vs [] = VUnset"
| "slot vs [i] = element vs i"
| "slot vs (i # is) = slot (elements (element vs i)) is"

definition positions :: "i32 list \<Rightarrow> nat list" where
  "positions idx = map (\<lambda>i. nat (sint i)) idx"

definition grown :: "nat \<Rightarrow> val list \<Rightarrow> val list" where
  "grown n vs = (if length vs < n then resize_to n vs else vs)"

lemma length_grown [simp]: "length (grown n vs) = max (length vs) n"
  by (simp add: grown_def resize_to_def)

lemma nth_grown: "i < length (grown n vs) \<Longrightarrow> grown n vs ! i = element vs i"
  by (auto simp: grown_def resize_to_def element_def nth_append)

lemma insert_in_list_step:
  assumes "0 \<le> sint i"
  shows "insert_in_list sp cur v (i # is) =
    (let pos = nat (sint i)
     in if is = [] then Ok ((grown (pos + 1) cur)[pos := merge_value sp (element cur pos) v])
        else res_map (\<lambda>sub'. (grown (pos + 1) cur)[pos := VList sub'])
               (insert_in_list sp (elements (element cur pos)) v is))"
proof -
  have eq: "element cur (nat (sint i)) = grown (nat (sint i) + 1) cur ! nat (sint i)"
    by (intro nth_grown [symmetric]) simp
  have "sint i \<noteq> - 1" "\<not> sint i < 0" using assms by auto
  then show ?thesis
    unfolding insert_in_list.simps Let_def grown_def [symmetric] elements_def eq by (simp only: if_False)
qed

lemma insert_in_list_ok:
  assumes "\<forall>i\<in>set idx. 0 \<le> sint i"
  shows "\<exists>t'. insert_in_list sp t v idx = Ok t'"
  using assms
proof (induction idx arbitrary: t)
  case (Cons i idx)
  then have "\<exists>s. insert_in_list sp (elements (element t (nat (sint i)))) v idx = Ok s" by simp
  then show ?case using Cons.prems by (auto simp: insert_in_list_step Let_def simp del: insert_in_list.simps)
qed simp

lemma insert_in_list_descend:
  assumes "\<forall>i\<in>set idx. 0 \<le> sint i" and "idx \<noteq> []" and "insert_in_list sp t v idx = Ok t'"
  shows "descend (VList t') (positions idx) = Some (merge_value sp (slot t (positions idx)) v)"
  using assms
proof (induction idx arbitrary: t t')
  case (Cons i idx)
  let ?p = "nat (sint i)"
  have lt: "?p < length (grown (?p + 1) t)" by simp
  show ?case
  proof (cases "idx = []")
    case True
    then have "t' = (grown (?p + 1) t)[?p := merge_value sp (element t ?p) v]"
      using Cons.prems by (auto simp: insert_in_list_step Let_def simp del: insert_in_list.simps)
    then show ?thesis using True lt by (simp add: positions_def)
  next
    case False
    then obtain s where s: "insert_in_list sp (elements (element t ?p)) v idx = Ok s"
      "t' = (grown (?p + 1) t)[?p := VList s]"
      using Cons.prems by (auto simp: insert_in_list_step Let_def simp del: insert_in_list.simps)
    have "descend (VList s) (positions idx) =
        Some (merge_value sp (slot (elements (element t ?p)) (positions idx)) v)"
      using Cons.IH [OF _ False s(1)] Cons.prems(1) by simp
    moreover have "slot t (positions (i # idx)) = slot (elements (element t ?p)) (positions idx)"
      using False by (cases idx) (simp_all add: positions_def)
    ultimately show ?thesis using s(2) lt by (simp add: positions_def)
  qed
qed simp

lemma insert_in_list_read:
  assumes "\<forall>i\<in>set idx. 0 \<le> sint i" and "idx \<noteq> []" and "insert_in_list sp t v idx = Ok t'"
  shows "get_value_at_index (VList t') idx = Ok (merge_value sp (slot t (positions idx)) v)"
  using get_value_at_index_descend [OF assms(1), of "VList t'"] insert_in_list_descend [OF assms]
  by (simp add: positions_def)

text \<open>The other elements of the list stay, and the ones added in between are unset.\<close>

lemma insert_in_list_frame:
  assumes "0 \<le> sint i" and "insert_in_list sp t v (i # idx) = Ok t'" and "j \<noteq> nat (sint i)"
  shows "element t' j = element t j" and "length t' = max (length t) (nat (sint i) + 1)"
proof -
  obtain w where w: "t' = (grown (nat (sint i) + 1) t)[nat (sint i) := w]"
    using assms(1,2)
    by (auto simp: insert_in_list_step Let_def simp del: insert_in_list.simps split: if_splits)
  then show "length t' = max (length t) (nat (sint i) + 1)" by simp
  show "element t' j = element t j"
    using w assms(3) nth_grown [of j "nat (sint i) + 1" t] by (auto simp: element_def)
qed

end
