(* ===== verification/Lexical_Cast.thy ===== *)
theory Lexical_Cast
  imports Ossia_Prelude "HOL-Library.Char_ord"
begin

text \<open>
  The conversions between decimal strings and \<open>int\<close> that the naming of nodes relies on:
  \<open>boost::lexical_cast<int>(std::string)\<close>, \<open>try_lexical_convert\<close> and
  \<open>boost::lexical_cast<std::string>(int)\<close>, from the copy of Boost in the repository
  (\<open>lcast_unsigned_converters.hpp\<close>, \<open>converter_lexical_streams.hpp\<close>), in the classic locale. An
  \<open>unsigned\<close> is an integer whose arithmetic wraps modulo \<open>2 ^ 32\<close>.
\<close>

section \<open>Reading an integer\<close>

definition maxu :: int where "maxu = 4294967295"

definition wrap32 :: "int \<Rightarrow> int" where "wrap32 n = n mod 4294967296"

definition char_code :: "char \<Rightarrow> int" where
  "char_code c = int (of_char c)"

definition is_digit :: "char \<Rightarrow> bool" where
  "is_digit c \<longleftrightarrow> 48 \<le> char_code c \<and> char_code c < 58"

definition digit_value :: "char \<Rightarrow> int" where
  "digit_value c = char_code c - 48"

text \<open>
  \<open>main_convert_loop\<close>: the digits from the last but one to the first, with the value read so far,
  the multiplier of the last digit read and whether it has overflowed.
\<close>

fun ret_loop :: "bool \<Rightarrow> int \<Rightarrow> int \<Rightarrow> string \<Rightarrow> int option" where
  "ret_loop overflowed multiplier v [] = Some v"
| "ret_loop overflowed multiplier v (c # cs) =
     (let overflowed' = (overflowed \<or> maxu div 10 < multiplier);
          multiplier' = wrap32 (multiplier * 10);
          dig = digit_value c;
          sub = wrap32 (multiplier' * dig)
      in if \<not> is_digit c \<or>
            (dig \<noteq> 0 \<and> (overflowed' \<or> maxu div dig < multiplier' \<or> maxu - sub < v))
         then None
         else ret_loop overflowed' multiplier' (wrap32 (v + sub)) cs)"

definition ret_unsigned :: "string \<Rightarrow> int option" where
  "ret_unsigned s =
     (case rev s of
        [] \<Rightarrow> None
      | c # cs \<Rightarrow> if \<not> is_digit c then None else ret_loop False 1 (digit_value c) cs)"

definition lexical_to_int :: "string \<Rightarrow> int option" where
  "lexical_to_int s =
     (case s of
        [] \<Rightarrow> None
      | c # cs \<Rightarrow>
          if c = CHR ''-'' then
            (case ret_unsigned cs of
               Some n \<Rightarrow> if n \<le> 2147483648 then Some (- n) else None
             | None \<Rightarrow> None)
          else
            (case ret_unsigned (if c = CHR ''+'' then cs else s) of
               Some n \<Rightarrow> if n \<le> 2147483647 then Some n else None
             | None \<Rightarrow> None))"

section \<open>Writing an integer\<close>

definition digit_char :: "int \<Rightarrow> char" where
  "digit_char d = char_of (nat (d + 48))"

function put_loop :: "int \<Rightarrow> string \<Rightarrow> string" where
  "put_loop n acc =
     (let acc' = digit_char (n mod 10) # acc
      in if n div 10 \<le> 0 then acc' else put_loop (n div 10) acc')"
  by pat_completeness auto
termination by (relation "measure (\<lambda>(n, _). nat n)") auto

declare put_loop.simps [simp del]

definition int_to_string :: "int \<Rightarrow> string" where
  "int_to_string n = (if n < 0 then CHR ''-'' # put_loop (- n) [] else put_loop n [])"

section \<open>What is read\<close>

text \<open>The value of a string of digits, given in reverse.\<close>

fun rev_value :: "string \<Rightarrow> int" where
  "rev_value [] = 0"
| "rev_value (c # cs) = digit_value c + 10 * rev_value cs"

abbreviation digits :: "string \<Rightarrow> bool" where
  "digits \<equiv> list_all is_digit"

lemma digit_value_range: "is_digit c \<Longrightarrow> 0 \<le> digit_value c \<and> digit_value c \<le> 9"
  by (simp add: is_digit_def digit_value_def)

lemma rev_value_nonneg: "digits cs \<Longrightarrow> 0 \<le> rev_value cs"
  by (induction cs) (auto dest: digit_value_range)

lemma div_less_mult_iff: "0 < d \<Longrightarrow> a div d < q \<longleftrightarrow> a < q * (d :: int)"
proof -
  assume d: "0 < d"
  have eq: "a = (a div d) * d + a mod d" and r: "0 \<le> a mod d" "a mod d < d"
    using d by simp_all
  show ?thesis
  proof (cases "a div d < q")
    case True
    then have "(a div d + 1) * d \<le> q * d" using d by (intro mult_right_mono) auto
    then have "a < q * d" using eq r by (simp only: distrib_right)
    then show ?thesis using True by simp
  next
    case False
    then have "q * d \<le> (a div d) * d" using d by (intro mult_right_mono) auto
    then show ?thesis using False eq r by linarith
  qed
qed

lemma wrap32_small: "0 \<le> n \<Longrightarrow> n \<le> maxu \<Longrightarrow> wrap32 n = n"
  by (simp add: wrap32_def maxu_def)

lemma overflow_step:
  assumes "ov \<longleftrightarrow> maxu < p" "\<not> ov \<Longrightarrow> m = p" "0 < p"
  shows "(ov \<or> maxu div 10 < m) \<longleftrightarrow> maxu < 10 * p"
proof (cases ov)
  case True
  then show ?thesis using assms by simp
next
  case False
  have "maxu div 10 < p \<longleftrightarrow> maxu < p * 10" by (rule div_less_mult_iff) simp
  then show ?thesis using False assms(2) by (simp add: mult.commute)
qed

lemma overflow_multiplier: "0 < p \<Longrightarrow> 10 * p \<le> maxu \<Longrightarrow> wrap32 (p * 10) = 10 * p"
  by (simp add: wrap32_def maxu_def)

lemma overflow_sub:
  assumes "0 < d" "0 \<le> v" "0 < p" "ov \<longleftrightarrow> maxu < q" "\<not> ov \<Longrightarrow> m = q" "0 < q"
  shows "(ov \<or> maxu div d < m \<or> maxu - wrap32 (m * d) < v) \<longleftrightarrow> maxu < v + q * d"
proof (cases ov)
  case True
  then have "maxu < q" using assms by simp
  also have "q \<le> q * d" using assms by simp
  finally show ?thesis using True assms(2) by simp
next
  case False
  then have m: "m = q" using assms by simp
  have div: "maxu div d < q \<longleftrightarrow> maxu < q * d" by (rule div_less_mult_iff) (rule assms(1))
  show ?thesis
  proof (cases "maxu < q * d")
    case True
    then show ?thesis using False m div assms(2) by simp
  next
    case f: False
    moreover have "0 \<le> q * d" using assms by simp
    ultimately have "wrap32 (q * d) = q * d" by (simp add: wrap32_def maxu_def)
    then show ?thesis using False f m div by auto
  qed
qed

lemma ret_loop_eq:
  assumes "0 \<le> v" "v \<le> maxu" "ov \<longleftrightarrow> maxu < p" "\<not> ov \<Longrightarrow> m = p" "0 < p"
  shows "ret_loop ov m v cs =
    (if digits cs \<and> v + 10 * p * rev_value cs \<le> maxu then Some (v + 10 * p * rev_value cs) else None)"
  using assms
proof (induction cs arbitrary: ov m v p)
  case Nil
  then show ?case by simp
next
  case (Cons c cs)
  define ov' where "ov' \<longleftrightarrow> ov \<or> maxu div 10 < m"
  define m' where "m' = wrap32 (m * 10)"
  define d where "d = digit_value c"
  have ov': "ov' \<longleftrightarrow> maxu < 10 * p"
    unfolding ov'_def using Cons.prems(3-5) by (rule overflow_step)
  have m': "m' = 10 * p" if "\<not> ov'"
    using that ov' Cons.prems(3-5) overflow_multiplier by (simp add: m'_def)
  have step: "ret_loop ov m v (c # cs) =
     (if \<not> is_digit c \<or> (d \<noteq> 0 \<and> (ov' \<or> maxu div d < m' \<or> maxu - wrap32 (m' * d) < v))
      then None else ret_loop ov' m' (wrap32 (v + wrap32 (m' * d))) cs)"
    by (simp only: ret_loop.simps Let_def ov'_def m'_def d_def)
  have IH: "ret_loop ov' m' w cs = (if digits cs \<and> w + 10 * (10 * p) * rev_value cs \<le> maxu
      then Some (w + 10 * (10 * p) * rev_value cs) else None)" if "0 \<le> w" "w \<le> maxu" for w
    using that ov' m' Cons.prems(5) by (intro Cons.IH) auto
  show ?case
  proof (cases "is_digit c")
    case False
    then show ?thesis unfolding step by simp
  next
    case True
    have d: "0 \<le> d" using digit_value_range [OF True] by (simp add: d_def)
    have split: "v + 10 * p * rev_value (c # cs) = (v + 10 * p * d) + 10 * (10 * p) * rev_value cs"
      by (simp add: d_def algebra_simps)
    have big: "\<not> (digits cs \<and> (v + 10 * p * d) + 10 * (10 * p) * rev_value cs \<le> maxu)"
      if "maxu < v + 10 * p * d"
      using that rev_value_nonneg [of cs] Cons.prems(5) mult_nonneg_nonneg [of "10 * (10 * p)" "rev_value cs"]
      by linarith
    have fits: "(d \<noteq> 0 \<and> (ov' \<or> maxu div d < m' \<or> maxu - wrap32 (m' * d) < v)) \<longleftrightarrow> maxu < v + 10 * p * d"
    proof (cases "d = 0")
      case False
      then have "(ov' \<or> maxu div d < m' \<or> maxu - wrap32 (m' * d) < v) \<longleftrightarrow> maxu < v + 10 * p * d"
        using d ov' m' Cons.prems by (intro overflow_sub [of d v p]) auto
      then show ?thesis using False by simp
    qed (use Cons.prems in simp)
    have small: "wrap32 (v + wrap32 (m' * d)) = v + 10 * p * d" if "v + 10 * p * d \<le> maxu"
    proof (cases "d = 0")
      case False
      then have "10 * p \<le> 10 * p * d" using d Cons.prems(5) by simp
      then have "m' = 10 * p" using that m' ov' Cons.prems(1) by simp
      moreover have "0 \<le> 10 * p * d" using d Cons.prems(5) by simp
      ultimately show ?thesis using that Cons.prems(1) by (simp add: wrap32_small)
    qed (use Cons.prems in \<open>simp add: wrap32_def maxu_def\<close>)
    have pos: "0 \<le> v + 10 * p * d" using d Cons.prems by simp
    show ?thesis
    proof (cases "maxu < v + 10 * p * d")
      case t: True
      then show ?thesis unfolding step fits split using big [OF t] True by simp
    next
      case f: False
      then show ?thesis unfolding step fits split using small IH [OF pos] True by simp
    qed
  qed
qed

lemma ret_unsigned_eq:
  "ret_unsigned s = (if s \<noteq> [] \<and> digits s \<and> rev_value (rev s) \<le> maxu then Some (rev_value (rev s)) else None)"
proof (cases "rev s")
  case (Cons c cs)
  then have s: "s = rev cs @ [c]" by (metis rev.simps(2) rev_rev_ident)
  show ?thesis
  proof (cases "is_digit c")
    case True
    then have "0 \<le> digit_value c" "digit_value c \<le> maxu"
      using digit_value_range [OF True] by (auto simp: maxu_def)
    then show ?thesis
      using ret_loop_eq [of "digit_value c" False 1 1 cs] True by (simp add: ret_unsigned_def s maxu_def)
  qed (simp add: ret_unsigned_def s)
qed (simp add: ret_unsigned_def)

section \<open>What an integer reads as\<close>

text \<open>The sign and the magnitude of a decimal string.\<close>

definition decimal :: "string \<Rightarrow> int \<Rightarrow> bool" where
  "decimal s n \<longleftrightarrow> s \<noteq> [] \<and> digits s \<and> n = rev_value (rev s)"

definition signed_decimal :: "string \<Rightarrow> int \<Rightarrow> bool" where
  "signed_decimal s n \<longleftrightarrow> decimal s n \<or>
     (\<exists>ds. s = CHR ''+'' # ds \<and> decimal ds n) \<or> (\<exists>ds. s = CHR ''-'' # ds \<and> decimal ds (- n))"

lemma decimal_nonneg: "decimal s n \<Longrightarrow> 0 \<le> n"
  by (auto simp: decimal_def intro: rev_value_nonneg)

lemma sign_not_digit [simp]: "\<not> is_digit CHR ''-''" "\<not> is_digit CHR ''+''"
  by (simp_all add: is_digit_def char_code_def)

lemma ret_unsigned_decimal: "ret_unsigned s = Some n \<longleftrightarrow> decimal s n \<and> n \<le> maxu"
  by (auto simp: ret_unsigned_eq decimal_def)

lemma decimal_sign [simp]: "\<not> decimal (CHR ''-'' # ds) n" "\<not> decimal (CHR ''+'' # ds) n" "\<not> decimal [] n"
  by (auto simp: decimal_def)

lemma decimal_unique: "decimal s m \<Longrightarrow> decimal s n \<Longrightarrow> m = n"
  by (simp add: decimal_def)

lemma ret_unsigned_bounded:
  assumes "b \<le> maxu"
  shows "(case ret_unsigned s of Some m \<Rightarrow> if m \<le> b then Some (f m) else None | None \<Rightarrow> None) = Some k \<longleftrightarrow>
    (\<exists>m. decimal s m \<and> m \<le> b \<and> k = f m)"
proof (cases "ret_unsigned s")
  case None
  then have "\<not> (decimal s m \<and> m \<le> maxu)" for m using ret_unsigned_decimal [of s m] by simp
  then have "\<not> (decimal s m \<and> m \<le> b)" for m using assms order_trans by blast
  then show ?thesis using None by auto
next
  case (Some x)
  then have "decimal s x" using ret_unsigned_decimal by blast
  then show ?thesis using Some decimal_unique by auto
qed

lemma lexical_to_int_minus:
  "lexical_to_int (CHR ''-'' # ds) = Some n \<longleftrightarrow> decimal ds (- n) \<and> - n \<le> 2147483648"
proof -
  have "lexical_to_int (CHR ''-'' # ds) = Some n \<longleftrightarrow> (\<exists>m. decimal ds m \<and> m \<le> 2147483648 \<and> n = - m)"
    using ret_unsigned_bounded [where b = 2147483648 and s = ds and f = uminus and k = n] by (simp add: lexical_to_int_def maxu_def)
  moreover have "m = - n \<longleftrightarrow> n = - m" for m :: int by auto
  ultimately show ?thesis by metis
qed

lemma lexical_to_int_plus:
  "lexical_to_int (CHR ''+'' # ds) = Some n \<longleftrightarrow> decimal ds n \<and> n \<le> 2147483647"
  using ret_unsigned_bounded [where b = 2147483647 and s = ds and f = "\<lambda>m. m" and k = n] by (simp add: lexical_to_int_def maxu_def)

lemma lexical_to_int_digits:
  assumes "hd s \<noteq> CHR ''-''" "hd s \<noteq> CHR ''+''"
  shows "lexical_to_int s = Some n \<longleftrightarrow> decimal s n \<and> n \<le> 2147483647"
proof (cases s)
  case (Cons c cs)
  then show ?thesis
    using assms ret_unsigned_bounded [where b = 2147483647 and s = s and f = "\<lambda>m. m" and k = n] by (simp add: lexical_to_int_def maxu_def)
qed (simp add: lexical_to_int_def)

theorem lexical_to_int_iff:
  "lexical_to_int s = Some n \<longleftrightarrow> signed_decimal s n \<and> in_i32 n"
proof -
  consider ds where "s = CHR ''-'' # ds" | ds where "s = CHR ''+'' # ds"
    | "s = []" | "hd s \<noteq> CHR ''-''" "hd s \<noteq> CHR ''+''" "s \<noteq> []"
    by (cases s) auto
  then show ?thesis
  proof cases
    case 1
    then show ?thesis
      by (auto simp: lexical_to_int_minus signed_decimal_def in_i32_def int32_min_def int32_max_def
          dest: decimal_nonneg)
  next
    case 2
    then show ?thesis
      by (auto simp: lexical_to_int_plus signed_decimal_def in_i32_def int32_min_def int32_max_def
          dest: decimal_nonneg)
  next
    case 3
    then show ?thesis by (simp add: lexical_to_int_def signed_decimal_def)
  next
    case 4
    then show ?thesis
      by (auto simp: lexical_to_int_digits signed_decimal_def in_i32_def int32_min_def int32_max_def
          dest: decimal_nonneg)
  qed
qed

section \<open>Round trip\<close>

lemma digit_char_code: "0 \<le> d \<Longrightarrow> d \<le> 9 \<Longrightarrow> char_code (digit_char d) = d + 48"
  by (simp add: digit_char_def char_code_def of_char_of take_bit_nat_eq_self)

lemma digit_char_digit: "0 \<le> d \<Longrightarrow> d \<le> 9 \<Longrightarrow> is_digit (digit_char d) \<and> digit_value (digit_char d) = d"
  by (simp add: is_digit_def digit_value_def digit_char_code)

lemma put_loop_spec:
  "0 \<le> n \<Longrightarrow> \<exists>ds. put_loop n acc = ds @ acc \<and> decimal ds n"
proof (induction n acc rule: put_loop.induct)
  case (1 n acc)
  let ?c = "digit_char (n mod 10)"
  have c: "is_digit ?c" "digit_value ?c = n mod 10"
    using digit_char_digit [of "n mod 10"] pos_mod_bound [of 10 n] by simp_all
  show ?case
  proof (cases "n div 10 \<le> 0")
    case True
    then have "put_loop n acc = [?c] @ acc" by (subst put_loop.simps) (simp add: Let_def)
    moreover have "decimal [?c] n"
      using True c 1(2) by (simp add: decimal_def)
    ultimately show ?thesis by blast
  next
    case False
    have "put_loop n acc = put_loop (n div 10) (?c # acc)"
      using False by (subst put_loop.simps) (simp add: Let_def)
    moreover obtain ds where ds: "put_loop (n div 10) (?c # acc) = ds @ ?c # acc" "decimal ds (n div 10)"
      using 1(1) [OF refl False] False by auto
    moreover have "decimal (ds @ [?c]) n"
      using ds(2) c mod_mult_div_eq [of n 10] by (simp add: decimal_def)
    ultimately show ?thesis by (metis append.assoc append_Cons append_Nil)
  qed
qed

lemma int_to_string_signed: "signed_decimal (int_to_string n) n"
proof (cases "n < 0")
  case True
  then obtain ds where "put_loop (- n) [] = ds" "decimal ds (- n)"
    using put_loop_spec [of "- n" "[]"] by auto
  then show ?thesis using True by (simp add: int_to_string_def signed_decimal_def)
next
  case False
  then obtain ds where "put_loop n [] = ds" "decimal ds n"
    using put_loop_spec [of n "[]"] by auto
  then show ?thesis using False by (simp add: int_to_string_def signed_decimal_def)
qed

lemma lexical_roundtrip: "in_i32 n \<Longrightarrow> lexical_to_int (int_to_string n) = Some n"
  by (simp add: lexical_to_int_iff int_to_string_signed)

lemma lexical_to_int_range: "lexical_to_int s = Some n \<Longrightarrow> in_i32 n"
  by (simp add: lexical_to_int_iff)

lemma int_to_string_chars: "c \<in> set (int_to_string n) \<Longrightarrow> is_digit c \<or> c = CHR ''-''"
proof (cases "n < 0")
  case True
  assume c: "c \<in> set (int_to_string n)"
  obtain ds where "put_loop (- n) [] = ds" "decimal ds (- n)"
    using True put_loop_spec [of "- n" "[]"] by auto
  then show ?thesis using c True by (auto simp: int_to_string_def decimal_def list_all_iff)
next
  case False
  assume c: "c \<in> set (int_to_string n)"
  obtain ds where "put_loop n [] = ds" "decimal ds n"
    using False put_loop_spec [of n "[]"] by auto
  then show ?thesis using c False by (auto simp: int_to_string_def decimal_def list_all_iff)
qed

end
