(* ===== verification/Name_Validation.thy ===== *)
theory Name_Validation
  imports Lexical_Cast
begin

text \<open>
  The names of nodes: \<open>network/base/name_validation.hpp\<close> and \<open>name_validation.cpp\<close>. A name is
  made of the characters valid in an address; a name already taken by a sibling becomes an
  instance \<open>base.n\<close> of its root name.
\<close>

section \<open>Characters\<close>

definition char_between :: "char \<Rightarrow> char \<Rightarrow> char \<Rightarrow> bool" where
  "char_between a c b \<longleftrightarrow> char_code a \<le> char_code c \<and> char_code c \<le> char_code b"

definition is_valid_character_for_device :: "char \<Rightarrow> bool" where
  "is_valid_character_for_device c \<longleftrightarrow>
     char_between CHR ''a'' c CHR ''z'' \<or> char_between CHR ''A'' c CHR ''Z'' \<or>
     char_between CHR ''0'' c CHR ''9'' \<or> c = CHR ''.'' \<or> c = CHR ''~'' \<or> c = CHR ''_'' \<or>
     c = CHR ''('' \<or> c = CHR '')'' \<or> c = CHR ''-'' \<or> c = CHR '' ''"

definition is_valid_character_for_name :: "char \<Rightarrow> bool" where
  "is_valid_character_for_name c \<longleftrightarrow>
     char_between CHR ''a'' c CHR ''z'' \<or> char_between CHR ''A'' c CHR ''Z'' \<or>
     char_between CHR ''0'' c CHR ''9'' \<or> c = CHR ''.'' \<or> c = CHR ''~'' \<or> c = CHR ''_'' \<or>
     c = CHR ''('' \<or> c = CHR '')'' \<or> c = CHR ''-'' \<or> c = CHR '':'' \<or> c = CHR '' ''"

definition sanitize_device_name :: "string \<Rightarrow> string" where
  "sanitize_device_name s = map (\<lambda>c. if is_valid_character_for_device c then c else CHR ''_'') s"

definition sanitize_name :: "string \<Rightarrow> string" where
  "sanitize_name s = map (\<lambda>c. if is_valid_character_for_name c then c else CHR ''_'') s"

section \<open>Instances\<close>

text \<open>The last dot of a name splits it into a root and an instance, when the latter is an integer.\<close>

definition split_last_dot :: "string \<Rightarrow> (string \<times> string) option" where
  "split_last_dot s =
     (case dropWhile (\<lambda>c. c \<noteq> CHR ''.'') (rev s) of
        [] \<Rightarrow> None
      | _ # r \<Rightarrow> Some (rev r, rev (takeWhile (\<lambda>c. c \<noteq> CHR ''.'') (rev s))))"

definition root_of_name :: "string \<Rightarrow> string" where
  "root_of_name name =
     (case split_last_dot name of
        None \<Rightarrow> name
      | Some (base, inst) \<Rightarrow> (case lexical_to_int inst of Some _ \<Rightarrow> base | None \<Rightarrow> name))"

definition instance_of :: "string \<Rightarrow> string \<Rightarrow> int option" where
  "instance_of base n_name =
     (if length n_name < length base + 1 then None
      else
        (let same_root = (take (length base) n_name = base)
         in if same_root \<and> n_name ! length base = CHR ''.'' then
              lexical_to_int (drop (length base + 1) n_name)
            else if same_root \<and> length base = length n_name then Some 0
            else None))"

definition instance_name :: "string \<Rightarrow> int list \<Rightarrow> string res" where
  "instance_name base nums =
     (let n = length nums
      in if n = 0 \<or> (n = 1 \<and> nums ! 0 = 0) then Ok (base @ ''.1'')
         else if in_i32 (last (sort nums) + 1) then
           Ok (base @ ''.'' @ int_to_string (last (sort nums) + 1))
         else Err Undefined_behaviour)"

definition sanitize_name_among :: "string \<Rightarrow> string list \<Rightarrow> string res" where
  "sanitize_name_among name0 brethren =
     (let name = sanitize_name name0;
          base = root_of_name name;
          is_here = (name \<in> set brethren);
          nums = List.map_filter (instance_of base) brethren
      in if \<not> is_here then Ok name else instance_name base nums)"

section \<open>Addresses and patterns\<close>

fun split_slash :: "string \<Rightarrow> string list" where
  "split_slash [] = [[]]"
| "split_slash (c # cs) =
     (if c = CHR ''/'' then [] # split_slash cs
      else (case split_slash cs of [] \<Rightarrow> [[c]] | p # ps \<Rightarrow> (c # p) # ps))"

definition address_parts :: "string \<Rightarrow> string list" where
  "address_parts src =
     (if src = [] then []
      else
        (let src1 = (if hd src = CHR ''/'' then tl src else src);
             src2 = (if src1 \<noteq> [] \<and> last src1 = CHR ''/'' then butlast src1 else src1)
         in split_slash src2))"

fun brace_loop :: "string \<Rightarrow> int \<Rightarrow> int \<Rightarrow> bool \<Rightarrow> bool" where
  "brace_loop [] brace_count arr_count b = (b \<and> brace_count = 0 \<and> arr_count = 0)"
| "brace_loop (c # cs) brace_count arr_count b =
     (if c = CHR ''{'' then brace_loop cs (brace_count + 1) arr_count True
      else if c = CHR ''['' then brace_loop cs brace_count (arr_count + 1) True
      else if c = CHR ''}'' then
        (if brace_count - 1 < 0 then False else brace_loop cs (brace_count - 1) arr_count b)
      else if c = CHR '']'' then
        (if arr_count - 1 < 0 then False else brace_loop cs brace_count (arr_count - 1) b)
      else brace_loop cs brace_count arr_count b)"

definition is_brace_expansion :: "string \<Rightarrow> bool" where
  "is_brace_expansion s = brace_loop s 0 0 False"

section \<open>Sanitized names\<close>

lemma underscore_valid [simp]:
  "is_valid_character_for_name CHR ''_''" "is_valid_character_for_device CHR ''_''"
  "is_valid_character_for_name CHR ''.''" "is_valid_character_for_name CHR ''-''"
  by (simp_all add: is_valid_character_for_name_def is_valid_character_for_device_def)

lemma digit_valid: "is_digit c \<Longrightarrow> is_valid_character_for_name c"
  by (auto simp: is_digit_def is_valid_character_for_name_def char_between_def char_code_def)

definition valid_name :: "string \<Rightarrow> bool" where
  "valid_name s \<longleftrightarrow> list_all is_valid_character_for_name s"

lemma sanitize_name_valid: "valid_name (sanitize_name s)"
  by (auto simp: valid_name_def sanitize_name_def list_all_iff)

lemma sanitize_name_id: "valid_name s \<Longrightarrow> sanitize_name s = s"
  unfolding valid_name_def sanitize_name_def by (intro map_idI) (simp add: list_all_iff)

lemma sanitize_name_idem: "sanitize_name (sanitize_name s) = sanitize_name s"
  by (simp add: sanitize_name_id sanitize_name_valid)

lemma sanitize_name_length: "length (sanitize_name s) = length s"
  by (simp add: sanitize_name_def)

lemma sanitize_name_no_slash: "CHR ''/'' \<notin> set (sanitize_name s)"
proof -
  have "\<not> is_valid_character_for_name CHR ''/''"
    by (simp add: is_valid_character_for_name_def char_between_def char_code_def)
  then show ?thesis using sanitize_name_valid [of s] by (auto simp: valid_name_def list_all_iff)
qed

lemma valid_name_append: "valid_name (s @ t) \<longleftrightarrow> valid_name s \<and> valid_name t"
  by (simp add: valid_name_def)

lemma valid_int_to_string: "valid_name (int_to_string n)"
  using int_to_string_chars digit_valid by (fastforce simp: valid_name_def list_all_iff)

lemma valid_one: "valid_name ''.1''" "valid_name ''.''"
  by (simp_all add: valid_name_def digit_valid is_digit_def char_code_def)

lemma valid_dot_append: "valid_name (CHR ''.'' # s) \<longleftrightarrow> valid_name s"
  by (simp add: valid_name_def)

lemma split_last_dot_eq: "split_last_dot s = Some (r, i) \<Longrightarrow> s = r @ CHR ''.'' # i"
proof -
  assume split: "split_last_dot s = Some (r, i)"
  obtain c cs where c: "dropWhile (\<lambda>c. c \<noteq> CHR ''.'') (rev s) = c # cs" "r = rev cs"
      "i = rev (takeWhile (\<lambda>c. c \<noteq> CHR ''.'') (rev s))"
    using split by (auto simp: split_last_dot_def split: list.splits)
  have "c = CHR ''.''" using hd_dropWhile [of "\<lambda>c. c \<noteq> CHR ''.''" "rev s"] c(1) by simp
  then have "rev s = rev i @ CHR ''.'' # rev r"
    using c takeWhile_dropWhile_id [of "\<lambda>c. c \<noteq> CHR ''.''" "rev s"] by simp
  then have "rev (rev s) = rev (rev i @ CHR ''.'' # rev r)" by (rule arg_cong)
  then show ?thesis by simp
qed

lemma root_of_name_valid: "valid_name s \<Longrightarrow> valid_name (root_of_name s)"
  by (auto simp: root_of_name_def valid_name_def dest!: split_last_dot_eq split: option.splits)

section \<open>Unique names\<close>

lemma instance_of_name: "in_i32 n \<Longrightarrow> instance_of base (base @ CHR ''.'' # int_to_string n) = Some n"
  by (simp add: instance_of_def lexical_roundtrip)

lemma last_sort_ge: "x \<in> set xs \<Longrightarrow> x \<le> last (sort (xs :: int list))"
proof -
  assume x: "x \<in> set xs"
  then have "x \<in> set (sort xs)" by simp
  then obtain i where i: "i < length (sort xs)" "sort xs ! i = x" by (metis in_set_conv_nth)
  moreover have "sort xs \<noteq> []" using x by (cases xs) auto
  ultimately show ?thesis
    using sorted_nth_mono [OF sorted_sort [of xs], of i "length (sort xs) - 1"]
    by (simp add: last_conv_nth)
qed

lemma set_map_filter: "z \<in> set (List.map_filter f xs) \<longleftrightarrow> (\<exists>y\<in>set xs. f y = Some z)"
  by (force simp: List.map_filter_def)

lemma map_filter_mem: "y \<in> set xs \<Longrightarrow> f y = Some z \<Longrightarrow> z \<in> set (List.map_filter f xs)"
  by (auto simp: set_map_filter)

lemma one_string: "int_to_string 1 = ''1''"
  by code_simp

lemma instance_name_fresh:
  assumes "instance_name base nums = Ok s" and "nums = List.map_filter (instance_of base) brethren"
  shows "s \<notin> set brethren"
proof
  assume s: "s \<in> set brethren"
  have one: "instance_of base (base @ ''.1'') = Some 1"
    using instance_of_name [of 1 base] by (simp add: one_string in_i32_def int32_min_def int32_max_def)
  consider "s = base @ ''.1''" "nums = [] \<or> nums = [0]"
    | "in_i32 (last (sort nums) + 1)" "s = base @ ''.'' @ int_to_string (last (sort nums) + 1)"
    using assms(1) by (auto simp: instance_name_def Let_def length_Suc_conv split: if_splits)
  then show False
  proof cases
    case 1
    then have "1 \<in> set nums" using map_filter_mem [where f = "instance_of base", OF s] one assms(2) by simp
    then show ?thesis using 1 by auto
  next
    case 2
    then have "last (sort nums) + 1 \<in> set nums"
      using map_filter_mem [where f = "instance_of base", OF s] instance_of_name [OF 2(1), of base] assms(2)
      by simp
    then show ?thesis using last_sort_ge by fastforce
  qed
qed

lemma sanitize_name_among_fresh: "sanitize_name_among name brethren = Ok s \<Longrightarrow> s \<notin> set brethren"
  by (auto simp: sanitize_name_among_def Let_def dest: instance_name_fresh split: if_splits)

lemma sanitize_name_among_valid: "sanitize_name_among name brethren = Ok s \<Longrightarrow> valid_name s"
  using sanitize_name_valid [of name] root_of_name_valid [OF sanitize_name_valid, of name] valid_one
  by (auto simp: sanitize_name_among_def instance_name_def Let_def valid_name_append valid_dot_append valid_int_to_string
      split: if_splits)

lemma sanitize_name_among_total:
  assumes "\<And>b. b \<in> set brethren \<Longrightarrow> instance_of (root_of_name (sanitize_name name)) b \<noteq> Some int32_max"
  shows "\<exists>s. sanitize_name_among name brethren = Ok s"
proof -
  let ?f = "instance_of (root_of_name (sanitize_name name))"
  let ?nums = "List.map_filter ?f brethren"
  have range: "in_i32 n \<and> n \<noteq> int32_max" if n: "n \<in> set ?nums" for n
  proof -
    obtain b where b: "b \<in> set brethren" "?f b = Some n"
      using n by (auto simp: set_map_filter)
    then have "in_i32 n"
      by (auto simp: instance_of_def Let_def in_i32_def int32_min_def int32_max_def
          dest: lexical_to_int_range split: if_splits)
    then show ?thesis using assms b by auto
  qed
  have "in_i32 (last (sort ?nums) + 1)" if "?nums \<noteq> []"
  proof -
    have "sort ?nums \<noteq> []" using that by (metis set_empty set_sort)
    then have "last (sort ?nums) \<in> set ?nums" using last_in_set by (metis set_sort)
    from range [OF this] show ?thesis by (simp add: in_i32_def)
  qed
  then show ?thesis by (auto simp: sanitize_name_among_def instance_name_def Let_def)
qed

section \<open>Splitting an address\<close>

fun join_slash :: "string list \<Rightarrow> string" where
  "join_slash [] = []"
| "join_slash [p] = p"
| "join_slash (p # ps) = p @ CHR ''/'' # join_slash ps"

lemma split_slash_nonempty [simp]: "split_slash s \<noteq> []"
  by (cases s) (auto split: list.splits)

lemma join_split_slash: "join_slash (split_slash s) = s"
proof (induction s)
  case (Cons c cs)
  obtain p ps where p: "split_slash cs = p # ps" by (cases "split_slash cs") auto
  then show ?case using Cons by (cases ps) auto
qed simp

lemma split_slash_parts: "p \<in> set (split_slash s) \<Longrightarrow> CHR ''/'' \<notin> set p"
  by (induction s arbitrary: p) (auto split: if_splits list.splits)

lemma split_slash_single: "CHR ''/'' \<notin> set p \<Longrightarrow> split_slash p = [p]"
  by (induction p) auto

lemma split_slash_append: "CHR ''/'' \<notin> set p \<Longrightarrow> split_slash (p @ CHR ''/'' # s) = p # split_slash s"
  by (induction p) auto

lemma split_join_slash:
  "ps \<noteq> [] \<Longrightarrow> \<forall>p\<in>set ps. CHR ''/'' \<notin> set p \<Longrightarrow> split_slash (join_slash ps) = ps"
  by (induction ps rule: join_slash.induct) (auto simp: split_slash_single split_slash_append)

text \<open>An address of non-empty parts is split into them, with or without the outer slashes.\<close>

lemma slash_ends:
  "hd p = CHR ''/'' \<Longrightarrow> p \<noteq> [] \<Longrightarrow> CHR ''/'' \<in> set p"
  "last p = CHR ''/'' \<Longrightarrow> p \<noteq> [] \<Longrightarrow> CHR ''/'' \<in> set p"
  by (metis hd_in_set) (metis last_in_set)

lemma join_slash_ends:
  assumes "ps \<noteq> []" "\<forall>p\<in>set ps. CHR ''/'' \<notin> set p \<and> p \<noteq> []"
  shows "join_slash ps \<noteq> []" and "hd (join_slash ps) \<noteq> CHR ''/''" and "last (join_slash ps) \<noteq> CHR ''/''"
  using assms
  by (induction ps rule: join_slash.induct) (auto simp: hd_append last_append dest: slash_ends)

lemma address_parts_join:
  assumes "ps \<noteq> []" "\<forall>p\<in>set ps. CHR ''/'' \<notin> set p \<and> p \<noteq> []"
  shows "address_parts (join_slash ps) = ps"
    and "address_parts (CHR ''/'' # join_slash ps) = ps"
    and "address_parts (join_slash ps @ ''/'') = ps"
    and "address_parts (CHR ''/'' # join_slash ps @ ''/'') = ps"
  using join_slash_ends [OF assms] split_join_slash [OF assms(1)] assms(2)
  by (simp_all add: address_parts_def Let_def hd_append butlast_append)

section \<open>Balanced brackets\<close>

definition depth :: "char \<Rightarrow> char \<Rightarrow> string \<Rightarrow> int" where
  "depth op cl s = int (count_list s op) - int (count_list s cl)"

text \<open>
  The specification: a brace or a bracket is opened, every prefix opens at least as many of each
  kind as it closes, and the whole string closes them all.
\<close>

definition brackets_balanced :: "string \<Rightarrow> bool" where
  "brackets_balanced s \<longleftrightarrow>
     (CHR ''{'' \<in> set s \<or> CHR ''['' \<in> set s) \<and>
     (\<forall>n. 0 \<le> depth CHR ''{'' CHR ''}'' (take n s) \<and> 0 \<le> depth CHR ''['' CHR '']'' (take n s)) \<and>
     depth CHR ''{'' CHR ''}'' s = 0 \<and> depth CHR ''['' CHR '']'' s = 0"

lemma depth_Cons [simp]:
  "op \<noteq> cl \<Longrightarrow> depth op cl (c # s) = (if c = op then 1 else if c = cl then - 1 else 0) + depth op cl s"
  "depth op cl [] = 0"
  by (auto simp: depth_def)

lemma all_take_Cons: "(\<forall>n. P (take n (c # s))) \<longleftrightarrow> P [] \<and> (\<forall>n. P (c # take n s))"
  by (metis take0 take_Suc_Cons not0_implies_Suc)

lemma brace_loop_spec:
  "0 \<le> m \<Longrightarrow> 0 \<le> k \<Longrightarrow> brace_loop s m k b \<longleftrightarrow>
     (b \<or> CHR ''{'' \<in> set s \<or> CHR ''['' \<in> set s) \<and>
     (\<forall>n. 0 \<le> m + depth CHR ''{'' CHR ''}'' (take n s) \<and> 0 \<le> k + depth CHR ''['' CHR '']'' (take n s)) \<and>
     m + depth CHR ''{'' CHR ''}'' s = 0 \<and> k + depth CHR ''['' CHR '']'' s = 0"
proof (induction s arbitrary: m k b)
  case (Cons c s)
  have sum: "m + (x + depth u v t) = (m + x) + depth u v t" for m x u v t by simp
  have dec: "m + (depth u v t - 1) = (m - 1) + depth u v t" for m u v t by simp
  have drop: "(\<forall>n. 0 \<le> m + depth CHR ''{'' CHR ''}'' (take n (c # s)) \<and>
        0 \<le> k + depth CHR ''['' CHR '']'' (take n (c # s))) \<longleftrightarrow>
      (\<forall>n. 0 \<le> m + depth CHR ''{'' CHR ''}'' (c # take n s) \<and> 0 \<le> k + depth CHR ''['' CHR '']'' (c # take n s))"
    using Cons.prems
      all_take_Cons [of "\<lambda>t. 0 \<le> m + depth CHR ''{'' CHR ''}'' t \<and> 0 \<le> k + depth CHR ''['' CHR '']'' t" c s]
    by simp
  have first: "(\<forall>n. 0 \<le> i + depth u v (take n s) \<and> Q n) \<Longrightarrow> 0 \<le> i" for i u v Q
    by (drule spec [of _ 0]) simp
  have second: "(\<forall>n. Q n \<and> 0 \<le> i + depth u v (take n s)) \<Longrightarrow> 0 \<le> i" for i u v Q
    by (drule spec [of _ 0]) simp
  consider "c = CHR ''{''" | "c = CHR ''[''" | "c = CHR ''}''" | "c = CHR '']''"
    | "c \<noteq> CHR ''{''" "c \<noteq> CHR ''[''" "c \<noteq> CHR ''}''" "c \<noteq> CHR '']''" by blast
  then show ?case
  proof cases
    case 3
    show ?thesis
    proof (cases "0 < m")
      case True
      then show ?thesis unfolding drop using 3 Cons by (simp add: sum dec)
    next
      case False
      then have "\<not> (\<forall>n. 0 \<le> (m + - 1) + depth CHR ''{'' CHR ''}'' (take n s) \<and>
          0 \<le> k + depth CHR ''['' CHR '']'' (take n s))"
        by (intro notI) (drule first, simp)
      then show ?thesis unfolding drop using 3 False by (simp add: sum dec)
    qed
  next
    case 4
    show ?thesis
    proof (cases "0 < k")
      case True
      then show ?thesis unfolding drop using 4 Cons by (simp add: sum dec)
    next
      case False
      then have "\<not> (\<forall>n. 0 \<le> m + depth CHR ''{'' CHR ''}'' (take n s) \<and>
          0 \<le> (k + - 1) + depth CHR ''['' CHR '']'' (take n s))"
        by (intro notI) (drule second, simp)
      then show ?thesis unfolding drop using 4 False by (simp add: sum dec)
    qed
  qed (unfold drop, use Cons in \<open>simp_all add: sum dec\<close>)
qed simp

lemma is_brace_expansion_iff: "is_brace_expansion s \<longleftrightarrow> brackets_balanced s"
  by (simp add: is_brace_expansion_def brackets_balanced_def brace_loop_spec)

end
