(* ===== verification/Flat_Set.thy ===== *)
theory Flat_Set
  imports Value_Compare
begin

text \<open>
  The sorted sets of values of a domain: \<open>ossia::flat_set\<close> (\<open>detail/flat_set.hpp\<close>), the
  \<open>fc::vector_set\<close> of the repository (\<open>flat/flat_set.hpp\<close>, \<open>flat/impl/flat_impl.hpp\<close>) over a
  vector. \<open>std::lower_bound\<close> is the binary search of the standard library. The laws are proved for
  every strict weak order, in the context of its locale; a set of \<open>ossia::value\<close> meets them only for
  values of one scalar type.
\<close>

section \<open>Operations\<close>

function lower_bound_loop :: "('a \<Rightarrow> 'a \<Rightarrow> bool) \<Rightarrow> 'a list \<Rightarrow> 'a \<Rightarrow> nat \<Rightarrow> nat \<Rightarrow> nat" where
  "lower_bound_loop lt xs key first len =
     (if len = 0 then first
      else
        (let half = len div 2; middle = first + half
         in if lt (xs ! middle) key then lower_bound_loop lt xs key (middle + 1) (len - half - 1)
            else lower_bound_loop lt xs key first half))"
  by pat_completeness auto
termination by (relation "measure (\<lambda>(_, _, _, _, len). len)") auto

declare lower_bound_loop.simps [simp del]

definition lower_bound :: "('a \<Rightarrow> 'a \<Rightarrow> bool) \<Rightarrow> 'a list \<Rightarrow> 'a \<Rightarrow> nat" where
  "lower_bound lt xs key = lower_bound_loop lt xs key 0 (length xs)"

definition flat_find :: "('a \<Rightarrow> 'a \<Rightarrow> bool) \<Rightarrow> 'a list \<Rightarrow> 'a \<Rightarrow> nat option" where
  "flat_find lt xs key =
     (let it = lower_bound lt xs key
      in if it = length xs \<or> lt key (xs ! it) then None else Some it)"

definition flat_insert :: "('a \<Rightarrow> 'a \<Rightarrow> bool) \<Rightarrow> 'a list \<Rightarrow> 'a \<Rightarrow> 'a list" where
  "flat_insert lt xs v =
     (let it = lower_bound lt xs v
      in if it = length xs \<or> lt v (xs ! it) then take it xs @ [v] @ drop it xs else xs)"

definition flat_count :: "('a \<Rightarrow> 'a \<Rightarrow> bool) \<Rightarrow> 'a list \<Rightarrow> 'a \<Rightarrow> nat" where
  "flat_count lt xs key = (if flat_find lt xs key \<noteq> None then 1 else 0)"

definition flat_erase :: "('a \<Rightarrow> 'a \<Rightarrow> bool) \<Rightarrow> 'a list \<Rightarrow> 'a \<Rightarrow> 'a list" where
  "flat_erase lt xs key =
     (case flat_find lt xs key of None \<Rightarrow> xs | Some it \<Rightarrow> take it xs @ drop (it + 1) xs)"

section \<open>Laws\<close>

definition flat_inv :: "('a \<Rightarrow> 'a \<Rightarrow> bool) \<Rightarrow> ('a \<Rightarrow> bool) \<Rightarrow> 'a list \<Rightarrow> bool" where
  "flat_inv lt ok xs \<longleftrightarrow> sorted_wrt lt xs \<and> list_all ok xs"

definition equivalent :: "('a \<Rightarrow> 'a \<Rightarrow> bool) \<Rightarrow> 'a \<Rightarrow> 'a \<Rightarrow> bool" where
  "equivalent lt x y \<longleftrightarrow> \<not> lt x y \<and> \<not> lt y x"

text \<open>The position that splits a vector into the elements below a key and the others.\<close>

definition splits_at :: "('a \<Rightarrow> 'a \<Rightarrow> bool) \<Rightarrow> 'a list \<Rightarrow> 'a \<Rightarrow> nat \<Rightarrow> bool" where
  "splits_at lt xs key r \<longleftrightarrow> r \<le> length xs \<and> (\<forall>i<r. lt (xs ! i) key) \<and>
     (\<forall>i. r \<le> i \<and> i < length xs \<longrightarrow> \<not> lt (xs ! i) key)"

lemma flat_inv_nth: "flat_inv lt ok xs \<Longrightarrow> i < j \<Longrightarrow> j < length xs \<Longrightarrow> lt (xs ! i) (xs ! j)"
  by (simp add: flat_inv_def sorted_wrt_iff_nth_less)

lemma flat_inv_ok: "flat_inv lt ok xs \<Longrightarrow> i < length xs \<Longrightarrow> ok (xs ! i)"
  by (simp add: flat_inv_def list_all_length)

lemma flat_insert_find:
  "flat_insert lt xs v = (if flat_find lt xs v = None
     then take (lower_bound lt xs v) xs @ [v] @ drop (lower_bound lt xs v) xs else xs)"
  by (auto simp: flat_insert_def flat_find_def Let_def)

lemma set_take_drop: "set (take n xs @ [v] @ drop n xs) = insert v (set xs)"
  using set_append [of "take n xs" "drop n xs"] by auto

context strict_weak_order
begin

lemma lower_bound_loop_spec:
  assumes "flat_inv lt ok xs" "ok key" "first + len \<le> length xs"
    and "\<forall>i<first. lt (xs ! i) key" and "\<forall>i. first + len \<le> i \<and> i < length xs \<longrightarrow> \<not> lt (xs ! i) key"
  shows "splits_at lt xs key (lower_bound_loop lt xs key first len)"
  using assms(3-5)
proof (induction "len" arbitrary: first rule: less_induct)
  case (less len)
  let ?half = "len div 2" and ?mid = "first + len div 2"
  note ok = flat_inv_ok [OF assms(1)]
  show ?case
  proof (cases "len = 0")
    case True
    then show ?thesis
      using less.prems by (subst lower_bound_loop.simps) (simp add: splits_at_def)
  next
    case False
    have mid: "?mid < length xs" using False less.prems(1) by linarith
    show ?thesis
    proof (cases "lt (xs ! ?mid) key")
      case True
      have "lt (xs ! i) key" if "i < ?mid + 1" for i
      proof (cases "i = ?mid")
        case False
        then have i: "i < ?mid" using that by simp
        then have "lt (xs ! i) (xs ! ?mid)" using mid flat_inv_nth [OF assms(1)] by simp
        then show ?thesis using True trans [OF ok ok assms(2), of i ?mid] mid i by simp
      qed (use True in simp)
      then have "splits_at lt xs key (lower_bound_loop lt xs key (?mid + 1) (len - ?half - 1))"
        using False less.prems by (intro less.IH) auto
      then show ?thesis using False True by (subst lower_bound_loop.simps) (simp add: Let_def)
    next
      case lf: False
      have "\<not> lt (xs ! i) key" if i: "?mid \<le> i" "i < length xs" for i
      proof (cases "i = ?mid")
        case False
        then have "lt (xs ! ?mid) (xs ! i)" using i flat_inv_nth [OF assms(1)] by simp
        then show ?thesis using lf trans [OF ok ok assms(2), of ?mid i] mid i by blast
      qed (use lf in simp)
      then have "splits_at lt xs key (lower_bound_loop lt xs key first ?half)"
        using False less.prems by (intro less.IH) auto
      then show ?thesis using False lf by (subst lower_bound_loop.simps) (simp add: Let_def)
    qed
  qed
qed

lemma lower_bound_spec:
  assumes "flat_inv lt ok xs" "ok key"
  shows "splits_at lt xs key (lower_bound lt xs key)"
  unfolding lower_bound_def by (rule lower_bound_loop_spec [OF assms]) auto

lemma splits_at_unique:
  assumes "flat_inv lt ok xs" "ok key" "splits_at lt xs key r" "i < length xs" "equivalent lt (xs ! i) key"
  shows "i = r"
proof (rule ccontr)
  assume "i \<noteq> r"
  moreover have "\<not> i < r" using assms(3,5) by (auto simp: equivalent_def splits_at_def)
  ultimately have r: "r < i" by simp
  then have "lt (xs ! r) (xs ! i)" using flat_inv_nth [OF assms(1) _ assms(4)] by simp
  moreover have "\<not> lt (xs ! r) key" using assms(3,4) r by (simp add: splits_at_def)
  moreover have "\<not> lt key (xs ! i)" using assms(5) by (simp add: equivalent_def)
  ultimately show False
    using incomp [of "xs ! r" key "xs ! i"] flat_inv_ok [OF assms(1)] assms(2,4) r by simp
qed

lemma flat_find_Some:
  assumes "flat_inv lt ok xs" "ok key"
  shows "flat_find lt xs key = Some i \<longleftrightarrow> i < length xs \<and> equivalent lt (xs ! i) key"
proof
  let ?it = "lower_bound lt xs key"
  assume "flat_find lt xs key = Some i"
  then have "i = ?it" "?it \<noteq> length xs" "\<not> lt key (xs ! ?it)"
    by (auto simp: flat_find_def Let_def split: if_splits)
  then show "i < length xs \<and> equivalent lt (xs ! i) key"
    using lower_bound_spec [OF assms] by (simp add: equivalent_def splits_at_def)
next
  let ?it = "lower_bound lt xs key"
  assume i: "i < length xs \<and> equivalent lt (xs ! i) key"
  then have "i = ?it" using splits_at_unique [OF assms lower_bound_spec [OF assms]] by simp
  then show "flat_find lt xs key = Some i" using i by (simp add: flat_find_def Let_def equivalent_def)
qed

lemma flat_find_None:
  assumes "flat_inv lt ok xs" "ok key"
  shows "flat_find lt xs key = None \<longleftrightarrow> (\<forall>x\<in>set xs. \<not> equivalent lt x key)"
  using flat_find_Some [OF assms] by (metis in_set_conv_nth not_None_eq)

lemma flat_insert_inv:
  assumes "flat_inv lt ok xs" "ok v"
  shows "flat_inv lt ok (flat_insert lt xs v)"
proof (cases "flat_find lt xs v = None")
  case False
  then show ?thesis using assms by (auto simp: flat_insert_find)
next
  case True
  let ?it = "lower_bound lt xs v"
  have split: "splits_at lt xs v ?it" by (rule lower_bound_spec [OF assms])
  have above: "?it = length xs \<or> lt v (xs ! ?it)"
    using True by (auto simp: flat_find_def Let_def split: if_splits)
  have left: "lt x v" if "x \<in> set (take ?it xs)" for x
    using that split by (auto simp: in_set_conv_nth splits_at_def)
  have right: "lt v x" if x: "x \<in> set (drop ?it xs)" for x
  proof -
    obtain j where j: "x = xs ! (?it + j)" "?it + j < length xs"
      using x by (auto simp: in_set_conv_nth)
    then have first: "lt v (xs ! ?it)" using above by auto
    show ?thesis
    proof (cases "j = 0")
      case False
      then have "lt (xs ! ?it) x" using j flat_inv_nth [OF assms(1), of ?it "?it + j"] by simp
      then show ?thesis
        using first j trans [OF assms(2), of "xs ! ?it" x] flat_inv_ok [OF assms(1)] by simp
    qed (use first j in simp)
  qed
  have "sorted_wrt lt (take ?it xs)" "sorted_wrt lt (drop ?it xs)"
    and "\<forall>x\<in>set (take ?it xs). \<forall>y\<in>set (drop ?it xs). lt x y"
    using assms(1) sorted_wrt_append [of lt "take ?it xs" "drop ?it xs"] by (simp_all add: flat_inv_def)
  moreover have "list_all ok (take ?it xs @ [v] @ drop ?it xs)"
    using assms by (auto simp: flat_inv_def list_all_iff dest: in_set_takeD in_set_dropD)
  ultimately show ?thesis
    using left right True by (simp add: flat_inv_def sorted_wrt_append flat_insert_find)
qed

lemma flat_insert_set:
  assumes "flat_inv lt ok xs" "ok v"
  shows "set (flat_insert lt xs v) =
    (if \<exists>x\<in>set xs. equivalent lt x v then set xs else insert v (set xs))"
proof (cases "flat_find lt xs v = None")
  case True
  then show ?thesis
    using flat_find_None [OF assms] set_take_drop [of "lower_bound lt xs v" xs v]
    by (simp only: flat_insert_find if_True) auto
next
  case False
  then show ?thesis using flat_find_None [OF assms] by (auto simp: flat_insert_find)
qed

lemma equivalent_trans:
  "ok x \<Longrightarrow> ok y \<Longrightarrow> ok z \<Longrightarrow> equivalent lt x y \<Longrightarrow> equivalent lt y z \<Longrightarrow> equivalent lt x z"
  using incomp [of x y z] incomp [of z y x] by (simp add: equivalent_def)

text \<open>After an insertion, exactly the keys found before and those equivalent to the new one are found.\<close>

lemma flat_find_insert:
  assumes "flat_inv lt ok xs" "ok v" "ok key"
  shows "flat_find lt (flat_insert lt xs v) key \<noteq> None \<longleftrightarrow>
    flat_find lt xs key \<noteq> None \<or> equivalent lt v key"
proof -
  have found: "flat_find lt ys key \<noteq> None \<longleftrightarrow> (\<exists>x\<in>set ys. equivalent lt x key)"
    if "flat_inv lt ok ys" for ys
    using flat_find_None [OF that assms(3)] by simp
  show ?thesis
  proof (cases "\<exists>x\<in>set xs. equivalent lt x v")
    case True
    then obtain x where x: "x \<in> set xs" "equivalent lt x v" by blast
    then have "ok x" using assms(1) by (simp add: flat_inv_def list_all_iff)
    then have "equivalent lt v key \<Longrightarrow> equivalent lt x key"
      using equivalent_trans x(2) assms(2,3) by blast
    then show ?thesis
      using True x found [OF flat_insert_inv [OF assms(1,2)]] found [OF assms(1)]
        flat_insert_set [OF assms(1,2)] by auto
  next
    case False
    then show ?thesis
      using found [OF flat_insert_inv [OF assms(1,2)]] found [OF assms(1)]
        flat_insert_set [OF assms(1,2)] by auto
  qed
qed

lemma flat_erase_inv:
  assumes "flat_inv lt ok xs"
  shows "flat_inv lt ok (flat_erase lt xs key)"
proof -
  have "sorted_wrt lt (take i xs @ drop (i + 1) xs)" for i
    using assms flat_inv_nth [OF assms]
    by (auto simp: sorted_wrt_iff_nth_less nth_append less_diff_conv min_def)
  then show ?thesis
    using assms
    by (auto simp: flat_erase_def flat_inv_def list_all_iff split: option.splits
        dest: in_set_takeD in_set_dropD)
qed

end

end
