(* ===== verification/Domain.thy ===== *)
theory Domain
  imports Flat_Set Value_Convert
begin

text \<open>
  The domain of a parameter: the tagged union \<open>domain_base_variant\<close> of the domain types
  (\<open>network/domain/domain_variant_impl.hpp\<close>, \<open>domain_base_impl.hpp\<close>), the access to its bounds and
  values (\<open>detail/min_max.hpp\<close>, \<open>detail/value_set_domain.hpp\<close>) and the functions that make a domain
  (\<open>domain_base.cpp\<close>). \<open>DNone\<close> is the union without an alternative.
\<close>

section \<open>Domains\<close>

record 'a num_dom =
  num_min :: "'a option"
  num_max :: "'a option"
  num_values :: "'a list"

record vector_dom =
  vd_min :: "val list"
  vd_max :: "val list"
  vd_values :: "val list list"

record vecf_dom =
  vf_min :: "fl option list"
  vf_max :: "fl option list"
  vf_values :: "fl list list"

datatype domain =
    DImpulse
  | DBool
  | DInt "i32 num_dom"
  | DFloat "fl num_dom"
  | DChar "i8 num_dom"
  | DString "string list"
  | DVector vector_dom
  | DVec2f vecf_dom
  | DVec3f vecf_dom
  | DVec4f vecf_dom
  | DGeneric "val num_dom"
  | DNone

fun domain_which :: "domain \<Rightarrow> int" where
  "domain_which DImpulse = 0"
| "domain_which DBool = 1"
| "domain_which (DInt _) = 2"
| "domain_which (DFloat _) = 3"
| "domain_which (DChar _) = 4"
| "domain_which (DString _) = 5"
| "domain_which (DVector _) = 6"
| "domain_which (DVec2f _) = 7"
| "domain_which (DVec3f _) = 8"
| "domain_which (DVec4f _) = 9"
| "domain_which (DGeneric _) = 10"
| "domain_which DNone = 11"

definition empty_num :: "'a num_dom" where
  "empty_num = \<lparr>num_min = None, num_max = None, num_values = []\<rparr>"

definition empty_vector :: vector_dom where
  "empty_vector = \<lparr>vd_min = [], vd_max = [], vd_values = []\<rparr>"

definition empty_vecf :: "nat \<Rightarrow> vecf_dom" where
  "empty_vecf n = \<lparr>vf_min = replicate n None, vf_max = replicate n None, vf_values = replicate n []\<rparr>"

fun init_domain :: "val_type \<Rightarrow> domain" where
  "init_domain T_IMPULSE = DImpulse"
| "init_domain T_INT = DInt empty_num"
| "init_domain T_FLOAT = DFloat empty_num"
| "init_domain T_BOOL = DBool"
| "init_domain T_CHAR = DChar empty_num"
| "init_domain T_STRING = DString []"
| "init_domain T_LIST = DVector empty_vector"
| "init_domain T_VEC2F = DVec2f (empty_vecf 2)"
| "init_domain T_VEC3F = DVec3f (empty_vecf 3)"
| "init_domain T_VEC4F = DVec4f (empty_vecf 4)"
| "init_domain T_NONE = DNone"

section \<open>Bounds\<close>

definition opt_val :: "('a \<Rightarrow> val) \<Rightarrow> 'a option \<Rightarrow> val" where
  "opt_val mk o' = (case o' of Some x \<Rightarrow> mk x | None \<Rightarrow> VUnset)"

definition opt_vec :: "(fl list \<Rightarrow> val) \<Rightarrow> fl option list \<Rightarrow> val" where
  "opt_vec mk os = (if None \<in> set os then VUnset else mk (map the os))"

fun domain_get_min :: "domain \<Rightarrow> val" where
  "domain_get_min DBool = VBool False"
| "domain_get_min DImpulse = VImpulse"
| "domain_get_min (DString _) = VUnset"
| "domain_get_min (DInt d) = opt_val VInt (num_min d)"
| "domain_get_min (DFloat d) = opt_val VFloat (num_min d)"
| "domain_get_min (DChar d) = opt_val VChar (num_min d)"
| "domain_get_min (DGeneric d) = opt_val (\<lambda>v. v) (num_min d)"
| "domain_get_min (DVector d) = VList (vd_min d)"
| "domain_get_min (DVec2f d) = opt_vec VVec2f (vf_min d)"
| "domain_get_min (DVec3f d) = opt_vec VVec3f (vf_min d)"
| "domain_get_min (DVec4f d) = opt_vec VVec4f (vf_min d)"
| "domain_get_min DNone = VUnset"

fun domain_get_max :: "domain \<Rightarrow> val" where
  "domain_get_max DBool = VBool True"
| "domain_get_max DImpulse = VImpulse"
| "domain_get_max (DString _) = VUnset"
| "domain_get_max (DInt d) = opt_val VInt (num_max d)"
| "domain_get_max (DFloat d) = opt_val VFloat (num_max d)"
| "domain_get_max (DChar d) = opt_val VChar (num_max d)"
| "domain_get_max (DGeneric d) = opt_val (\<lambda>v. v) (num_max d)"
| "domain_get_max (DVector d) = VList (vd_max d)"
| "domain_get_max (DVec2f d) = opt_vec VVec2f (vf_max d)"
| "domain_get_max (DVec3f d) = opt_vec VVec3f (vf_max d)"
| "domain_get_max (DVec4f d) = opt_vec VVec4f (vf_max d)"
| "domain_get_max DNone = VUnset"

fun get_float_minmax :: "text_io \<Rightarrow> domain \<Rightarrow> fl option \<times> fl option" where
  "get_float_minmax io (DInt d) =
     (map_option (\<lambda>n. fl_of_int F32 (sint n)) (num_min d),
      map_option (\<lambda>n. fl_of_int F32 (sint n)) (num_max d))"
| "get_float_minmax io (DFloat d) = (num_min d, num_max d)"
| "get_float_minmax io (DChar d) =
     (map_option (\<lambda>n. fl_of_int F32 (sint n)) (num_min d),
      map_option (\<lambda>n. fl_of_int F32 (sint n)) (num_max d))"
| "get_float_minmax io DBool = (Some fl_zero, Some fl_one)"
| "get_float_minmax io (DGeneric d) =
     (map_option (convert_float io) (num_min d), map_option (convert_float io) (num_max d))"
| "get_float_minmax io _ = (None, None)"

text \<open>
  \<open>domain_set_min_visitor\<close> on a domain and a value of a type: a value of another type than the
  domain's, and the unset value, remove the bound.
\<close>

definition set_vecf_min :: "(val \<Rightarrow> fl list option) \<Rightarrow> vecf_dom \<Rightarrow> val \<Rightarrow> vecf_dom" where
  "set_vecf_min target d v =
     (case target v of
        Some xs \<Rightarrow> d\<lparr>vf_min := map Some xs\<rparr>
      | None \<Rightarrow> d\<lparr>vf_min := map (\<lambda>_. None) (vf_min d)\<rparr>)"

fun set_min_visitor :: "domain \<Rightarrow> val \<Rightarrow> domain" where
  "set_min_visitor (DInt d) v = DInt (d\<lparr>num_min := target_int v\<rparr>)"
| "set_min_visitor (DFloat d) v = DFloat (d\<lparr>num_min := target_float v\<rparr>)"
| "set_min_visitor (DChar d) v = DChar (d\<lparr>num_min := target_char v\<rparr>)"
| "set_min_visitor DBool v = DBool"
| "set_min_visitor (DVector d) v =
     DVector (d\<lparr>vd_min := (case target_list v of Some vs \<Rightarrow> vs | None \<Rightarrow> [])\<rparr>)"
| "set_min_visitor (DVec2f d) v = DVec2f (set_vecf_min target_vec2f d v)"
| "set_min_visitor (DVec3f d) v = DVec3f (set_vecf_min target_vec3f d v)"
| "set_min_visitor (DVec4f d) v = DVec4f (set_vecf_min target_vec4f d v)"
| "set_min_visitor (DGeneric d) v = DGeneric (d\<lparr>num_min := (if valid v then Some v else None)\<rparr>)"
| "set_min_visitor d v = d"

definition set_vecf_max :: "(val \<Rightarrow> fl list option) \<Rightarrow> vecf_dom \<Rightarrow> val \<Rightarrow> vecf_dom" where
  "set_vecf_max target d v =
     (case target v of
        Some xs \<Rightarrow> d\<lparr>vf_max := map Some xs\<rparr>
      | None \<Rightarrow> d\<lparr>vf_max := map (\<lambda>_. None) (vf_max d)\<rparr>)"

fun set_max_visitor :: "domain \<Rightarrow> val \<Rightarrow> domain" where
  "set_max_visitor (DInt d) v = DInt (d\<lparr>num_max := target_int v\<rparr>)"
| "set_max_visitor (DFloat d) v = DFloat (d\<lparr>num_max := target_float v\<rparr>)"
| "set_max_visitor (DChar d) v = DChar (d\<lparr>num_max := target_char v\<rparr>)"
| "set_max_visitor DBool v = DBool"
| "set_max_visitor (DVector d) v =
     DVector (d\<lparr>vd_max := (case target_list v of Some vs \<Rightarrow> vs | None \<Rightarrow> [])\<rparr>)"
| "set_max_visitor (DVec2f d) v = DVec2f (set_vecf_max target_vec2f d v)"
| "set_max_visitor (DVec3f d) v = DVec3f (set_vecf_max target_vec3f d v)"
| "set_max_visitor (DVec4f d) v = DVec4f (set_vecf_max target_vec4f d v)"
| "set_max_visitor (DGeneric d) v = DGeneric (d\<lparr>num_max := (if valid v then Some v else None)\<rparr>)"
| "set_max_visitor d v = d"

fun min_creation :: "val \<Rightarrow> domain" where
  "min_creation (VInt n) = DInt (empty_num\<lparr>num_min := Some n\<rparr>)"
| "min_creation (VFloat x) = DFloat (empty_num\<lparr>num_min := Some x\<rparr>)"
| "min_creation (VChar c) = DChar (empty_num\<lparr>num_min := Some c\<rparr>)"
| "min_creation (VBool b) = DBool"
| "min_creation (VVec2f xs) = DVec2f ((empty_vecf 2)\<lparr>vf_min := map Some xs\<rparr>)"
| "min_creation (VVec3f xs) = DVec3f ((empty_vecf 3)\<lparr>vf_min := map Some xs\<rparr>)"
| "min_creation (VVec4f xs) = DVec4f ((empty_vecf 4)\<lparr>vf_min := map Some xs\<rparr>)"
| "min_creation (VList vs) = DVector (empty_vector\<lparr>vd_min := vs\<rparr>)"
| "min_creation VImpulse = DImpulse"
| "min_creation (VString s) = DString []"
| "min_creation VUnset = DNone"

fun max_creation :: "val \<Rightarrow> domain" where
  "max_creation (VInt n) = DInt (empty_num\<lparr>num_max := Some n\<rparr>)"
| "max_creation (VFloat x) = DFloat (empty_num\<lparr>num_max := Some x\<rparr>)"
| "max_creation (VChar c) = DChar (empty_num\<lparr>num_max := Some c\<rparr>)"
| "max_creation (VBool b) = DBool"
| "max_creation (VVec2f xs) = DVec2f ((empty_vecf 2)\<lparr>vf_max := map Some xs\<rparr>)"
| "max_creation (VVec3f xs) = DVec3f ((empty_vecf 3)\<lparr>vf_max := map Some xs\<rparr>)"
| "max_creation (VVec4f xs) = DVec4f ((empty_vecf 4)\<lparr>vf_max := map Some xs\<rparr>)"
| "max_creation (VList vs) = DVector (empty_vector\<lparr>vd_max := vs\<rparr>)"
| "max_creation VImpulse = DImpulse"
| "max_creation (VString s) = DString []"
| "max_creation VUnset = DNone"

definition domain_set_min :: "domain \<Rightarrow> val \<Rightarrow> domain" where
  "domain_set_min dm v =
     (if dm \<noteq> DNone then set_min_visitor dm v
      else if valid v then min_creation v
      else dm)"

definition domain_set_max :: "domain \<Rightarrow> val \<Rightarrow> domain" where
  "domain_set_max dm v =
     (if dm \<noteq> DNone then set_max_visitor dm v
      else if valid v then max_creation v
      else dm)"

section \<open>Values\<close>

text \<open>
  The values of every set of a \<open>vector_domain\<close> go to the first set, each round clearing its own set
  first.
\<close>

definition insert_first :: "val list \<Rightarrow> val list list \<Rightarrow> val list list" where
  "insert_first vals sets = fold (\<lambda>v ss. ss[0 := flat_insert value_lt (ss ! 0) v]) vals sets"

definition update_sets :: "val list \<Rightarrow> val list list \<Rightarrow> val list list" where
  "update_sets vals sets = fold (\<lambda>i ss. insert_first vals (ss[i := []])) [0..<length sets] sets"

definition float_set :: "val list \<Rightarrow> fl list" where
  "float_set vals =
     fold (\<lambda>v s. case target_float v of Some x \<Rightarrow> flat_insert fl_lt s x | None \<Rightarrow> s) vals []"

fun values_update :: "val list \<Rightarrow> domain \<Rightarrow> domain" where
  "values_update vals (DInt d) = DInt (d\<lparr>num_values := List.map_filter target_int vals\<rparr>)"
| "values_update vals (DFloat d) = DFloat (d\<lparr>num_values := List.map_filter target_float vals\<rparr>)"
| "values_update vals (DChar d) = DChar (d\<lparr>num_values := List.map_filter target_char vals\<rparr>)"
| "values_update vals (DString _) = DString (List.map_filter target_string vals)"
| "values_update vals (DVector d) = DVector (d\<lparr>vd_values := update_sets vals (vd_values d)\<rparr>)"
| "values_update vals (DGeneric d) = DGeneric (d\<lparr>num_values := vals\<rparr>)"
| "values_update vals (DVec2f d) = DVec2f (d\<lparr>vf_values := replicate 2 (float_set vals)\<rparr>)"
| "values_update vals (DVec3f d) = DVec3f (d\<lparr>vf_values := replicate 3 (float_set vals)\<rparr>)"
| "values_update vals (DVec4f d) = DVec4f (d\<lparr>vf_values := replicate 4 (float_set vals)\<rparr>)"
| "values_update vals d = d"

definition domain_set_values :: "domain \<Rightarrow> val list \<Rightarrow> domain" where
  "domain_set_values dm vals = (if dm \<noteq> DNone then values_update vals dm else dm)"

fun values_get :: "domain \<Rightarrow> val list" where
  "values_get (DInt d) = map VInt (num_values d)"
| "values_get (DFloat d) = map VFloat (num_values d)"
| "values_get (DChar d) = map VChar (num_values d)"
| "values_get (DString ss) = map VString ss"
| "values_get (DGeneric d) = num_values d"
| "values_get DBool = [VBool False, VBool True]"
| "values_get DImpulse = []"
| "values_get (DVector d) = map VList (vd_values d)"
| "values_get (DVec2f d) = map (\<lambda>s. VList (map VFloat s)) (vf_values d)"
| "values_get (DVec3f d) = map (\<lambda>s. VList (map VFloat s)) (vf_values d)"
| "values_get (DVec4f d) = map (\<lambda>s. VList (map VFloat s)) (vf_values d)"
| "values_get DNone = []"

definition domain_get_values :: "domain \<Rightarrow> val list" where
  "domain_get_values dm = (if dm \<noteq> DNone then values_get dm else [])"

section \<open>Making a domain\<close>

fun minmax_creation :: "val \<Rightarrow> val \<Rightarrow> domain" where
  "minmax_creation (VInt m) b =
     (case b of VInt n \<Rightarrow> DInt (empty_num\<lparr>num_min := Some m, num_max := Some n\<rparr>) | _ \<Rightarrow> DNone)"
| "minmax_creation (VFloat x) b =
     (case b of VFloat y \<Rightarrow> DFloat (empty_num\<lparr>num_min := Some x, num_max := Some y\<rparr>) | _ \<Rightarrow> DNone)"
| "minmax_creation (VChar c) b =
     (case b of VChar d \<Rightarrow> DChar (empty_num\<lparr>num_min := Some c, num_max := Some d\<rparr>) | _ \<Rightarrow> DNone)"
| "minmax_creation (VBool _) b = (case b of VBool _ \<Rightarrow> DBool | _ \<Rightarrow> DNone)"
| "minmax_creation (VVec2f xs) b =
     (case b of VVec2f ys \<Rightarrow> DVec2f ((empty_vecf 2)\<lparr>vf_min := map Some xs, vf_max := map Some ys\<rparr>)
      | _ \<Rightarrow> DNone)"
| "minmax_creation (VVec3f xs) b =
     (case b of VVec3f ys \<Rightarrow> DVec3f ((empty_vecf 3)\<lparr>vf_min := map Some xs, vf_max := map Some ys\<rparr>)
      | _ \<Rightarrow> DNone)"
| "minmax_creation (VVec4f xs) b =
     (case b of VVec4f ys \<Rightarrow> DVec4f ((empty_vecf 4)\<lparr>vf_min := map Some xs, vf_max := map Some ys\<rparr>)
      | _ \<Rightarrow> DNone)"
| "minmax_creation (VList vs) b =
     (case b of VList ws \<Rightarrow> DVector (empty_vector\<lparr>vd_min := vs, vd_max := ws\<rparr>) | _ \<Rightarrow> DNone)"
| "minmax_creation VImpulse b = (case b of VImpulse \<Rightarrow> DImpulse | _ \<Rightarrow> DNone)"
| "minmax_creation (VString _) b = (case b of VString _ \<Rightarrow> DString [] | _ \<Rightarrow> DNone)"
| "minmax_creation VUnset b = DNone"

definition make_domain :: "val \<Rightarrow> val \<Rightarrow> domain" where
  "make_domain mn mx =
     (if valid mn \<and> valid mx then minmax_creation mn mx
      else if valid mn then domain_set_max (minmax_creation mn mn) VUnset
      else if valid mx then domain_set_min (minmax_creation mx mx) VUnset
      else DNone)"

definition make_domain_strings :: "string list \<Rightarrow> domain" where
  "make_domain_strings ss = DString ss"

text \<open>\<open>apply_nonnull\<close> throws on the domain without an alternative.\<close>

definition make_domain_values :: "val list \<Rightarrow> domain res" where
  "make_domain_values vals =
     (if length vals > 0 then
        (let dm = init_domain (get_type (vals ! 0))
         in if dm = DNone then Err Bad_variant_type else Ok (values_update vals dm))
      else Ok DNone)"

definition make_domain_full :: "val \<Rightarrow> val \<Rightarrow> val list \<Rightarrow> domain res" where
  "make_domain_full mn mx vals =
     (if valid mn \<and> valid mx then Ok (domain_set_values (minmax_creation mn mx) vals)
      else if valid mn then
        Ok (domain_set_values (domain_set_max (minmax_creation mn mn) VUnset) vals)
      else if valid mx then
        Ok (domain_set_values (domain_set_min (minmax_creation mx mx) VUnset) vals)
      else make_domain_values vals)"

definition value_set_of :: "val list \<Rightarrow> val list" where
  "value_set_of vals = fold (\<lambda>v s. flat_insert value_lt s v) vals []"

fun value_set_creation :: "val list \<Rightarrow> val \<Rightarrow> domain" where
  "value_set_creation vals (VInt _) = DInt (empty_num\<lparr>num_values := List.map_filter target_int vals\<rparr>)"
| "value_set_creation vals (VFloat _) = DFloat (empty_num\<lparr>num_values := List.map_filter target_float vals\<rparr>)"
| "value_set_creation vals (VChar _) = DChar (empty_num\<lparr>num_values := List.map_filter target_char vals\<rparr>)"
| "value_set_creation vals (VString _) = DString (List.map_filter target_string vals)"
| "value_set_creation vals (VBool _) = DBool"
| "value_set_creation vals (VList orig) =
     DVector (empty_vector\<lparr>vd_values := replicate (length orig) (value_set_of vals)\<rparr>)"
| "value_set_creation vals (VVec2f _) = DVec2f ((empty_vecf 2)\<lparr>vf_values := replicate 2 (float_set vals)\<rparr>)"
| "value_set_creation vals (VVec3f _) = DVec3f ((empty_vecf 3)\<lparr>vf_values := replicate 3 (float_set vals)\<rparr>)"
| "value_set_creation vals (VVec4f _) = DVec4f ((empty_vecf 4)\<lparr>vf_values := replicate 4 (float_set vals)\<rparr>)"
| "value_set_creation vals VImpulse = DNone"
| "value_set_creation vals VUnset = DNone"

definition make_domain_from_osc :: "val list \<Rightarrow> val \<Rightarrow> domain" where
  "make_domain_from_osc vals cur =
     (if length vals = 2 \<and> valid (vals ! 0) \<and> valid (vals ! 1) then
        minmax_creation (vals ! 0) (vals ! 1)
      else value_set_creation vals cur)"

text \<open>\<open>(char)255\<close> is \<open>-1\<close> where \<open>char\<close> is signed.\<close>

definition make_domain_from_minmax :: "text_io \<Rightarrow> val list \<Rightarrow> val list \<Rightarrow> val_type \<Rightarrow> domain" where
  "make_domain_from_minmax io mn mx t =
     (let vec2 = (\<lambda>vs. VVec2f (list_to_vec io 2 vs));
          vec3 = (\<lambda>vs. VVec3f (list_to_vec io 3 vs));
          vec4 = (\<lambda>vs. VVec4f (list_to_vec io 4 vs));
          whole = make_domain (VList mn) (VList mx)
      in if length mn = length mx then
           (if length mn = 0 then DNone
            else if length mn = 1 then make_domain (mn ! 0) (mx ! 0)
            else if length mn = 2 then make_domain (vec2 mn) (vec2 mx)
            else if length mn = 3 then make_domain (vec3 mn) (vec3 mx)
            else if length mn = 4 then make_domain (vec4 mn) (vec4 mx)
            else whole)
         else if length mn = 0 then
           (case t of
              T_CHAR \<Rightarrow> make_domain (VChar 0) (mx ! 0)
            | T_FLOAT \<Rightarrow> make_domain (VFloat fl_zero) (mx ! 0)
            | T_INT \<Rightarrow> make_domain (VInt 0) (mx ! 0)
            | T_VEC2F \<Rightarrow> make_domain (VVec2f (replicate 2 fl_zero)) (vec2 mx)
            | T_VEC3F \<Rightarrow> make_domain (VVec3f (replicate 3 fl_zero)) (vec3 mx)
            | T_VEC4F \<Rightarrow> make_domain (VVec4f (replicate 4 fl_zero)) (vec4 mx)
            | _ \<Rightarrow> whole)
         else if length mx = 0 then
           (case t of
              T_CHAR \<Rightarrow> make_domain (mn ! 0) (VChar (- 1))
            | T_FLOAT \<Rightarrow> make_domain (mn ! 0) (VFloat fl_one)
            | T_INT \<Rightarrow> make_domain (mn ! 0) (VInt 1)
            | T_VEC2F \<Rightarrow> make_domain (vec2 mn) (VVec2f (replicate 2 fl_one))
            | T_VEC3F \<Rightarrow> make_domain (vec3 mn) (VVec3f (replicate 3 fl_one))
            | T_VEC4F \<Rightarrow> make_domain (vec4 mn) (VVec4f (replicate 4 fl_one))
            | _ \<Rightarrow> whole)
         else whole)"

section \<open>Well-formed domains\<close>

definition wf_vecf :: "nat \<Rightarrow> vecf_dom \<Rightarrow> bool" where
  "wf_vecf n d \<longleftrightarrow> length (vf_min d) = n \<and> length (vf_max d) = n \<and> length (vf_values d) = n"

fun wf_domain :: "domain \<Rightarrow> bool" where
  "wf_domain (DVec2f d) = wf_vecf 2 d"
| "wf_domain (DVec3f d) = wf_vecf 3 d"
| "wf_domain (DVec4f d) = wf_vecf 4 d"
| "wf_domain _ = True"

text \<open>The type of the values that a domain bounds.\<close>

fun domain_type :: "domain \<Rightarrow> val_type" where
  "domain_type DImpulse = T_IMPULSE"
| "domain_type DBool = T_BOOL"
| "domain_type (DInt _) = T_INT"
| "domain_type (DFloat _) = T_FLOAT"
| "domain_type (DChar _) = T_CHAR"
| "domain_type (DString _) = T_STRING"
| "domain_type (DVector _) = T_LIST"
| "domain_type (DVec2f _) = T_VEC2F"
| "domain_type (DVec3f _) = T_VEC3F"
| "domain_type (DVec4f _) = T_VEC4F"
| "domain_type _ = T_NONE"

lemma wf_empty_vecf [simp]: "wf_vecf n (empty_vecf n)"
  by (simp add: wf_vecf_def empty_vecf_def)

lemma wf_set_vecf:
  "wf_vecf n d \<Longrightarrow> (\<And>xs. target v = Some xs \<Longrightarrow> length xs = n) \<Longrightarrow> wf_vecf n (set_vecf_min target d v)"
  "wf_vecf n d \<Longrightarrow> (\<And>xs. target v = Some xs \<Longrightarrow> length xs = n) \<Longrightarrow> wf_vecf n (set_vecf_max target d v)"
  by (auto simp: wf_vecf_def set_vecf_min_def set_vecf_max_def split: option.splits)

lemma target_vec_length:
  "wf_val v \<Longrightarrow> target_vec2f v = Some xs \<Longrightarrow> length xs = 2"
  "wf_val v \<Longrightarrow> target_vec3f v = Some xs \<Longrightarrow> length xs = 3"
  "wf_val v \<Longrightarrow> target_vec4f v = Some xs \<Longrightarrow> length xs = 4"
  by (cases v; auto simp: wf_vec_def)+

lemma wf_creation:
  assumes "wf_val v"
  shows "wf_domain (min_creation v)" and "wf_domain (max_creation v)"
  using assms by (cases v; auto simp: wf_vecf_def wf_vec_def empty_vecf_def)+

lemma wf_domain_set_min: "wf_domain dm \<Longrightarrow> wf_val v \<Longrightarrow> wf_domain (domain_set_min dm v)"
  using wf_creation(1) [of v]
  by (cases dm) (auto simp: domain_set_min_def intro!: wf_set_vecf dest: target_vec_length)

lemma wf_domain_set_max: "wf_domain dm \<Longrightarrow> wf_val v \<Longrightarrow> wf_domain (domain_set_max dm v)"
  using wf_creation(2) [of v]
  by (cases dm) (auto simp: domain_set_max_def intro!: wf_set_vecf dest: target_vec_length)

lemma wf_domain_set_values: "wf_domain dm \<Longrightarrow> wf_domain (domain_set_values dm vals)"
  by (cases dm) (auto simp: domain_set_values_def wf_vecf_def)

lemma wf_minmax_creation: "wf_val mn \<Longrightarrow> wf_val mx \<Longrightarrow> wf_domain (minmax_creation mn mx)"
  by (cases mn; cases mx) (simp_all add: wf_vecf_def wf_vec_def empty_vecf_def)

lemma wf_init_domain: "wf_domain (init_domain t) \<and> domain_type (init_domain t) = t"
  by (cases t) simp_all

lemma wf_make_domain: "wf_val mn \<Longrightarrow> wf_val mx \<Longrightarrow> wf_domain (make_domain mn mx)"
  by (simp add: make_domain_def wf_minmax_creation wf_domain_set_min wf_domain_set_max)

lemma wf_value_set_creation: "wf_domain (value_set_creation vals v)"
  by (cases v) (simp_all add: wf_vecf_def empty_vecf_def)

lemma wf_make_domain_from_osc:
  assumes "list_all wf_val vals"
  shows "wf_domain (make_domain_from_osc vals cur)"
proof -
  have "wf_val (vals ! i)" if "i < length vals" for i using that assms by (simp add: list_all_length)
  then show ?thesis by (simp add: make_domain_from_osc_def wf_minmax_creation wf_value_set_creation)
qed

lemma wf_list_to_vec_val:
  assumes "wf_text io" "list_all wf_val vs"
  shows "wf_val (VVec2f (list_to_vec io 2 vs))" and "wf_val (VVec3f (list_to_vec io 3 vs))"
    and "wf_val (VVec4f (list_to_vec io 4 vs))"
  using wf_list_to_vec [OF assms] by (simp_all add: wf_vec_def)

lemma wf_make_domain_from_minmax:
  assumes "wf_text io" "list_all wf_val mn" "list_all wf_val mx"
  shows "wf_domain (make_domain_from_minmax io mn mx t)"
proof -
  have nth: "wf_val (mn ! 0)" if "length mn \<noteq> 0" using that assms(2) by (simp add: list_all_length)
  have nth': "wf_val (mx ! 0)" if "length mx \<noteq> 0" using that assms(3) by (simp add: list_all_length)
  have bounds: "wf_val (VList mn)" "wf_val (VList mx)" "wf_val (VFloat fl_zero)" "wf_val (VFloat fl_one)"
    "wf_val (VVec2f (replicate 2 fl_zero))" "wf_val (VVec3f (replicate 3 fl_zero))"
    "wf_val (VVec4f (replicate 4 fl_zero))" "wf_val (VVec2f (replicate 2 fl_one))"
    "wf_val (VVec3f (replicate 3 fl_one))" "wf_val (VVec4f (replicate 4 fl_one))"
    "wf_val (VList [])" "wf_val (VInt n)" "wf_val (VChar c)" for n c
    using assms(2,3) by simp_all
  show ?thesis
    unfolding make_domain_from_minmax_def Let_def
    using nth nth'
    by (cases t) (auto intro!: wf_make_domain bounds wf_list_to_vec_val assms simp del: wf_val.simps)
qed

text \<open>Setting a bound keeps the type of a domain.\<close>

lemma domain_type_set:
  "dm \<noteq> DNone \<Longrightarrow> domain_type (domain_set_min dm v) = domain_type dm"
  "dm \<noteq> DNone \<Longrightarrow> domain_type (domain_set_max dm v) = domain_type dm"
  by (cases dm; simp add: domain_set_min_def domain_set_max_def)+

section \<open>Reading back\<close>

definition settable :: "val_type \<Rightarrow> bool" where
  "settable t \<longleftrightarrow> t \<in> {T_INT, T_FLOAT, T_CHAR, T_LIST, T_VEC2F, T_VEC3F, T_VEC4F}"

lemma opt_vec_map_Some [simp]: "opt_vec mk (map Some xs) = mk xs"
  by (auto simp: opt_vec_def comp_def)

lemma get_set_min:
  "domain_type dm = get_type v \<Longrightarrow> settable (get_type v) \<Longrightarrow> domain_get_min (domain_set_min dm v) = v"
  by (cases dm; cases v) (auto simp: settable_def domain_set_min_def opt_val_def set_vecf_min_def)

lemma get_set_max:
  "domain_type dm = get_type v \<Longrightarrow> settable (get_type v) \<Longrightarrow> domain_get_max (domain_set_max dm v) = v"
  by (cases dm; cases v) (auto simp: settable_def domain_set_max_def opt_val_def set_vecf_max_def)

lemma get_max_set_min: "dm \<noteq> DNone \<Longrightarrow> domain_get_max (domain_set_min dm v) = domain_get_max dm"
  by (cases dm) (auto simp: domain_set_min_def set_vecf_min_def split: option.splits)

lemma get_min_set_max: "dm \<noteq> DNone \<Longrightarrow> domain_get_min (domain_set_max dm v) = domain_get_min dm"
  by (cases dm) (auto simp: domain_set_max_def set_vecf_max_def split: option.splits)

lemma set_min_set_max:
  "dm \<noteq> DNone \<Longrightarrow> domain_set_min (domain_set_max dm w) v = domain_set_max (domain_set_min dm v) w"
  by (cases dm)
    (auto simp: domain_set_min_def domain_set_max_def set_vecf_min_def set_vecf_max_def split: option.splits)

lemma make_domain_bounds:
  "get_type mn = get_type mx \<Longrightarrow> settable (get_type mn) \<Longrightarrow>
    domain_type (make_domain mn mx) = get_type mn \<and>
    domain_get_min (make_domain mn mx) = mn \<and> domain_get_max (make_domain mn mx) = mx"
  by (cases mn; cases mx) (auto simp: settable_def make_domain_def opt_val_def)

lemma creation_bounds:
  "settable (get_type v) \<Longrightarrow>
    domain_type (domain_set_min DNone v) = get_type v \<and> domain_get_min (domain_set_min DNone v) = v"
  "settable (get_type v) \<Longrightarrow>
    domain_type (domain_set_max DNone v) = get_type v \<and> domain_get_max (domain_set_max DNone v) = v"
  by (cases v; auto simp: settable_def domain_set_min_def domain_set_max_def opt_val_def)+

text \<open>The values of a scalar domain: those of its type, in order.\<close>

lemma map_filter_target:
  "map VInt (List.map_filter target_int vals) = filter (\<lambda>v. get_type v = T_INT) vals"
  "map VFloat (List.map_filter target_float vals) = filter (\<lambda>v. get_type v = T_FLOAT) vals"
  "map VChar (List.map_filter target_char vals) = filter (\<lambda>v. get_type v = T_CHAR) vals"
  "map VString (List.map_filter target_string vals) = filter (\<lambda>v. get_type v = T_STRING) vals"
  by (induction vals; simp add: List.map_filter_def; (rename_tac v vs, case_tac v; simp))+

lemma get_set_values:
  "domain_type dm \<in> {T_INT, T_FLOAT, T_CHAR, T_STRING} \<Longrightarrow>
    domain_get_values (domain_set_values dm vals) = filter (\<lambda>v. get_type v = domain_type dm) vals"
  by (cases dm) (auto simp: domain_get_values_def domain_set_values_def map_filter_target)

section \<open>Sets of values\<close>

lemma float_set_inv:
  assumes "VFloat NaN \<notin> set vals"
  shows "flat_inv fl_lt (\<lambda>x. x \<noteq> NaN) (float_set vals)"
proof -
  have "flat_inv fl_lt (\<lambda>x. x \<noteq> NaN)
      (fold (\<lambda>v s. case target_float v of Some x \<Rightarrow> flat_insert fl_lt s x | None \<Rightarrow> s) vals s)"
    if "flat_inv fl_lt (\<lambda>x. x \<noteq> NaN) s" for s
    using that assms
  proof (induction vals arbitrary: s)
    case (Cons v vals)
    then show ?case by (cases v) (auto intro!: Cons.IH fl.flat_insert_inv)
  qed simp
  from this [of "[]"] show ?thesis by (simp add: float_set_def flat_inv_def)
qed

lemma float_set_find:
  assumes "VFloat NaN \<notin> set vals" and "x \<noteq> NaN"
  shows "flat_find fl_lt (float_set vals) x \<noteq> None \<longleftrightarrow> (\<exists>y. VFloat y \<in> set vals \<and> fl_eq y x)"
proof -
  have eq: "equivalent fl_lt y x \<longleftrightarrow> fl_eq y x" if "y \<noteq> NaN" for y
    using that assms(2) fl_trichotomy [of y x] fl_lt_not_eq fl_eq_commute by (auto simp: equivalent_def)
  have "flat_find fl_lt (fold (\<lambda>v s. case target_float v of Some x \<Rightarrow> flat_insert fl_lt s x | None \<Rightarrow> s) vals s) x
      \<noteq> None \<longleftrightarrow> flat_find fl_lt s x \<noteq> None \<or> (\<exists>y. VFloat y \<in> set vals \<and> fl_eq y x)"
    if "flat_inv fl_lt (\<lambda>x. x \<noteq> NaN) s" for s
    using that assms(1)
  proof (induction vals arbitrary: s)
    case (Cons v vals)
    show ?case
    proof (cases "\<exists>y. v = VFloat y")
      case True
      then obtain y where y: "v = VFloat y" by blast
      then have nn: "y \<noteq> NaN" using Cons.prems(2) by auto
      have ins: "flat_find fl_lt (flat_insert fl_lt s y) x \<noteq> None \<longleftrightarrow> flat_find fl_lt s x \<noteq> None \<or> fl_eq y x"
        using fl.flat_find_insert [OF Cons.prems(1) nn assms(2)] eq [OF nn] by simp
      show ?thesis
        using Cons.IH [OF fl.flat_insert_inv [OF Cons.prems(1) nn]] Cons.prems(2) y ins by auto
    next
      case False
      then show ?thesis using Cons by (cases v) auto
    qed
  qed simp
  from this [of "[]"] show ?thesis
    by (simp add: float_set_def flat_inv_def flat_find_def lower_bound_def lower_bound_loop.simps)
qed

text \<open>Only the first set of a \<open>vector_domain\<close> gets values.\<close>

lemma length_insert_first [simp]: "length (insert_first vals ss) = length ss"
  unfolding insert_first_def by (induction vals arbitrary: ss) simp_all

lemma nth_insert_first: "i \<noteq> 0 \<Longrightarrow> insert_first vals ss ! i = ss ! i"
  unfolding insert_first_def by (induction vals arbitrary: ss) simp_all

lemma update_sets_rest:
  assumes "0 < i" and "i < length sets"
  shows "update_sets vals sets ! i = []"
proof -
  have "fold (\<lambda>i ss. insert_first vals (ss[i := []])) is ss ! i = (if i \<in> set is then [] else ss ! i)"
    if "length ss = length sets" for "is" ss
    using that assms
  proof (induction "is" arbitrary: ss)
    case (Cons j "is")
    then show ?case by (auto simp: nth_insert_first nth_list_update)
  qed simp
  from this [of sets "[0..<length sets]"] show ?thesis using assms by (simp add: update_sets_def)
qed

end
