(* ===== verification/Domain_Convert.thy ===== *)
theory Domain_Convert
  imports Domain
begin

text \<open>
  Conversion of a domain to the one of another type: the structs \<open>domain_conversion\<close> and the
  functions \<open>convert_domain\<close> and \<open>convert_compatible_domain\<close> of
  \<open>network/domain/domain_conversion.hpp\<close>. A bound converted to an integer type that cannot hold it
  is undefined behaviour.
\<close>

section \<open>Numeric domains\<close>

definition opt_res :: "('a \<Rightarrow> 'b res) \<Rightarrow> 'a option \<Rightarrow> 'b option res" where
  "opt_res f o' = (case o' of None \<Rightarrow> Ok None | Some x \<Rightarrow> res_map Some (f x))"

definition convert_num :: "('a \<Rightarrow> 'b res) \<Rightarrow> 'a num_dom \<Rightarrow> 'b num_dom res" where
  "convert_num f d =
     res_bind (opt_res f (num_min d)) (\<lambda>mn.
     res_bind (opt_res f (num_max d)) (\<lambda>mx.
     res_map (\<lambda>vals. \<lparr>num_min = mn, num_max = mx, num_values = vals\<rparr>)
       (map_res f (num_values d))))"

definition bool_bounds :: "'a \<Rightarrow> 'a \<Rightarrow> 'a num_dom" where
  "bool_bounds x y = \<lparr>num_min = Some x, num_max = Some y, num_values = []\<rparr>"

fun to_int_domain :: "domain \<Rightarrow> domain res" where
  "to_int_domain (DInt d) = res_map DInt (convert_num Ok d)"
| "to_int_domain (DFloat d) = res_map DInt (convert_num fl_to_i32 d)"
| "to_int_domain (DChar d) = res_map DInt (convert_num (\<lambda>c. Ok (char_to_i32 c)) d)"
| "to_int_domain DBool = Ok (DInt (bool_bounds 0 1))"
| "to_int_domain _ = Ok (DInt empty_num)"

fun to_float_domain :: "domain \<Rightarrow> domain res" where
  "to_float_domain (DInt d) = res_map DFloat (convert_num (\<lambda>n. Ok (fl_of_int F32 (sint n))) d)"
| "to_float_domain (DFloat d) = res_map DFloat (convert_num Ok d)"
| "to_float_domain (DChar d) = res_map DFloat (convert_num (\<lambda>c. Ok (fl_of_int F32 (sint c))) d)"
| "to_float_domain DBool = Ok (DFloat (bool_bounds fl_zero fl_one))"
| "to_float_domain _ = Ok (DFloat empty_num)"

fun to_char_domain :: "domain \<Rightarrow> domain res" where
  "to_char_domain (DInt d) = res_map DChar (convert_num (\<lambda>n. Ok (i32_to_char n)) d)"
| "to_char_domain (DFloat d) = res_map DChar (convert_num fl_to_i8 d)"
| "to_char_domain (DChar d) = res_map DChar (convert_num Ok d)"
| "to_char_domain DBool = Ok (DChar (bool_bounds 0 1))"
| "to_char_domain _ = Ok (DChar empty_num)"

section \<open>Array domains\<close>

definition list_func :: "text_io \<Rightarrow> nat \<Rightarrow> vector_dom \<Rightarrow> vecf_dom" where
  "list_func io n t =
     (let bound = (\<lambda>vs. map (\<lambda>v. Some (convert_float io v)) (take n vs) @ replicate (n - length vs) None);
          vals = map (\<lambda>s. fold (\<lambda>v acc. flat_insert fl_lt acc (convert_float io v)) s []) (take n (vd_values t))
      in \<lparr>vf_min = bound (vd_min t), vf_max = bound (vd_max t),
           vf_values = vals @ replicate (n - length (vd_values t)) []\<rparr>)"

fun to_vec2f_domain :: "text_io \<Rightarrow> domain \<Rightarrow> domain" where
  "to_vec2f_domain io (DVec2f d) = DVec2f d"
| "to_vec2f_domain io (DVector t) = DVec2f (list_func io 2 t)"
| "to_vec2f_domain io _ = DVec2f (empty_vecf 2)"

fun to_vec3f_domain :: "text_io \<Rightarrow> domain \<Rightarrow> domain" where
  "to_vec3f_domain io (DVec3f d) = DVec3f d"
| "to_vec3f_domain io (DVector t) = DVec3f (list_func io 3 t)"
| "to_vec3f_domain io _ = DVec3f (empty_vecf 3)"

fun to_vec4f_domain :: "text_io \<Rightarrow> domain \<Rightarrow> domain" where
  "to_vec4f_domain io (DVec4f d) = DVec4f d"
| "to_vec4f_domain io (DVector t) = DVec4f (list_func io 4 t)"
| "to_vec4f_domain io _ = DVec4f (empty_vecf 4)"

section \<open>Conversion to a type\<close>

fun convert_domain_to :: "text_io \<Rightarrow> val_type \<Rightarrow> domain \<Rightarrow> domain res" where
  "convert_domain_to io T_IMPULSE dm = Ok DImpulse"
| "convert_domain_to io T_INT dm = to_int_domain dm"
| "convert_domain_to io T_FLOAT dm = to_float_domain dm"
| "convert_domain_to io T_BOOL dm = Ok DBool"
| "convert_domain_to io T_CHAR dm = to_char_domain dm"
| "convert_domain_to io T_STRING dm = Ok (case dm of DString ss \<Rightarrow> DString ss | _ \<Rightarrow> DString [])"
| "convert_domain_to io T_LIST dm = Ok (case dm of DVector d \<Rightarrow> DVector d | _ \<Rightarrow> DVector empty_vector)"
| "convert_domain_to io T_VEC2F dm = Ok (to_vec2f_domain io dm)"
| "convert_domain_to io T_VEC3F dm = Ok (to_vec3f_domain io dm)"
| "convert_domain_to io T_VEC4F dm = Ok (to_vec4f_domain io dm)"
| "convert_domain_to io T_NONE dm = Ok DNone"

text \<open>\<open>apply_nonnull\<close> throws on the domain without an alternative, except for an unknown type.\<close>

definition convert_domain :: "text_io \<Rightarrow> domain \<Rightarrow> val_type \<Rightarrow> domain res" where
  "convert_domain io dm t =
     (if t \<noteq> T_NONE \<and> dm = DNone then Err Bad_variant_type else convert_domain_to io t dm)"

definition convert_compatible_domain :: "text_io \<Rightarrow> domain \<Rightarrow> val_type \<Rightarrow> domain res" where
  "convert_compatible_domain io dm t =
     (if domain_which dm < 6 then convert_domain io dm t
      else if domain_which dm = 6 then
        (case t of
           T_VEC2F \<Rightarrow> convert_domain io dm t
         | T_VEC3F \<Rightarrow> convert_domain io dm t
         | T_VEC4F \<Rightarrow> convert_domain io dm t
         | _ \<Rightarrow> Ok dm)
      else Ok dm)"

section \<open>Laws\<close>

lemma convert_domain_type: "convert_domain io dm t = Ok e \<Longrightarrow> domain_type e = t"
  by (cases t; cases dm) (auto simp: convert_domain_def)

lemma wf_list_func: "wf_vecf n (list_func io n t)"
  by (auto simp: wf_vecf_def list_func_def Let_def)

lemma convert_domain_wf: "wf_domain dm \<Longrightarrow> convert_domain io dm t = Ok e \<Longrightarrow> wf_domain e"
  by (cases t; cases dm) (auto simp: convert_domain_def wf_list_func)

lemma convert_num_Ok: "convert_num Ok d = Ok d"
  by (cases d) (simp add: convert_num_def opt_res_def map_res_id split: option.splits)

lemma convert_domain_same: "domain_type dm = t \<Longrightarrow> t \<noteq> T_NONE \<Longrightarrow> convert_domain io dm t = Ok dm"
  by (cases dm) (auto simp: convert_domain_def convert_num_Ok)

lemma convert_num_map:
  "(\<And>x. f x = Ok (g x)) \<Longrightarrow> convert_num f d =
    Ok \<lparr>num_min = map_option g (num_min d), num_max = map_option g (num_max d), num_values = map g (num_values d)\<rparr>"
  by (simp add: convert_num_def opt_res_def map_res_Ok_map split: option.splits)

text \<open>A domain on \<open>int\<close> whose numbers are exact in \<open>float\<close> survives the conversion there and back.\<close>

definition all_num :: "('a \<Rightarrow> bool) \<Rightarrow> 'a num_dom \<Rightarrow> bool" where
  "all_num P d \<longleftrightarrow> pred_option P (num_min d) \<and> pred_option P (num_max d) \<and> list_all P (num_values d)"

lemma convert_num_inverse:
  assumes "all_num (\<lambda>x. f (g x) = Ok x) d"
  shows "convert_num f \<lparr>num_min = map_option g (num_min d), num_max = map_option g (num_max d),
      num_values = map g (num_values d)\<rparr> = Ok d"
proof -
  have "map_res f (map g xs) = Ok xs" if "list_all (\<lambda>x. f (g x) = Ok x) xs" for xs
    using that by (induction xs) simp_all
  then show ?thesis
    using assms by (cases d) (auto simp: convert_num_def opt_res_def all_num_def split: option.splits)
qed

lemma int_float_roundtrip:
  assumes "all_num (\<lambda>n. \<bar>sint n\<bar> \<le> 2 ^ 24) d"
  shows "res_bind (convert_domain io (DInt d) T_FLOAT) (\<lambda>e. convert_domain io e T_INT) = Ok (DInt d)"
proof -
  have "all_num (\<lambda>n. fl_to_i32 (fl_of_int F32 (sint n)) = Ok n) d"
    using assms exact_i32_float by (auto simp: all_num_def list_all_iff pred_option_def)
  from convert_num_inverse [where f = fl_to_i32 and g = "\<lambda>n. fl_of_int F32 (sint n)", OF this] show ?thesis
    by (simp add: convert_domain_def convert_num_map)
qed

text \<open>
  The conversion that means to keep compatible domains keeps only the domains of lists, arrays and
  generic values: a domain on a scalar or a string is always converted, so that for a list or an
  array type it loses its bounds and its values.
\<close>

lemma convert_compatible_scalar:
  "domain_which dm < 6 \<Longrightarrow> convert_compatible_domain io dm T_LIST = Ok (DVector empty_vector)"
  "domain_which dm < 6 \<Longrightarrow> convert_compatible_domain io dm T_VEC2F = Ok (DVec2f (empty_vecf 2))"
  by (cases dm; simp add: convert_compatible_domain_def convert_domain_def)+

lemma convert_compatible_kept:
  "domain_which dm > 6 \<Longrightarrow> convert_compatible_domain io dm t = Ok dm"
  by (simp add: convert_compatible_domain_def)

end
