(* ===== verification/Domain_Apply.thy ===== *)
theory Domain_Apply
  imports Domain_Convert
begin

text \<open>
  Applying a domain to a value with a bounding mode: the functors of
  \<open>network/domain/detail/domain_impl.cpp\<close> (\<open>numeric_clamp\<close>, \<open>list_clamp\<close>, \<open>vec_clamp\<close>,
  \<open>generic_clamp\<close>), \<open>value_set_clamp\<close> of \<open>value_set_domain.hpp\<close>, the visitor of
  \<open>detail/apply_domain.hpp\<close> and \<open>apply_domain\<close> of \<open>domain_base.cpp\<close>.
\<close>

section \<open>Scalars\<close>

datatype bounding_mode = FREE | CLIP | WRAP | FOLD | LOW | HIGH

text \<open>The operators that \<open>numeric_clamp\<close> uses for a type: its order, equality, \<open>wrap\<close> and \<open>fold\<close>.\<close>

record 'a num_ops =
  op_lt :: "'a \<Rightarrow> 'a \<Rightarrow> bool"
  op_eq :: "'a \<Rightarrow> 'a \<Rightarrow> bool"
  op_wrap :: "'a \<Rightarrow> 'a \<Rightarrow> 'a \<Rightarrow> 'a res"
  op_fold :: "'a \<Rightarrow> 'a \<Rightarrow> 'a \<Rightarrow> 'a res"

definition int_ops :: "i32 num_ops" where
  "int_ops = \<lparr>op_lt = sint_lt, op_eq = (=), op_wrap = wrap_i32, op_fold = fold_i32\<rparr>"

definition float_ops :: "fl num_ops" where
  "float_ops = \<lparr>op_lt = fl_lt, op_eq = fl_eq, op_wrap = (\<lambda>x l h. Ok (wrap_f32 x l h)),
     op_fold = (\<lambda>x l h. Ok (fold_f32 x l h))\<rparr>"

definition char_ops :: "i8 num_ops" where
  "char_ops = \<lparr>op_lt = sint_lt, op_eq = (=), op_wrap = wrap_i8, op_fold = fold_i8\<rparr>"

text \<open>The bounds part of \<open>numeric_clamp\<close>, for the scalar itself or for each scalar of an array.\<close>

definition bound_scalar :: "'a num_ops \<Rightarrow> 'a option \<Rightarrow> 'a option \<Rightarrow> bounding_mode \<Rightarrow> 'a \<Rightarrow> 'a res" where
  "bound_scalar ops mn mx b x =
     (case (mn, mx) of
        (Some l, Some h) \<Rightarrow>
          (case b of
             CLIP \<Rightarrow> Ok (clamp (op_lt ops) x l h)
           | WRAP \<Rightarrow> op_wrap ops x l h
           | FOLD \<Rightarrow> op_fold ops x l h
           | LOW \<Rightarrow> Ok (clamp_min (op_lt ops) x l)
           | HIGH \<Rightarrow> Ok (clamp_max (op_lt ops) x h)
           | FREE \<Rightarrow> Ok x)
      | (Some l, None) \<Rightarrow> (if b = CLIP \<or> b = LOW then Ok (clamp_min (op_lt ops) x l) else Ok x)
      | (None, Some h) \<Rightarrow> (if b = CLIP \<or> b = HIGH then Ok (clamp_max (op_lt ops) x h) else Ok x)
      | (None, None) \<Rightarrow> Ok x)"

definition numeric_clamp ::
  "'a num_ops \<Rightarrow> ('a \<Rightarrow> val) \<Rightarrow> 'a num_dom \<Rightarrow> bounding_mode \<Rightarrow> 'a \<Rightarrow> val res" where
  "numeric_clamp ops mk d b x =
     (if b = FREE then Ok (mk x)
      else if num_values d = [] then res_map mk (bound_scalar ops (num_min d) (num_max d) b x)
      else (case find (\<lambda>y. op_eq ops y x) (num_values d) of
              Some y \<Rightarrow> Ok (mk y)
            | None \<Rightarrow> Ok VUnset))"

definition numeric_clamp_bool :: "bounding_mode \<Rightarrow> bool \<Rightarrow> bool" where
  "numeric_clamp_bool b x =
     (case b of
        CLIP \<Rightarrow> clamp bool_lt x False True
      | WRAP \<Rightarrow> wrap_bool x False True
      | FOLD \<Rightarrow> fold_bool x False True
      | LOW \<Rightarrow> clamp_min bool_lt x False
      | HIGH \<Rightarrow> clamp_max bool_lt x True
      | FREE \<Rightarrow> x)"

text \<open>An array bounded by a scalar domain, whose numbers are converted to \<open>float\<close>.\<close>

definition numeric_clamp_vec ::
  "('a \<Rightarrow> fl) \<Rightarrow> (fl list \<Rightarrow> val) \<Rightarrow> 'a num_dom \<Rightarrow> bounding_mode \<Rightarrow> fl list \<Rightarrow> val res" where
  "numeric_clamp_vec fl_of mk d b xs =
     (if b = FREE then Ok (mk xs)
      else if num_values d = [] then
        res_map mk (map_res (bound_scalar float_ops (map_option fl_of (num_min d))
          (map_option fl_of (num_max d)) b) xs)
      else if list_all (\<lambda>x. \<exists>y\<in>set (num_values d). fl_eq (fl_of y) x) xs then Ok (mk xs)
      else Ok VUnset)"

definition numeric_clamp_bool_vec :: "bounding_mode \<Rightarrow> fl list \<Rightarrow> fl list" where
  "numeric_clamp_bool_vec b xs =
     (if b = FREE then xs else map (\<lambda>x. fl_of_bool (numeric_clamp_bool b (fl_to_bool x))) xs)"

definition string_clamp :: "string list \<Rightarrow> bounding_mode \<Rightarrow> string \<Rightarrow> val" where
  "string_clamp values b s =
     (if b = FREE \<or> values = [] then VString s
      else if s \<in> set values then VString s else VUnset)"

section \<open>Lists and arrays\<close>

definition list_clamp_element ::
  "vector_dom \<Rightarrow> bounding_mode \<Rightarrow> nat \<Rightarrow> val \<Rightarrow> val res" where
  "list_clamp_element d b i v =
     (if length (vd_values d) > i \<and> vd_values d ! i \<noteq> [] then
        (if flat_find value_lt (vd_values d ! i) v \<noteq> None then Ok v else Ok VUnset)
      else if length (vd_min d) > i \<and> length (vd_max d) > i then
        (let l = vd_min d ! i; h = vd_max d ! i
         in if valid l \<and> valid h then
              (case b of
                 CLIP \<Rightarrow> value_clamp v l h
               | WRAP \<Rightarrow> value_wrap v l h
               | FOLD \<Rightarrow> value_fold v l h
               | LOW \<Rightarrow> value_clamp_min v l
               | HIGH \<Rightarrow> value_clamp_max v h
               | FREE \<Rightarrow> Ok v)
            else if valid l then (if b = CLIP \<or> b = LOW then value_clamp_min v l else Ok v)
            else if valid h then (if b = CLIP \<or> b = HIGH then value_clamp_max v h else Ok v)
            else Ok v)
      else if length (vd_min d) > i \<and> valid (vd_min d ! i) then
        (if b = CLIP \<or> b = LOW then value_clamp_min v (vd_min d ! i) else Ok v)
      else if length (vd_max d) > i \<and> valid (vd_max d ! i) then
        (if b = CLIP \<or> b = HIGH then value_clamp_max v (vd_max d ! i) else Ok v)
      else Ok v)"

definition list_clamp :: "vector_dom \<Rightarrow> bounding_mode \<Rightarrow> val list \<Rightarrow> val res" where
  "list_clamp d b vs =
     (if b = FREE then Ok (VList vs)
      else res_map VList
        (map_res (\<lambda>(i, v). list_clamp_element d b i v) (zip [0..<length vs] vs)))"

definition vec_clamp_element :: "vecf_dom \<Rightarrow> bounding_mode \<Rightarrow> nat \<Rightarrow> fl \<Rightarrow> fl res" where
  "vec_clamp_element d b i x =
     (if vf_values d ! i \<noteq> [] then
        (if flat_find fl_lt (vf_values d ! i) x \<noteq> None then Ok x else Ok fl_zero)
      else bound_scalar float_ops (vf_min d ! i) (vf_max d ! i) b x)"

definition vec_clamp :: "vecf_dom \<Rightarrow> bounding_mode \<Rightarrow> fl list \<Rightarrow> fl list res" where
  "vec_clamp d b xs =
     (if b = FREE then Ok xs
      else map_res (\<lambda>(i, x). vec_clamp_element d b i x) (zip [0..<length xs] xs))"

section \<open>Generic domains\<close>

definition bound_value :: "val option \<Rightarrow> val option \<Rightarrow> bounding_mode \<Rightarrow> val \<Rightarrow> val res" where
  "bound_value mn mx b v =
     (case (mn, mx) of
        (Some l, Some h) \<Rightarrow>
          (case b of
             CLIP \<Rightarrow> value_clamp v l h
           | WRAP \<Rightarrow> value_wrap v l h
           | FOLD \<Rightarrow> value_fold v l h
           | LOW \<Rightarrow> value_clamp_min v l
           | HIGH \<Rightarrow> value_clamp_max v h
           | FREE \<Rightarrow> Ok v)
      | (Some l, None) \<Rightarrow> (if b = CLIP \<or> b = LOW then value_clamp_min v l else Ok v)
      | (None, Some h) \<Rightarrow> (if b = CLIP \<or> b = HIGH then value_clamp_max v h else Ok v)
      | (None, None) \<Rightarrow> Ok v)"

definition generic_clamp :: "val num_dom \<Rightarrow> bounding_mode \<Rightarrow> val \<Rightarrow> val res" where
  "generic_clamp d b v =
     (if b = FREE then Ok v
      else if num_values d = [] then bound_value (num_min d) (num_max d) b v
      else if \<exists>u\<in>set (num_values d). value_eq u v then Ok v
      else Ok VUnset)"

definition generic_clamp_list :: "val num_dom \<Rightarrow> bounding_mode \<Rightarrow> val list \<Rightarrow> val res" where
  "generic_clamp_list d b vs =
     (if b = FREE then Ok (VList vs)
      else if num_values d = [] then
        res_map VList (map_res (bound_value (num_min d) (num_max d) b) vs)
      else if list_all (\<lambda>v. \<exists>u\<in>set (num_values d). value_eq u v) vs then Ok (VList vs)
      else Ok VUnset)"

section \<open>The visitor\<close>

text \<open>The scalars of the type of the domain in a list; \<open>VUnset\<close> for a combination without a meaning.\<close>

fun apply_scalar :: "bounding_mode \<Rightarrow> val \<Rightarrow> domain \<Rightarrow> val res" where
  "apply_scalar b v (DInt d) =
     (case v of VInt n \<Rightarrow> numeric_clamp int_ops VInt d b n | _ \<Rightarrow> Ok VUnset)"
| "apply_scalar b v (DFloat d) =
     (case v of VFloat x \<Rightarrow> numeric_clamp float_ops VFloat d b x | _ \<Rightarrow> Ok VUnset)"
| "apply_scalar b v (DChar d) =
     (case v of VChar c \<Rightarrow> numeric_clamp char_ops VChar d b c | _ \<Rightarrow> Ok VUnset)"
| "apply_scalar b v DBool =
     (case v of VBool x \<Rightarrow> Ok (VBool (numeric_clamp_bool b x)) | _ \<Rightarrow> Ok VUnset)"
| "apply_scalar b v (DString ss) =
     (case v of VString s \<Rightarrow> Ok (string_clamp ss b s) | _ \<Rightarrow> Ok VUnset)"
| "apply_scalar b v DImpulse = (case v of VImpulse \<Rightarrow> Ok VImpulse | _ \<Rightarrow> Ok VUnset)"
| "apply_scalar b v _ = Ok VUnset"

definition apply_elements :: "bounding_mode \<Rightarrow> val list \<Rightarrow> domain \<Rightarrow> val res" where
  "apply_elements b vs dm =
     res_map VList
       (map_res (\<lambda>v. if get_type v = domain_type dm then apply_scalar b v dm else Ok v) vs)"

definition apply_vec ::
  "text_io \<Rightarrow> bounding_mode \<Rightarrow> nat \<Rightarrow> (fl list \<Rightarrow> val) \<Rightarrow> vecf_dom option \<Rightarrow> fl list \<Rightarrow> domain \<Rightarrow> val res" where
  "apply_vec io b n mk own xs dm =
     (case own of
        Some d \<Rightarrow> res_map mk (vec_clamp d b xs)
      | None \<Rightarrow>
          (case dm of
             DFloat d \<Rightarrow> numeric_clamp_vec (\<lambda>x. x) mk d b xs
           | DInt d \<Rightarrow> numeric_clamp_vec (\<lambda>k. fl_of_int F32 (sint k)) mk d b xs
           | DChar d \<Rightarrow> numeric_clamp_vec (\<lambda>c. fl_of_int F32 (sint c)) mk d b xs
           | DBool \<Rightarrow> Ok (mk (numeric_clamp_bool_vec b xs))
           | DVector d \<Rightarrow> res_map mk (vec_clamp (list_func io n d) b xs)
           | _ \<Rightarrow> Ok VUnset))"

fun apply_domain_visitor :: "text_io \<Rightarrow> bounding_mode \<Rightarrow> val \<Rightarrow> domain \<Rightarrow> val res" where
  "apply_domain_visitor io b (VList vs) dm =
     (case dm of
        DGeneric d \<Rightarrow> res_map VList (map_res (generic_clamp d b) vs)
      | DVector d \<Rightarrow> list_clamp d b vs
      | DVec2f _ \<Rightarrow> Ok VUnset
      | DVec3f _ \<Rightarrow> Ok VUnset
      | DVec4f _ \<Rightarrow> Ok VUnset
      | DNone \<Rightarrow> Err Bad_variant_type
      | _ \<Rightarrow> apply_elements b vs dm)"
| "apply_domain_visitor io b v dm =
     (case dm of
        DGeneric d \<Rightarrow> generic_clamp d b v
      | DNone \<Rightarrow> Err Bad_variant_type
      | _ \<Rightarrow>
          (case v of
             VVec2f xs \<Rightarrow>
               apply_vec io b 2 VVec2f (case dm of DVec2f d \<Rightarrow> Some d | _ \<Rightarrow> None) xs dm
           | VVec3f xs \<Rightarrow>
               apply_vec io b 3 VVec3f (case dm of DVec3f d \<Rightarrow> Some d | _ \<Rightarrow> None) xs dm
           | VVec4f xs \<Rightarrow>
               apply_vec io b 4 VVec4f (case dm of DVec4f d \<Rightarrow> Some d | _ \<Rightarrow> None) xs dm
           | _ \<Rightarrow> apply_scalar b v dm))"

text \<open>The two overloads: only the one on r-values checks for \<open>FREE\<close>.\<close>

definition apply_domain :: "text_io \<Rightarrow> domain \<Rightarrow> bounding_mode \<Rightarrow> val \<Rightarrow> val res" where
  "apply_domain io dm b v =
     (if dm \<noteq> DNone \<and> valid v then apply_domain_visitor io b v dm else Ok v)"

definition apply_domain_move :: "text_io \<Rightarrow> domain \<Rightarrow> bounding_mode \<Rightarrow> val \<Rightarrow> val res" where
  "apply_domain_move io dm b v =
     (if dm \<noteq> DNone \<and> valid v \<and> b \<noteq> FREE then apply_domain_visitor io b v dm else Ok v)"

section \<open>Types\<close>

lemma numeric_clamp_type:
  "numeric_clamp ops mk d b x = Ok w \<Longrightarrow> (\<exists>y. w = mk y) \<or> w = VUnset"
  by (auto simp: numeric_clamp_def split: if_splits option.splits)

lemma generic_clamp_type: "generic_clamp d b v = Ok w \<Longrightarrow> get_type w = get_type v \<or> w = VUnset"
  by (auto simp: generic_clamp_def bound_value_def value_clamp_def value_wrap_def value_fold_def
      value_clamp_min_def value_clamp_max_def
      dest: apply_ternary_type apply_binary_type split: if_splits option.splits bounding_mode.splits)

lemma apply_scalar_type: "apply_scalar b v dm = Ok w \<Longrightarrow> get_type w = get_type v \<or> w = VUnset"
  by (cases dm; cases v) (auto dest: numeric_clamp_type simp: string_clamp_def split: if_splits)

lemma numeric_clamp_vec_type:
  "numeric_clamp_vec g mk d b xs = Ok w \<Longrightarrow> (\<exists>ys. w = mk ys) \<or> w = VUnset"
  by (auto simp: numeric_clamp_vec_def split: if_splits)

lemma apply_vec_type: "apply_vec io b n mk own xs dm = Ok w \<Longrightarrow> (\<exists>ys. w = mk ys) \<or> w = VUnset"
  by (cases dm) (auto simp: apply_vec_def dest: numeric_clamp_vec_type split: option.splits)

lemma apply_visitor_type:
  assumes "apply_domain_visitor io b v dm = Ok w"
  shows "get_type w = get_type v \<or> w = VUnset"
proof (cases "is_list v")
  case True
  then show ?thesis
    using assms by (cases v; cases dm) (auto simp: list_clamp_def apply_elements_def split: if_splits)
next
  case False
  show ?thesis
  proof (cases "v \<in> {VVec2f xs | xs. True} \<union> {VVec3f xs | xs. True} \<union> {VVec4f xs | xs. True}")
    case True
    then show ?thesis
      using assms by (cases dm) (auto dest!: apply_vec_type generic_clamp_type)
  next
    case no: False
    then have "apply_domain_visitor io b v dm = (case dm of DGeneric d \<Rightarrow> generic_clamp d b v
        | DNone \<Rightarrow> Err Bad_variant_type | _ \<Rightarrow> apply_scalar b v dm)"
      using False by (cases v; cases dm) auto
    then show ?thesis
      using assms by (cases dm) (auto dest: generic_clamp_type apply_scalar_type simp del: apply_scalar.simps)
  qed
qed

lemma apply_domain_type:
  "apply_domain io dm b v = Ok w \<Longrightarrow> get_type w = get_type v \<or> w = VUnset"
  using apply_visitor_type by (auto simp: apply_domain_def split: if_splits)

section \<open>Bounds\<close>

definition fits_bounds :: "('a \<Rightarrow> 'a \<Rightarrow> bool) \<Rightarrow> 'a option \<Rightarrow> 'a option \<Rightarrow> 'a \<Rightarrow> bool" where
  "fits_bounds lt mn mx x \<longleftrightarrow> (\<forall>l. mn = Some l \<longrightarrow> \<not> lt x l) \<and> (\<forall>h. mx = Some h \<longrightarrow> \<not> lt h x)"

definition in_order :: "('a \<Rightarrow> 'a \<Rightarrow> bool) \<Rightarrow> ('a \<Rightarrow> bool) \<Rightarrow> 'a option \<Rightarrow> 'a option \<Rightarrow> bool" where
  "in_order lt ok mn mx \<longleftrightarrow> pred_option ok mn \<and> pred_option ok mx \<and>
     (\<forall>l h. mn = Some l \<longrightarrow> mx = Some h \<longrightarrow> \<not> lt h l)"

context strict_weak_order
begin

lemma clip_respects:
  assumes "op_lt ops = lt" "in_order lt ok mn mx" "ok x"
  shows "\<exists>y. bound_scalar ops mn mx CLIP x = Ok y \<and> ok y \<and> fits_bounds lt mn mx y"
proof (cases mn; cases mx)
  fix l h
  assume "mn = Some l" "mx = Some h"
  then show ?thesis
    using assms clamp_range [of x l h] clamp_ok [of x l h]
    by (auto simp: bound_scalar_def fits_bounds_def in_order_def)
qed (use assms in \<open>auto simp: bound_scalar_def fits_bounds_def in_order_def clamp_min_def clamp_max_def irrefl\<close>)

lemma low_respects:
  assumes "op_lt ops = lt" "pred_option ok mn" "ok x"
  shows "\<exists>y. bound_scalar ops mn mx LOW x = Ok y \<and> fits_bounds lt mn None y"
  using assms by (cases mn; cases mx) (auto simp: bound_scalar_def fits_bounds_def clamp_min_def irrefl)

lemma high_respects:
  assumes "op_lt ops = lt" "pred_option ok mx" "ok x"
  shows "\<exists>y. bound_scalar ops mn mx HIGH x = Ok y \<and> fits_bounds lt None mx y"
  using assms by (cases mn; cases mx) (auto simp: bound_scalar_def fits_bounds_def clamp_max_def irrefl)

end

lemma clip_id: "fits_bounds (op_lt ops) mn mx x \<Longrightarrow> bound_scalar ops mn mx CLIP x = Ok x"
  by (auto simp: bound_scalar_def fits_bounds_def clamp_def clamp_min_def clamp_max_def split: option.splits)

text \<open>Clipping is idempotent whatever the bounds, crossed ones and NaN included.\<close>

lemma clip_idem:
  assumes "\<And>x. \<not> op_lt ops x x" and "bound_scalar ops mn mx CLIP x = Ok y"
  shows "bound_scalar ops mn mx CLIP y = Ok y"
  using assms
  by (auto simp: bound_scalar_def clamp_def clamp_min_def clamp_max_def split: option.splits if_splits)

lemma find_idem:
  assumes "find (\<lambda>y. eq y x) ys = Some z" and "\<And>u v. eq u z \<Longrightarrow> eq z v \<Longrightarrow> eq u v" and "eq z x \<Longrightarrow> eq z z"
  shows "find (\<lambda>y. eq y z) ys = Some z"
proof -
  have z: "eq z x" using assms(1) by (metis find_Some_iff)
  show ?thesis
    using assms(1)
  proof (induction ys)
    case (Cons u ys)
    then show ?case using assms(2) [of u x] assms(3) z by (auto split: if_splits)
  qed simp
qed

lemma numeric_clamp_idem:
  assumes "\<And>x. \<not> op_lt ops x x"
    and "\<And>x y z. op_eq ops x y \<Longrightarrow> op_eq ops y z \<Longrightarrow> op_eq ops x z" and "\<And>x y. op_eq ops x y \<Longrightarrow> op_eq ops x x"
    and "numeric_clamp ops mk d CLIP x = Ok (mk y)" and "\<And>u v. mk u = mk v \<Longrightarrow> u = v" and "mk y \<noteq> VUnset"
  shows "numeric_clamp ops mk d CLIP y = Ok (mk y)"
proof (cases "num_values d = []")
  case True
  then have "bound_scalar ops (num_min d) (num_max d) CLIP x = Ok y"
    using assms(4,5) by (auto simp: numeric_clamp_def)
  then show ?thesis using True clip_idem [OF assms(1)] by (simp add: numeric_clamp_def)
next
  case False
  then have "find (\<lambda>z. op_eq ops z x) (num_values d) = Some y"
    using assms(4-6) by (auto simp: numeric_clamp_def split: option.splits)
  then have "find (\<lambda>z. op_eq ops z y) (num_values d) = Some y"
    using assms(2,3) by (rule find_idem)
  then show ?thesis using False by (simp add: numeric_clamp_def)
qed

lemma scalar_ops_laws:
  "\<not> op_lt int_ops n n" "\<not> op_lt float_ops x x" "\<not> op_lt char_ops c c"
  by (simp_all add: int_ops_def float_ops_def char_ops_def sint_lt_def)

lemma numeric_clamp_set_type: "numeric_clamp ops mk d b x = Ok w \<Longrightarrow> w \<noteq> VUnset \<Longrightarrow> \<exists>y. w = mk y"
  using numeric_clamp_type by metis

lemma apply_scalar_clip_idem:
  assumes "apply_scalar CLIP v dm = Ok w" and "w \<noteq> VUnset"
  shows "apply_scalar CLIP w dm = Ok w"
proof (cases dm)
  case (DInt d)
  then obtain n where n: "v = VInt n" using assms by (cases v) auto
  then obtain m where m: "w = VInt m"
    using assms DInt numeric_clamp_set_type [of int_ops VInt d CLIP n w] by auto
  have nm: "v = VInt n" "w = VInt m" "numeric_clamp int_ops VInt d CLIP n = Ok (VInt m)"
    using assms(1) DInt n m by simp_all
  have "numeric_clamp int_ops VInt d CLIP m = Ok (VInt m)"
    by (rule numeric_clamp_idem [OF _ _ _ nm(3)]) (simp_all add: int_ops_def sint_lt_def)
  then show ?thesis using DInt nm by simp
next
  case (DFloat d)
  then obtain x where x: "v = VFloat x" using assms by (cases v) auto
  then obtain y where y: "w = VFloat y"
    using assms DFloat numeric_clamp_set_type [of float_ops VFloat d CLIP x w] by auto
  have xy: "v = VFloat x" "w = VFloat y" "numeric_clamp float_ops VFloat d CLIP x = Ok (VFloat y)"
    using assms(1) DFloat x y by simp_all
  have "numeric_clamp float_ops VFloat d CLIP y = Ok (VFloat y)"
    by (rule numeric_clamp_idem [OF _ _ _ xy(3)]) (auto simp: float_ops_def intro: fl_eq_trans)
  then show ?thesis using DFloat xy by simp
next
  case (DChar d)
  then obtain n where n: "v = VChar n" using assms by (cases v) auto
  then obtain m where m: "w = VChar m"
    using assms DChar numeric_clamp_set_type [of char_ops VChar d CLIP n w] by auto
  have nm: "v = VChar n" "w = VChar m" "numeric_clamp char_ops VChar d CLIP n = Ok (VChar m)"
    using assms(1) DChar n m by simp_all
  have "numeric_clamp char_ops VChar d CLIP m = Ok (VChar m)"
    by (rule numeric_clamp_idem [OF _ _ _ nm(3)]) (simp_all add: char_ops_def sint_lt_def)
  then show ?thesis using DChar nm by simp
next
  case DBool
  then show ?thesis
    using assms
    by (cases v) (auto simp: numeric_clamp_bool_def clamp_def clamp_min_def clamp_max_def bool_lt_def)
next
  case (DString ss)
  then show ?thesis using assms by (cases v) (auto simp: string_clamp_def split: if_splits)
qed (use assms in \<open>auto split: val.splits\<close>)

lemma apply_domain_scalar:
  assumes "dm \<noteq> DNone" "\<And>d. dm \<noteq> DGeneric d" "valid v" "\<not> is_array v"
  shows "apply_domain io dm b v = apply_scalar b v dm"
  using assms by (cases dm; cases v) (simp_all add: apply_domain_def)

lemma apply_domain_clip_idem:
  assumes "\<And>d. dm \<noteq> DGeneric d" and "\<not> is_array v" and "apply_domain io dm CLIP v = Ok w"
  shows "apply_domain io dm CLIP w = Ok w"
proof (cases "dm = DNone \<or> \<not> valid v \<or> \<not> valid w")
  case True
  then show ?thesis using assms(3) by (auto simp: apply_domain_def)
next
  case False
  then have "get_type w = get_type v" using apply_domain_type [OF assms(3)] by auto
  then have "\<not> is_array w" using assms(2) by (cases v; cases w) simp_all
  then show ?thesis
    using False assms apply_domain_scalar [of dm v io CLIP] apply_domain_scalar [of dm w io CLIP]
      apply_scalar_clip_idem [of v dm w] by simp
qed

lemma apply_domain_clip_int:
  assumes "num_values d = []" "in_order sint_lt (\<lambda>_. True) (num_min d) (num_max d)"
  shows "\<exists>m. apply_domain io (DInt d) CLIP (VInt n) = Ok (VInt m) \<and>
    fits_bounds sint_lt (num_min d) (num_max d) m"
  using i32.clip_respects [OF _ assms(2), where ops = int_ops and x = n] assms(1)
  by (auto simp: apply_domain_def numeric_clamp_def int_ops_def)

lemma apply_domain_clip_float:
  assumes "num_values d = []" "in_order fl_lt (\<lambda>y. y \<noteq> NaN) (num_min d) (num_max d)" "x \<noteq> NaN"
  shows "\<exists>y. apply_domain io (DFloat d) CLIP (VFloat x) = Ok (VFloat y) \<and> y \<noteq> NaN \<and>
    fits_bounds fl_lt (num_min d) (num_max d) y"
  using fl.clip_respects [OF _ assms(2,3), where ops = float_ops] assms(1)
  by (auto simp: apply_domain_def numeric_clamp_def float_ops_def)

text \<open>Arrays are clipped component by component.\<close>

lemma map_res_index:
  assumes "\<And>i. i < length xs \<Longrightarrow> \<exists>y. f i (xs ! i) = Ok y \<and> P i y"
  shows "\<exists>ys. map_res (\<lambda>(i, x). f i x) (zip [0..<length xs] xs) = Ok ys \<and> length ys = length xs \<and>
    (\<forall>i<length xs. P i (ys ! i))"
proof -
  obtain g where g: "\<And>i. i < length xs \<Longrightarrow> f i (xs ! i) = Ok (g i) \<and> P i (g i)" using assms by metis
  then have "map_res (\<lambda>(i, x). f i x) (zip [0..<length xs] xs) = Ok (map g [0..<length xs])"
    by (auto simp: map_res_Ok_iff list_all2_conv_all_nth)
  then show ?thesis using g by auto
qed

lemma vec_clamp_clip:
  assumes "\<forall>i<length xs. vf_values d ! i = [] \<and> xs ! i \<noteq> NaN \<and>
      in_order fl_lt (\<lambda>y. y \<noteq> NaN) (vf_min d ! i) (vf_max d ! i)"
  shows "\<exists>ys. vec_clamp d CLIP xs = Ok ys \<and> length ys = length xs \<and>
    (\<forall>i<length xs. fits_bounds fl_lt (vf_min d ! i) (vf_max d ! i) (ys ! i))"
proof -
  have "\<exists>y. vec_clamp_element d CLIP i (xs ! i) = Ok y \<and> fits_bounds fl_lt (vf_min d ! i) (vf_max d ! i) y"
    if "i < length xs" for i
    using assms that fl.clip_respects [where ops = float_ops and mn = "vf_min d ! i" and mx = "vf_max d ! i" and x = "xs ! i"]
    by (auto simp: vec_clamp_element_def float_ops_def)
  then show ?thesis
    using map_res_index [of xs "vec_clamp_element d CLIP"
        "\<lambda>i y. fits_bounds fl_lt (vf_min d ! i) (vf_max d ! i) y"]
    by (simp add: vec_clamp_def)
qed

section \<open>Sets of values\<close>

lemma numeric_clamp_set:
  assumes "num_values d \<noteq> []" "b \<noteq> FREE" "\<And>y. mk y \<noteq> VUnset"
  shows "\<exists>w. numeric_clamp ops mk d b x = Ok w \<and> (valid w \<longleftrightarrow> (\<exists>y\<in>set (num_values d). op_eq ops y x))"
proof (cases "find (\<lambda>y. op_eq ops y x) (num_values d)")
  case None
  then have "\<not> (\<exists>y\<in>set (num_values d). op_eq ops y x)" by (simp add: find_None_iff)
  then show ?thesis using None assms by (auto simp: numeric_clamp_def)
next
  case (Some y)
  then have "\<exists>y\<in>set (num_values d). op_eq ops y x" by (metis find_Some_iff nth_mem)
  then show ?thesis using Some assms by (auto simp: numeric_clamp_def)
qed

lemma apply_domain_value_set:
  assumes "b \<noteq> FREE"
  shows "num_values di \<noteq> [] \<Longrightarrow> \<exists>w. apply_domain io (DInt di) b (VInt n) = Ok w \<and>
      (valid w \<longleftrightarrow> n \<in> set (num_values di))"
    and "ss \<noteq> [] \<Longrightarrow> \<exists>w. apply_domain io (DString ss) b (VString s) = Ok w \<and> (valid w \<longleftrightarrow> s \<in> set ss)"
    and "num_values dg \<noteq> [] \<Longrightarrow> valid v \<Longrightarrow> \<not> is_list v \<Longrightarrow> \<exists>w. apply_domain io (DGeneric dg) b v = Ok w \<and>
      (valid w \<longleftrightarrow> (\<exists>u\<in>set (num_values dg). value_eq u v))"
proof -
  show "\<exists>w. apply_domain io (DInt di) b (VInt n) = Ok w \<and> (valid w \<longleftrightarrow> n \<in> set (num_values di))"
    if "num_values di \<noteq> []"
    using numeric_clamp_set [OF that assms, of VInt int_ops n] by (simp add: apply_domain_def int_ops_def)
  show "\<exists>w. apply_domain io (DString ss) b (VString s) = Ok w \<and> (valid w \<longleftrightarrow> s \<in> set ss)" if "ss \<noteq> []"
    using that assms by (simp add: apply_domain_def string_clamp_def)
  show "\<exists>w. apply_domain io (DGeneric dg) b v = Ok w \<and> (valid w \<longleftrightarrow> (\<exists>u\<in>set (num_values dg). value_eq u v))"
    if "num_values dg \<noteq> []" "valid v" "\<not> is_list v"
    using that assms by (cases v) (simp_all add: apply_domain_def generic_clamp_def)
qed

section \<open>Free mode and mismatched types\<close>

lemma apply_domain_move_free: "apply_domain_move io dm FREE v = Ok v"
  by (simp add: apply_domain_move_def)

lemma apply_domain_move_eq: "b \<noteq> FREE \<Longrightarrow> apply_domain_move io dm b v = apply_domain io dm b v"
  by (simp add: apply_domain_move_def apply_domain_def)

lemma apply_domain_free:
  assumes "domain_type dm = get_type v"
  shows "apply_domain io dm FREE v = Ok v"
  using assms
  by (cases dm; cases v)
    (simp_all add: apply_domain_def numeric_clamp_def numeric_clamp_bool_def string_clamp_def
      list_clamp_def apply_vec_def vec_clamp_def)

text \<open>A scalar that the domain is not about is dropped, also in free mode.\<close>

lemma apply_domain_mismatch:
  assumes "dm \<noteq> DNone" "\<And>d. dm \<noteq> DGeneric d" "\<not> is_array v" "valid v" "domain_type dm \<noteq> get_type v"
  shows "apply_domain io dm b v = Ok VUnset"
  using assms by (cases dm; cases v) (simp_all add: apply_domain_def)

section \<open>Errors\<close>

text \<open>On a scalar, only wrapping and folding, whose differences can overflow, can fail.\<close>

lemma bound_scalar_total:
  "b \<noteq> WRAP \<Longrightarrow> b \<noteq> FOLD \<Longrightarrow> \<exists>y. bound_scalar ops mn mx b x = Ok y"
  by (cases b) (auto simp: bound_scalar_def split: option.splits)

lemma numeric_clamp_total:
  "b \<noteq> WRAP \<Longrightarrow> b \<noteq> FOLD \<Longrightarrow> \<exists>w. numeric_clamp ops mk d b x = Ok w"
  using bound_scalar_total [of b ops "num_min d" "num_max d" x]
  by (auto simp: numeric_clamp_def split: option.splits)

lemma apply_scalar_total:
  "b \<noteq> WRAP \<Longrightarrow> b \<noteq> FOLD \<Longrightarrow> \<exists>w. apply_scalar b v dm = Ok w"
  by (cases dm; cases v) (simp_all add: numeric_clamp_total)

end
