(* ===== verification/Node_Tree.thy ===== *)
theory Node_Tree
  imports Name_Validation
begin

text \<open>
  The tree of nodes of a device: \<open>network/base/node.cpp\<close>, \<open>network/generic/generic_node.cpp\<close> and the
  lookup and creation by address of \<open>network/base/node_functions.cpp\<close>, with the addresses of
  \<open>network/base/parameter.cpp\<close>. A node has a name, the parameter it carries (of any type) and its
  children in order; a pointer to a node below another one is the list of the positions that lead
  to it. The capability \<open>change_tree\<close> of the device is an argument; the signals of the device
  (\<open>on_node_created\<close>, \<open>on_node_removing\<close>, \<open>on_node_renamed\<close>, \<open>on_parameter_removing\<close>) are the list
  of events that an operation returns, each with the names that lead to its node from the one
  operated on. The mutexes are not modelled (an operation is atomic), nor the call that stops the
  observation of a removed parameter, which belongs to the protocol.
\<close>

section \<open>Nodes\<close>

datatype 'p node = Node (node_name: string) (node_param: "'p option") (node_children: "'p node list")

datatype event =
    Created "string list"
  | Removing "string list"
  | Parameter_removing "string list"
  | Renamed "string list" string

fun below :: "string \<Rightarrow> event \<Rightarrow> event" where
  "below s (Created p) = Created (s # p)"
| "below s (Removing p) = Removing (s # p)"
| "below s (Parameter_removing p) = Parameter_removing (s # p)"
| "below s (Renamed p old) = Renamed (s # p) old"

definition children_names :: "'p node \<Rightarrow> string list" where
  "children_names n = map node_name (node_children n)"

fun find_name :: "string \<Rightarrow> string list \<Rightarrow> nat option" where
  "find_name s [] = None"
| "find_name s (t # ts) = (if t = s then Some 0 else map_option Suc (find_name s ts))"

definition find_child :: "'p node \<Rightarrow> string \<Rightarrow> nat option" where
  "find_child n s = find_name s (children_names n)"

definition set_children :: "'p node list \<Rightarrow> 'p node \<Rightarrow> 'p node" where
  "set_children cs n = Node (node_name n) (node_param n) cs"

section \<open>Children\<close>

text \<open>\<open>sanitize_name\<close> on the children of a node, which compares with their names.\<close>

definition sanitize_child_name :: "string \<Rightarrow> 'p node list \<Rightarrow> string res" where
  "sanitize_child_name s cs = sanitize_name_among s (map node_name cs)"

definition create_child :: "bool \<Rightarrow> 'p node \<Rightarrow> string \<Rightarrow> ('p node \<times> event list \<times> nat option) res" where
  "create_child change_tree n s =
     (if \<not> change_tree then Ok (n, [], None)
      else res_map (\<lambda>s'. (set_children (node_children n @ [Node s' None []]) n, [Created [s']],
                            Some (length (node_children n))))
             (sanitize_child_name s (node_children n)))"

definition add_child :: "bool \<Rightarrow> 'p node \<Rightarrow> 'p node \<Rightarrow> ('p node \<times> event list \<times> nat option) res" where
  "add_child change_tree n c =
     (if \<not> change_tree then Ok (n, [], None)
      else res_map (\<lambda>s'. if node_name c = s' then
                (set_children (node_children n @ [c]) n, [Created [node_name c]],
                 Some (length (node_children n)))
              else (n, [], None))
             (sanitize_name_among (node_name c) (children_names n)))"

text \<open>\<open>remove_parameter\<close> of \<open>generic_node\<close>: its signal, and whether there was a parameter.\<close>

definition remove_parameter_events :: "'p node \<Rightarrow> event list" where
  "remove_parameter_events n = (case node_param n of Some _ \<Rightarrow> [Parameter_removing []] | None \<Rightarrow> [])"

definition remove_parameter :: "'p node \<Rightarrow> 'p node \<times> event list \<times> bool" where
  "remove_parameter n =
     (Node (node_name n) None (node_children n), remove_parameter_events n, node_param n \<noteq> None)"

fun clear_events :: "'p node \<Rightarrow> event list" where
  "clear_events (Node s p cs) =
     concat (map (\<lambda>c. map (below (node_name c)) (clear_events c @ remove_parameter_events c @ [Removing []])) cs)"

definition clear_children :: "bool \<Rightarrow> 'p node \<Rightarrow> 'p node \<times> event list" where
  "clear_children change_tree n =
     (if \<not> change_tree then (n, []) else (set_children [] n, clear_events n))"

text \<open>The child that is taken out is cleared and announced, then its destructor removes its parameter.\<close>

definition take_out :: "'p node \<Rightarrow> nat \<Rightarrow> 'p node \<times> event list \<times> bool" where
  "take_out n i =
     (let c = node_children n ! i
      in (set_children (take i (node_children n) @ drop (i + 1) (node_children n)) n,
          map (below (node_name c)) (clear_events c @ [Removing []] @ remove_parameter_events c), True))"

definition remove_child_at :: "bool \<Rightarrow> 'p node \<Rightarrow> nat \<Rightarrow> 'p node \<times> event list \<times> bool" where
  "remove_child_at change_tree n i =
     (if \<not> change_tree then (n, [], False)
      else if i < length (node_children n) then take_out n i else (n, [], False))"

definition remove_child :: "bool \<Rightarrow> 'p node \<Rightarrow> string \<Rightarrow> 'p node \<times> event list \<times> bool" where
  "remove_child change_tree n s =
     (if \<not> change_tree then (n, [], False)
      else case find_name (sanitize_name s) (children_names n) of
        Some i \<Rightarrow> take_out n i
      | None \<Rightarrow> (n, [], False))"

text \<open>\<open>set_name\<close> of the child at a position, which looks at all the children of its parent, itself
  included, and of a node without a parent.\<close>

definition set_child_name :: "'p node \<Rightarrow> nat \<Rightarrow> string \<Rightarrow> ('p node \<times> event list) res" where
  "set_child_name n i s =
     (let c = node_children n ! i
      in res_map (\<lambda>s'. (set_children ((node_children n)[i := Node s' (node_param c) (node_children c)]) n,
                          [Renamed [s'] (node_name c)]))
           (sanitize_child_name s ((node_children n)[i := Node [] (node_param c) (node_children c)])))"

definition set_root_name :: "'p node \<Rightarrow> string \<Rightarrow> 'p node \<times> event list" where
  "set_root_name n s =
     (Node (sanitize_name s) (node_param n) (node_children n), [Renamed [] (node_name n)])"

definition is_root_instance :: "'p node \<Rightarrow> string \<Rightarrow> bool" where
  "is_root_instance n child_name \<longleftrightarrow>
     list_ex (\<lambda>bro. length bro > length child_name + 1 \<and> take (length child_name) bro = child_name \<and>
       bro ! length child_name = CHR ''.'') (children_names n)"

section \<open>Lookup and creation by address\<close>

definition first_part :: "string \<Rightarrow> string" where
  "first_part address = takeWhile (\<lambda>c. c \<noteq> CHR ''/'') address"

text \<open>What follows the first slash, if there is one.\<close>

definition after_slash :: "string \<Rightarrow> string option" where
  "after_slash address =
     (case dropWhile (\<lambda>c. c \<noteq> CHR ''/'') address of [] \<Rightarrow> None | _ # rest \<Rightarrow> Some rest)"

lemma after_slash_length [termination_simp]:
  "after_slash address = Some rest \<Longrightarrow> length rest < length address"
  using length_dropWhile_le [of "\<lambda>c. c \<noteq> CHR ''/''" address]
  by (auto simp: after_slash_def split: list.splits)

function find_node_rec :: "'p node \<Rightarrow> string \<Rightarrow> nat list option" where
  "find_node_rec n address =
     (case after_slash address of
        Some rest \<Rightarrow>
          (case find_child n (first_part address) of
             Some i \<Rightarrow> map_option (Cons i) (find_node_rec (node_children n ! i) rest)
           | None \<Rightarrow> None)
      | None \<Rightarrow> map_option (\<lambda>i. [i]) (find_child n address))"
  by pat_completeness auto
termination by (relation "measure (\<lambda>(_, address). length address)") (auto dest: after_slash_length)

text \<open>Creation below the child at a position, or below the node itself.\<close>

definition in_child ::
  "'p node \<Rightarrow> nat \<Rightarrow> ('p node \<times> event list \<times> nat list) res \<Rightarrow> ('p node \<times> event list \<times> nat list) res" where
  "in_child n i r =
     res_map (\<lambda>(c, evs, p). (set_children ((node_children n)[i := c]) n, map (below (node_name c)) evs, i # p)) r"

function create_node_rec :: "bool \<Rightarrow> 'p node \<Rightarrow> string \<Rightarrow> ('p node \<times> event list \<times> nat list) res" where
  "create_node_rec ct n address =
     (case after_slash address of
        Some rest \<Rightarrow>
          (case find_child n (first_part address) of
             Some i \<Rightarrow> in_child n i (create_node_rec ct (node_children n ! i) rest)
           | None \<Rightarrow>
               res_bind (create_child ct n (first_part address))
                 (\<lambda>(n', evs, r).
                    case r of
                      None \<Rightarrow> Err Cannot_create_node
                    | Some i \<Rightarrow>
                        res_map (\<lambda>(m, evs', p). (m, evs @ evs', p))
                          (in_child n' i (create_node_rec ct (node_children n' ! i) rest))))
      | None \<Rightarrow>
          res_bind (create_child ct n address)
            (\<lambda>(n', evs, r).
               case r of None \<Rightarrow> Err Cannot_create_node | Some i \<Rightarrow> Ok (n', evs, [i])))"
  by pat_completeness auto
termination by (relation "measure (\<lambda>(_, _, address). length address)") (auto dest: after_slash_length)

text \<open>\<open>find_or_create_node_rec\<close> dereferences the result of \<open>create_child\<close> without a check.\<close>

function find_or_create_node_rec :: "bool \<Rightarrow> 'p node \<Rightarrow> string \<Rightarrow> ('p node \<times> event list \<times> nat list) res" where
  "find_or_create_node_rec ct n address =
     (case after_slash address of
        Some rest \<Rightarrow>
          (case find_child n (first_part address) of
             Some i \<Rightarrow> in_child n i (find_or_create_node_rec ct (node_children n ! i) rest)
           | None \<Rightarrow>
               res_bind (create_child ct n (first_part address))
                 (\<lambda>(n', evs, r).
                    case r of
                      None \<Rightarrow> Err Undefined_behaviour
                    | Some i \<Rightarrow>
                        res_map (\<lambda>(m, evs', p). (m, evs @ evs', p))
                          (in_child n' i (find_or_create_node_rec ct (node_children n' ! i) rest))))
      | None \<Rightarrow>
          (case find_child n address of
             Some i \<Rightarrow> Ok (n, [], [i])
           | None \<Rightarrow>
               res_bind (create_child ct n address)
                 (\<lambda>(n', evs, r).
                    case r of None \<Rightarrow> Err Undefined_behaviour | Some i \<Rightarrow> Ok (n', evs, [i]))))"
  by pat_completeness auto
termination by (relation "measure (\<lambda>(_, _, address). length address)") (auto dest: after_slash_length)

declare find_node_rec.simps [simp del] create_node_rec.simps [simp del]
  find_or_create_node_rec.simps [simp del]

definition sanitize_address :: "string \<Rightarrow> string" where
  "sanitize_address address =
     (let a = dropWhile (\<lambda>c. c = CHR ''/'') address
      in rev (dropWhile (\<lambda>c. c = CHR ''/'') (rev a)))"

definition find_node :: "'p node \<Rightarrow> string \<Rightarrow> nat list option" where
  "find_node n address =
     (let a = sanitize_address address in if a = [] then Some [] else find_node_rec n a)"

definition find_or_create_node :: "bool \<Rightarrow> 'p node \<Rightarrow> string \<Rightarrow> ('p node \<times> event list \<times> nat list) res" where
  "find_or_create_node ct n address =
     (let a = sanitize_address address
      in if a = [] then Ok (n, [], []) else find_or_create_node_rec ct n a)"

definition create_node :: "bool \<Rightarrow> 'p node \<Rightarrow> string \<Rightarrow> ('p node \<times> event list \<times> nat list) res" where
  "create_node ct n address =
     (let a = sanitize_address address
      in create_node_rec ct n (if a = [] then ''node'' else a))"

definition find_or_create_node_reading ::
  "bool \<Rightarrow> 'p node \<Rightarrow> string \<Rightarrow> bool \<Rightarrow> ('p node \<times> event list \<times> nat list option) res" where
  "find_or_create_node_reading ct n address reading =
     (if reading then Ok (n, [], find_node n address)
      else res_map (\<lambda>(m, evs, p). (m, evs, Some p)) (create_node ct n address))"

section \<open>Addresses\<close>

fun node_at :: "'p node \<Rightarrow> nat list \<Rightarrow> 'p node option" where
  "node_at n [] = Some n"
| "node_at n (i # p) = (if i < length (node_children n) then node_at (node_children n ! i) p else None)"

text \<open>The names on the way to a node.\<close>

fun path_names :: "'p node \<Rightarrow> nat list \<Rightarrow> string list" where
  "path_names n [] = []"
| "path_names n (i # p) = node_name (node_children n ! i) # path_names (node_children n ! i) p"

definition slash_names :: "string list \<Rightarrow> string" where
  "slash_names ss = concat (map (\<lambda>s. CHR ''/'' # s) ss)"

definition address_string_from_node :: "'p node \<Rightarrow> nat list \<Rightarrow> string" where
  "address_string_from_node device p =
     (let s = node_name device @ '':'' @ slash_names (path_names device p)
      in if last s = CHR '':'' then s @ ''/'' else s)"

definition osc_parameter_string :: "'p node \<Rightarrow> nat list \<Rightarrow> string" where
  "osc_parameter_string device p =
     (if p \<noteq> [] then slash_names (path_names device p) else ''/'')"

section \<open>Names of siblings\<close>

text \<open>
  What a node relies on when it names a child: the name it is given is new among the siblings and
  acceptable. The interface is provided by \<open>sanitize_name\<close>.
\<close>

locale sibling_naming =
  fixes fresh :: "string \<Rightarrow> string list \<Rightarrow> string res" and acceptable :: "string \<Rightarrow> bool"
  assumes fresh_new: "fresh s ss = Ok t \<Longrightarrow> t \<notin> set ss"
    and fresh_acceptable: "fresh s ss = Ok t \<Longrightarrow> acceptable t"
begin

definition good_names :: "string list \<Rightarrow> bool" where
  "good_names ss \<longleftrightarrow> distinct ss \<and> list_all acceptable ss"

lemma good_append: "good_names ss \<Longrightarrow> fresh s ss = Ok t \<Longrightarrow> good_names (ss @ [t])"
  using fresh_new fresh_acceptable by (auto simp: good_names_def)

lemma good_update:
  assumes good: "good_names ss" and t: "fresh s (ss[i := u]) = Ok t" and i: "i < length ss"
  shows "good_names (ss[i := t])"
proof -
  have new: "ss ! j \<noteq> t" if "j < length ss" "j \<noteq> i" for j
    using fresh_new [OF t] that by (auto simp: in_set_conv_nth nth_list_update)
  have "distinct (ss[i := t])"
    using good new new [symmetric] i
    by (auto simp: good_names_def distinct_conv_nth nth_list_update)
  then show ?thesis
    using good fresh_acceptable [OF t] by (auto simp: good_names_def list_all_length nth_list_update i)
qed

lemma good_delete: "good_names (ss @ ts) \<Longrightarrow> good_names (take i ss @ drop (i + 1) ss)"
proof -
  assume "good_names (ss @ ts)"
  then have "distinct ss" "list_all acceptable ss" by (auto simp: good_names_def)
  then show ?thesis
    by (auto simp: good_names_def list_all_iff set_take_disj_set_drop_if_distinct
        dest: in_set_takeD in_set_dropD)
qed

end

interpretation naming: sibling_naming sanitize_name_among valid_name
  by unfold_locales (auto dest: sanitize_name_among_fresh sanitize_name_among_valid)

section \<open>The invariant of the tree\<close>

fun wf_tree :: "'p node \<Rightarrow> bool" where
  "wf_tree (Node s p cs) \<longleftrightarrow>
     distinct (map node_name cs) \<and> list_all valid_name (map node_name cs) \<and> list_all wf_tree cs"

lemma wf_tree_iff:
  "wf_tree n \<longleftrightarrow> naming.good_names (children_names n) \<and> list_all wf_tree (node_children n)"
  by (cases n) (simp add: naming.good_names_def children_names_def)

lemma set_children_simps [simp]:
  "node_name (set_children cs n) = node_name n" "node_children (set_children cs n) = cs"
  "children_names (set_children cs n) = map node_name cs" "set_children (node_children n) n = n"
  "set_children ds (set_children cs n) = set_children ds n"
  by (simp_all add: set_children_def children_names_def)

lemma wf_leaf [simp]: "wf_tree (Node s p [])"
  by simp

lemma wf_child: "wf_tree n \<Longrightarrow> i < length (node_children n) \<Longrightarrow> wf_tree (node_children n ! i)"
  by (cases n) (auto simp: list_all_length)

lemma wf_append:
  assumes "wf_tree n" "sanitize_name_among s (children_names n) = Ok t" "wf_tree c" "node_name c = t"
  shows "wf_tree (set_children (node_children n @ [c]) n)"
  using assms naming.good_append [of "children_names n" s t]
  by (simp add: wf_tree_iff [of n] wf_tree_iff [of "set_children _ _"] children_names_def)

lemma names_update:
  "node_name c = node_name (node_children n ! i) \<Longrightarrow>
   map node_name ((node_children n)[i := c]) = children_names n"
  by (cases "i < length (node_children n)")
    (auto simp: children_names_def map_update list_update_beyond intro: list_update_same_conv [THEN iffD2])

lemma wf_update:
  assumes "wf_tree n" "wf_tree c" "node_name c = node_name (node_children n ! i)"
  shows "wf_tree (set_children ((node_children n)[i := c]) n)"
proof (cases "i < length (node_children n)")
  case True
  have "list_all wf_tree ((node_children n)[i := c])"
    using assms(2) wf_child [OF assms(1)]
    by (auto simp: list_all_length) (metis True nth_list_update)
  then show ?thesis using assms(1) names_update [OF assms(3)] by (simp add: wf_tree_iff [of n] wf_tree_iff [of "set_children _ _"])
qed (simp add: assms(1) list_update_beyond)

lemma create_child_Ok:
  assumes "create_child ct n s = Ok (m, evs, Some i)"
  obtains t where "ct" "sanitize_name_among s (children_names n) = Ok t" "evs = [Created [t]]"
    "m = set_children (node_children n @ [Node t None []]) n" "i = length (node_children n)"
  using assms by (auto simp: create_child_def sanitize_child_name_def children_names_def split: if_splits)

lemma create_child_None: "create_child ct n s = Ok (m, evs, None) \<longleftrightarrow> \<not> ct \<and> m = n \<and> evs = []"
  by (auto simp: create_child_def)

lemma create_child_wf: "create_child ct n s = Ok (m, evs, r) \<Longrightarrow> wf_tree n \<Longrightarrow> wf_tree m"
  by (cases r) (auto simp: create_child_None elim!: create_child_Ok intro!: wf_append)

lemma add_child_wf: "add_child ct n c = Ok (m, evs, r) \<Longrightarrow> wf_tree n \<Longrightarrow> wf_tree c \<Longrightarrow> wf_tree m"
  by (auto simp: add_child_def intro: wf_append split: if_splits)

lemma clear_children_wf: "wf_tree n \<Longrightarrow> wf_tree (fst (clear_children ct n))"
  by (auto simp: clear_children_def set_children_def)

lemma take_out_wf: "wf_tree n \<Longrightarrow> wf_tree (fst (take_out n i))"
  using naming.good_delete [of "children_names n" "[]" i]
  by (auto simp: take_out_def Let_def wf_tree_iff [of n] wf_tree_iff [of "set_children _ _"]
      children_names_def take_map drop_map list_all_iff dest: in_set_takeD in_set_dropD)

lemma remove_child_wf: "wf_tree n \<Longrightarrow> wf_tree (fst (remove_child ct n s))"
  by (simp add: remove_child_def take_out_wf split: option.splits)

lemma remove_child_at_wf: "wf_tree n \<Longrightarrow> wf_tree (fst (remove_child_at ct n i))"
  by (simp add: remove_child_at_def take_out_wf)

lemma rename_wf: "wf_tree (Node s p cs) \<longleftrightarrow> wf_tree (Node t q cs)"
  by simp

lemma set_child_name_wf:
  assumes "set_child_name n i s = Ok (m, evs)" "wf_tree n" "i < length (node_children n)"
  shows "wf_tree m"
proof -
  let ?c = "node_children n ! i"
  obtain t where t: "sanitize_name_among s ((children_names n)[i := []]) = Ok t"
    and m: "m = set_children ((node_children n)[i := Node t (node_param ?c) (node_children ?c)]) n"
    using assms(1) by (auto simp: set_child_name_def sanitize_child_name_def children_names_def map_update Let_def)
  have "naming.good_names ((children_names n)[i := t])"
    using assms(2,3) by (intro naming.good_update [OF _ t]) (auto simp: wf_tree_iff [of n] children_names_def)
  moreover have "wf_tree (Node t (node_param ?c) (node_children ?c))"
    using wf_child [OF assms(2,3)] by (cases ?c) simp
  then have "list_all wf_tree ((node_children n)[i := Node t (node_param ?c) (node_children ?c)])"
    using wf_child [OF assms(2)] assms(3)
    by (auto simp only: list_all_length length_list_update nth_list_update split: if_splits)
  ultimately show ?thesis
    by (simp add: m wf_tree_iff [of "set_children _ _"] map_update children_names_def)
qed

lemma in_child_OkE:
  assumes "in_child n i r = Ok (m, evs, p)"
  obtains c evs' q where "r = Ok (c, evs', q)" "m = set_children ((node_children n)[i := c]) n"
    "evs = map (below (node_name c)) evs'" "p = i # q"
  using assms by (auto simp: in_child_def)

section \<open>Addresses as lists of parts\<close>

text \<open>
  The specification of lookup and creation: an address is the list of its parts, a lookup follows
  them, and \<open>ensure_parts\<close> adds the missing nodes after their siblings.
\<close>

fun find_parts :: "'p node \<Rightarrow> string list \<Rightarrow> nat list option" where
  "find_parts n [] = Some []"
| "find_parts n (s # ss) =
     (case find_child n s of
        Some i \<Rightarrow> map_option (Cons i) (find_parts (node_children n ! i) ss)
      | None \<Rightarrow> None)"

fun ensure_parts :: "'p node \<Rightarrow> string list \<Rightarrow> 'p node \<times> nat list" where
  "ensure_parts n [] = (n, [])"
| "ensure_parts n (s # ss) =
     (case find_child n s of
        Some i \<Rightarrow>
          (let (c, p) = ensure_parts (node_children n ! i) ss
           in (set_children ((node_children n)[i := c]) n, i # p))
      | None \<Rightarrow>
          (let (c, p) = ensure_parts (Node s None []) ss
           in (set_children (node_children n @ [c]) n, length (node_children n) # p)))"

lemma split_slash_parts_eq:
  "split_slash a = (case after_slash a of Some rest \<Rightarrow> first_part a # split_slash rest | None \<Rightarrow> [a])"
  unfolding after_slash_def first_part_def by (induction a) (auto split: list.splits)

lemma find_name_Some:
  "find_name s ss = Some i \<longleftrightarrow> i < length ss \<and> ss ! i = s \<and> (\<forall>j<i. ss ! j \<noteq> s)"
proof (induction ss arbitrary: i)
  case (Cons t ts)
  then show ?case by (cases i) (auto simp: less_Suc_eq_0_disj nth_Cons')
qed simp

lemma find_name_None: "find_name s ss = None \<longleftrightarrow> s \<notin> set ss"
  by (induction ss) auto

lemma find_name_append:
  "find_name s (ss @ ts) =
     (case find_name s ss of Some i \<Rightarrow> Some i | None \<Rightarrow> map_option ((+) (length ss)) (find_name s ts))"
  by (induction ss; cases "find_name s ts") (auto split: option.splits)

lemma find_child_Some:
  "find_child n s = Some i \<Longrightarrow> i < length (node_children n) \<and> node_name (node_children n ! i) = s"
  by (auto simp: find_child_def children_names_def find_name_Some)

lemma find_child_unique:
  "wf_tree n \<Longrightarrow> i < length (node_children n) \<Longrightarrow> find_child n (node_name (node_children n ! i)) = Some i"
  by (cases n) (auto simp: find_child_def children_names_def find_name_Some distinct_conv_nth)

lemma find_node_rec_parts: "find_node_rec n a = find_parts n (split_slash a)"
proof (induction n a rule: find_node_rec.induct)
  case (1 n a)
  show ?case
    by (subst find_node_rec.simps, subst split_slash_parts_eq)
      (use 1 in \<open>auto simp: option.map_comp comp_def split: option.splits\<close>)
qed

lemma find_node_parts:
  "find_node n a =
     (if sanitize_address a = [] then Some [] else find_parts n (split_slash (sanitize_address a)))"
  by (simp add: find_node_def Let_def find_node_rec_parts)

text \<open>A part of an address is valid when it has the characters of a name.\<close>

lemma sanitize_among_new: "valid_name s \<Longrightarrow> s \<notin> set ss \<Longrightarrow> sanitize_name_among s ss = Ok s"
  by (simp add: sanitize_name_among_def sanitize_name_id Let_def)

lemma create_child_new:
  "valid_name s \<Longrightarrow> find_child n s = None \<Longrightarrow>
   create_child True n s =
     Ok (set_children (node_children n @ [Node s None []]) n, [Created [s]], Some (length (node_children n)))"
  by (simp add: create_child_def sanitize_child_name_def sanitize_among_new find_child_def find_name_None
      children_names_def)

lemma find_or_create_parts:
  "list_all valid_name (split_slash a) \<Longrightarrow>
   \<exists>evs. find_or_create_node_rec True n a =
     Ok (fst (ensure_parts n (split_slash a)), evs, snd (ensure_parts n (split_slash a)))"
proof (induction "length a" arbitrary: n a rule: less_induct)
  case less
  show ?case
  proof (cases "after_slash a")
    case None
    then have "split_slash a = [a]" by (subst split_slash_parts_eq) simp
    then show ?thesis
      using less.prems None
      by (subst find_or_create_node_rec.simps)
        (auto simp: create_child_new split: option.splits)
  next
    case (Some rest)
    then have parts: "split_slash a = first_part a # split_slash rest"
      by (subst split_slash_parts_eq) simp
    have IH: "\<exists>evs. find_or_create_node_rec True c rest =
        Ok (fst (ensure_parts c (split_slash rest)), evs, snd (ensure_parts c (split_slash rest)))" for c :: "'a node"
      using less.hyps [OF after_slash_length [OF Some]] less.prems parts by simp
    show ?thesis
    proof (cases "find_child n (first_part a)")
      case None
      obtain evs where "find_or_create_node_rec True (Node (first_part a) None []) rest =
          Ok (fst (ensure_parts (Node (first_part a) (None :: 'a option) []) (split_slash rest)), evs,
              snd (ensure_parts (Node (first_part a) (None :: 'a option) []) (split_slash rest)))"
        using IH by blast
      then show ?thesis
        using less.prems Some None parts
        by (subst find_or_create_node_rec.simps)
          (simp add: create_child_new in_child_def nth_append split_beta list_update_append)
    next
      case (Some i)
      then show ?thesis
        using IH [of "node_children n ! i"] parts \<open>after_slash a = Some rest\<close>
        by (subst find_or_create_node_rec.simps) (auto simp: in_child_def split_beta)
    qed
  qed
qed

lemma ensure_name: "node_name (fst (ensure_parts n ss)) = node_name n"
  by (cases ss) (auto simp: split_beta split: option.splits)

lemma ensure_wf: "wf_tree n \<Longrightarrow> list_all valid_name ss \<Longrightarrow> wf_tree (fst (ensure_parts n ss))"
proof (induction n ss rule: ensure_parts.induct)
  case (2 n s ss)
  show ?case
  proof (cases "find_child n s")
    case None
    then have "wf_tree (set_children (node_children n @ [fst (ensure_parts (Node s None []) ss)]) n)"
      using 2 by (intro wf_append [where s = s and t = s])
        (auto simp: sanitize_among_new find_child_def find_name_None ensure_name)
    then show ?thesis using None by (simp add: split_beta)
  next
    case (Some i)
    then show ?thesis
      using 2 find_child_Some [OF Some] by (auto simp: split_beta ensure_name intro!: wf_update intro: wf_child)
  qed
qed simp

lemma find_child_append:
  "find_child (set_children (cs @ ds) n) s =
     (case find_name s (map node_name cs) of
        Some i \<Rightarrow> Some i
      | None \<Rightarrow> map_option ((+) (length cs)) (find_name s (map node_name ds)))"
  by (simp add: find_child_def find_name_append cong: option.case_cong)

lemma find_child_update:
  "node_name c = node_name (node_children n ! i) \<Longrightarrow>
   find_child (set_children ((node_children n)[i := c]) n) s = find_child n s"
  using names_update [of c n i] by (simp add: find_child_def)

lemma ensure_finds: "find_parts (fst (ensure_parts n ss)) ss = Some (snd (ensure_parts n ss))"
proof (induction n ss rule: ensure_parts.induct)
  case (2 n s ss)
  show ?case
  proof (cases "find_child n s")
    case None
    then have "find_name s (map node_name (node_children n)) = None"
      by (simp add: find_child_def children_names_def)
    then show ?thesis
      using 2 None by (simp add: split_beta find_child_append ensure_name nth_append)
  next
    case (Some i)
    then show ?thesis
      using 2 find_child_Some [OF Some] by (simp add: split_beta find_child_update ensure_name)
  qed
qed simp

lemma ensure_keeps: "find_parts n qs = Some q \<Longrightarrow> find_parts (fst (ensure_parts n ss)) qs = Some q"
proof (induction n ss arbitrary: qs q rule: ensure_parts.induct)
  case (2 n s ss)
  show ?case
  proof (cases qs)
    case Nil
    then show ?thesis using 2 by simp
  next
    case (Cons t ts)
    then obtain j p where j: "find_child n t = Some j" "find_parts (node_children n ! j) ts = Some p" "q = j # p"
      using "2.prems" by (auto split: option.splits)
    note bound = find_child_Some [OF j(1)]
    show ?thesis
    proof (cases "find_child n s")
      case None
      have "find_name t (map node_name (node_children n)) = Some j"
        using j(1) by (simp add: find_child_def children_names_def)
      then show ?thesis
        using Cons None j bound by (simp add: split_beta find_child_append nth_append)
    next
      case (Some i)
      then show ?thesis
        using 2(2) [OF Some, of ts p] Cons j bound find_child_Some [OF Some]
        by (cases "i = j") (simp_all add: split_beta find_child_update ensure_name)
    qed
  qed
qed simp

lemma ensure_found: "find_parts n ss = Some p \<Longrightarrow> ensure_parts n ss = (n, p)"
  by (induction n ss arbitrary: p rule: ensure_parts.induct) (auto split: option.splits)

lemma find_or_create_found_rec:
  "find_node_rec n a = Some p \<Longrightarrow> find_or_create_node_rec ct n a = Ok (n, [], p)"
proof (induction n a arbitrary: p rule: find_node_rec.induct)
  case (1 n a)
  show ?case
    using "1.prems" 1
    by (subst find_or_create_node_rec.simps, subst (asm) (1) find_node_rec.simps)
      (auto simp: in_child_def split: option.splits)
qed

section \<open>Addresses of nodes\<close>

lemma find_parts_path:
  "find_parts n ss = Some p \<Longrightarrow> path_names n p = ss \<and> node_at n p \<noteq> None"
  by (induction n ss arbitrary: p rule: find_parts.induct) (auto dest: find_child_Some split: option.splits)

lemma path_find_parts:
  "wf_tree n \<Longrightarrow> node_at n p = Some m \<Longrightarrow> find_parts n (path_names n p) = Some p"
  by (induction n p rule: path_names.induct) (auto simp: find_child_unique wf_child split: if_splits)

lemma path_names_valid:
  "wf_tree n \<Longrightarrow> node_at n p = Some m \<Longrightarrow> s \<in> set (path_names n p) \<Longrightarrow> valid_name s"
proof (induction n p rule: path_names.induct)
  case (2 n i p)
  then show ?case using wf_child [OF 2(2)]
    by (cases n) (auto simp: list_all_length split: if_splits)
qed simp

lemma slash_names_join: "ss \<noteq> [] \<Longrightarrow> slash_names ss = CHR ''/'' # join_slash ss"
  by (induction ss rule: join_slash.induct) (auto simp: slash_names_def)

text \<open>The address of a node leads back to it.\<close>

lemma slash_not_valid: "valid_name s \<Longrightarrow> CHR ''/'' \<notin> set s"
  using sanitize_name_no_slash [of s] by (simp add: sanitize_name_id)

lemma sanitize_address_join:
  assumes "ss \<noteq> []" "\<forall>p\<in>set ss. CHR ''/'' \<notin> set p \<and> p \<noteq> []"
  shows "sanitize_address (CHR ''/'' # join_slash ss) = join_slash ss"
proof -
  have drop: "dropWhile (\<lambda>c. c = CHR ''/'') s = s" if "s \<noteq> []" "hd s \<noteq> CHR ''/''" for s
    using that by (cases s) auto
  have rev: "rev (join_slash ss) \<noteq> []" "hd (rev (join_slash ss)) \<noteq> CHR ''/''"
    using join_slash_ends [OF assms] by (auto simp: hd_rev)
  show ?thesis
    using drop [OF join_slash_ends(1,2) [OF assms]] drop [OF rev] by (simp add: sanitize_address_def)
qed

lemma find_node_osc_string:
  assumes "wf_tree n" and "node_at n p = Some m" and "[] \<notin> set (path_names n p)"
  shows "find_node n (osc_parameter_string n p) = Some p"
proof (cases "p = []")
  case True
  then show ?thesis by (simp add: osc_parameter_string_def find_node_def sanitize_address_def)
next
  case False
  then have names: "path_names n p \<noteq> []" by (cases p) auto
  have parts: "\<forall>s\<in>set (path_names n p). CHR ''/'' \<notin> set s \<and> s \<noteq> []"
    using path_names_valid [OF assms(1,2)] slash_not_valid assms(3) by blast
  show ?thesis
    using False sanitize_address_join [OF names parts] join_slash_ends(1) [OF names parts]
      split_join_slash [OF names] parts path_find_parts [OF assms(1,2)]
    by (simp add: osc_parameter_string_def slash_names_join [OF names] find_node_parts)
qed

lemma find_node_address:
  assumes "find_node n a = Some p" and "sanitize_address a \<noteq> []"
  shows "osc_parameter_string n p = CHR ''/'' # sanitize_address a"
proof -
  have p: "find_parts n (split_slash (sanitize_address a)) = Some p"
    using assms by (simp add: find_node_parts)
  have names: "path_names n p = split_slash (sanitize_address a)"
    using find_parts_path [OF p] by simp
  then have "p \<noteq> []" using split_slash_nonempty by (metis path_names.simps(1))
  then show ?thesis
    by (simp add: osc_parameter_string_def names slash_names_join join_split_slash)
qed

section \<open>Creation\<close>

text \<open>An address whose characters are all valid in a name, or slashes.\<close>

definition valid_address :: "string \<Rightarrow> bool" where
  "valid_address a \<longleftrightarrow> list_all (\<lambda>c. c = CHR ''/'' \<or> is_valid_character_for_name c) a"

lemma split_slash_valid: "valid_address a \<Longrightarrow> list_all valid_name (split_slash a)"
  unfolding valid_address_def valid_name_def
  by (induction a) (auto split: list.splits)

lemma sanitize_address_valid: "valid_address a \<Longrightarrow> valid_address (sanitize_address a)"
  unfolding valid_address_def sanitize_address_def list_all_iff Let_def
  by (metis set_dropWhileD set_rev)

lemma find_or_create_node_spec:
  assumes "valid_address a"
  shows "\<exists>m evs p. find_or_create_node True n a = Ok (m, evs, p) \<and> find_node m a = Some p \<and>
     (wf_tree n \<longrightarrow> wf_tree m) \<and> (\<forall>b q. find_node n b = Some q \<longrightarrow> find_node m b = Some q)"
proof (cases "sanitize_address a = []")
  case True
  then show ?thesis by (simp add: find_or_create_node_def find_node_def)
next
  case False
  let ?ss = "split_slash (sanitize_address a)"
  have valid: "list_all valid_name ?ss"
    by (intro split_slash_valid sanitize_address_valid assms)
  obtain evs where run: "find_or_create_node_rec True n (sanitize_address a) =
      Ok (fst (ensure_parts n ?ss), evs, snd (ensure_parts n ?ss))"
    using find_or_create_parts [OF valid] by blast
  have "find_node (fst (ensure_parts n ?ss)) b = Some q" if "find_node n b = Some q" for b q
    using that ensure_keeps by (auto simp: find_node_parts split: if_splits)
  moreover have "find_node (fst (ensure_parts n ?ss)) a = Some (snd (ensure_parts n ?ss))"
    using False by (simp add: find_node_parts ensure_finds)
  moreover have "find_or_create_node True n a = Ok (fst (ensure_parts n ?ss), evs, snd (ensure_parts n ?ss))"
    using False run by (simp add: find_or_create_node_def Let_def)
  ultimately show ?thesis using ensure_wf [OF _ valid, of n] by blast
qed

lemma find_or_create_found:
  "find_node n a = Some p \<Longrightarrow> find_or_create_node ct n a = Ok (n, [], p)"
  by (auto simp: find_or_create_node_def find_node_def Let_def find_or_create_found_rec split: if_splits)

text \<open>What \<open>create_node\<close> guarantees whatever the address: the node is new, and a leaf.\<close>

lemma create_node_rec_fresh:
  "create_node_rec ct n a = Ok (m, evs, p) \<Longrightarrow>
   node_at n p = None \<and> (\<exists>s. node_at m p = Some (Node s None [])) \<and> node_name m = node_name n \<and>
   (wf_tree n \<longrightarrow> wf_tree m)"
proof (induction "length a" arbitrary: n a m evs p rule: less_induct)
  case less
  show ?case
  proof (cases "after_slash a")
    case None
    then obtain i where "create_child ct n a = Ok (m, evs, Some i)" "p = [i]"
      using less.prems
      by (subst (asm) create_node_rec.simps) (auto split: option.splits)
    then show ?thesis
      by (auto elim!: create_child_Ok simp: wf_append)
  next
    case (Some rest)
    note IH = less.hyps [OF after_slash_length [OF Some]]
    show ?thesis
    proof (cases "find_child n (first_part a)")
      case None
      then obtain k evs1 i evs2 where k: "create_child ct n (first_part a) = Ok (k, evs1, Some i)"
        and m: "in_child k i (create_node_rec ct (node_children k ! i) rest) = Ok (m, evs2, p)"
        using less.prems Some
        by (subst (asm) create_node_rec.simps) (auto split: option.splits)
      obtain c evs3 q where q: "create_node_rec ct (node_children k ! i) rest = Ok (c, evs3, q)"
          "m = set_children ((node_children k)[i := c]) k" "p = i # q"
        using m by (auto elim: in_child_OkE)
      have i: "i = length (node_children n)" "i < length (node_children k)" "node_name k = node_name n"
        by (rule create_child_Ok [OF k], simp)+
      have "wf_tree m" if "wf_tree n"
        using IH [OF q(1)] create_child_wf [OF k that] wf_child [of k i] i q(2) wf_update [of k c i] by simp
      then show ?thesis using IH [OF q(1)] i q(2,3) by simp
    next
      case (Some i)
      then obtain c evs3 q where q: "create_node_rec ct (node_children n ! i) rest = Ok (c, evs3, q)"
          "m = set_children ((node_children n)[i := c]) n" "p = i # q"
        using less.prems \<open>after_slash a = Some rest\<close>
        by (subst (asm) create_node_rec.simps) (auto elim: in_child_OkE)
      have "wf_tree m" if "wf_tree n"
        using IH [OF q(1)] that wf_child [OF that] find_child_Some [OF Some] q(2) wf_update [of n c i] by simp
      then show ?thesis using IH [OF q(1)] find_child_Some [OF Some] q(2,3) by simp
    qed
  qed
qed

lemma create_node_fresh:
  assumes "create_node ct n a = Ok (m, evs, p)"
  shows "node_at n p = None \<and> (\<exists>s. node_at m p = Some (Node s None [])) \<and> (wf_tree n \<longrightarrow> wf_tree m)"
  using create_node_rec_fresh assms by (fastforce simp: create_node_def Let_def)

lemma create_child_cases:
  obtains "\<not> ct" "create_child ct n s = Ok (n, [], None)"
  | "ct" "create_child ct n s = Err Undefined_behaviour"
  | m evs where "ct" "create_child ct n s = Ok (m, evs, Some (length (node_children n)))"
  by (cases ct; cases "sanitize_child_name s (node_children n)")
    (auto simp: create_child_def sanitize_child_name_def sanitize_name_among_def instance_name_def Let_def
      split: if_splits)

lemma create_node_rec_error: "create_node_rec ct n a = Err Cannot_create_node \<longleftrightarrow> \<not> ct"
proof (induction "length a" arbitrary: n a rule: less_induct)
  case less
  show ?case
  proof (cases "after_slash a")
    case None
    then show ?thesis
      by (subst create_node_rec.simps) (rule create_child_cases [of ct n a]; simp)
  next
    case (Some rest)
    have IH: "create_node_rec ct k rest = Err Cannot_create_node \<longleftrightarrow> \<not> ct" for k :: "'a node"
      by (rule less [OF after_slash_length [OF Some]])
    show ?thesis
    proof (cases "find_child n (first_part a)")
      case None
      then show ?thesis
        using Some IH
        by (subst create_node_rec.simps)
          (rule create_child_cases [of ct n "first_part a"]; simp add: in_child_def)
    next
      case (Some i)
      then show ?thesis
        using \<open>after_slash a = Some rest\<close> IH by (subst create_node_rec.simps) (simp add: in_child_def)
    qed
  qed
qed

lemma create_node_error: "create_node ct n a = Err Cannot_create_node \<longleftrightarrow> \<not> ct"
  by (simp add: create_node_def create_node_rec_error Let_def)

section \<open>Removal\<close>

lemma take_out_finds:
  assumes "wf_tree n" and "i < length (node_children n)"
  shows "find_child (fst (take_out n i)) (node_name (node_children n ! i)) = None"
proof -
  have ss: "distinct (children_names n)" "i < length (children_names n)"
    using assms by (cases n; simp add: children_names_def)+
  have "children_names n ! i \<notin> set (take i (children_names n) @ drop (i + 1) (children_names n))"
    using ss by (subst (asm) (1) id_take_nth_drop [OF ss(2)]) auto
  then show ?thesis
    using assms(2)
    by (simp add: take_out_def Let_def find_child_def find_name_None children_names_def take_map drop_map)
qed

lemma remove_child_gone:
  "wf_tree n \<Longrightarrow> find_child (fst (remove_child True n s)) (sanitize_name s) = None"
proof (cases "find_child n (sanitize_name s)")
  case (Some i)
  assume "wf_tree n"
  then show ?thesis
    using take_out_finds [of n i] find_child_Some [OF Some] Some
    by (simp add: remove_child_def find_child_def)
qed (simp add: remove_child_def find_child_def)

lemma remove_child_others:
  "j < length (node_children n) \<Longrightarrow> node_name (node_children n ! j) \<noteq> sanitize_name s \<Longrightarrow>
   node_children n ! j \<in> set (node_children (fst (remove_child ct n s)))"
proof (cases "find_child n (sanitize_name s)")
  case (Some i)
  assume j: "j < length (node_children n)" "node_name (node_children n ! j) \<noteq> sanitize_name s"
  then have i: "i < length (node_children n)" "i \<noteq> j" using find_child_Some [OF Some] by auto
  have "node_children n ! j \<in> set (take i (node_children n)) \<union> set (drop (i + 1) (node_children n))"
  proof (cases "j < i")
    case True
    then show ?thesis using i by (force simp: in_set_conv_nth)
  next
    case False
    then have "node_children n ! j = drop (i + 1) (node_children n) ! (j - (i + 1))" "j - (i + 1) < length (drop (i + 1) (node_children n))"
      using i j by auto
    then show ?thesis by (metis UnI2 nth_mem)
  qed
  then show ?thesis using Some j(1) by (auto simp: remove_child_def find_child_def take_out_def Let_def)
qed (simp add: remove_child_def find_child_def)

section \<open>The signals account for the tree\<close>

fun node_count :: "'p node \<Rightarrow> nat" where
  "node_count (Node s p cs) = Suc (sum_list (map node_count cs))"

definition param_count :: "'p node \<Rightarrow> nat" where
  "param_count n = (if node_param n = None then 0 else 1)"

fun total_params :: "'p node \<Rightarrow> nat" where
  "total_params (Node s p cs) = (if p = None then 0 else 1) + sum_list (map total_params cs)"

fun is_removing :: "event \<Rightarrow> bool" where
  "is_removing (Removing _) = True"
| "is_removing _ = False"

fun is_created :: "event \<Rightarrow> bool" where
  "is_created (Created _) = True"
| "is_created _ = False"

fun is_parameter_removing :: "event \<Rightarrow> bool" where
  "is_parameter_removing (Parameter_removing _) = True"
| "is_parameter_removing _ = False"

lemma below_kind [simp]:
  "is_removing \<circ> below s = is_removing" "is_created \<circ> below s = is_created"
  "is_parameter_removing \<circ> below s = is_parameter_removing"
  by (rule ext, case_tac x; simp)+

lemma length_filter_below [simp]:
  "length (filter is_removing (map (below s) evs)) = length (filter is_removing evs)"
  "length (filter is_created (map (below s) evs)) = length (filter is_created evs)"
  "length (filter is_parameter_removing (map (below s) evs)) = length (filter is_parameter_removing evs)"
  by (simp_all add: filter_map)

lemma remove_parameter_events_count [simp]:
  "filter is_removing (remove_parameter_events n) = []"
  "length (filter is_parameter_removing (remove_parameter_events n)) = (if node_param n = None then 0 else 1)"
  by (auto simp: remove_parameter_events_def split: option.splits)

lemma node_count_children: "node_count n = Suc (sum_list (map node_count (node_children n)))"
  by (cases n) simp

lemma total_params_children:
  "total_params n = (if node_param n = None then 0 else 1) + sum_list (map total_params (node_children n))"
  by (cases n) simp

lemma clear_events_count:
  "length (filter is_removing (clear_events n)) + 1 = node_count n \<and>
   length (filter is_parameter_removing (clear_events n)) + (if node_param n = None then 0 else 1) = total_params n"
proof (induction n)
  case (Node s p cs)
  have nodes: "length (filter is_removing (concat (map (\<lambda>c. map (below (node_name c))
      (clear_events c @ remove_parameter_events c @ [Removing []])) cs))) = sum_list (map node_count cs)"
    using Node by (induction cs) auto
  have params: "length (filter is_parameter_removing (concat (map (\<lambda>c. map (below (node_name c))
      (clear_events c @ remove_parameter_events c @ [Removing []])) cs))) = sum_list (map total_params cs)"
    using Node by (induction cs) auto
  show ?case using nodes params by simp
qed

lemma take_out_count:
  assumes "i < length (node_children n)"
  shows "node_count (fst (take_out n i)) + length (filter is_removing (fst (snd (take_out n i)))) = node_count n"
    and "total_params (fst (take_out n i)) +
      length (filter is_parameter_removing (fst (snd (take_out n i)))) = total_params n"
  using clear_events_count [of "node_children n ! i"]
    arg_cong [OF id_take_nth_drop [OF assms], of "\<lambda>cs. sum_list (map node_count cs)"]
    arg_cong [OF id_take_nth_drop [OF assms], of "\<lambda>cs. sum_list (map total_params cs)"]
  by (simp_all add: take_out_def Let_def node_count_children [of n] total_params_children [of n]
      node_count_children [of "set_children _ _"] total_params_children [of "set_children _ _"]
      set_children_def split: if_splits)

lemma remove_child_counts:
  "remove_child ct n s = (m, evs, r) \<Longrightarrow>
   node_count m + length (filter is_removing evs) = node_count n \<and>
   total_params m + length (filter is_parameter_removing evs) = total_params n"
  using take_out_count [of _ n] find_child_Some [of n "sanitize_name s"]
  by (fastforce simp: remove_child_def find_child_def split: if_splits option.splits)

lemma create_child_count: "create_child ct n s = Ok (m, evs, r) \<Longrightarrow> node_count m = node_count n + length evs"
  by (cases n) (auto simp: create_child_def set_children_def split: if_splits)

lemma node_count_update:
  "i < length (node_children n) \<Longrightarrow>
   node_count (set_children ((node_children n)[i := c]) n) + node_count (node_children n ! i) =
   node_count n + node_count c"
  using elem_le_sum_list [of i "map node_count (node_children n)"]
  by (cases n) (simp add: set_children_def map_update sum_list_update [where 'a = nat])

lemma in_child_count:
  assumes "in_child n i r = Ok (m, evs, p)" and "i < length (node_children n)"
    and "\<And>c evs' q. r = Ok (c, evs', q) \<Longrightarrow> node_count c = node_count (node_children n ! i) + length evs'"
  shows "node_count m = node_count n + length evs"
proof -
  obtain c evs' q where "r = Ok (c, evs', q)" "m = set_children ((node_children n)[i := c]) n"
      "evs = map (below (node_name c)) evs'"
    using assms(1) by (auto elim: in_child_OkE)
  then show ?thesis using assms(3) node_count_update [OF assms(2), of c] by simp
qed

lemma create_node_rec_count: "create_node_rec ct n a = Ok (m, evs, p) \<Longrightarrow> node_count m = node_count n + length evs"
proof (induction "length a" arbitrary: n a m evs p rule: less_induct)
  case less
  show ?case
  proof (cases "after_slash a")
    case None
    then show ?thesis
      using less.prems by (subst (asm) create_node_rec.simps) (auto dest: create_child_count split: option.splits)
  next
    case (Some rest)
    note IH = less.hyps [OF after_slash_length [OF Some]]
    show ?thesis
    proof (cases "find_child n (first_part a)")
      case None
      then obtain k evs1 i evs2 where k: "create_child ct n (first_part a) = Ok (k, evs1, Some i)"
        and m: "in_child k i (create_node_rec ct (node_children k ! i) rest) = Ok (m, evs2, p)"
        and evs: "evs = evs1 @ evs2"
        using less.prems Some by (subst (asm) create_node_rec.simps) (auto split: option.splits)
      have "i < length (node_children k)" by (rule create_child_Ok [OF k]) simp
      from in_child_count [OF m this IH] show ?thesis using create_child_count [OF k] evs by simp
    next
      case (Some i)
      then have "in_child n i (create_node_rec ct (node_children n ! i) rest) = Ok (m, evs, p)"
        using less.prems \<open>after_slash a = Some rest\<close> by (subst (asm) create_node_rec.simps) simp
      from in_child_count [OF this _ IH] show ?thesis using find_child_Some [OF Some] by simp
    qed
  qed
qed

lemma create_node_count: "create_node ct n a = Ok (m, evs, p) \<Longrightarrow> node_count m = node_count n + length evs"
  by (auto simp: create_node_def Let_def intro: create_node_rec_count)

section \<open>Growth\<close>

text \<open>A tree that has enlarged: every node is still at its place, with its name and its parameter.\<close>

definition enlarged :: "'p node \<Rightarrow> 'p node \<Rightarrow> bool" where
  "enlarged n m \<longleftrightarrow> (\<forall>q x. node_at n q = Some x \<longrightarrow>
     (\<exists>y. node_at m q = Some y \<and> node_name y = node_name x \<and> node_param y = node_param x))"

lemma enlarged_refl [simp]: "enlarged n n"
  by (simp add: enlarged_def)

lemma enlarged_trans: "enlarged n m \<Longrightarrow> enlarged m k \<Longrightarrow> enlarged n k"
  unfolding enlarged_def by metis

lemma enlarged_at: "enlarged n m \<Longrightarrow> node_at n q \<noteq> None \<Longrightarrow> node_at m q \<noteq> None"
  by (force simp: enlarged_def)

lemma enlarged_append: "enlarged n (set_children (node_children n @ cs) n)"
  unfolding enlarged_def
proof (intro allI impI)
  fix q x assume "node_at n q = Some x"
  then show "\<exists>y. node_at (set_children (node_children n @ cs) n) q = Some y \<and>
      node_name y = node_name x \<and> node_param y = node_param x"
    by (cases q) (auto simp: nth_append set_children_def split: if_splits)
qed

lemma enlarged_update:
  assumes "enlarged (node_children n ! i) c"
  shows "enlarged n (set_children ((node_children n)[i := c]) n)"
  unfolding enlarged_def
proof (intro allI impI)
  fix q x assume q: "node_at n q = Some x"
  show "\<exists>y. node_at (set_children ((node_children n)[i := c]) n) q = Some y \<and>
      node_name y = node_name x \<and> node_param y = node_param x"
  proof (cases q)
    case Nil
    then show ?thesis using q by (auto simp: set_children_def)
  next
    case (Cons j p)
    then show ?thesis
      using q assms by (cases "j = i") (auto simp: enlarged_def split: if_splits)
  qed
qed

lemma in_child_enlarged:
  "in_child n i r = Ok (m, evs, p) \<Longrightarrow> (\<And>c evs' q. r = Ok (c, evs', q) \<Longrightarrow> enlarged (node_children n ! i) c) \<Longrightarrow>
   enlarged n m"
  by (elim in_child_OkE) (auto intro: enlarged_update)

lemma create_child_enlarged: "create_child ct n s = Ok (m, evs, r) \<Longrightarrow> enlarged n m"
  by (auto simp: create_child_def intro: enlarged_append split: if_splits)

lemma create_node_rec_enlarged: "create_node_rec ct n a = Ok (m, evs, p) \<Longrightarrow> enlarged n m"
proof (induction "length a" arbitrary: n a m evs p rule: less_induct)
  case less
  show ?case
  proof (cases "after_slash a")
    case None
    then show ?thesis
      using less.prems by (subst (asm) create_node_rec.simps) (auto dest: create_child_enlarged split: option.splits)
  next
    case (Some rest)
    note IH = less.hyps [OF after_slash_length [OF Some]]
    show ?thesis
    proof (cases "find_child n (first_part a)")
      case None
      then obtain k evs1 i evs2 where k: "create_child ct n (first_part a) = Ok (k, evs1, Some i)"
        and m: "in_child k i (create_node_rec ct (node_children k ! i) rest) = Ok (m, evs2, p)"
        using less.prems Some by (subst (asm) create_node_rec.simps) (auto split: option.splits)
      from in_child_enlarged [OF m IH] show ?thesis by (rule enlarged_trans [OF create_child_enlarged [OF k]])
    next
      case (Some i)
      then have "in_child n i (create_node_rec ct (node_children n ! i) rest) = Ok (m, evs, p)"
        using less.prems \<open>after_slash a = Some rest\<close> by (subst (asm) create_node_rec.simps) simp
      from in_child_enlarged [OF this IH] show ?thesis .
    qed
  qed
qed

lemma create_node_enlarged: "create_node ct n a = Ok (m, evs, p) \<Longrightarrow> enlarged n m"
  by (auto simp: create_node_def Let_def intro: create_node_rec_enlarged)

end
