(* ===== verification/Units.thy ===== *)
theory Units
  imports Domain
begin

text \<open>
  The units of \<open>network/dataspace\<close>: the eight dataspaces with their units, the texts that name
  them, the type, the accessors and the default domain of a unit, and the functions that find a
  unit from a text or from its indices. A \<open>unit_t\<close> is empty, a dataspace without a unit, or a
  unit of a dataspace; the units are named as in the code. The numeric conversions between units
  are not modelled here.
\<close>

section \<open>The units\<close>

datatype distance_u =
    meter_u | kilometer_u | decimeter_u | centimeter_u | millimeter_u | micrometer_u | nanometer_u
  | picometer_u | inch_u | foot_u | mile_u

datatype position_u =
    cartesian_3d_u | cartesian_2d_u | spherical_u | polar_u | opengl_u | cylindrical_u

datatype speed_u =
    meter_per_second_u | miles_per_hour_u | kilometer_per_hour_u | knot_u | foot_per_second_u
  | foot_per_hour_u

datatype orientation_u = quaternion_u | euler_u | axis_u

datatype angle_u = degree_u | radian_u

datatype color_u = argb_u | rgba_u | rgb_u | bgr_u | argb8_u | rgba8_u | hsv_u | cmy8_u | xyz_u

datatype gain_u = linear_u | midigain_u | decibel_u | decibel_raw_u

datatype timing_u =
    second_u | bark_u | bpm_u | cent_u | frequency_u | mel_u | midi_pitch_u | millisecond_u
  | playback_speed_u

datatype unit_variant =
    Distance "distance_u option"
  | Position "position_u option"
  | Speed "speed_u option"
  | Orientation "orientation_u option"
  | Angle "angle_u option"
  | Color "color_u option"
  | Gain "gain_u option"
  | Timing "timing_u option"

type_synonym unit_t = "unit_variant option"

text \<open>The lists of \<open>detail/dataspace_list.hpp\<close>, in their order.\<close>

definition distance_u_list :: "distance_u list" where
  "distance_u_list =
     [meter_u, kilometer_u, decimeter_u, centimeter_u, millimeter_u, micrometer_u, nanometer_u,
      picometer_u, inch_u, foot_u, mile_u]"

definition position_u_list :: "position_u list" where
  "position_u_list = [cartesian_3d_u, cartesian_2d_u, spherical_u, polar_u, opengl_u, cylindrical_u]"

definition speed_u_list :: "speed_u list" where
  "speed_u_list =
     [meter_per_second_u, miles_per_hour_u, kilometer_per_hour_u, knot_u, foot_per_second_u, foot_per_hour_u]"

definition orientation_u_list :: "orientation_u list" where
  "orientation_u_list = [quaternion_u, euler_u, axis_u]"

definition angle_u_list :: "angle_u list" where
  "angle_u_list = [degree_u, radian_u]"

definition color_u_list :: "color_u list" where
  "color_u_list = [argb_u, rgba_u, rgb_u, bgr_u, argb8_u, rgba8_u, hsv_u, cmy8_u, xyz_u]"

definition gain_u_list :: "gain_u list" where
  "gain_u_list = [linear_u, midigain_u, decibel_u, decibel_raw_u]"

definition timing_u_list :: "timing_u list" where
  "timing_u_list =
     [second_u, bark_u, bpm_u, cent_u, frequency_u, mel_u, midi_pitch_u, millisecond_u, playback_speed_u]"

definition dataspace_u_list :: "(unit_variant \<times> unit_variant list) list" where
  "dataspace_u_list =
     [(Distance None, map (\<lambda>u. Distance (Some u)) distance_u_list),
      (Position None, map (\<lambda>u. Position (Some u)) position_u_list),
      (Speed None, map (\<lambda>u. Speed (Some u)) speed_u_list),
      (Orientation None, map (\<lambda>u. Orientation (Some u)) orientation_u_list),
      (Angle None, map (\<lambda>u. Angle (Some u)) angle_u_list),
      (Color None, map (\<lambda>u. Color (Some u)) color_u_list),
      (Gain None, map (\<lambda>u. Gain (Some u)) gain_u_list),
      (Timing None, map (\<lambda>u. Timing (Some u)) timing_u_list)]"

section \<open>Texts\<close>

fun distance_text :: "distance_u \<Rightarrow> string list" where
  "distance_text meter_u = [''m'', ''meters'']"
| "distance_text kilometer_u = [''km'', ''kilometers'']"
| "distance_text decimeter_u = [''dm'', ''decimeters'']"
| "distance_text centimeter_u = [''cm'', ''centimeters'']"
| "distance_text millimeter_u = [''mm'', ''millimeters'']"
| "distance_text micrometer_u = [''um'', ''micrometers'']"
| "distance_text nanometer_u = [''nm'', ''nanometers'']"
| "distance_text picometer_u = [''pm'', ''picometers'']"
| "distance_text inch_u = [''inches'', [CHR 0x22]]"
| "distance_text foot_u = [''feet'', [CHR 0x27]]"
| "distance_text mile_u = [''miles'']"

fun position_text :: "position_u \<Rightarrow> string list" where
  "position_text cartesian_3d_u = [''cart3D'', ''xyz'']"
| "position_text cartesian_2d_u = [''cart2D'', ''xy'']"
| "position_text spherical_u = [''spherical'', ''rtp'']"
| "position_text polar_u = [''polar'', ''rp'']"
| "position_text opengl_u = [''openGL'']"
| "position_text cylindrical_u = [''cylindrical'', ''rpz'']"

fun speed_text :: "speed_u \<Rightarrow> string list" where
  "speed_text meter_per_second_u = [''m/s'']"
| "speed_text miles_per_hour_u = [''mph'', ''mi/h'']"
| "speed_text kilometer_per_hour_u = [''km/h'', ''kmph'']"
| "speed_text knot_u = [''kn'']"
| "speed_text foot_per_hour_u = [''ft/h'']"
| "speed_text foot_per_second_u = [''ft/s'']"

fun orientation_text :: "orientation_u \<Rightarrow> string list" where
  "orientation_text quaternion_u = [''quaternion'', ''quat'']"
| "orientation_text euler_u = [''euler'', ''ypr'']"
| "orientation_text axis_u = [''axis'', ''xyzw'']"

fun angle_text :: "angle_u \<Rightarrow> string list" where
  "angle_text radian_u = [''radian'', ''rad'']"
| "angle_text degree_u = [''degree'', ''deg'']"

fun color_text :: "color_u \<Rightarrow> string list" where
  "color_text argb_u = [''argb'']"
| "color_text rgba8_u = [''rgba8'']"
| "color_text rgba_u = [''rgba'']"
| "color_text rgb_u = [''rgb'']"
| "color_text bgr_u = [''bgr'']"
| "color_text argb8_u = [''argb8'']"
| "color_text hsv_u = [''hsv'']"
| "color_text cmy8_u = [''cmy8'']"
| "color_text xyz_u = [''cie_xyz'']"

fun gain_text :: "gain_u \<Rightarrow> string list" where
  "gain_text linear_u = [''linear'']"
| "gain_text midigain_u = [''midigain'']"
| "gain_text decibel_u = [''db'', ''dB'']"
| "gain_text decibel_raw_u = [''db-raw'', ''dB-raw'']"

fun timing_text :: "timing_u \<Rightarrow> string list" where
  "timing_text second_u = [''second'', ''s'']"
| "timing_text bark_u = [''bark'']"
| "timing_text bpm_u = [''bpm'']"
| "timing_text cent_u = [''cents'']"
| "timing_text frequency_u = [''Hz'', ''hz'', ''Hertz'']"
| "timing_text mel_u = [''mel'']"
| "timing_text midi_pitch_u = [''midinote'']"
| "timing_text millisecond_u = [''ms'', ''millisecond'']"
| "timing_text playback_speed_u = [''speed'']"

fun unit_text :: "unit_variant \<Rightarrow> string list" where
  "unit_text (Distance (Some u)) = distance_text u"
| "unit_text (Position (Some u)) = position_text u"
| "unit_text (Speed (Some u)) = speed_text u"
| "unit_text (Orientation (Some u)) = orientation_text u"
| "unit_text (Angle (Some u)) = angle_text u"
| "unit_text (Color (Some u)) = color_text u"
| "unit_text (Gain (Some u)) = gain_text u"
| "unit_text (Timing (Some u)) = timing_text u"
| "unit_text _ = []"

fun dataspace_text :: "unit_variant \<Rightarrow> string" where
  "dataspace_text (Angle _) = ''angle''"
| "dataspace_text (Color _) = ''color''"
| "dataspace_text (Distance _) = ''distance''"
| "dataspace_text (Gain _) = ''gain''"
| "dataspace_text (Orientation _) = ''orientation''"
| "dataspace_text (Position _) = ''position''"
| "dataspace_text (Speed _) = ''speed''"
| "dataspace_text (Timing _) = ''time''"

fun neutral_unit :: "unit_variant \<Rightarrow> unit_variant" where
  "neutral_unit (Angle _) = Angle (Some radian_u)"
| "neutral_unit (Color _) = Color (Some argb_u)"
| "neutral_unit (Distance _) = Distance (Some meter_u)"
| "neutral_unit (Gain _) = Gain (Some linear_u)"
| "neutral_unit (Orientation _) = Orientation (Some quaternion_u)"
| "neutral_unit (Position _) = Position (Some cartesian_3d_u)"
| "neutral_unit (Speed _) = Speed (Some meter_per_second_u)"
| "neutral_unit (Timing _) = Timing (Some second_u)"

text \<open>The dataspace of a unit, without the unit.\<close>

fun dataspace_of :: "unit_variant \<Rightarrow> unit_variant" where
  "dataspace_of (Distance _) = Distance None"
| "dataspace_of (Position _) = Position None"
| "dataspace_of (Speed _) = Speed None"
| "dataspace_of (Orientation _) = Orientation None"
| "dataspace_of (Angle _) = Angle None"
| "dataspace_of (Color _) = Color None"
| "dataspace_of (Gain _) = Gain None"
| "dataspace_of (Timing _) = Timing None"

definition get_dataspace_text :: "unit_t \<Rightarrow> string" where
  "get_dataspace_text u = (case u of Some d \<Rightarrow> dataspace_text d | None \<Rightarrow> [])"

definition get_unit_text :: "unit_t \<Rightarrow> string" where
  "get_unit_text u = (case u of Some d \<Rightarrow> (case unit_text d of t # _ \<Rightarrow> t | [] \<Rightarrow> []) | None \<Rightarrow> [])"

definition make_pretty_unit_text :: "unit_variant \<Rightarrow> string" where
  "make_pretty_unit_text u = dataspace_text u @ ''.'' @ hd (unit_text u)"

definition get_pretty_unit_text :: "unit_t \<Rightarrow> string" where
  "get_pretty_unit_text u =
     (case u of
        Some d \<Rightarrow> (if unit_text d = [] then dataspace_text d else make_pretty_unit_text d)
      | None \<Rightarrow> ''none'')"

section \<open>Type, accessors and default domain\<close>

fun position_type :: "position_u \<Rightarrow> val_type" where
  "position_type cartesian_2d_u = T_VEC2F"
| "position_type polar_u = T_VEC2F"
| "position_type _ = T_VEC3F"

fun orientation_type :: "orientation_u \<Rightarrow> val_type" where
  "orientation_type euler_u = T_VEC3F"
| "orientation_type _ = T_VEC4F"

fun color_type :: "color_u \<Rightarrow> val_type" where
  "color_type argb_u = T_VEC4F"
| "color_type rgba_u = T_VEC4F"
| "color_type argb8_u = T_VEC4F"
| "color_type rgba8_u = T_VEC4F"
| "color_type _ = T_VEC3F"

fun variant_type :: "unit_variant \<Rightarrow> val_type" where
  "variant_type (Position (Some u)) = position_type u"
| "variant_type (Orientation (Some u)) = orientation_type u"
| "variant_type (Color (Some u)) = color_type u"
| "variant_type (Distance (Some _)) = T_FLOAT"
| "variant_type (Speed (Some _)) = T_FLOAT"
| "variant_type (Angle (Some _)) = T_FLOAT"
| "variant_type (Gain (Some _)) = T_FLOAT"
| "variant_type (Timing (Some _)) = T_FLOAT"
| "variant_type _ = T_IMPULSE"

definition matching_type :: "unit_t \<Rightarrow> val_type" where
  "matching_type u = (case u of Some d \<Rightarrow> variant_type d | None \<Rightarrow> T_IMPULSE)"

fun array_parameters :: "unit_variant \<Rightarrow> string" where
  "array_parameters (Position (Some cartesian_3d_u)) = ''xyz''"
| "array_parameters (Position (Some cartesian_2d_u)) = ''xy''"
| "array_parameters (Position (Some spherical_u)) = ''rtp''"
| "array_parameters (Position (Some polar_u)) = ''rp''"
| "array_parameters (Position (Some opengl_u)) = ''xyz''"
| "array_parameters (Position (Some cylindrical_u)) = ''rpz''"
| "array_parameters (Orientation (Some quaternion_u)) = ''abcd''"
| "array_parameters (Orientation (Some euler_u)) = ''ypr''"
| "array_parameters (Orientation (Some axis_u)) = ''xyzw''"
| "array_parameters (Color (Some argb_u)) = ''argb''"
| "array_parameters (Color (Some rgba8_u)) = ''rgba''"
| "array_parameters (Color (Some rgba_u)) = ''rgba''"
| "array_parameters (Color (Some rgb_u)) = ''rgb''"
| "array_parameters (Color (Some bgr_u)) = ''bgr''"
| "array_parameters (Color (Some argb8_u)) = ''argb''"
| "array_parameters (Color (Some hsv_u)) = ''hsv''"
| "array_parameters (Color (Some cmy8_u)) = ''cmy''"
| "array_parameters (Color (Some xyz_u)) = ''xyz''"
| "array_parameters _ = []"

definition get_unit_accessors :: "unit_t \<Rightarrow> string" where
  "get_unit_accessors u = (case u of Some d \<Rightarrow> array_parameters d | None \<Rightarrow> [])"

definition get_unit_accessor :: "unit_t \<Rightarrow> 8 word \<Rightarrow> char" where
  "get_unit_accessor u n =
     (case u of
        Some d \<Rightarrow> (if unat n < length (array_parameters d) then array_parameters d ! unat n else CHR 0x00)
      | None \<Rightarrow> CHR 0x00)"

definition float_range :: "int \<Rightarrow> int \<Rightarrow> domain" where
  "float_range a b =
     DFloat \<lparr>num_min = Some (fl_of_int F32 a), num_max = Some (fl_of_int F32 b), num_values = []\<rparr>"

definition vec_range :: "int list \<Rightarrow> int list \<Rightarrow> vecf_dom" where
  "vec_range xs ys =
     \<lparr>vf_min = map (\<lambda>n. Some (fl_of_int F32 n)) xs, vf_max = map (\<lambda>n. Some (fl_of_int F32 n)) ys,
      vf_values = map (\<lambda>_. []) xs\<rparr>"

definition two_pi :: fl where
  "two_pi = fround F64 False (6283185307179586476925286766559005768 / 10 ^ 36)"

fun unit_domain :: "unit_variant \<Rightarrow> domain" where
  "unit_domain (Position (Some spherical_u)) = DVec3f (vec_range [0, 0, 0] [1, 360, 360])"
| "unit_domain (Position (Some polar_u)) = DVec2f (vec_range [0, 0] [1, 360])"
| "unit_domain (Position (Some cylindrical_u)) = DVec3f (vec_range [0, 0, 0] [1, 360, 1])"
| "unit_domain (Orientation (Some quaternion_u)) = DVec4f (vec_range [0, 0, 0, 0] [1, 1, 1, 1])"
| "unit_domain (Orientation (Some euler_u)) = DVec3f (vec_range [0, 0, 0] [360, 360, 360])"
| "unit_domain (Orientation (Some axis_u)) = DVec4f (vec_range [0, 0, 0, 0] [1, 1, 1, 360])"
| "unit_domain (Angle (Some radian_u)) =
     DFloat \<lparr>num_min = Some (fl_of_int F32 0), num_max = Some (fl_narrow two_pi), num_values = []\<rparr>"
| "unit_domain (Angle (Some degree_u)) = float_range 0 360"
| "unit_domain (Color (Some argb_u)) = DVec4f (vec_range [0, 0, 0, 0] [1, 1, 1, 1])"
| "unit_domain (Color (Some rgba_u)) = DVec4f (vec_range [0, 0, 0, 0] [1, 1, 1, 1])"
| "unit_domain (Color (Some argb8_u)) = DVec4f (vec_range [0, 0, 0, 0] [255, 255, 255, 255])"
| "unit_domain (Color (Some rgba8_u)) = DVec4f (vec_range [0, 0, 0, 0] [255, 255, 255, 255])"
| "unit_domain (Color (Some cmy8_u)) = DVec3f (vec_range [0, 0, 0] [255, 255, 255])"
| "unit_domain (Color (Some rgb_u)) = DVec3f (vec_range [0, 0, 0] [1, 1, 1])"
| "unit_domain (Color (Some bgr_u)) = DVec3f (vec_range [0, 0, 0] [1, 1, 1])"
| "unit_domain (Color (Some hsv_u)) = DVec3f (vec_range [0, 0, 0] [1, 1, 1])"
| "unit_domain (Color (Some xyz_u)) = DVec3f (vec_range [0, 0, 0] [1, 1, 1])"
| "unit_domain (Gain (Some linear_u)) = float_range 0 1"
| "unit_domain (Gain (Some midigain_u)) = float_range 0 127"
| "unit_domain (Gain (Some decibel_u)) = float_range (- 96) 12"
| "unit_domain (Gain (Some decibel_raw_u)) = float_range (- 96) 12"
| "unit_domain (Timing (Some bpm_u)) = float_range 0 240"
| "unit_domain (Timing (Some cent_u)) = float_range 0 12700"
| "unit_domain (Timing (Some frequency_u)) = float_range 0 24000"
| "unit_domain (Timing (Some mel_u)) = float_range 0 4016"
| "unit_domain (Timing (Some midi_pitch_u)) = float_range 0 127"
| "unit_domain (Timing (Some playback_speed_u)) = float_range 0 2"
| "unit_domain _ = DNone"

definition get_unit_default_domain :: "unit_t \<Rightarrow> domain" where
  "get_unit_default_domain u = (case u of Some d \<Rightarrow> unit_domain d | None \<Rightarrow> DNone)"

section \<open>Parsing\<close>

text \<open>A map filled by \<open>emplace\<close> or \<open>insert\<close> keeps the first value given to a key.\<close>

definition unit_map_of :: "unit_variant list \<Rightarrow> (string \<times> unit_variant) list" where
  "unit_map_of us = concat (map (\<lambda>u. map (\<lambda>t. (t, u)) (unit_text u)) us)"

definition units_in :: "unit_variant \<Rightarrow> unit_variant list" where
  "units_in d = (case map_of dataspace_u_list (dataspace_of d) of Some us \<Rightarrow> us | None \<Rightarrow> [])"

definition parse_unit :: "string \<Rightarrow> unit_t \<Rightarrow> unit_t" where
  "parse_unit t dataspace =
     (if t \<noteq> [] then (case dataspace of Some d \<Rightarrow> map_of (unit_map_of (units_in d)) t | None \<Rightarrow> None)
      else None)"

definition parse_dataspace :: "string \<Rightarrow> unit_t" where
  "parse_dataspace t =
     map_of
       [(''color'', Color None), (''distance'', Distance None), (''position'', Position None),
        (''speed'', Speed None), (''orientation'', Orientation None), (''angle'', Angle None),
        (''gain'', Gain None), (''time'', Timing None)] t"

text \<open>\<open>boost::to_lower\<close> in the classic locale.\<close>

definition lower_char :: "char \<Rightarrow> char" where
  "lower_char c = (if 65 \<le> (of_char c :: nat) \<and> (of_char c :: nat) \<le> 90 then char_of ((of_char c :: nat) + 32) else c)"

definition to_lower :: "string \<Rightarrow> string" where
  "to_lower = map lower_char"

definition list_units :: "(string \<times> unit_variant) list" where
  "list_units =
     concat (map (\<lambda>(d, us).
       (to_lower (dataspace_text d), neutral_unit d) #
       concat (map (\<lambda>u. concat (map (\<lambda>t.
         [(to_lower (dataspace_text d) @ ''.'' @ to_lower t, u), (to_lower t, u)]) (unit_text u))) us))
       dataspace_u_list) @
     map (\<lambda>t. (t, Position (Some cartesian_2d_u))) [''complex'', ''point2d'', ''2d'', ''cartesian2d''] @
     map (\<lambda>t. (t, Position (Some cartesian_3d_u)))
       [''pos'', ''point'', ''point3d'', ''3d'', ''cartesian3d'', ''coord'', ''coordinate'', ''coordinates'',
        ''pvector'', ''vertex''] @
     map (\<lambda>t. (t, Position (Some opengl_u))) [''gl'', ''opengl'', ''position.gl'', ''position.opengl''] @
     map (\<lambda>t. (t, Timing (Some frequency_u))) [''freq'', ''frequence'', ''frequency''] @
     map (\<lambda>t. (t, Color (Some rgba8_u))) [''col'', ''color''] @
     map (\<lambda>t. (t, neutral_unit (Angle None))) [''rot'', ''rotation''] @
     [(''meter'', Distance (Some meter_u)), (''decimeter'', Distance (Some decimeter_u)),
      (''centimeter'', Distance (Some centimeter_u)), (''millimeter'', Distance (Some millimeter_u)),
      (''micrometer'', Distance (Some micrometer_u)), (''nanometer'', Distance (Some nanometer_u)),
      (''picometer'', Distance (Some picometer_u))]"

definition parse_pretty_unit :: "string \<Rightarrow> unit_t" where
  "parse_pretty_unit t = map_of (map (\<lambda>(s, u). (to_lower s, u)) list_units) (to_lower t)"

section \<open>Units by index\<close>

definition make_unit_array :: "unit_variant list" where
  "make_unit_array = concat (map snd dataspace_u_list)"

fun index_array :: "nat \<Rightarrow> nat list \<Rightarrow> nat list" where
  "index_array s [] = []"
| "index_array s (n # ns) = s # index_array (s + n) ns"

definition make_dataspace_index_array :: "nat list" where
  "make_dataspace_index_array = index_array 0 (map (\<lambda>(_, us). length us) dataspace_u_list)"

definition make_unit :: "64 word \<Rightarrow> 64 word \<Rightarrow> unit_t" where
  "make_unit dataspace u =
     (if unat dataspace < length make_dataspace_index_array then
        (let idx = word_of_nat (make_dataspace_index_array ! unat dataspace) :: 64 word
         in if unat (idx + u) < length make_unit_array then Some (make_unit_array ! unat (idx + u)) else None)
      else None)"

definition check_units_convertible :: "unit_t \<Rightarrow> unit_t \<Rightarrow> bool" where
  "check_units_convertible l r \<longleftrightarrow> map_option dataspace_of l = map_option dataspace_of r"

section \<open>Laws\<close>

text \<open>A unit that is not a bare dataspace.\<close>

definition concrete_unit :: "unit_variant \<Rightarrow> bool" where
  "concrete_unit d \<longleftrightarrow> d \<noteq> dataspace_of d"

lemmas unit_lists =
  distance_u_list_def position_u_list_def speed_u_list_def orientation_u_list_def angle_u_list_def
  color_u_list_def gain_u_list_def timing_u_list_def dataspace_u_list_def

lemma unit_lists_complete:
  "u \<in> set distance_u_list" "p \<in> set position_u_list" "s \<in> set speed_u_list"
  "q \<in> set orientation_u_list" "a \<in> set angle_u_list" "c \<in> set color_u_list"
  "g \<in> set gain_u_list" "t \<in> set timing_u_list"
  subgoal by (cases u) (simp_all add: unit_lists)
  subgoal by (cases p) (simp_all add: unit_lists)
  subgoal by (cases s) (simp_all add: unit_lists)
  subgoal by (cases q) (simp_all add: unit_lists)
  subgoal by (cases a) (simp_all add: unit_lists)
  subgoal by (cases c) (simp_all add: unit_lists)
  subgoal by (cases g) (simp_all add: unit_lists)
  subgoal by (cases t) (simp_all add: unit_lists)
  done

lemma concrete_in_array: "concrete_unit d \<Longrightarrow> d \<in> set make_unit_array"
  using unit_lists_complete
  by (cases d) (auto simp: concrete_unit_def make_unit_array_def dataspace_u_list_def)

lemma parse_unit_text_all:
  "list_all (\<lambda>d. parse_unit (get_unit_text (Some d)) (Some (dataspace_of d)) = Some d) make_unit_array"
  by code_simp

lemma parse_unit_get_text:
  "concrete_unit d \<Longrightarrow> parse_unit (get_unit_text (Some d)) (Some (dataspace_of d)) = Some d"
  using parse_unit_text_all concrete_in_array by (auto simp: list_all_iff)

lemma parse_dataspace_get_text: "parse_dataspace (get_dataspace_text (Some d)) = Some (dataspace_of d)"
  by (cases d) (simp_all add: parse_dataspace_def get_dataspace_text_def)

text \<open>\<open>make_unit\<close> gives back the unit at its indices, and only units of the array.\<close>

fun unit_index :: "unit_variant list \<Rightarrow> unit_variant \<Rightarrow> nat" where
  "unit_index [] d = 0"
| "unit_index (u # us) d = (if u = d then 0 else Suc (unit_index us d))"

definition dataspace_which :: "unit_variant \<Rightarrow> nat" where
  "dataspace_which d = unit_index (map fst dataspace_u_list) (dataspace_of d)"

definition unit_which :: "unit_variant \<Rightarrow> nat" where
  "unit_which d = unit_index (units_in d) d"

lemma make_unit_which_all:
  "list_all (\<lambda>d. make_unit (word_of_nat (dataspace_which d)) (word_of_nat (unit_which d)) = Some d) make_unit_array"
  by code_simp

lemma make_unit_which:
  "concrete_unit d \<Longrightarrow>
   make_unit (word_of_nat (dataspace_which d)) (word_of_nat (unit_which d)) = Some d"
  using make_unit_which_all concrete_in_array by (auto simp: list_all_iff)

lemma make_unit_concrete: "make_unit i j = Some d \<Longrightarrow> concrete_unit d"
proof -
  assume "make_unit i j = Some d"
  then have "d \<in> set make_unit_array" by (auto simp: make_unit_def Let_def split: if_splits)
  moreover have "list_all concrete_unit make_unit_array"
    by (simp add: make_unit_array_def unit_lists concrete_unit_def)
  ultimately show ?thesis by (simp add: list_all_iff)
qed

text \<open>The type of a unit is the type of its default domain, when it has one.\<close>

lemma matching_type_domain:
  "get_unit_default_domain u \<noteq> DNone \<Longrightarrow> domain_type (get_unit_default_domain u) = matching_type u"
proof (cases u)
  case (Some d)
  assume "get_unit_default_domain u \<noteq> DNone"
  then show ?thesis using Some
    by (cases d rule: unit_domain.cases)
      (simp_all add: get_unit_default_domain_def matching_type_def float_range_def)
qed (simp add: get_unit_default_domain_def)

lemma vec_unit_types:
  "position_type p \<in> {T_VEC2F, T_VEC3F}" "orientation_type q \<in> {T_VEC3F, T_VEC4F}"
  "color_type c \<in> {T_VEC3F, T_VEC4F}"
  subgoal by (cases p) simp_all
  subgoal by (cases q) simp_all
  subgoal by (cases c) simp_all
  done

lemma matching_type_concrete:
  "concrete_unit d \<Longrightarrow> matching_type (Some d) \<in> {T_FLOAT, T_VEC2F, T_VEC3F, T_VEC4F}"
  using vec_unit_types
  by (cases d rule: variant_type.cases) (fastforce simp: matching_type_def concrete_unit_def)+

lemma matching_type_valid: "matching_type u \<noteq> T_NONE"
proof (cases u)
  case (Some d)
  then show ?thesis
    using matching_type_concrete [of d]
    by (cases d rule: variant_type.cases) (auto simp: matching_type_def concrete_unit_def)
qed (simp add: matching_type_def)

text \<open>The accessors of a unit name the components of its value.\<close>

fun vector_size :: "val_type \<Rightarrow> nat" where
  "vector_size T_VEC2F = 2"
| "vector_size T_VEC3F = 3"
| "vector_size T_VEC4F = 4"
| "vector_size _ = 0"

lemma accessors_length: "length (get_unit_accessors u) = vector_size (matching_type u)"
proof (cases u)
  case (Some d)
  then show ?thesis
    by (cases d rule: array_parameters.cases;
        simp add: get_unit_accessors_def matching_type_def split: option.splits)
      (case_tac v; simp)+
qed (simp add: get_unit_accessors_def matching_type_def)

lemma pretty_color: "parse_pretty_unit ''color'' = Some (Color (Some argb_u))"
  by code_simp

end
