(* ===== verification/Callbacks.thy ===== *)
theory Callbacks
  imports Ossia_Prelude
begin

text \<open>
  The callbacks of a parameter: \<open>detail/callback_container.hpp\<close>, whose functions the registrations of
  \<open>network/base/message_queue.hpp\<close> use. A container is the list of its functions, each with
  the identity that an iterator of the list stands for; a null function is \<open>None\<close>. The calls of
  the virtual hooks \<open>on_first_callback_added\<close> and \<open>on_removing_last_callback\<close> are returned.
\<close>

section \<open>The container\<close>

datatype hook = First_added | Last_removed

record 'c container =
  next_id :: nat
  callbacks :: "(nat \<times> 'c option) list"

definition empty_container :: "'c container" where
  "empty_container = \<lparr>next_id = 0, callbacks = []\<rparr>"

definition callback_ids :: "'c container \<Rightarrow> nat list" where
  "callback_ids k = map fst (callbacks k)"

datatype callback_fault = Invalid_callback | Dangling_iterator

datatype 'a cb_res = Done 'a | Fault callback_fault

definition add_callback :: "'c container \<Rightarrow> 'c option \<Rightarrow> ('c container \<times> hook list \<times> nat) cb_res" where
  "add_callback k callback =
     (case callback of
        Some cb \<Rightarrow>
          (let cbs = (next_id k, Some cb) # callbacks k
           in Done (k\<lparr>next_id := next_id k + 1, callbacks := cbs\<rparr>,
                    if length cbs = 1 then [First_added] else [], next_id k))
      | None \<Rightarrow> Fault Invalid_callback)"

definition remove_callback :: "'c container \<Rightarrow> nat \<Rightarrow> ('c container \<times> hook list) cb_res" where
  "remove_callback k it =
     (if it \<in> set (callback_ids k) then
        Done (k\<lparr>callbacks := filter (\<lambda>e. fst e \<noteq> it) (callbacks k)\<rparr>,
              if length (callbacks k) = 1 then [Last_removed] else [])
      else Fault Dangling_iterator)"

definition replace_callback :: "'c container \<Rightarrow> nat \<Rightarrow> 'c option \<Rightarrow> 'c container cb_res" where
  "replace_callback k it cb =
     (if it \<in> set (callback_ids k) then
        Done (k\<lparr>callbacks := map (\<lambda>e. if fst e = it then (it, cb) else e) (callbacks k)\<rparr>)
      else Fault Dangling_iterator)"

definition replace_callbacks :: "'c container \<Rightarrow> (nat \<times> 'c option) list \<Rightarrow> 'c container" where
  "replace_callbacks k cbs = k\<lparr>callbacks := cbs\<rparr>"

text \<open>
  \<open>disable_callback\<close> gives the list to put back; the copy is made of new elements, so it has no
  iterator in common with the list.
\<close>

definition copy_list :: "nat \<Rightarrow> (nat \<times> 'c option) list \<Rightarrow> (nat \<times> 'c option) list" where
  "copy_list n cbs = zip [n ..< n + length cbs] (map snd cbs)"

definition disable_callback ::
  "'c container \<Rightarrow> nat \<Rightarrow> ('c container \<times> (nat \<times> 'c option) list) cb_res" where
  "disable_callback k it =
     (if it \<in> set (callback_ids k) then
        Done (k\<lparr>next_id := next_id k + length (callbacks k),
                callbacks := filter (\<lambda>e. fst e \<noteq> it) (callbacks k)\<rparr>,
              copy_list (next_id k) (callbacks k))
      else Fault Dangling_iterator)"

definition callback_count :: "'c container \<Rightarrow> nat" where
  "callback_count k = length (callbacks k)"

definition callbacks_empty :: "'c container \<Rightarrow> bool" where
  "callbacks_empty k \<longleftrightarrow> callbacks k = []"

text \<open>The functions that \<open>send\<close> calls, in order.\<close>

definition send :: "'c container \<Rightarrow> 'c list" where
  "send k = List.map_filter snd (callbacks k)"

definition callbacks_clear :: "'c container \<Rightarrow> 'c container \<times> hook list" where
  "callbacks_clear k =
     (k\<lparr>callbacks := []\<rparr>, if callbacks k \<noteq> [] then [Last_removed] else [])"

section \<open>Laws of the container\<close>

definition wf_container :: "'c container \<Rightarrow> bool" where
  "wf_container k \<longleftrightarrow> distinct (callback_ids k) \<and> (\<forall>i\<in>set (callback_ids k). i < next_id k)"

text \<open>Whether the protocol observes the parameter, after the hooks have been called.\<close>

fun observed_after :: "bool \<Rightarrow> hook list \<Rightarrow> bool" where
  "observed_after b [] = b"
| "observed_after b (First_added # hs) = observed_after True hs"
| "observed_after b (Last_removed # hs) = observed_after False hs"

lemma wf_empty: "wf_container empty_container"
  by (simp add: wf_container_def empty_container_def callback_ids_def)

lemma add_callback_Done:
  "add_callback k cb = Done (k', hs, i) \<Longrightarrow>
   cb \<noteq> None \<and> i = next_id k \<and> callback_ids k' = i # callback_ids k \<and> next_id k' = next_id k + 1 \<and>
   callbacks k' = (i, cb) # callbacks k \<and> hs = (if callbacks k = [] then [First_added] else [])"
  by (auto simp: add_callback_def callback_ids_def Let_def split: option.splits)

lemma remove_callback_Done:
  "remove_callback k i = Done (k', hs) \<Longrightarrow>
   i \<in> set (callback_ids k) \<and> callback_ids k' = filter (\<lambda>j. j \<noteq> i) (callback_ids k) \<and>
   next_id k' = next_id k \<and> callbacks k' = filter (\<lambda>e. fst e \<noteq> i) (callbacks k) \<and>
   hs = (if length (callbacks k) = 1 then [Last_removed] else [])"
  by (auto simp: remove_callback_def callback_ids_def filter_map comp_def split: if_splits)

lemma add_callback_wf: "wf_container k \<Longrightarrow> add_callback k cb = Done (k', hs, i) \<Longrightarrow> wf_container k'"
  by (fastforce simp: wf_container_def dest: add_callback_Done)

lemma remove_callback_wf: "wf_container k \<Longrightarrow> remove_callback k i = Done (k', hs) \<Longrightarrow> wf_container k'"
  by (auto simp: wf_container_def dest: remove_callback_Done)

lemma length_one_filter:
  "distinct (map fst xs) \<Longrightarrow> i \<in> fst ` set xs \<Longrightarrow> filter (\<lambda>e. fst e \<noteq> i) xs = [] \<longleftrightarrow> length xs = 1"
proof (cases xs)
  case (Cons x ys)
  assume *: "distinct (map fst xs)" "i \<in> fst ` set xs"
  show ?thesis
  proof (cases ys)
    case (Cons y zs)
    then show ?thesis using * \<open>xs = x # ys\<close> by (cases "fst x = i") auto
  qed (use * \<open>xs = x # ys\<close> in auto)
qed simp

text \<open>The parameter is observed exactly while it has a callback.\<close>

lemma add_callback_observed:
  "add_callback k cb = Done (k', hs, i) \<Longrightarrow> b = (\<not> callbacks_empty k) \<Longrightarrow>
   observed_after b hs = (\<not> callbacks_empty k')"
  by (drule add_callback_Done) (auto simp: callbacks_empty_def)

lemma remove_callback_observed:
  assumes "wf_container k" "remove_callback k i = Done (k', hs)" "b = (\<not> callbacks_empty k)"
  shows "observed_after b hs = (\<not> callbacks_empty k')"
proof -
  note r = remove_callback_Done [OF assms(2)]
  have "callbacks k' = [] \<longleftrightarrow> length (callbacks k) = 1"
    using r length_one_filter [of "callbacks k" i] assms(1)
    by (auto simp: wf_container_def callback_ids_def)
  moreover have "callbacks k \<noteq> []" using r by (auto simp: callback_ids_def)
  ultimately show ?thesis using r assms(3) by (auto simp: callbacks_empty_def)
qed

lemma callbacks_clear_observed:
  "b = (\<not> callbacks_empty k) \<Longrightarrow>
   observed_after b (snd (callbacks_clear k)) = (\<not> callbacks_empty (fst (callbacks_clear k)))"
  by (auto simp: callbacks_clear_def callbacks_empty_def)

text \<open>
  The copy that \<open>disable_callback\<close> puts back has new elements: every iterator taken before it is
  dangling after it.
\<close>

lemma disable_callback_dangling:
  assumes "wf_container k" "disable_callback k i = Done (k', saved)" "j \<in> set (callback_ids k)"
  shows "remove_callback (replace_callbacks k' saved) j = Fault Dangling_iterator"
proof -
  have "saved = copy_list (next_id k) (callbacks k)" using assms(2) by (auto simp: disable_callback_def split: if_splits)
  then have "set (map fst saved) = {next_id k ..< next_id k + length (callbacks k)}"
    by (simp add: copy_list_def)
  moreover have "j < next_id k" using assms(1,3) by (auto simp: wf_container_def)
  ultimately have "j \<notin> set (map fst saved)" by auto
  then show ?thesis by (simp add: remove_callback_def replace_callbacks_def callback_ids_def)
qed

lemma disable_callback_send:
  "disable_callback k i = Done (k', saved) \<Longrightarrow> send (replace_callbacks k' saved) = send k"
proof -
  assume "disable_callback k i = Done (k', saved)"
  then have saved: "map snd saved = map snd (callbacks k)"
    by (auto simp: disable_callback_def copy_list_def split: if_splits)
  have "List.map_filter snd xs = List.map_filter id (map snd xs)" for xs :: "(nat \<times> 'a option) list"
    by (induction xs) (auto simp: List.map_filter_simps split: option.splits)
  then show ?thesis using saved by (simp add: send_def replace_callbacks_def)
qed

end
