(* ===== verification/Message_Queue.thy ===== *)
theory Message_Queue
  imports Callbacks "HOL-Library.AList"
begin

text \<open>
  The registrations of a queue of received values: \<open>network/base/message_queue.hpp\<close>. The queue adds
  one callback to each parameter it is registered with, which enqueues the values the parameter
  sends; it counts the registrations of a parameter. The lock-free queue itself belongs to a
  library: what is modelled is which messages are given to it. The other users of a parameter add
  and remove their own callbacks.
\<close>

section \<open>State and operations\<close>

datatype 'a subscriber = Enqueue | Other 'a

record ('p, 'a) queue_state =
  m_reg :: "('p \<times> int \<times> nat) list"
  containers :: "'p \<Rightarrow> 'a subscriber container"

definition registered :: "('p, 'a) queue_state \<Rightarrow> 'p \<Rightarrow> (int \<times> nat) option" where
  "registered q p = map_of (m_reg q) p"

definition reg :: "('p, 'a) queue_state \<Rightarrow> 'p \<Rightarrow> ('p, 'a) queue_state cb_res" where
  "reg q p =
     (case registered q p of
        None \<Rightarrow>
          (case add_callback (containers q p) (Some Enqueue) of
             Done (k, _, it) \<Rightarrow>
               Done (q\<lparr>m_reg := AList.update p (0, it) (m_reg q), containers := (containers q)(p := k)\<rparr>)
           | Fault e \<Rightarrow> Fault e)
      | Some (n, it) \<Rightarrow> Done (q\<lparr>m_reg := AList.update p (n + 1, it) (m_reg q)\<rparr>))"

definition unreg :: "('p, 'a) queue_state \<Rightarrow> 'p \<Rightarrow> ('p, 'a) queue_state cb_res" where
  "unreg q p =
     (case registered q p of
        None \<Rightarrow> Done q
      | Some (n, it) \<Rightarrow>
          (if n - 1 \<le> 0 then
             (case remove_callback (containers q p) it of
                Done (k, _) \<Rightarrow>
                  Done (q\<lparr>m_reg := AList.delete p (m_reg q), containers := (containers q)(p := k)\<rparr>)
              | Fault e \<Rightarrow> Fault e)
           else Done (q\<lparr>m_reg := AList.update p (n - 1, it) (m_reg q)\<rparr>)))"

text \<open>A parameter that is removed is forgotten; its destructor clears its callbacks.\<close>

definition on_param_removed :: "('p, 'a) queue_state \<Rightarrow> 'p \<Rightarrow> ('p, 'a) queue_state" where
  "on_param_removed q p =
     q\<lparr>m_reg := AList.delete p (m_reg q),
       containers := (containers q)(p := fst (callbacks_clear (containers q p)))\<rparr>"

fun remove_all ::
  "('p \<times> int \<times> nat) list \<Rightarrow> ('p \<Rightarrow> 'a subscriber container) \<Rightarrow> ('p \<Rightarrow> 'a subscriber container) cb_res" where
  "remove_all [] ks = Done ks"
| "remove_all ((p, _, it) # rs) ks =
     (case remove_callback (ks p) it of
        Done (k, _) \<Rightarrow> remove_all rs (ks(p := k))
      | Fault e \<Rightarrow> Fault e)"

definition destroy_queue :: "('p, 'a) queue_state \<Rightarrow> ('p \<Rightarrow> 'a subscriber container) cb_res" where
  "destroy_queue q = remove_all (m_reg q) (containers q)"

text \<open>What a value sent by a parameter adds to the queue.\<close>

definition enqueued :: "('p, 'a) queue_state \<Rightarrow> 'p \<Rightarrow> 'v \<Rightarrow> ('p \<times> 'v) list" where
  "enqueued q p v =
     List.map_filter (\<lambda>c. case c of Enqueue \<Rightarrow> Some (p, v) | Other _ \<Rightarrow> None) (send (containers q p))"

section \<open>The interface of a callback store\<close>

text \<open>
  What the queue relies on: a callback that is added gets a new iterator, and removing through an
  iterator that is there succeeds and leaves the other callbacks.
\<close>

locale callback_store =
  fixes add :: "'k \<Rightarrow> 'c \<Rightarrow> ('k \<times> nat) option" and remove :: "'k \<Rightarrow> nat \<Rightarrow> 'k option"
    and entries :: "'k \<Rightarrow> (nat \<times> 'c) set" and ok :: "'k \<Rightarrow> bool"
  assumes add_ok: "ok k \<Longrightarrow> \<exists>k' i. add k c = Some (k', i) \<and> ok k' \<and>
      i \<notin> fst ` entries k \<and> entries k' = insert (i, c) (entries k)"
    and remove_ok: "ok k \<Longrightarrow> (i, c) \<in> entries k \<Longrightarrow>
      \<exists>k'. remove k i = Some k' \<and> ok k' \<and> entries k' = entries k - {(i, c)}"
begin

lemma add_remove:
  "ok k \<Longrightarrow> \<exists>k' i k''. add k c = Some (k', i) \<and> remove k' i = Some k'' \<and> ok k'' \<and> entries k'' = entries k"
proof -
  assume "ok k"
  then obtain k' i where a: "add k c = Some (k', i)" "ok k'" "i \<notin> fst ` entries k"
      "entries k' = insert (i, c) (entries k)"
    using add_ok by blast
  then obtain k'' where "remove k' i = Some k''" "ok k''" "entries k'' = entries k' - {(i, c)}"
    using remove_ok [of k' i c] by auto
  moreover have "(i, c) \<notin> entries k" using a(3) by force
  ultimately show ?thesis using a by auto
qed

lemma add_only:
  assumes "ok k" "{e \<in> entries k. snd e = c} = {}"
  shows "\<exists>k' i. add k c = Some (k', i) \<and> ok k' \<and> {e \<in> entries k'. snd e = c} = {(i, c)} \<and>
    {e \<in> entries k'. snd e \<noteq> c} = {e \<in> entries k. snd e \<noteq> c}"
proof -
  obtain k' i where a: "add k c = Some (k', i)" "ok k'" "entries k' = insert (i, c) (entries k)"
    using add_ok [OF assms(1)] by blast
  have "{e \<in> entries k'. snd e = c} = insert (i, c) {e \<in> entries k. snd e = c}"
    and "{e \<in> entries k'. snd e \<noteq> c} = {e \<in> entries k. snd e \<noteq> c}"
    using a(3) by auto
  then show ?thesis using a assms(2) by auto
qed

lemma remove_only:
  assumes "ok k" "{e \<in> entries k. snd e = c} = {(i, c)}"
  shows "\<exists>k'. remove k i = Some k' \<and> ok k' \<and> {e \<in> entries k'. snd e = c} = {} \<and>
    {e \<in> entries k'. snd e \<noteq> c} = {e \<in> entries k. snd e \<noteq> c}"
proof -
  have "(i, c) \<in> entries k" using assms(2) by blast
  then obtain k' where "remove k i = Some k'" "ok k'" "entries k' = entries k - {(i, c)}"
    using remove_ok [OF assms(1)] by blast
  moreover have "{e \<in> entries k - {(i, c)}. snd e = c} = {}" using assms(2) by blast
  moreover have "{e \<in> entries k - {(i, c)}. snd e \<noteq> c} = {e \<in> entries k. snd e \<noteq> c}" by auto
  ultimately show ?thesis by auto
qed

end

definition add_live :: "'c container \<Rightarrow> 'c \<Rightarrow> ('c container \<times> nat) option" where
  "add_live k c = (case add_callback k (Some c) of Done (k', _, i) \<Rightarrow> Some (k', i) | Fault _ \<Rightarrow> None)"

definition remove_live :: "'c container \<Rightarrow> nat \<Rightarrow> 'c container option" where
  "remove_live k i = (case remove_callback k i of Done (k', _) \<Rightarrow> Some k' | Fault _ \<Rightarrow> None)"

definition live_entries :: "'c container \<Rightarrow> (nat \<times> 'c) set" where
  "live_entries k = {(i, c). (i, Some c) \<in> set (callbacks k)}"

lemma add_live_store:
  "wf_container k \<Longrightarrow> \<exists>k' i. add_live k c = Some (k', i) \<and> wf_container k' \<and>
     i \<notin> fst ` live_entries k \<and> live_entries k' = insert (i, c) (live_entries k)"
  by (force simp: add_live_def add_callback_def live_entries_def wf_container_def callback_ids_def Let_def)

lemma remove_live_store:
  assumes "wf_container k" "(i, c) \<in> live_entries k"
  shows "\<exists>k'. remove_live k i = Some k' \<and> wf_container k' \<and> live_entries k' = live_entries k - {(i, c)}"
proof -
  have i: "i \<in> set (callback_ids k)" "(i, Some c) \<in> set (callbacks k)"
    using assms(2) by (force simp: live_entries_def callback_ids_def)+
  then obtain k' hs where k': "remove_callback k i = Done (k', hs)"
    by (simp add: remove_callback_def)
  have "d = Some c" if "(i, d) \<in> set (callbacks k)" for d
    using that i(2) assms(1) eq_key_imp_eq_value by (fastforce simp: wf_container_def callback_ids_def)
  then have "live_entries k' = live_entries k - {(i, c)}"
    using remove_callback_Done [OF k'] by (force simp: live_entries_def)
  then show ?thesis using remove_callback_wf [OF assms(1) k'] k' by (simp add: remove_live_def)
qed

interpretation store: callback_store add_live remove_live live_entries wf_container
  by unfold_locales (auto intro: add_live_store remove_live_store)

section \<open>The invariant of the registrations\<close>

definition queue_entries :: "('p, 'a) queue_state \<Rightarrow> 'p \<Rightarrow> (nat \<times> 'a subscriber) set" where
  "queue_entries q p = {e \<in> live_entries (containers q p). snd e = Enqueue}"

definition other_entries :: "('p, 'a) queue_state \<Rightarrow> 'p \<Rightarrow> (nat \<times> 'a subscriber) set" where
  "other_entries q p = {e \<in> live_entries (containers q p). snd e \<noteq> Enqueue}"

definition reg_inv :: "('p, 'a) queue_state \<Rightarrow> 'p \<Rightarrow> bool" where
  "reg_inv q p \<longleftrightarrow> wf_container (containers q p) \<and>
     (case registered q p of
        None \<Rightarrow> queue_entries q p = {}
      | Some (n, it) \<Rightarrow> 0 \<le> n \<and> queue_entries q p = {(it, Enqueue)})"

definition queue_inv :: "('p, 'a) queue_state \<Rightarrow> bool" where
  "queue_inv q \<longleftrightarrow> distinct (map fst (m_reg q)) \<and> (\<forall>p. reg_inv q p)"

lemma registered_simps [simp]:
  "registered (q\<lparr>m_reg := AList.update p x rs\<rparr>) r = (if r = p then Some x else map_of rs r)"
  "registered (q\<lparr>m_reg := AList.delete p rs\<rparr>) r = (if r = p then None else map_of rs r)"
  "registered (q\<lparr>containers := ks\<rparr>) r = registered q r"
  "registered (q\<lparr>m_reg := AList.update p x rs, containers := ks\<rparr>) r = (if r = p then Some x else map_of rs r)"
  "registered (q\<lparr>m_reg := AList.delete p rs, containers := ks\<rparr>) r = (if r = p then None else map_of rs r)"
  by (simp_all add: registered_def update_conv' delete_conv')

lemma reg_inv_cong:
  "registered q' p = registered q p \<Longrightarrow> containers q' p = containers q p \<Longrightarrow> reg_inv q' p = reg_inv q p"
  by (cases "registered q p") (auto simp: reg_inv_def queue_entries_def)

lemma queue_inv_None:
  "queue_inv q \<Longrightarrow> registered q p = None \<Longrightarrow>
   wf_container (containers q p) \<and> {e \<in> live_entries (containers q p). snd e = Enqueue} = {}"
  unfolding queue_inv_def reg_inv_def queue_entries_def by (drule conjunct2, drule spec [of _ p]) simp

lemma queue_inv_Some:
  "queue_inv q \<Longrightarrow> registered q p = Some (n, it) \<Longrightarrow>
   wf_container (containers q p) \<and> 0 \<le> n \<and>
   {e \<in> live_entries (containers q p). snd e = Enqueue} = {(it, Enqueue)}"
  unfolding queue_inv_def reg_inv_def queue_entries_def by (drule conjunct2, drule spec [of _ p]) simp

lemma queue_inv_at:
  assumes "queue_inv q" "distinct (map fst (m_reg q'))" "reg_inv q' p"
    "\<And>r. r \<noteq> p \<Longrightarrow> registered q' r = registered q r \<and> containers q' r = containers q r"
  shows "queue_inv q'"
  using assms reg_inv_cong by (metis queue_inv_def)

text \<open>A registration succeeds and leaves the other parameters and their other callbacks as they are.\<close>

lemma reg_spec:
  assumes "queue_inv q"
  shows "\<exists>q'. reg q p = Done q' \<and> queue_inv q' \<and> registered q' p \<noteq> None \<and>
    other_entries q' p = other_entries q p \<and> (\<forall>r. r \<noteq> p \<longrightarrow> registered q' r = registered q r)"
proof (cases "registered q p")
  case None
  then have inv: "wf_container (containers q p)" "{e \<in> live_entries (containers q p). snd e = Enqueue} = {}"
    using queue_inv_None [OF assms] by auto
  obtain k it where add: "add_live (containers q p) Enqueue = Some (k, it)" "wf_container k"
      "{e \<in> live_entries k. snd e = Enqueue} = {(it, Enqueue)}"
      "{e \<in> live_entries k. snd e \<noteq> Enqueue} = {e \<in> live_entries (containers q p). snd e \<noteq> Enqueue}"
    using store.add_only [OF inv] by blast
  then obtain hs where run: "add_callback (containers q p) (Some Enqueue) = Done (k, hs, it)"
    by (auto simp: add_live_def split: cb_res.splits)
  let ?q = "q\<lparr>m_reg := AList.update p (0, it) (m_reg q), containers := (containers q)(p := k)\<rparr>"
  have "reg q p = Done ?q" using None run by (simp add: reg_def)
  moreover have "queue_inv ?q"
    by (rule queue_inv_at [OF assms, where p = p])
      (use assms add in \<open>auto simp: queue_inv_def reg_inv_def queue_entries_def distinct_update registered_def update_conv'\<close>)
  ultimately show ?thesis using add by (auto simp: other_entries_def registered_def update_conv' delete_conv')
next
  case (Some e)
  then obtain n it where e: "registered q p = Some (n, it)" by (cases e) auto
  let ?q = "q\<lparr>m_reg := AList.update p (n + 1, it) (m_reg q)\<rparr>"
  have "reg_inv q p" using assms by (simp add: queue_inv_def)
  then have "reg_inv ?q p" using e by (auto simp: reg_inv_def queue_entries_def)
  then have "queue_inv ?q"
    using assms by (intro queue_inv_at [OF assms, where p = p]) (auto simp: queue_inv_def distinct_update registered_def update_conv')
  then show ?thesis using e by (auto simp: reg_def other_entries_def registered_def update_conv')
qed

lemma unreg_spec:
  assumes "queue_inv q"
  shows "\<exists>q'. unreg q p = Done q' \<and> queue_inv q' \<and> other_entries q' p = other_entries q p \<and>
    (\<forall>n it. registered q p = Some (n, it) \<longrightarrow>
       registered q' p = (if n \<le> 1 then None else Some (n - 1, it))) \<and>
    (\<forall>r. r \<noteq> p \<longrightarrow> registered q' r = registered q r)"
proof (cases "registered q p")
  case None
  then show ?thesis using assms by (simp add: unreg_def)
next
  case (Some e)
  then obtain n it where e: "registered q p = Some (n, it)" by (cases e) auto
  have inv: "wf_container (containers q p)" "{e \<in> live_entries (containers q p). snd e = Enqueue} = {(it, Enqueue)}"
    and n: "0 \<le> n"
    using queue_inv_Some [OF assms e] by auto
  show ?thesis
  proof (cases "n - 1 \<le> 0")
    case True
    obtain k where rem: "remove_live (containers q p) it = Some k" "wf_container k"
        "{e \<in> live_entries k. snd e = Enqueue} = {}"
        "{e \<in> live_entries k. snd e \<noteq> Enqueue} = {e \<in> live_entries (containers q p). snd e \<noteq> Enqueue}"
      using store.remove_only [OF inv] by blast
    then obtain hs where run: "remove_callback (containers q p) it = Done (k, hs)"
      by (auto simp: remove_live_def split: cb_res.splits)
    let ?q = "q\<lparr>m_reg := AList.delete p (m_reg q), containers := (containers q)(p := k)\<rparr>"
    have "unreg q p = Done ?q" using e run True by (simp add: unreg_def)
    moreover have "queue_inv ?q"
      by (rule queue_inv_at [OF assms, where p = p])
        (use assms rem in \<open>auto simp: queue_inv_def reg_inv_def queue_entries_def distinct_delete registered_def delete_conv'\<close>)
    ultimately show ?thesis using rem e True by (auto simp: other_entries_def registered_def update_conv' delete_conv')
  next
    case False
    let ?q = "q\<lparr>m_reg := AList.update p (n - 1, it) (m_reg q)\<rparr>"
    have "reg_inv q p" using assms by (simp add: queue_inv_def)
    then have "reg_inv ?q p" using e False by (auto simp: reg_inv_def queue_entries_def)
    then have "queue_inv ?q"
      using assms by (intro queue_inv_at [OF assms, where p = p]) (auto simp: queue_inv_def distinct_update registered_def update_conv')
    then show ?thesis using e False by (auto simp: unreg_def other_entries_def registered_def update_conv')
  qed
qed

section \<open>Delivery and destruction\<close>

lemma send_entries: "c \<in> set (send k) \<longleftrightarrow> c \<in> snd ` live_entries k"
  by (force simp: send_def live_entries_def List.map_filter_def)

lemma count_send:
  "wf_container k \<Longrightarrow> count_list (send k) c = card {e \<in> live_entries k. snd e = c}"
proof -
  assume wf: "wf_container k"
  have "count_list (List.map_filter snd xs) c = card {e. e \<in> {(i, d). (i, Some d) \<in> set xs} \<and> snd e = c}"
    if "distinct (map fst xs)" for xs :: "(nat \<times> 'a option) list"
    using that
  proof (induction xs)
    case (Cons x xs)
    obtain i d where x: "x = (i, d)" by (cases x)
    let ?S = "\<lambda>xs. {e. e \<in> {(i, d). (i, Some d) \<in> set xs} \<and> snd e = c}"
    have fin: "finite (?S xs)"
      by (rule finite_subset [of _ "(\<lambda>e. (fst e, the (snd e))) ` set xs"]) force+
    show ?case
    proof (cases "d = Some c")
      case True
      have "?S (x # xs) = insert (i, c) (?S xs)" using x True by auto
      moreover have "(i, c) \<notin> ?S xs" using Cons.prems x by force
      ultimately show ?thesis using Cons x True fin by (simp add: List.map_filter_simps)
    next
      case False
      have "?S (x # xs) = ?S xs" using x False by auto
      then show ?thesis using Cons x False by (auto simp: List.map_filter_simps split: option.splits)
    qed
  qed (simp add: List.map_filter_simps)
  then show ?thesis
    using wf by (simp add: send_def live_entries_def wf_container_def callback_ids_def)
qed

lemma enqueued_eq:
  fixes q :: "('p, 'a) queue_state"
  shows "enqueued q p v = replicate (count_list (send (containers q p)) Enqueue) (p, v)"
proof -
  have "List.map_filter (\<lambda>c. case c of Enqueue \<Rightarrow> Some (p, v) | Other _ \<Rightarrow> None) cs =
      replicate (count_list cs Enqueue) (p, v)" for cs :: "'a subscriber list"
    by (induction cs) (auto simp: List.map_filter_simps split: subscriber.splits)
  then show ?thesis by (simp add: enqueued_def)
qed

lemma queue_inv_entries:
  assumes "queue_inv q"
  shows "wf_container (containers q p) \<and> {e \<in> live_entries (containers q p). snd e = Enqueue} =
    (case registered q p of None \<Rightarrow> {} | Some (n, it) \<Rightarrow> {(it, Enqueue)})"
proof (cases "registered q p")
  case None
  show ?thesis unfolding None using queue_inv_None [OF assms None] by simp
next
  case (Some e)
  obtain n it where e: "registered q p = Some (n, it)" using Some by (cases e) auto
  show ?thesis unfolding e using queue_inv_Some [OF assms e] by simp
qed

lemma enqueued_spec:
  "queue_inv q \<Longrightarrow> enqueued q p v = (if registered q p = None then [] else [(p, v)])"
proof -
  assume "queue_inv q"
  note inv = queue_inv_entries [OF this, of p]
  have "count_list (send (containers q p)) Enqueue =
      card (case registered q p of None \<Rightarrow> {} | Some (n, it) \<Rightarrow> {(it, Enqueue :: 'b subscriber)})"
    using inv count_send by metis
  then show ?thesis by (auto simp: enqueued_eq split: option.splits)
qed

lemma remove_all_spec:
  assumes "distinct (map fst rs)" "\<forall>p. wf_container (ks p) \<and>
      {e \<in> live_entries (ks p). snd e = Enqueue} =
        (case map_of rs p of None \<Rightarrow> {} | Some (n, it) \<Rightarrow> {(it, Enqueue)})"
  shows "\<exists>ks'. remove_all rs ks = Done ks' \<and> (\<forall>p. {e \<in> live_entries (ks' p). snd e = Enqueue} = {} \<and>
      {e \<in> live_entries (ks' p). snd e \<noteq> Enqueue} = {e \<in> live_entries (ks p). snd e \<noteq> Enqueue})"
  using assms
proof (induction rs ks rule: remove_all.induct)
  case (2 p n it rs ks)
  have inv: "wf_container (ks p)" "{e \<in> live_entries (ks p). snd e = Enqueue} = {(it, Enqueue)}"
    using 2(3) by (auto dest: spec [of _ p])
  obtain k where rem: "remove_live (ks p) it = Some k" "wf_container k"
      "{e \<in> live_entries k. snd e = Enqueue} = {}"
      "{e \<in> live_entries k. snd e \<noteq> Enqueue} = {e \<in> live_entries (ks p). snd e \<noteq> Enqueue}"
    using store.remove_only [OF inv] by blast
  then obtain hs where run: "remove_callback (ks p) it = Done (k, hs)"
    by (auto simp: remove_live_def split: cb_res.splits)
  have p: "map_of rs p = None" using 2(2) by (simp add: map_of_eq_None_iff)
  have "\<exists>ks'. remove_all rs (ks(p := k)) = Done ks' \<and>
      (\<forall>r. {e \<in> live_entries (ks' r). snd e = Enqueue} = {} \<and>
        {e \<in> live_entries (ks' r). snd e \<noteq> Enqueue} = {e \<in> live_entries ((ks(p := k)) r). snd e \<noteq> Enqueue})"
  proof (rule 2(1) [OF run])
    show "\<forall>r. wf_container ((ks(p := k)) r) \<and> {e \<in> live_entries ((ks(p := k)) r). snd e = Enqueue} =
        (case map_of rs r of None \<Rightarrow> {} | Some (n, it) \<Rightarrow> {(it, Enqueue)})"
    proof
      fix r
      show "wf_container ((ks(p := k)) r) \<and> {e \<in> live_entries ((ks(p := k)) r). snd e = Enqueue} =
          (case map_of rs r of None \<Rightarrow> {} | Some (n, it) \<Rightarrow> {(it, Enqueue)})"
        using 2(3) rem p by (cases "r = p") (auto dest: spec [of _ r])
    qed
  qed (use 2(2) in auto)
  then obtain ks' where ks': "remove_all rs (ks(p := k)) = Done ks'"
      "\<And>r. {e \<in> live_entries (ks' r). snd e = Enqueue} = {} \<and>
        {e \<in> live_entries (ks' r). snd e \<noteq> Enqueue} = {e \<in> live_entries ((ks(p := k)) r). snd e \<noteq> Enqueue}"
    by blast
  have "{e \<in> live_entries (ks' r). snd e \<noteq> Enqueue} = {e \<in> live_entries (ks r). snd e \<noteq> Enqueue}" for r
    using ks'(2) [of r] rem(4) by (cases "r = p") simp_all
  then show ?case using ks' run by auto
qed simp

lemma destroy_queue_spec:
  assumes "queue_inv q"
  shows "\<exists>ks. destroy_queue q = Done ks \<and> (\<forall>p. {e \<in> live_entries (ks p). snd e = Enqueue} = {} \<and>
      {e \<in> live_entries (ks p). snd e \<noteq> Enqueue} = other_entries q p)"
proof -
  have "\<forall>p. wf_container (containers q p) \<and> {e \<in> live_entries (containers q p). snd e = Enqueue} =
      (case map_of (m_reg q) p of None \<Rightarrow> {} | Some (n, it) \<Rightarrow> {(it, Enqueue)})"
    using queue_inv_entries [OF assms] by (simp add: registered_def)
  from remove_all_spec [OF _ this] show ?thesis
    using assms by (simp add: destroy_queue_def queue_inv_def other_entries_def)
qed

section \<open>Reachable states\<close>

text \<open>
  The operations of the queue interleaved with the other users of the parameters, who add their
  own callbacks and remove them.
\<close>

inductive mq_step :: "('p, 'a) queue_state \<Rightarrow> ('p, 'a) queue_state \<Rightarrow> bool" where
  mq_reg: "reg q p = Done q' \<Longrightarrow> mq_step q q'"
| mq_unreg: "unreg q p = Done q' \<Longrightarrow> mq_step q q'"
| mq_removed: "mq_step q (on_param_removed q p)"
| mq_other_add: "add_callback (containers q p) (Some (Other a)) = Done (k, hs, i) \<Longrightarrow>
    mq_step q (q\<lparr>containers := (containers q)(p := k)\<rparr>)"
| mq_other_remove: "(i, Other a) \<in> live_entries (containers q p) \<Longrightarrow>
    remove_callback (containers q p) i = Done (k, hs) \<Longrightarrow>
    mq_step q (q\<lparr>containers := (containers q)(p := k)\<rparr>)"

inductive_cases mq_stepE: "mq_step q q'"

inductive reachable :: "('p, 'a) queue_state \<Rightarrow> bool" where
  reachable_init: "reachable \<lparr>m_reg = [], containers = \<lambda>_. empty_container\<rparr>"
| reachable_step: "reachable q \<Longrightarrow> mq_step q q' \<Longrightarrow> reachable q'"

lemma on_param_removed_inv: "queue_inv q \<Longrightarrow> queue_inv (on_param_removed q p)"
  by (rule queue_inv_at [where p = p])
    (auto simp: on_param_removed_def queue_inv_def distinct_delete reg_inv_def queue_entries_def
      callbacks_clear_def live_entries_def wf_container_def callback_ids_def registered_def delete_conv')

lemma containers_inv:
  assumes "queue_inv q" "wf_container k"
    "{e \<in> live_entries k. snd e = Enqueue} = {e \<in> live_entries (containers q p). snd e = Enqueue}"
  shows "queue_inv (q\<lparr>containers := (containers q)(p := k)\<rparr>)"
proof (rule queue_inv_at [OF assms(1), where p = p])
  have "reg_inv q p" using assms(1) by (simp add: queue_inv_def)
  then show "reg_inv (q\<lparr>containers := (containers q)(p := k)\<rparr>) p"
    using assms(2,3) unfolding reg_inv_def queue_entries_def registered_simps
    by (cases "registered q p") auto
qed (use assms(1) in \<open>auto simp: queue_inv_def\<close>)

lemma mq_step_inv: "mq_step q q' \<Longrightarrow> queue_inv q \<Longrightarrow> queue_inv q'"
proof (induction rule: mq_step.induct)
  case (mq_reg q p q')
  obtain r where "reg q p = Done r" "queue_inv r" using reg_spec [OF mq_reg(2)] by blast
  then show ?case using mq_reg(1) by simp
next
  case (mq_unreg q p q')
  obtain r where "unreg q p = Done r" "queue_inv r" using unreg_spec [OF mq_unreg(2)] by blast
  then show ?case using mq_unreg(1) by simp
next
  case (mq_removed q p)
  then show ?case by (rule on_param_removed_inv)
next
  case (mq_other_add q p a k hs i)
  have "wf_container (containers q p)" using queue_inv_entries [OF mq_other_add(2)] by simp
  then have "wf_container k" by (rule add_callback_wf [OF _ mq_other_add(1)])
  moreover have "live_entries k = insert (i, Other a) (live_entries (containers q p))"
    using add_callback_Done [OF mq_other_add(1)] by (auto simp: live_entries_def)
  then have "{e \<in> live_entries k. snd e = Enqueue} = {e \<in> live_entries (containers q p). snd e = Enqueue}"
    by auto
  ultimately show ?case by (intro containers_inv [OF mq_other_add(2)])
next
  case (mq_other_remove i a q p k hs)
  have wf: "wf_container (containers q p)" using queue_inv_entries [OF mq_other_remove(3)] by simp
  have live: "remove_live (containers q p) i = Some k" using mq_other_remove(2) by (simp add: remove_live_def)
  obtain k' where k': "remove_live (containers q p) i = Some k'" "wf_container k'"
      "live_entries k' = live_entries (containers q p) - {(i, Other a)}"
    using remove_live_store [OF wf mq_other_remove(1)] by blast
  have "k' = k" using live k'(1) by (metis option.inject)
  then have k: "wf_container k" "live_entries k = live_entries (containers q p) - {(i, Other a)}"
    using k'(2,3) by (blast, blast)
  have "{e \<in> live_entries k. snd e = Enqueue} = {e \<in> live_entries (containers q p). snd e = Enqueue}"
    unfolding k(2) by auto
  with k(1) show ?case by (intro containers_inv [OF mq_other_remove(3)])
qed

lemma init_inv: "queue_inv \<lparr>m_reg = [], containers = \<lambda>_. empty_container\<rparr>"
  by (simp add: queue_inv_def reg_inv_def registered_def queue_entries_def live_entries_def wf_empty)
    (simp add: empty_container_def)

lemma reachable_inv: "reachable q \<Longrightarrow> queue_inv q"
  by (induction rule: reachable.induct) (blast intro: init_inv mq_step_inv)+

text \<open>Two registrations are undone by one: the count starts at 0, and 1 is taken for the last.\<close>

lemma reg_reg_unreg:
  assumes "queue_inv q" "registered q p = None" "reg q p = Done q1" "reg q1 p = Done q2" "unreg q2 p = Done q3"
  shows "registered q3 p = None"
proof -
  obtain it where "registered q1 p = Some (0, it)" using assms(2,3)
    by (auto simp: reg_def registered_def update_conv' split: cb_res.splits)
  then have "registered q2 p = Some (1, it)" using assms(4)
    by (auto simp: reg_def registered_def update_conv')
  moreover have "queue_inv q2" using assms(1,3,4) by (metis mq_reg mq_step_inv)
  ultimately show ?thesis using unreg_spec [of q2 p] assms(5) by auto
qed

end
