(* ===== verification/Parameter.thy ===== *)
theory Parameter
  imports Units Domain_Convert Domain_Apply
begin

text \<open>
  The parameter of a node: \<open>network/generic/generic_parameter.cpp\<close>, with the attributes it inherits from
  \<open>network/base/parameter.cpp\<close>, the filter that the protocols apply to the values they send
  (\<open>network/osc/detail/osc.hpp\<close>), and the types by which a parameter is set up
  (\<open>network/common/complex_type.cpp\<close>, \<open>extended_types.cpp\<close>). An operation returns the parameter and
  what it does outside: the value given to the callbacks, the value pushed to the protocol, the
  attribute that the device signals as modified. An operation that throws keeps what it had done.
  The mutex is not modelled: an operation is atomic.
\<close>

section \<open>Equality of domains\<close>

definition opt_eq :: "('a \<Rightarrow> 'a \<Rightarrow> bool) \<Rightarrow> 'a option \<Rightarrow> 'a option \<Rightarrow> bool" where
  "opt_eq eq a b =
     (case a of
        Some x \<Rightarrow> (case b of Some y \<Rightarrow> eq x y | None \<Rightarrow> False)
      | None \<Rightarrow> b = None)"

definition num_eq :: "('a \<Rightarrow> 'a \<Rightarrow> bool) \<Rightarrow> 'a num_dom \<Rightarrow> 'a num_dom \<Rightarrow> bool" where
  "num_eq eq a b \<longleftrightarrow>
     opt_eq eq (num_min a) (num_min b) \<and> opt_eq eq (num_max a) (num_max b) \<and>
     list_all2 eq (num_values a) (num_values b)"

definition vector_eq :: "vector_dom \<Rightarrow> vector_dom \<Rightarrow> bool" where
  "vector_eq a b \<longleftrightarrow>
     list_all2 value_eq (vd_min a) (vd_min b) \<and> list_all2 value_eq (vd_max a) (vd_max b) \<and>
     list_all2 (list_all2 value_eq) (vd_values a) (vd_values b)"

definition vecf_eq :: "vecf_dom \<Rightarrow> vecf_dom \<Rightarrow> bool" where
  "vecf_eq a b \<longleftrightarrow>
     list_all2 (opt_eq fl_eq) (vf_min a) (vf_min b) \<and> list_all2 (opt_eq fl_eq) (vf_max a) (vf_max b) \<and>
     list_all2 (list_all2 fl_eq) (vf_values a) (vf_values b)"

fun domain_eq :: "domain \<Rightarrow> domain \<Rightarrow> bool" where
  "domain_eq (DInt a) d = (case d of DInt b \<Rightarrow> num_eq (=) a b | _ \<Rightarrow> False)"
| "domain_eq (DFloat a) d = (case d of DFloat b \<Rightarrow> num_eq fl_eq a b | _ \<Rightarrow> False)"
| "domain_eq (DChar a) d = (case d of DChar b \<Rightarrow> num_eq (=) a b | _ \<Rightarrow> False)"
| "domain_eq (DString a) d = (case d of DString b \<Rightarrow> a = b | _ \<Rightarrow> False)"
| "domain_eq (DVector a) d = (case d of DVector b \<Rightarrow> vector_eq a b | _ \<Rightarrow> False)"
| "domain_eq (DVec2f a) d = (case d of DVec2f b \<Rightarrow> vecf_eq a b | _ \<Rightarrow> False)"
| "domain_eq (DVec3f a) d = (case d of DVec3f b \<Rightarrow> vecf_eq a b | _ \<Rightarrow> False)"
| "domain_eq (DVec4f a) d = (case d of DVec4f b \<Rightarrow> vecf_eq a b | _ \<Rightarrow> False)"
| "domain_eq (DGeneric a) d = (case d of DGeneric b \<Rightarrow> num_eq value_eq a b | _ \<Rightarrow> False)"
| "domain_eq a d = (a = d)"

definition domain_ne :: "domain \<Rightarrow> domain \<Rightarrow> bool" where
  "domain_ne a b \<longleftrightarrow> \<not> domain_eq a b"

section \<open>State\<close>

datatype access_mode = BI | GET | SET

record parameter =
  p_value_type :: val_type
  p_access :: access_mode
  p_bounding :: bounding_mode
  p_value :: val
  p_domain :: domain
  p_previous :: val
  p_unit :: unit_t
  p_critical :: bool
  p_disabled :: bool
  p_muted :: bool
  p_rep_filter :: bool

datatype attribute =
    Value_type_attr | Access_mode_attr | Domain_attr | Bounding_mode_attr | Unit_attr
  | Repetition_filter_attr | Disabled_attr | Muted_attr | Critical_attr

datatype effect =
    Sent val
  | Pushed val
  | Modified attribute
  | Parameter_created
  | Extended_type string

datatype 'a outcome = Returned 'a | Thrown fault 'a

fun state_of :: "'a outcome \<Rightarrow> 'a" where
  "state_of (Returned x) = x"
| "state_of (Thrown _ x) = x"

text \<open>A step of a state with what it reports after another one that has returned, and one for each of a list.\<close>

fun then_do :: "('s \<times> 'e list) outcome \<Rightarrow> ('s \<Rightarrow> ('s \<times> 'e list) outcome) \<Rightarrow> ('s \<times> 'e list) outcome" where
  "then_do (Thrown e s) f = Thrown e s"
| "then_do (Returned (n, evs)) f =
     (case f n of Returned (m, evs') \<Rightarrow> Returned (m, evs @ evs') | Thrown e (m, evs') \<Rightarrow> Thrown e (m, evs @ evs'))"

fun do_all :: "('a \<Rightarrow> 's \<Rightarrow> ('s \<times> 'e list) outcome) \<Rightarrow> 'a list \<Rightarrow> 's \<Rightarrow> ('s \<times> 'e list) outcome" where
  "do_all f [] n = Returned (n, [])"
| "do_all f (x # xs) n = then_do (f x n) (do_all f xs)"

lemma then_do_cong [fundef_cong]:
  "r = r' \<Longrightarrow> (\<And>n evs. r' = Returned (n, evs) \<Longrightarrow> f n = g n) \<Longrightarrow> then_do r f = then_do r' g"
  by (cases r'; cases r) (auto split: outcome.splits)

lemma do_all_cong [fundef_cong]:
  "xs = ys \<Longrightarrow> n = m \<Longrightarrow> (\<And>x k. x \<in> set ys \<Longrightarrow> f x k = g x k) \<Longrightarrow> do_all f xs n = do_all g ys m"
  by (induction ys arbitrary: xs n m) (auto intro!: then_do_cong)

lemma then_do_assoc: "then_do (then_do r g) h = then_do r (\<lambda>n. then_do (g n) h)"
  by (cases r) (auto split: outcome.splits)

lemma do_all_append: "do_all f (xs @ ys) n = then_do (do_all f xs n) (do_all f ys)"
proof (induction xs arbitrary: n)
  case Nil
  show ?case by (cases "do_all f ys n") auto
next
  case (Cons x xs)
  then have "do_all f (xs @ ys) = (\<lambda>n. then_do (do_all f xs n) (do_all f ys))" by (intro ext) simp
  then show ?case by (simp add: then_do_assoc)
qed

definition generic_parameter :: parameter where
  "generic_parameter =
     \<lparr>p_value_type = T_IMPULSE, p_access = BI, p_bounding = FREE, p_value = VImpulse, p_domain = DNone,
      p_previous = VUnset, p_unit = None, p_critical = False, p_disabled = False, p_muted = False,
      p_rep_filter = False\<rparr>"

section \<open>The value\<close>

definition set_value_quiet :: "text_io \<Rightarrow> parameter \<Rightarrow> val \<Rightarrow> parameter outcome" where
  "set_value_quiet io p v =
     (if \<not> valid v then Returned p
      else if get_type (p_value p) = get_type v then Returned (p\<lparr>p_previous := p_value p, p_value := v\<rparr>)
      else case convert_like io v (p_value p) of
        Ok w \<Rightarrow> Returned (p\<lparr>p_previous := p_value p, p_value := w\<rparr>)
      | Err e \<Rightarrow> Thrown e p)"

definition set_value :: "text_io \<Rightarrow> parameter \<Rightarrow> val \<Rightarrow> (parameter \<times> effect list) outcome" where
  "set_value io p v =
     (if \<not> valid v then Returned (p, [])
      else if get_type (p_value p) = get_type v then
        Returned (p\<lparr>p_previous := p_value p, p_value := v\<rparr>, [Sent v])
      else case convert_like io v (p_value p) of
        Ok w \<Rightarrow> Returned (p\<lparr>p_previous := p_value p, p_value := w\<rparr>, [Sent w])
      | Err e \<Rightarrow> Thrown e (p, []))"

definition push_value :: "text_io \<Rightarrow> parameter \<Rightarrow> val \<Rightarrow> (parameter \<times> effect list) outcome" where
  "push_value io p v =
     (case set_value io p v of
        Returned (p', es) \<Rightarrow> Returned (p', es @ [Pushed (p_value p')])
      | Thrown e s \<Rightarrow> Thrown e s)"

definition push_current :: "parameter \<Rightarrow> effect list" where
  "push_current p = [Pushed (p_value p)]"

definition filter_value :: "parameter \<Rightarrow> val \<Rightarrow> bool" where
  "filter_value p v \<longleftrightarrow>
     p_disabled p \<or> p_muted p \<or> (p_rep_filter p \<and> value_eq v (p_previous p))"

section \<open>Type, domain and unit\<close>

definition convert_own_domain :: "text_io \<Rightarrow> parameter \<Rightarrow> parameter outcome" where
  "convert_own_domain io p =
     (case convert_compatible_domain io (p_domain p) (p_value_type p) of
        Ok d \<Rightarrow> Returned (p\<lparr>p_domain := d\<rparr>)
      | Err e \<Rightarrow> Thrown e p)"

fun signal :: "attribute \<Rightarrow> parameter outcome \<Rightarrow> (parameter \<times> effect list) outcome" where
  "signal a (Returned p) = Returned (p, [Modified a])"
| "signal a (Thrown e p) = Thrown e (p, [])"

definition set_value_type :: "text_io \<Rightarrow> parameter \<Rightarrow> val_type \<Rightarrow> (parameter \<times> effect list) outcome" where
  "set_value_type io p t =
     signal Value_type_attr
       (case init_value t of
          Ok v \<Rightarrow>
            (let p' = p\<lparr>p_value_type := t, p_value := v\<rparr>
             in if p_domain p' \<noteq> DNone then convert_own_domain io p' else Returned p')
        | Err e \<Rightarrow> Thrown e (p\<lparr>p_value_type := t\<rparr>))"

definition set_domain :: "text_io \<Rightarrow> parameter \<Rightarrow> domain \<Rightarrow> (parameter \<times> effect list) outcome" where
  "set_domain io p d =
     (if domain_ne (p_domain p) d then signal Domain_attr (convert_own_domain io (p\<lparr>p_domain := d\<rparr>))
      else Returned (p, []))"

definition set_unit :: "text_io \<Rightarrow> parameter \<Rightarrow> unit_t \<Rightarrow> (parameter \<times> effect list) outcome" where
  "set_unit io p u =
     signal Unit_attr
       (let p0 = p\<lparr>p_unit := u\<rparr>; vt = matching_type u
        in if u \<noteq> None \<and> vt \<noteq> T_IMPULSE then
             (case convert_to io vt (p_value p0) of
                Ok v \<Rightarrow>
                  (let p' = p0\<lparr>p_value_type := vt, p_value := v\<rparr>
                   in if p_domain p' \<noteq> DNone then convert_own_domain io p' else Returned p')
              | Err e \<Rightarrow> Thrown e (p0\<lparr>p_value_type := vt\<rparr>))
           else Returned p0)"

section \<open>The other attributes\<close>

definition set_access :: "parameter \<Rightarrow> access_mode \<Rightarrow> parameter \<times> effect list" where
  "set_access p m = (if p_access p \<noteq> m then (p\<lparr>p_access := m\<rparr>, [Modified Access_mode_attr]) else (p, []))"

definition set_bounding :: "parameter \<Rightarrow> bounding_mode \<Rightarrow> parameter \<times> effect list" where
  "set_bounding p m =
     (if p_bounding p \<noteq> m \<and> p_value_type p \<noteq> T_BOOL then (p\<lparr>p_bounding := m\<rparr>, [Modified Bounding_mode_attr])
      else (p, []))"

definition set_repetition_filter :: "parameter \<Rightarrow> bool \<Rightarrow> parameter \<times> effect list" where
  "set_repetition_filter p b =
     (if p_rep_filter p \<noteq> b then (p\<lparr>p_rep_filter := b\<rparr>, [Modified Repetition_filter_attr]) else (p, []))"

definition set_disabled :: "parameter \<Rightarrow> bool \<Rightarrow> parameter \<times> effect list" where
  "set_disabled p b = (if p_disabled p \<noteq> b then (p\<lparr>p_disabled := b\<rparr>, [Modified Disabled_attr]) else (p, []))"

definition set_muted :: "parameter \<Rightarrow> bool \<Rightarrow> parameter \<times> effect list" where
  "set_muted p b = (if p_muted p \<noteq> b then (p\<lparr>p_muted := b\<rparr>, [Modified Muted_attr]) else (p, []))"

definition set_critical :: "parameter \<Rightarrow> bool \<Rightarrow> parameter \<times> effect list" where
  "set_critical p b = (if p_critical p \<noteq> b then (p\<lparr>p_critical := b\<rparr>, [Modified Critical_attr]) else (p, []))"

section \<open>Setting up a parameter by its type\<close>

definition underlying_ext :: "string \<Rightarrow> val_type list" where
  "underlying_ext e =
     (if e = ''buffer'' \<or> e = ''filepath'' \<or> e = ''url'' then [T_STRING]
      else if e = ''vecf'' then [T_LIST, T_VEC2F, T_VEC3F, T_VEC4F]
      else if e = ''list'' \<or> e = ''floatArray'' \<or> e = ''integerArray'' \<or> e = ''stringArray'' then [T_LIST]
      else [])"

datatype complex_type = Of_type val_type | Of_unit unit_t | Of_extended string | No_type

fun underlying_type :: "complex_type \<Rightarrow> val_type" where
  "underlying_type (Of_type v) = v"
| "underlying_type (Of_unit u) = matching_type u"
| "underlying_type (Of_extended e) = (case underlying_ext e of t # _ \<Rightarrow> t | [] \<Rightarrow> T_IMPULSE)"
| "underlying_type No_type = T_IMPULSE"

text \<open>One operation after another that has returned.\<close>

fun and_then ::
  "(parameter \<times> effect list) outcome \<Rightarrow> (parameter \<Rightarrow> (parameter \<times> effect list) outcome) \<Rightarrow>
   (parameter \<times> effect list) outcome" where
  "and_then (Returned (p, es)) f =
     (case f p of Returned (p', es') \<Rightarrow> Returned (p', es @ es') | Thrown e (p', es') \<Rightarrow> Thrown e (p', es @ es'))"
| "and_then (Thrown e s) f = Thrown e s"

text \<open>\<open>create_parameter\<close> of \<open>generic_node\<close>, with the parameter the node has.\<close>

definition create_parameter :: "text_io \<Rightarrow> parameter option \<Rightarrow> val_type \<Rightarrow> (parameter \<times> effect list) outcome" where
  "create_parameter io p t =
     (case p of
        None \<Rightarrow> and_then (set_value_type io generic_parameter t) (\<lambda>p'. Returned (p', [Parameter_created]))
      | Some p0 \<Rightarrow> set_value_type io p0 t)"

text \<open>\<open>setup_parameter\<close>: \<open>None\<close> when it gives no parameter.\<close>

definition setup_parameter ::
  "text_io \<Rightarrow> complex_type \<Rightarrow> parameter option \<Rightarrow> (parameter \<times> effect list) outcome option" where
  "setup_parameter io t p =
     (case t of
        No_type \<Rightarrow> None
      | Of_type v \<Rightarrow> Some (create_parameter io p v)
      | Of_unit u \<Rightarrow> Some (and_then (create_parameter io p (matching_type u)) (\<lambda>p'. set_unit io p' u))
      | Of_extended e \<Rightarrow>
          (case underlying_ext e of
             v # _ \<Rightarrow> Some (and_then (create_parameter io p v) (\<lambda>p'. Returned (p', [Extended_type e])))
           | [] \<Rightarrow> None))"

definition update_parameter_type ::
  "text_io \<Rightarrow> complex_type \<Rightarrow> parameter \<Rightarrow> (parameter \<times> effect list) outcome" where
  "update_parameter_type io t p =
     (case t of
        Of_type v \<Rightarrow> set_value_type io p v
      | Of_unit u \<Rightarrow> set_unit io p u
      | Of_extended e \<Rightarrow>
          and_then (case underlying_ext e of v # _ \<Rightarrow> set_value_type io p v | [] \<Rightarrow> Returned (p, []))
            (\<lambda>p'. Returned (p', [Extended_type e]))
      | No_type \<Rightarrow> Returned (p, []))"

text \<open>The constructor from the data of a parameter.\<close>

definition generic_parameter_of ::
  "text_io \<Rightarrow> complex_type \<Rightarrow> access_mode option \<Rightarrow> bounding_mode option \<Rightarrow> bool option \<Rightarrow>
   (parameter \<times> effect list) outcome" where
  "generic_parameter_of io t access bounding rep_filter =
     update_parameter_type io t
       (generic_parameter\<lparr>p_access := (case access of Some a \<Rightarrow> a | None \<Rightarrow> BI),
          p_bounding := (case bounding of Some b \<Rightarrow> b | None \<Rightarrow> FREE),
          p_rep_filter := (case rep_filter of Some b \<Rightarrow> b | None \<Rightarrow> False)\<rparr>)"

section \<open>The invariant\<close>

text \<open>The value has the type of the parameter, which is a type, and the domain is well formed.\<close>

definition wf_parameter :: "parameter \<Rightarrow> bool" where
  "wf_parameter p \<longleftrightarrow>
     wf_val (p_value p) \<and> get_type (p_value p) = p_value_type p \<and> p_value_type p \<noteq> T_NONE \<and>
     wf_domain (p_domain p)"

lemma wf_generic_parameter: "wf_parameter generic_parameter"
  by (simp add: wf_parameter_def generic_parameter_def)

lemma convert_like_wf:
  "wf_text io \<Longrightarrow> wf_val v \<Longrightarrow> wf_val cur \<Longrightarrow> convert_like io v cur = Ok w \<Longrightarrow> wf_val w"
  by (cases cur) (auto simp: wf_vec_def intro: wf_convert_vec wf_convert_float wf_convert_list)

lemma convert_compatible_wf:
  "wf_domain d \<Longrightarrow> convert_compatible_domain io d t = Ok e \<Longrightarrow> wf_domain e"
  by (auto simp: convert_compatible_domain_def convert_domain_wf split: if_splits val_type.splits)

lemma set_value_wf:
  assumes "wf_text io" "wf_parameter p" "wf_val v" "set_value io p v = Returned (p', es)"
  shows "wf_parameter p'"
  using assms convert_like_wf [OF assms(1,3)] convert_like_type
  by (fastforce simp: set_value_def wf_parameter_def split: if_splits res.splits)

lemma set_value_quiet_same:
  "set_value io p v = Returned (p', es) \<longleftrightarrow>
   set_value_quiet io p v = Returned p' \<and> es = (if valid v then [Sent (p_value p')] else [])"
  by (auto simp: set_value_def set_value_quiet_def split: res.splits)

lemma convert_own_domain_wf:
  "convert_own_domain io p = Returned p' \<Longrightarrow> wf_parameter p \<Longrightarrow> wf_parameter p'"
  by (auto simp: convert_own_domain_def wf_parameter_def intro: convert_compatible_wf split: res.splits)

lemma convert_own_domain_frame:
  "convert_own_domain io p = Returned p' \<Longrightarrow>
   p_value_type p' = p_value_type p \<and> p_value p' = p_value p \<and> p_unit p' = p_unit p"
  by (auto simp: convert_own_domain_def split: res.splits)

lemma signal_Returned: "signal a r = Returned (p, es) \<longleftrightarrow> r = Returned p \<and> es = [Modified a]"
  by (cases r) auto

lemma set_value_type_wf:
  assumes "wf_parameter p" "set_value_type io p t = Returned (p', es)"
  shows "wf_parameter p' \<and> p_value_type p' = t"
proof -
  obtain v where v: "init_value t = Ok v" using assms(2)
    by (auto simp: set_value_type_def signal_Returned split: res.splits)
  then have t: "t \<noteq> T_NONE" by auto
  let ?p = "p\<lparr>p_value_type := t, p_value := v\<rparr>"
  have "wf_parameter ?p" using assms(1) init_value_type [OF v] t by (simp add: wf_parameter_def)
  moreover have "p' = ?p \<or> convert_own_domain io ?p = Returned p'"
    using assms(2) v by (auto simp: set_value_type_def signal_Returned Let_def split: if_splits)
  ultimately show ?thesis
    using convert_own_domain_wf [of io ?p] convert_own_domain_frame [of io ?p] by auto
qed

lemma set_domain_wf:
  assumes "wf_parameter p" "wf_domain d" "set_domain io p d = Returned (p', es)"
  shows "wf_parameter p'"
  using assms convert_own_domain_wf [of io "p\<lparr>p_domain := d\<rparr>" p']
  by (auto simp: set_domain_def signal_Returned wf_parameter_def split: if_splits)

lemma set_unit_wf:
  assumes "wf_text io" "wf_parameter p" "set_unit io p u = Returned (p', es)"
  shows "wf_parameter p' \<and> p_unit p' = u \<and> (matching_type u \<noteq> T_IMPULSE \<longrightarrow> p_value_type p' = matching_type u)"
proof -
  let ?vt = "matching_type u"
  have none: "u = None \<Longrightarrow> ?vt = T_IMPULSE" by (simp add: matching_type_def)
  show ?thesis
  proof (cases "?vt \<noteq> T_IMPULSE")
    case True
    then obtain v where v: "convert_to io ?vt (p_value p) = Ok v"
      and p': "p' = p\<lparr>p_unit := u, p_value_type := ?vt, p_value := v\<rparr> \<or>
        convert_own_domain io (p\<lparr>p_unit := u, p_value_type := ?vt, p_value := v\<rparr>) = Returned p'"
      using assms(3) none
      by (auto simp: set_unit_def signal_Returned Let_def split: res.splits if_splits)
    have "wf_parameter (p\<lparr>p_unit := u, p_value_type := ?vt, p_value := v\<rparr>)"
      using assms(1,2) convert_to_wf [OF _ _ v] convert_to_type [OF v] matching_type_valid
      by (auto simp: wf_parameter_def)
    then show ?thesis
      using p' convert_own_domain_wf convert_own_domain_frame by fastforce
  next
    case False
    then show ?thesis using assms(2,3) by (auto simp: set_unit_def signal_Returned Let_def wf_parameter_def)
  qed
qed

lemma attributes_wf:
  "wf_parameter p \<Longrightarrow> wf_parameter (fst (set_access p a))"
  "wf_parameter p \<Longrightarrow> wf_parameter (fst (set_bounding p m))"
  "wf_parameter p \<Longrightarrow> wf_parameter (fst (set_repetition_filter p b))"
  "wf_parameter p \<Longrightarrow> wf_parameter (fst (set_disabled p b))"
  "wf_parameter p \<Longrightarrow> wf_parameter (fst (set_muted p b))"
  "wf_parameter p \<Longrightarrow> wf_parameter (fst (set_critical p b))"
  by (simp_all add: wf_parameter_def set_access_def set_bounding_def set_repetition_filter_def set_disabled_def
      set_muted_def set_critical_def)

section \<open>What the operations do\<close>

text \<open>The value that is set is the one given when it has the type of the parameter.\<close>

lemma set_value_same_type:
  "wf_parameter p \<Longrightarrow> get_type v = p_value_type p \<Longrightarrow>
   set_value io p v = Returned (p\<lparr>p_previous := p_value p, p_value := v\<rparr>, [Sent v])"
proof -
  assume *: "wf_parameter p" "get_type v = p_value_type p"
  then have "valid v" by (cases v) (auto simp: wf_parameter_def)
  with * show ?thesis by (simp add: set_value_def wf_parameter_def)
qed

text \<open>It never changes the type, the domain or the attributes of the parameter.\<close>

lemma set_value_frame:
  "set_value io p v = Returned (p', es) \<Longrightarrow>
   p' = p\<lparr>p_previous := p_previous p', p_value := p_value p'\<rparr> \<and>
   (valid v \<longrightarrow> p_previous p' = p_value p \<and> es = [Sent (p_value p')])"
  by (cases p) (auto simp: set_value_def split: if_splits res.splits)

lemma set_value_thrown: "set_value io p v = Thrown e s \<Longrightarrow> s = (p, [])"
  by (auto simp: set_value_def split: if_splits res.splits)

text \<open>
  The repetition filter compares a value that has been set with the value the parameter had before:
  it drops the second of two equal values.
\<close>

lemma filter_after_set:
  assumes "wf_parameter p" "get_type v = p_value_type p" "set_value io p v = Returned (p', es)"
  shows "filter_value p' v \<longleftrightarrow> p_disabled p \<or> p_muted p \<or> (p_rep_filter p \<and> value_eq v (p_value p))"
  using assms(3) set_value_same_type [OF assms(1,2)] by (auto simp: filter_value_def)

lemma repetition_filtered:
  assumes "wf_parameter p" "get_type v = p_value_type p" "self_equal v" "p_rep_filter p"
    "push_value io p v = Returned (p1, es1)" "push_value io p1 v = Returned (p2, es2)"
  shows "filter_value p2 v"
proof -
  have p1: "p1 = p\<lparr>p_previous := p_value p, p_value := v\<rparr>"
    using assms(5) set_value_same_type [OF assms(1,2)] by (simp add: push_value_def)
  have "valid v" using assms(1,2) by (cases v) (auto simp: wf_parameter_def)
  then have "p_previous p2 = v \<and> p_rep_filter p2"
    using assms(4,6) by (auto simp: push_value_def set_value_def p1)
  then show ?thesis using assms(3) by (simp add: filter_value_def value_eq_refl)
qed

lemma convert_compatible_same:
  "domain_type d = t \<Longrightarrow> t \<noteq> T_NONE \<Longrightarrow> convert_compatible_domain io d t = Ok d"
  by (cases d) (auto simp: convert_compatible_domain_def convert_domain_same)

text \<open>A domain of the type of the parameter is kept as it is, and setting it again does nothing.\<close>

lemma set_domain_same:
  assumes "wf_parameter p" "domain_type d = p_value_type p" "domain_eq d d" "set_domain io p d = Returned (p', es)"
  shows "domain_eq (p_domain p') d \<and> set_domain io p' d = Returned (p', [])"
proof -
  have "convert_compatible_domain io d (p_value_type p) = Ok d"
    using assms(1,2) by (intro convert_compatible_same) (auto simp: wf_parameter_def)
  then have "domain_eq (p_domain p') d"
    using assms(3,4) by (auto simp: set_domain_def signal_Returned convert_own_domain_def domain_ne_def split: if_splits)
  then show ?thesis by (simp add: set_domain_def domain_ne_def)
qed

text \<open>A type that is not one leaves the parameter with that type and its old value.\<close>

lemma set_value_type_none:
  "set_value_type io p T_NONE = Thrown Invalid_value_type (p\<lparr>p_value_type := T_NONE\<rparr>, [])"
  by (simp add: set_value_type_def)

lemma set_bounding_bool: "p_value_type p = T_BOOL \<Longrightarrow> set_bounding p m = (p, [])"
  by (simp add: set_bounding_def)

text \<open>The laws that every attribute setter has: it sets, and signals exactly a change.\<close>

locale attribute_setter =
  fixes put :: "parameter \<Rightarrow> 'a \<Rightarrow> parameter \<times> effect list" and get :: "parameter \<Rightarrow> 'a"
    and attr :: attribute
  assumes put_get: "get (fst (put p x)) = x"
    and put_signal: "snd (put p x) = (if get p = x then [] else [Modified attr])"
    and put_same: "get p = x \<Longrightarrow> fst (put p x) = p"
begin

lemma put_twice: "put (fst (put p x)) x = (fst (put p x), [])"
  using put_get [of p x] put_signal [of "fst (put p x)" x] put_same [of "fst (put p x)" x]
  by (simp add: prod_eq_iff)

end

interpretation access_attr: attribute_setter set_access p_access Access_mode_attr
  by unfold_locales (auto simp: set_access_def)

interpretation rep_filter_attr: attribute_setter set_repetition_filter p_rep_filter Repetition_filter_attr
  by unfold_locales (auto simp: set_repetition_filter_def)

interpretation disabled_attr: attribute_setter set_disabled p_disabled Disabled_attr
  by unfold_locales (auto simp: set_disabled_def)

interpretation muted_attr: attribute_setter set_muted p_muted Muted_attr
  by unfold_locales (auto simp: set_muted_def)

interpretation critical_attr: attribute_setter set_critical p_critical Critical_attr
  by unfold_locales (auto simp: set_critical_def)

section \<open>Setting up\<close>

lemma and_then_Returned:
  "and_then r f = Returned (p', es) \<longleftrightarrow>
   (\<exists>p es1 es2. r = Returned (p, es1) \<and> f p = Returned (p', es2) \<and> es = es1 @ es2)"
  by (cases r; cases "case r of Returned x \<Rightarrow> f (fst x)" rule: outcome.exhaust)
    (auto split: outcome.splits)

lemma create_parameter_wf:
  assumes "\<And>q. p = Some q \<Longrightarrow> wf_parameter q" "create_parameter io p t = Returned (p', es)"
  shows "wf_parameter p' \<and> p_value_type p' = t"
  using assms set_value_type_wf [OF wf_generic_parameter]
  by (cases p) (auto simp: create_parameter_def and_then_Returned dest: set_value_type_wf)

text \<open>A parameter that has been set up has the underlying type of what it was set up with.\<close>

lemma setup_parameter_wf:
  assumes "wf_text io" "\<And>q. p = Some q \<Longrightarrow> wf_parameter q" "setup_parameter io t p = Some (Returned (p', es))"
  shows "wf_parameter p' \<and> p_value_type p' = underlying_type t"
proof (cases t)
  case (Of_unit u)
  then obtain q es1 es2 where q: "create_parameter io p (matching_type u) = Returned (q, es1)"
    and p': "set_unit io q u = Returned (p', es2)"
    using assms(3) by (auto simp: setup_parameter_def and_then_Returned)
  have wf: "wf_parameter q" "p_value_type q = matching_type u"
    using create_parameter_wf [OF assms(2) q] by auto
  have "p_value_type p' = matching_type u"
    using set_unit_wf [OF assms(1) wf(1) p'] p' wf(2)
  proof (cases "matching_type u = T_IMPULSE")
    case True
    then have "p' = q\<lparr>p_unit := u\<rparr>" using p' by (simp add: set_unit_def signal_Returned Let_def)
    then show ?thesis using wf(2) by simp
  qed simp
  then show ?thesis using set_unit_wf [OF assms(1) wf(1) p'] Of_unit by simp
qed (use assms(3) create_parameter_wf [OF assms(2)] in
  \<open>auto simp: setup_parameter_def and_then_Returned split: list.splits\<close>)

section \<open>Reachable parameters\<close>

text \<open>
  What can happen to a parameter once it is made: each operation with well-formed arguments, an
  exception that it throws included. The type given to \<open>set_value_type\<close> has to be one.
\<close>

inductive param_step :: "text_io \<Rightarrow> parameter \<Rightarrow> parameter \<Rightarrow> bool" for io where
  step_push: "wf_val v \<Longrightarrow> param_step io p (fst (state_of (push_value io p v)))"
| step_set: "wf_val v \<Longrightarrow> param_step io p (fst (state_of (set_value io p v)))"
| step_quiet: "wf_val v \<Longrightarrow> param_step io p (state_of (set_value_quiet io p v))"
| step_type: "t \<noteq> T_NONE \<Longrightarrow> param_step io p (fst (state_of (set_value_type io p t)))"
| step_domain: "wf_domain d \<Longrightarrow> param_step io p (fst (state_of (set_domain io p d)))"
| step_unit: "param_step io p (fst (state_of (set_unit io p u)))"
| step_access: "param_step io p (fst (set_access p a))"
| step_bounding: "param_step io p (fst (set_bounding p m))"
| step_rep_filter: "param_step io p (fst (set_repetition_filter p b))"
| step_disabled: "param_step io p (fst (set_disabled p b))"
| step_muted: "param_step io p (fst (set_muted p b))"
| step_critical: "param_step io p (fst (set_critical p b))"

inductive_cases param_stepE: "param_step io p p'"

lemma signal_state [simp]: "fst (state_of (signal a r)) = state_of r"
  by (cases r) simp_all

lemma convert_own_domain_state: "wf_parameter p \<Longrightarrow> wf_parameter (state_of (convert_own_domain io p))"
  using convert_own_domain_wf [of io p] by (auto simp: convert_own_domain_def split: res.splits)

lemma push_state: "fst (state_of (push_value io p v)) = fst (state_of (set_value io p v))"
  by (auto simp: push_value_def split: outcome.splits)

lemma set_value_state:
  assumes "wf_text io" "wf_parameter p" "wf_val v"
  shows "wf_parameter (fst (state_of (set_value io p v)))"
  using set_value_wf [OF assms] set_value_thrown [of io p v] assms(2)
  by (cases "set_value io p v") auto

lemma set_value_quiet_state: "state_of (set_value_quiet io p v) = fst (state_of (set_value io p v))"
  by (auto simp: set_value_def set_value_quiet_def split: res.splits)

lemma set_value_type_state:
  assumes "wf_parameter p" "t \<noteq> T_NONE"
  shows "wf_parameter (fst (state_of (set_value_type io p t))) \<and> p_value_type (fst (state_of (set_value_type io p t))) = t"
proof -
  obtain v where v: "init_value t = Ok v" using init_value_ok [OF assms(2)] by blast
  let ?p = "p\<lparr>p_value_type := t, p_value := v\<rparr>"
  have "wf_parameter ?p" using assms init_value_type [OF v] by (simp add: wf_parameter_def)
  moreover have "p_value_type (state_of (convert_own_domain io ?p)) = t"
    by (auto simp: convert_own_domain_def split: res.splits)
  ultimately show ?thesis
    using v convert_own_domain_state [of ?p io] by (simp add: set_value_type_def Let_def)
qed

lemma set_domain_state:
  assumes "wf_parameter p" "wf_domain d"
  shows "wf_parameter (fst (state_of (set_domain io p d)))"
proof -
  have "wf_parameter (p\<lparr>p_domain := d\<rparr>)" using assms by (simp add: wf_parameter_def)
  then show ?thesis using convert_own_domain_state assms(1) by (simp add: set_domain_def)
qed

text \<open>A unit makes its parameter one of floating-point numbers, which every value converts to.\<close>

lemma unit_conversion: "matching_type u \<noteq> T_IMPULSE \<Longrightarrow> \<exists>w. convert_to io (matching_type u) v = Ok w"
proof (cases u)
  case (Some d)
  assume "matching_type u \<noteq> T_IMPULSE"
  then have "concrete_unit d"
    using Some by (cases d rule: variant_type.cases) (simp_all add: concrete_unit_def matching_type_def)
  then show ?thesis using matching_type_concrete [of d] Some by auto
qed (simp add: matching_type_def)

lemma set_unit_state:
  assumes "wf_text io" "wf_parameter p"
  shows "wf_parameter (fst (state_of (set_unit io p u)))"
proof (cases "u \<noteq> None \<and> matching_type u \<noteq> T_IMPULSE")
  case True
  then obtain w where w: "convert_to io (matching_type u) (p_value p) = Ok w" using unit_conversion by blast
  have "wf_parameter (p\<lparr>p_unit := u, p_value_type := matching_type u, p_value := w\<rparr>)"
    using assms convert_to_wf [OF _ _ w] convert_to_type [OF w] matching_type_valid
    by (auto simp: wf_parameter_def)
  then show ?thesis using True w convert_own_domain_state by (simp add: set_unit_def Let_def)
next
  case False
  then show ?thesis using assms(2) by (auto simp: set_unit_def Let_def wf_parameter_def)
qed

lemma param_step_wf: "param_step io p p' \<Longrightarrow> wf_text io \<Longrightarrow> wf_parameter p \<Longrightarrow> wf_parameter p'"
  by (induction rule: param_step.induct)
    (simp_all add: push_state set_value_quiet_state set_value_state set_value_type_state set_domain_state
      set_unit_state attributes_wf)

lemma param_steps_wf: "(param_step io)\<^sup>*\<^sup>* p p' \<Longrightarrow> wf_text io \<Longrightarrow> wf_parameter p \<Longrightarrow> wf_parameter p'"
  by (induction rule: rtranclp_induct) (auto intro: param_step_wf)

end
