(* ===== verification/Osc.thy ===== *)
theory Osc
  imports Parameter Name_Validation
begin

text \<open>
  The values in OSC messages: the visitors of \<open>network/osc/detail/osc_fwd.hpp\<close> and
  \<open>network/oscquery/detail/outbound_visitor.hpp\<close> that write a value as the arguments of a message, and those
  of \<open>network/osc/detail/osc.hpp\<close> that read one, guided by the value the parameter has. A message is the list
  of its arguments with their type tags; the bytes of a packet belong to the library that writes
  them. Reading and printing a floating number as text (\<open>boost::lexical_cast\<close>) is the parameter
  \<open>lex_io\<close> of the model; for integers it is \<open>Lexical_Cast\<close>.
\<close>

section \<open>Arguments\<close>

datatype osc_arg =
    A_int32 i32
  | A_int64 "64 word"
  | A_float fl
  | A_double fl
  | A_time_tag "64 word"
  | A_char i8
  | A_true
  | A_false
  | A_string string
  | A_symbol string
  | A_rgba "32 word"
  | A_nil
  | A_infinitum
  | A_midi "32 word"
  | A_blob "8 word list"
  | Array_begin
  | Array_end

record lex_io =
  lex_float :: "string \<Rightarrow> fl option"
  lex_bool :: "string \<Rightarrow> bool option"
  show_float :: "fl \<Rightarrow> string"
  show_double :: "fl \<Rightarrow> string"

section \<open>Writing a value\<close>

fun osc_outbound_array :: "val \<Rightarrow> osc_arg list" where
  "osc_outbound_array VImpulse = [A_infinitum]"
| "osc_outbound_array (VInt n) = [A_int32 n]"
| "osc_outbound_array (VFloat x) = [A_float x]"
| "osc_outbound_array (VBool b) = [A_int32 (bool_to_i32 b)]"
| "osc_outbound_array (VChar c) = [A_int32 (char_to_i32 c)]"
| "osc_outbound_array (VString s) = [A_string s]"
| "osc_outbound_array (VVec2f xs) = map A_float xs"
| "osc_outbound_array (VVec3f xs) = map A_float xs"
| "osc_outbound_array (VVec4f xs) = map A_float xs"
| "osc_outbound_array (VList vs) = concat (map osc_outbound_array vs)"
| "osc_outbound_array VUnset = []"

definition osc_outbound :: "val \<Rightarrow> osc_arg list" where
  "osc_outbound v = (case v of VImpulse \<Rightarrow> [] | _ \<Rightarrow> osc_outbound_array v)"

text \<open>The visitor of OSCQuery, with the depth of the lists it is in.\<close>

definition in_array :: "bool \<Rightarrow> osc_arg list \<Rightarrow> osc_arg list" where
  "in_array nested as = (if nested then Array_begin # as @ [Array_end] else as)"

fun oscquery_outbound :: "nat \<Rightarrow> val \<Rightarrow> osc_arg list" where
  "oscquery_outbound dep VImpulse = (if dep > 0 then [A_infinitum] else [])"
| "oscquery_outbound dep (VInt n) = [A_int32 n]"
| "oscquery_outbound dep (VFloat x) = [A_float x]"
| "oscquery_outbound dep (VBool b) = [if b then A_true else A_false]"
| "oscquery_outbound dep (VChar c) = [A_char c]"
| "oscquery_outbound dep (VString s) = [A_string s]"
| "oscquery_outbound dep (VVec2f xs) = in_array (dep > 0) (map A_float xs)"
| "oscquery_outbound dep (VVec3f xs) = in_array (dep > 0) (map A_float xs)"
| "oscquery_outbound dep (VVec4f xs) = in_array (dep > 0) (map A_float xs)"
| "oscquery_outbound dep (VList vs) =
     in_array (dep > 0) (concat (map (oscquery_outbound (dep + 1)) vs))"
| "oscquery_outbound dep VUnset = []"

section \<open>Reading a number\<close>

definition get_float :: "lex_io \<Rightarrow> osc_arg \<Rightarrow> fl \<Rightarrow> fl" where
  "get_float io a f =
     (case a of
        A_int32 n \<Rightarrow> fl_of_int F32 (sint n)
      | A_int64 n \<Rightarrow> fl_of_int F32 (sint n)
      | A_float x \<Rightarrow> x
      | A_double x \<Rightarrow> fl_narrow x
      | A_time_tag t \<Rightarrow> fl_of_int F32 (uint t)
      | A_char c \<Rightarrow> fl_of_int F32 (sint c)
      | A_true \<Rightarrow> fl_one
      | A_false \<Rightarrow> fl_zero
      | A_string s \<Rightarrow> (case lex_float io s of Some x \<Rightarrow> x | None \<Rightarrow> f)
      | A_symbol s \<Rightarrow> (case lex_float io s of Some x \<Rightarrow> x | None \<Rightarrow> f)
      | _ \<Rightarrow> f)"

definition lex_int :: "string \<Rightarrow> i32 \<Rightarrow> i32" where
  "lex_int s i = (case lexical_to_int s of Some n \<Rightarrow> word_of_int n | None \<Rightarrow> i)"

definition get_int :: "osc_arg \<Rightarrow> i32 \<Rightarrow> i32 res" where
  "get_int a i =
     (case a of
        A_int32 n \<Rightarrow> Ok n
      | A_int64 n \<Rightarrow> Ok (word_of_int (sint n))
      | A_float x \<Rightarrow> fl_to_i32 x
      | A_double x \<Rightarrow> fl_to_i32 x
      | A_time_tag t \<Rightarrow> Ok (word_of_int (uint t))
      | A_char c \<Rightarrow> Ok (char_to_i32 c)
      | A_true \<Rightarrow> Ok 1
      | A_false \<Rightarrow> Ok 0
      | A_string s \<Rightarrow> Ok (lex_int s i)
      | A_symbol s \<Rightarrow> Ok (lex_int s i)
      | _ \<Rightarrow> Ok i)"

definition get_bool :: "lex_io \<Rightarrow> osc_arg \<Rightarrow> bool \<Rightarrow> bool" where
  "get_bool io a b =
     (case a of
        A_int32 n \<Rightarrow> n \<noteq> 0
      | A_int64 n \<Rightarrow> n \<noteq> 0
      | A_float x \<Rightarrow> fl_to_bool x
      | A_double x \<Rightarrow> fl_to_bool x
      | A_time_tag t \<Rightarrow> t \<noteq> 0
      | A_char c \<Rightarrow> c \<noteq> 0
      | A_true \<Rightarrow> True
      | A_false \<Rightarrow> False
      | A_string s \<Rightarrow> (case lex_bool io s of Some x \<Rightarrow> x | None \<Rightarrow> b)
      | A_symbol s \<Rightarrow> (case lex_bool io s of Some x \<Rightarrow> x | None \<Rightarrow> b)
      | _ \<Rightarrow> b)"

text \<open>The first character of a string that ends with a null character.\<close>

definition first_char :: "string \<Rightarrow> i8" where
  "first_char s = (case s of c # _ \<Rightarrow> word_of_nat (of_char c) | [] \<Rightarrow> 0)"

definition get_char :: "osc_arg \<Rightarrow> i8 \<Rightarrow> i8 res" where
  "get_char a c =
     (case a of
        A_int32 n \<Rightarrow> Ok (i32_to_char n)
      | A_int64 n \<Rightarrow> Ok (word_of_int (sint n))
      | A_float x \<Rightarrow> fl_to_i8 x
      | A_double x \<Rightarrow> fl_to_i8 x
      | A_time_tag t \<Rightarrow> Ok (word_of_int (uint t))
      | A_char d \<Rightarrow> Ok d
      | A_true \<Rightarrow> Ok (first_char ''T'')
      | A_false \<Rightarrow> Ok (first_char ''F'')
      | A_string s \<Rightarrow> Ok (first_char s)
      | A_symbol s \<Rightarrow> Ok (first_char s)
      | _ \<Rightarrow> Ok c)"

section \<open>Reading a value of any type\<close>

definition color_byte :: "32 word \<Rightarrow> nat \<Rightarrow> fl" where
  "color_byte c n = fl_of_int F32 (uint (take_bit 8 (drop_bit n c)))"

definition rgba_vec :: "32 word \<Rightarrow> fl list" where
  "rgba_vec c = [color_byte c 24, color_byte c 16, color_byte c 8, color_byte c 0]"

fun create_value :: "osc_arg \<Rightarrow> val" where
  "create_value (A_int32 n) = VInt n"
| "create_value (A_int64 n) = VInt (word_of_int (sint n))"
| "create_value (A_float x) = VFloat x"
| "create_value (A_double x) = VFloat (fl_narrow x)"
| "create_value (A_time_tag t) = VInt (word_of_int (uint t))"
| "create_value (A_char c) = VChar c"
| "create_value A_true = VBool True"
| "create_value A_false = VBool False"
| "create_value (A_string s) = VString s"
| "create_value (A_symbol s) = VString s"
| "create_value (A_rgba c) = VVec4f (rgba_vec c)"
| "create_value _ = VImpulse"

text \<open>
  \<open>create_list_\<close> returns the elements and where its iterator stands: at the end of the array it
  was called for, or at the end of the arguments. When an inner array is not closed, the loop of
  the outer one steps past the end.
\<close>

function (sequential) create_list_rec :: "osc_arg list \<Rightarrow> (val list \<times> osc_arg list) res" where
  "create_list_rec [] = Ok ([], [])"
| "create_list_rec (Array_begin # as) =
     res_bind (create_list_rec as)
       (\<lambda>(ys, rest).
          case rest of
            [] \<Rightarrow> Err Undefined_behaviour
          | _ # rest' \<Rightarrow> res_map (\<lambda>(zs, r). (VList ys # zs, r)) (create_list_rec rest'))"
| "create_list_rec (Array_end # as) = Ok ([], Array_end # as)"
| "create_list_rec (a # as) = res_map (\<lambda>(zs, r). (create_value a # zs, r)) (create_list_rec as)"
  by pat_completeness auto

lemma create_list_rest:
  assumes "create_list_rec_dom args"
  shows "create_list_rec args = Ok (ys, rest) \<Longrightarrow> length rest \<le> length args"
  using assms
proof (induction args arbitrary: ys rest rule: create_list_rec.pinduct)
  case (2 as)
  then show ?case by (fastforce simp: create_list_rec.psimps split: list.splits)
qed (fastforce simp: create_list_rec.psimps)+

termination create_list_rec
  by (relation "measure length") (auto dest: create_list_rest)

definition create_list :: "osc_arg list \<Rightarrow> val list res" where
  "create_list args = res_map fst (create_list_rec args)"

definition create_any :: "osc_arg list \<Rightarrow> val res" where
  "create_any args =
     (case args of
        [] \<Rightarrow> Ok VImpulse
      | [a] \<Rightarrow> Ok (create_value a)
      | _ \<Rightarrow> res_map VList (create_list args))"

section \<open>Reading into a parameter\<close>

fun get_string :: "lex_io \<Rightarrow> osc_arg \<Rightarrow> string \<Rightarrow> string" where
  "get_string io (A_int32 n) s = int_to_string (sint n)"
| "get_string io (A_int64 n) s = int_to_string (sint n)"
| "get_string io (A_float x) s = show_float io x"
| "get_string io (A_double x) s = show_double io x"
| "get_string io (A_char c) s = [char_of (unat c)]"
| "get_string io A_true s = ''true''"
| "get_string io A_false s = ''false''"
| "get_string io (A_string t) s = t"
| "get_string io (A_symbol t) s = t"
| "get_string io _ s = s"

text \<open>\<open>osc_inbound_visitor\<close> on an array: one argument per component, or else a colour for four of them.\<close>

definition get_vec :: "lex_io \<Rightarrow> osc_arg list \<Rightarrow> fl list \<Rightarrow> fl list" where
  "get_vec io args vec =
     (if length args = length vec then map2 (get_float io) args vec
      else case args of
        A_rgba c # _ \<Rightarrow> (if length vec = 4 then rgba_vec c else vec)
      | _ \<Rightarrow> vec)"

text \<open>\<open>to_value\<close>: a message without arguments gives the current value again.\<close>

definition osc_to_value :: "lex_io \<Rightarrow> val \<Rightarrow> osc_arg list \<Rightarrow> val res" where
  "osc_to_value io current args =
     (case args of
        [] \<Rightarrow> Ok current
      | a # _ \<Rightarrow>
          (case current of
             VImpulse \<Rightarrow> Ok VImpulse
           | VInt i \<Rightarrow> res_map VInt (get_int a i)
           | VFloat f \<Rightarrow> Ok (VFloat (get_float io a f))
           | VBool b \<Rightarrow> Ok (VBool (get_bool io a b))
           | VChar c \<Rightarrow> res_map VChar (get_char a c)
           | VString s \<Rightarrow> Ok (VString (get_string io a s))
           | VVec2f xs \<Rightarrow> Ok (VVec2f (get_vec io args xs))
           | VVec3f xs \<Rightarrow> Ok (VVec3f (get_vec io args xs))
           | VVec4f xs \<Rightarrow> Ok (VVec4f (get_vec io args xs))
           | VList _ \<Rightarrow> res_map VList (create_list args)
           | VUnset \<Rightarrow> Ok VUnset))"

section \<open>Round trips\<close>

lemma bool_word_eq [simp]: "bool_to_i32 b = 0 \<longleftrightarrow> \<not> b"
  by (cases b) (simp_all add: bool_to_i32_def bool_int_def)

lemma char_word_back [simp]: "i32_to_char (char_to_i32 c) = c"
  using char_int_roundtrip [of undefined c] by simp

lemma map2_floats: "length xs = length ys \<Longrightarrow> map2 (get_float io) (map A_float xs) ys = xs"
  by (induction xs ys rule: list_induct2) (simp_all add: get_float_def)

lemma get_vec_floats: "length xs = length ys \<Longrightarrow> get_vec io (map A_float xs) ys = xs"
  by (simp add: get_vec_def map2_floats)

lemma osc_to_value_vec:
  assumes "args \<noteq> []"
  shows "osc_to_value io (VVec2f ys) args = Ok (VVec2f (get_vec io args ys))"
    and "osc_to_value io (VVec3f ys) args = Ok (VVec3f (get_vec io args ys))"
    and "osc_to_value io (VVec4f ys) args = Ok (VVec4f (get_vec io args ys))"
  using assms by (cases args; simp add: osc_to_value_def)+

text \<open>The elements that a list of OSC arguments keeps as they are.\<close>

definition osc_plain :: "val \<Rightarrow> bool" where
  "osc_plain v \<longleftrightarrow> get_type v \<in> {T_IMPULSE, T_INT, T_FLOAT, T_STRING}"

lemma create_list_plain:
  "list_all osc_plain vs \<Longrightarrow> create_list_rec (concat (map osc_outbound_array vs)) = Ok (vs, [])"
proof (induction vs)
  case (Cons v vs)
  then show ?case by (cases v) (simp_all add: osc_plain_def)
qed simp

text \<open>
  A value that is sent and read into a parameter of its type arrives unchanged: a scalar, a string
  or an array, and a list of such elements that is not empty.
\<close>

fun osc_faithful :: "val \<Rightarrow> bool" where
  "osc_faithful (VList vs) = (vs \<noteq> [] \<and> list_all osc_plain vs)"
| "osc_faithful v = valid v"

lemma osc_outbound_nonempty: "vs \<noteq> [] \<Longrightarrow> list_all osc_plain vs \<Longrightarrow> osc_outbound (VList vs) \<noteq> []"
  by (cases vs; cases "hd vs") (auto simp: osc_outbound_def osc_plain_def)

lemma osc_roundtrip:
  assumes "osc_faithful v" "wf_val v" "wf_val cur" "get_type cur = get_type v"
  shows "osc_to_value io cur (osc_outbound v) = Ok v"
proof (cases v)
  case (VList vs)
  then obtain ws where ws: "cur = VList ws" using assms(4) by (cases cur) auto
  have vs: "vs \<noteq> []" "list_all osc_plain vs" using assms(1) VList by auto
  then show ?thesis
    using osc_outbound_nonempty [OF vs] create_list_plain [OF vs(2)] VList ws
    by (cases "osc_outbound (VList vs)") (auto simp: osc_to_value_def create_list_def osc_outbound_def)
next
  case (VVec2f xs)
  then obtain ys where "cur = VVec2f ys" using assms(4) by (cases cur) auto
  then show ?thesis using VVec2f assms(2,3) get_vec_floats [of xs ys io] osc_to_value_vec [of "map A_float xs"]
    by (cases "xs = []") (auto simp: osc_outbound_def wf_vec_def)
next
  case (VVec3f xs)
  then obtain ys where "cur = VVec3f ys" using assms(4) by (cases cur) auto
  then show ?thesis using VVec3f assms(2,3) get_vec_floats [of xs ys io] osc_to_value_vec [of "map A_float xs"]
    by (cases "xs = []") (auto simp: osc_outbound_def wf_vec_def)
next
  case (VVec4f xs)
  then obtain ys where "cur = VVec4f ys" using assms(4) by (cases cur) auto
  then show ?thesis using VVec4f assms(2,3) get_vec_floats [of xs ys io] osc_to_value_vec [of "map A_float xs"]
    by (cases "xs = []") (auto simp: osc_outbound_def wf_vec_def)
qed (use assms in \<open>cases cur; auto simp: osc_to_value_def osc_outbound_def get_int_def get_float_def get_bool_def
    get_char_def\<close>)+

text \<open>An empty list cannot be told from a message without arguments.\<close>

lemma osc_empty_list: "osc_to_value io cur (osc_outbound (VList [])) = Ok cur"
  by (simp add: osc_to_value_def osc_outbound_def)

text \<open>
  OSCQuery writes a list with its inner lists as arrays: it is read back as it was, but for the
  arrays of floats in it, which come back as lists.
\<close>

fun query_form :: "val \<Rightarrow> val" where
  "query_form (VVec2f xs) = VList (map VFloat xs)"
| "query_form (VVec3f xs) = VList (map VFloat xs)"
| "query_form (VVec4f xs) = VList (map VFloat xs)"
| "query_form (VList vs) = VList (map query_form vs)"
| "query_form v = v"

fun all_valid :: "val \<Rightarrow> bool" where
  "all_valid (VList vs) = list_all all_valid vs"
| "all_valid v = valid v"

lemma read_floats:
  "create_list_rec (map A_float xs @ Array_end # as) = Ok (map VFloat xs, Array_end # as)"
  by (induction xs) simp_all

lemma read_array:
  assumes "create_list_rec (bs @ Array_end # as) = Ok (ys, Array_end # as)"
  shows "create_list_rec (in_array True bs @ as) = res_map (\<lambda>(zs, r). (VList ys # zs, r)) (create_list_rec as)"
  using assms by (simp add: in_array_def)

lemma read_query:
  "all_valid v \<Longrightarrow>
   create_list_rec (oscquery_outbound (Suc d) v @ as) =
     res_map (\<lambda>(zs, r). (query_form v # zs, r)) (create_list_rec as)"
proof (induction v arbitrary: d as)
  case (VList vs)
  have "create_list_rec (concat (map (oscquery_outbound (Suc (Suc d))) us) @ Array_end # as) =
      Ok (map query_form us, Array_end # as)" if "set us \<subseteq> set vs" for us
    using that
  proof (induction us)
    case (Cons u us)
    then show ?case using VList by (simp add: list_all_iff)
  qed simp
  from read_array [OF this [OF subset_refl]] show ?case by simp
qed (simp_all add: read_array [OF read_floats])

lemma query_list_roundtrip:
  assumes "list_all all_valid vs"
  shows "create_list (oscquery_outbound 0 (VList vs)) = Ok (map query_form vs)"
proof -
  have "create_list_rec (concat (map (oscquery_outbound (Suc 0)) us)) = Ok (map query_form us, [])"
    if "list_all all_valid us" for us
    using that by (induction us) (simp_all add: read_query)
  then show ?thesis using assms by (simp add: create_list_def in_array_def)
qed

text \<open>What is read has the type of the current value.\<close>

lemma osc_to_value_type: "osc_to_value io cur args = Ok v \<Longrightarrow> get_type v = get_type cur"
  by (cases cur; cases args) (auto simp: osc_to_value_def)

end
