(* ===== verification/Brace_Expansion.thy ===== *)
theory Brace_Expansion
  imports Node_Tree
begin

text \<open>
  The creation of several nodes from one pattern: the tokenizer and the two functions \<open>expand\<close> of
  \<open>network/base/node_functions.cpp\<close>, \<open>expand_ranges\<close>, \<open>canonicalize_str\<close> and \<open>create_nodes\<close>. The
  two fixed regular expressions for ranges and the one for character classes are scanners: each has
  one way to match at a position. A loop that does not end is \<open>None\<close>.
\<close>

section \<open>Expanding braces\<close>

text \<open>
  \<open>tokenizer::next\<close> on what follows the last token: a token of the given characters, or the text up to
  the next one, in which a backslash takes the following character with it.
\<close>

fun text_token :: "(char \<Rightarrow> bool) \<Rightarrow> string \<Rightarrow> string \<times> string" where
  "text_token istoken [] = ([], [])"
| "text_token istoken (c # cs) =
     (if istoken c then ([], c # cs)
      else if c = CHR 0x5C then
        (case cs of
           [] \<Rightarrow> ([c], [])
         | d # ds \<Rightarrow> (let (t, rest) = text_token istoken ds in (c # d # t, rest)))
      else (let (t, rest) = text_token istoken cs in (c # t, rest)))"

definition next_token :: "(char \<Rightarrow> bool) \<Rightarrow> string \<Rightarrow> (string \<times> string) option" where
  "next_token istoken s =
     (case s of
        [] \<Rightarrow> None
      | c # cs \<Rightarrow> Some (if istoken c then ([c], cs) else text_token istoken s))"

definition append_all :: "string list \<Rightarrow> string list \<Rightarrow> string list" where
  "append_all lista listb =
     (if length listb = 1 then map (\<lambda>a. a @ last listb) lista
      else concat (map (\<lambda>a. map (\<lambda>b. a @ b) listb) lista))"

definition in_last :: "('a \<Rightarrow> 'a) \<Rightarrow> 'a list \<Rightarrow> 'a list" where
  "in_last f xs = butlast xs @ [f (last xs)]"

definition closed_alts :: "string list list \<Rightarrow> string list" where
  "closed_alts alts =
     (if length alts = 1 then map (\<lambda>a. CHR ''{'' # a @ ''}'') (last alts) else concat alts)"

definition unclosed_alts :: "string list list \<Rightarrow> string list" where
  "unclosed_alts alts =
     fold (\<lambda>alt result. append_all (map (\<lambda>a. a @ '','') result) alt) (tl alts) (append_all [''{''] (hd alts))"

definition is_brace_token :: "char \<Rightarrow> bool" where
  "is_brace_token c \<longleftrightarrow> c = CHR ''{'' \<or> c = CHR '','' \<or> c = CHR ''}''"

lemma text_token_length: "text_token p s = (t, rest) \<Longrightarrow> length rest + length t = length s"
  by (induction p s arbitrary: t rest rule: text_token.induct)
    (fastforce split: if_splits list.splits prod.splits)+

lemma text_token_nonempty: "text_token p (c # cs) = (t, rest) \<Longrightarrow> \<not> p c \<Longrightarrow> t \<noteq> []"
  by (cases "c = CHR 0x5C"; cases cs) (auto simp: case_prod_beta Let_def)

lemma next_token_shorter:
  assumes "next_token p s = Some (t, rest)"
  shows "length rest < length s"
proof (cases s)
  case (Cons c cs)
  show ?thesis
  proof (cases "p c")
    case False
    then have t: "text_token p (c # cs) = (t, rest)"
      using assms Cons by (simp add: next_token_def del: text_token.simps)
    from text_token_length [OF t] text_token_nonempty [OF t False] show ?thesis
      using Cons by (cases t) auto
  qed (use assms Cons in \<open>auto simp: next_token_def\<close>)
qed (use assms in \<open>simp add: next_token_def\<close>)

text \<open>\<open>detail::expand\<close>, after an opening brace: the words and what follows the closing brace.\<close>

function (sequential) expand_alts :: "string list list \<Rightarrow> string \<Rightarrow> string list \<times> string" where
  "expand_alts alts s =
     (case next_token is_brace_token s of
        None \<Rightarrow> (unclosed_alts alts, [])
      | Some (t, rest) \<Rightarrow>
          (if hd t = CHR ''{'' then
             (let (words, rest') = expand_alts [[[]]] rest
              in expand_alts (in_last (\<lambda>l. append_all l words) alts) rest')
           else if hd t = CHR '','' then expand_alts (alts @ [[[]]]) rest
           else if hd t = CHR ''}'' then (closed_alts alts, rest)
           else expand_alts (in_last (map (\<lambda>a. a @ t)) alts) rest))"
  by pat_completeness auto

lemma expand_alts_rest:
  assumes "expand_alts_dom (alts, s)"
  shows "length (snd (expand_alts alts s)) \<le> length s"
  using assms
proof (induction alts s rule: expand_alts.pinduct)
  case step: (1 alts s)
  show ?case
  proof (cases "next_token is_brace_token s")
    case None
    then show ?thesis using step(1) by (simp add: expand_alts.psimps)
  next
    case (Some tr)
    obtain t rest where tr: "tr = (t, rest)" by (cases tr)
    note tok = Some [unfolded tr]
    have less: "length rest < length s" using next_token_shorter [OF tok] .
    consider "hd t = CHR ''{''" | "hd t = CHR '',''" | "hd t = CHR ''}''"
      | "hd t \<noteq> CHR ''{''" "hd t \<noteq> CHR '',''" "hd t \<noteq> CHR ''}''" by blast
    then show ?thesis
    proof cases
      case 1
      obtain words rest' where w: "expand_alts [[[]]] rest = (words, rest')" by fastforce
      show ?thesis
        using 1 step(2) [OF Some tr [symmetric] 1] step(3) [OF Some tr [symmetric] 1 w [symmetric]] w less tok step(1)
        by (simp add: expand_alts.psimps [OF step(1)])
    qed (use step tok less in \<open>fastforce simp: expand_alts.psimps\<close>)+
  qed
qed

lemma expand_alts_step:
  "next_token p s = Some (t, r) \<Longrightarrow> expand_alts_dom (alts, r) \<Longrightarrow> (words, rest) = expand_alts alts r \<Longrightarrow>
   length rest < length s"
  using expand_alts_rest [of alts r] next_token_shorter [of p s t r] by (auto dest: sym)

lemma expand_alts_total: "All expand_alts_dom"
  by (rule "expand_alts.termination" [of "measure (\<lambda>(_, s). length s)"])
    (auto dest: next_token_shorter intro: expand_alts_step)

termination expand_alts by (rule expand_alts_total)

declare expand_alts.simps [simp del]

text \<open>\<open>expand\<close> at the top level, where only an opening brace is a token.\<close>

function expand_words :: "string list \<Rightarrow> string \<Rightarrow> string list" where
  "expand_words list s =
     (case next_token (\<lambda>c. c = CHR ''{'') s of
        None \<Rightarrow> list
      | Some (t, rest) \<Rightarrow>
          (if hd t = CHR ''{'' then
             (let (words, rest') = expand_alts [[[]]] rest in expand_words (append_all list words) rest')
           else expand_words (map (\<lambda>a. a @ t) list) rest))"
  by pat_completeness auto
termination
  by (relation "measure (\<lambda>(_, s). length s)")
    (auto dest: next_token_shorter intro: expand_alts_step simp: expand_alts_total)

declare expand_words.simps [simp del]

definition expand :: "string \<Rightarrow> string list" where
  "expand s = expand_words [[]] s"

section \<open>The words of a brace expression\<close>

text \<open>
  The specification: a brace expression is a sequence of texts and of groups of alternatives; its
  words are those of its parts, one after the other, the words of a group those of its alternatives.
\<close>

datatype brace_item = Lit string | Group "brace_item list list"

fun join_commas :: "string list \<Rightarrow> string" where
  "join_commas [] = []"
| "join_commas [s] = s"
| "join_commas (s # ss) = s @ CHR '','' # join_commas ss"

definition products :: "string list list \<Rightarrow> string list" where
  "products wss = foldr (\<lambda>ws acc. concat (map (\<lambda>w. map (\<lambda>v. w @ v) acc) ws)) wss [[]]"

fun item_text :: "brace_item \<Rightarrow> string" where
  "item_text (Lit s) = s"
| "item_text (Group alts) =
     CHR ''{'' # join_commas (map (\<lambda>alt. concat (map item_text alt)) alts) @ ''}''"

fun item_words :: "brace_item \<Rightarrow> string list" where
  "item_words (Lit s) = [s]"
| "item_words (Group alts) = concat (map (\<lambda>alt. products (map item_words alt)) alts)"

definition plain_char :: "char \<Rightarrow> bool" where
  "plain_char c \<longleftrightarrow> \<not> is_brace_token c \<and> c \<noteq> CHR 0x5C"

fun valid_item :: "brace_item \<Rightarrow> bool" where
  "valid_item (Lit s) \<longleftrightarrow> list_all plain_char s"
| "valid_item (Group alts) \<longleftrightarrow> 2 \<le> length alts \<and> list_all (list_all valid_item) alts"

lemma append_all_eq: "append_all xs ys = concat (map (\<lambda>a. map (\<lambda>b. a @ b) ys) xs)"
  by (auto simp: append_all_def length_Suc_conv)

lemma products_simps [simp]:
  "products [] = [[]]" "products (ws # wss) = append_all ws (products wss)"
  by (simp_all add: products_def append_all_eq)

lemma append_all_assoc: "append_all (append_all xs ys) zs = append_all xs (append_all ys zs)"
  by (simp add: append_all_eq map_concat comp_def) (induction xs; simp add: map_concat comp_def)

lemma append_all_unit [simp]: "append_all xs [[]] = xs" "append_all [[]] ys = ys"
  by (simp_all add: append_all_eq concat_map_singleton map_idI)

lemma append_all_single: "append_all xs [s] = map (\<lambda>a. a @ s) xs"
  by (simp add: append_all_eq concat_map_singleton)

lemma in_last_in_last: "in_last f (in_last g xs) = in_last (\<lambda>x. f (g x)) xs"
  by (simp add: in_last_def)

lemma in_last_append [simp]: "in_last f (xs @ [x]) = xs @ [f x]"
  by (simp add: in_last_def)

lemma in_last_id: "xs \<noteq> [] \<Longrightarrow> in_last (\<lambda>x. x) xs = xs"
  by (simp add: in_last_def)

lemma in_last_nonempty [simp]: "in_last f xs \<noteq> []"
  by (simp add: in_last_def)

text \<open>A text before a token, before another text or at the end.\<close>

lemma text_token_plain:
  "list_all (\<lambda>c. \<not> p c \<and> c \<noteq> CHR 0x5C) s \<Longrightarrow>
   text_token p (s @ rest) = (s @ fst (text_token p rest), snd (text_token p rest))"
  by (induction s) (auto simp: case_prod_beta Let_def)

lemma text_token_token: "(\<forall>c cs. rest = c # cs \<longrightarrow> p c) \<Longrightarrow> text_token p rest = ([], rest)"
  by (cases rest) auto

lemma next_token_plain:
  assumes "list_all (\<lambda>c. \<not> p c \<and> c \<noteq> CHR 0x5C) s" "s \<noteq> []"
  shows "next_token p (s @ rest) = Some (s @ fst (text_token p rest), snd (text_token p rest))"
  using assms text_token_plain [OF assms(1), of rest]
  by (cases s) (auto simp: next_token_def simp del: text_token.simps)

lemma next_token_text:
  "rest \<noteq> [] \<Longrightarrow> \<not> p (hd rest) \<Longrightarrow> next_token p rest = Some (text_token p rest)"
  by (cases rest) (auto simp: next_token_def)

lemma brace_token_chars:
  "is_brace_token CHR ''{''" "is_brace_token CHR '',''" "is_brace_token CHR ''}''"
  by (simp_all add: is_brace_token_def)

lemma plain_token: "plain_char = (\<lambda>c. \<not> is_brace_token c \<and> c \<noteq> CHR 0x5C)"
  by (rule ext) (simp add: plain_char_def)

lemma text_token_hd: "\<not> p c \<Longrightarrow> hd (fst (text_token p (c # cs))) = c \<and> fst (text_token p (c # cs)) \<noteq> []"
  by (cases "c = CHR 0x5C"; cases cs) (auto simp: case_prod_beta Let_def)

text \<open>A text that is cut in two gives what the whole text gives, in both functions.\<close>

lemma text_in_two:
  assumes step: "\<And>x s t rest. next_token p s = Some (t, rest) \<Longrightarrow> \<not> p (hd t) \<Longrightarrow> f x s = f (g t x) rest"
    and join: "\<And>t u x. g u (g t x) = g (t @ u) x"
    and plain: "list_all (\<lambda>c. \<not> p c \<and> c \<noteq> CHR 0x5C) s" "s \<noteq> []"
  shows "f x (s @ rest) = f (g s x) rest"
proof -
  let ?tr = "text_token p rest"
  have "\<not> p (hd (s @ fst ?tr))" using plain by (cases s) auto
  note left = step [OF next_token_plain [OF plain, of rest] this, of x]
  show ?thesis
  proof (cases "rest = [] \<or> p (hd rest)")
    case True
    then have "?tr = ([], rest)" by (cases rest) auto
    then show ?thesis using left by simp
  next
    case no: False
    then obtain c cs where c: "rest = c # cs" "\<not> p c" by (cases rest) auto
    have next': "next_token p rest = Some (fst ?tr, snd ?tr)"
      using no next_token_text [of rest p] by simp
    have "\<not> p (hd (fst ?tr))" using c text_token_hd [of p c cs] by simp
    from step [OF next' this] left show ?thesis by (simp add: join)
  qed
qed

lemma expand_alts_lit:
  assumes "list_all plain_char s" "alts \<noteq> []"
  shows "expand_alts alts (s @ rest) = expand_alts (in_last (map (\<lambda>a. a @ s)) alts) rest"
proof (cases "s = []")
  case False
  show ?thesis
  proof (rule text_in_two [where p = is_brace_token and g = "\<lambda>t. in_last (map (\<lambda>a. a @ t))"])
    show "expand_alts alts s = expand_alts (in_last (map (\<lambda>a. a @ t)) alts) rest"
      if "next_token is_brace_token s = Some (t, rest)" "\<not> is_brace_token (hd t)" for alts s t rest
      using that by (auto simp: expand_alts.simps [of alts s] is_brace_token_def)
  qed (use assms(1) False in \<open>simp_all add: in_last_in_last comp_def plain_token\<close>)
qed (use assms(2) in \<open>simp add: in_last_id\<close>)

lemma expand_words_lit:
  assumes "list_all plain_char s"
  shows "expand_words ws (s @ rest) = expand_words (map (\<lambda>a. a @ s) ws) rest"
proof (cases "s = []")
  case False
  show ?thesis
  proof (rule text_in_two [where p = "\<lambda>c. c = CHR ''{''" and g = "\<lambda>t. map (\<lambda>a. a @ t)"])
    show "expand_words ws s = expand_words (map (\<lambda>a. a @ t) ws) rest"
      if "next_token (\<lambda>c. c = CHR ''{'') s = Some (t, rest)" "hd t \<noteq> CHR ''{''" for ws s t rest
      using that by (simp add: expand_words.simps [of ws s])
    show "list_all (\<lambda>c. c \<noteq> CHR ''{'' \<and> c \<noteq> CHR 0x5C) s"
      using assms by (auto simp: list_all_iff plain_char_def is_brace_token_def)
  qed (use False in \<open>simp_all add: comp_def\<close>)
qed (simp add: map_idI)

lemma expand_alts_token:
  "expand_alts alts (CHR ''{'' # s) =
     expand_alts (in_last (\<lambda>l. append_all l (fst (expand_alts [[[]]] s))) alts) (snd (expand_alts [[[]]] s))"
  "expand_alts alts (CHR '','' # s) = expand_alts (alts @ [[[]]]) s"
  "expand_alts alts (CHR ''}'' # s) = (closed_alts alts, s)"
  by (simp_all add: expand_alts.simps [of alts "_ # _"] next_token_def brace_token_chars case_prod_beta)

lemma items_expand:
  assumes "\<And>i alts rest. i \<in> set items \<Longrightarrow> alts \<noteq> [] \<Longrightarrow>
      expand_alts alts (item_text i @ rest) = expand_alts (in_last (\<lambda>l. append_all l (item_words i)) alts) rest"
    and "alts \<noteq> []"
  shows "expand_alts alts (concat (map item_text items) @ rest) =
    expand_alts (in_last (\<lambda>l. append_all l (products (map item_words items))) alts) rest"
  using assms
proof (induction items arbitrary: alts)
  case Nil
  then show ?case by (simp add: in_last_id)
next
  case (Cons i items)
  have "expand_alts alts (concat (map item_text (i # items)) @ rest) =
      expand_alts (in_last (\<lambda>l. append_all l (item_words i)) alts) (concat (map item_text items) @ rest)"
    using Cons.prems by simp
  also have "\<dots> = expand_alts (in_last (\<lambda>l. append_all l (products (map item_words (i # items)))) alts) rest"
    using Cons by (simp add: in_last_in_last append_all_assoc)
  finally show ?case .
qed

lemma group_expand:
  assumes "\<And>items alts rest. items \<in> set groups \<Longrightarrow> alts \<noteq> [] \<Longrightarrow>
      expand_alts alts (concat (map item_text items) @ rest) =
      expand_alts (in_last (\<lambda>l. append_all l (products (map item_words items))) alts) rest"
    and "groups \<noteq> []"
  shows "expand_alts (alts @ [[[]]])
      (join_commas (map (\<lambda>items. concat (map item_text items)) groups) @ CHR ''}'' # rest) =
    (closed_alts (alts @ map (\<lambda>items. products (map item_words items)) groups), rest)"
  using assms
proof (induction groups arbitrary: alts)
  case (Cons g groups)
  note first = Cons.prems(1) [of g "alts @ [[[]]]"]
  show ?case
  proof (cases groups)
    case Nil
    then show ?thesis using first by (simp add: expand_alts_token)
  next
    case (Cons h hs)
    then have "expand_alts (alts @ [[[]]])
        (join_commas (map (\<lambda>items. concat (map item_text items)) (g # groups)) @ CHR ''}'' # rest) =
      expand_alts ((alts @ [products (map item_words g)]) @ [[[]]])
        (join_commas (map (\<lambda>items. concat (map item_text items)) groups) @ CHR ''}'' # rest)"
      using first by (simp add: expand_alts_token)
    also have "\<dots> = (closed_alts ((alts @ [products (map item_words g)]) @
        map (\<lambda>items. products (map item_words items)) groups), rest)"
      by (rule Cons.IH) (use Cons.prems(1) Cons in auto)
    finally show ?thesis by simp
  qed
qed simp

lemma item_expand:
  "valid_item i \<Longrightarrow> alts \<noteq> [] \<Longrightarrow>
   expand_alts alts (item_text i @ rest) = expand_alts (in_last (\<lambda>l. append_all l (item_words i)) alts) rest"
proof (induction i arbitrary: alts rest)
  case (Lit s)
  then show ?case by (simp add: expand_alts_lit append_all_single)
next
  case (Group groups)
  have "expand_alts [[[]]] (join_commas (map (\<lambda>items. concat (map item_text items)) groups) @ CHR ''}'' # rest) =
      (closed_alts (map (\<lambda>items. products (map item_words items)) groups), rest)"
    using group_expand [of groups "[]" rest] items_expand Group.IH Group.prems(1)
    by (force simp: list_all_iff)
  then show ?case using Group.prems(1) by (simp add: expand_alts_token closed_alts_def)
qed

lemma expand_words_items:
  "list_all valid_item items \<Longrightarrow>
   expand_words ws (concat (map item_text items)) = append_all ws (products (map item_words items))"
proof (induction items arbitrary: ws)
  case Nil
  then show ?case by (simp add: expand_words.simps [of ws "[]"] next_token_def)
next
  case (Cons i items)
  show ?case
  proof (cases i)
    case (Group groups)
    let ?gs = "map (\<lambda>items. concat (map item_text items)) groups"
    let ?s = "concat (map item_text items)"
    have "expand_alts [[[]]] (join_commas ?gs @ CHR ''}'' # ?s) =
        (closed_alts (map (\<lambda>items. products (map item_words items)) groups), ?s)"
      using group_expand [of groups "[]" ?s] items_expand item_expand Cons.prems Group
      by (force simp: list_all_iff)
    then have "expand_words ws (concat (map item_text (i # items))) = expand_words (append_all ws (item_words i)) ?s"
      using Group Cons.prems by (simp add: expand_words.simps [of ws "_ # _"] next_token_def closed_alts_def)
    then show ?thesis using Cons by (simp add: append_all_assoc)
  next
    case (Lit s)
    then show ?thesis using Cons by (simp add: expand_words_lit append_all_assoc append_all_single flip: append_all_single)
  qed
qed

text \<open>\<open>expand\<close> gives the words of a brace expression, in order.\<close>

lemma expand_items:
  "list_all valid_item items \<Longrightarrow> expand (concat (map item_text items)) = products (map item_words items)"
  by (simp add: expand_def expand_words_items)

section \<open>Ranges\<close>

text \<open>What \<open>-?[0-9]+\<close> matches at the start of a string.\<close>

definition scan_int :: "string \<Rightarrow> (string \<times> string) option" where
  "scan_int s =
     (let sign = (if take 1 s = ''-'' then ''-'' else []);
          r = drop (length sign) s;
          ds = takeWhile is_digit r
      in if ds = [] then None else Some (sign @ ds, drop (length ds) r))"

text \<open>The integers between two braces, with two dots between them, and what follows the closing one.\<close>

fun scan_ints :: "nat \<Rightarrow> string \<Rightarrow> (string list \<times> string) option" where
  "scan_ints n s =
     (case scan_int s of
        None \<Rightarrow> None
      | Some (i, rest) \<Rightarrow>
          (case n of
             0 \<Rightarrow> None
           | Suc 0 \<Rightarrow> (if take 1 rest = ''}'' then Some ([i], drop 1 rest) else None)
           | Suc k \<Rightarrow>
               (if take 2 rest = ''..'' then map_option (\<lambda>(is, r). (i # is, r)) (scan_ints k (drop 2 rest))
                else None)))"

declare scan_ints.simps [simp del]

definition scan_range :: "nat \<Rightarrow> string \<Rightarrow> (string list \<times> string) option" where
  "scan_range n s = (if take 1 s = ''{'' then scan_ints n (drop 1 s) else None)"

datatype 'a piece = Kept char | Found 'a string

text \<open>The matches that the iterator finds, from left to right, and the characters between them.\<close>

fun pieces_of :: "(string \<Rightarrow> ('a \<times> string) option) \<Rightarrow> nat \<Rightarrow> string \<Rightarrow> 'a piece list" where
  "pieces_of scan n [] = []"
| "pieces_of scan 0 s = map Kept s"
| "pieces_of scan (Suc n) (c # cs) =
     (case scan (c # cs) of
        Some (x, rest) \<Rightarrow>
          Found x (take (length (c # cs) - length rest) (c # cs)) # pieces_of scan n rest
      | None \<Rightarrow> Kept c # pieces_of scan n cs)"

definition matches_in :: "(string \<Rightarrow> ('a \<times> string) option) \<Rightarrow> string \<Rightarrow> 'a piece list" where
  "matches_in scan s = pieces_of scan (length s) s"

text \<open>\<open>std::stoi\<close> on a text that the expression matched.\<close>

definition stoi :: "string \<Rightarrow> int res" where
  "stoi s = (case lexical_to_int s of Some n \<Rightarrow> Ok n | None \<Rightarrow> Err Out_of_range)"

fun read_piece :: "string list piece \<Rightarrow> int list piece res" where
  "read_piece (Kept c) = Ok (Kept c)"
| "read_piece (Found ss s) = res_map (\<lambda>ns. Found ns s) (map_res stoi ss)"

text \<open>The loops that write the numbers; \<open>v\<close> is wide enough to be an integer.\<close>

partial_function (option) count_loop :: "int \<Rightarrow> int \<Rightarrow> int \<Rightarrow> string \<Rightarrow> string option" where
  "count_loop v stop inc rep =
     (if v \<le> stop then count_loop (v + inc) stop inc (rep @ int_to_string v @ '','') else Some rep)"

definition close_words :: "string \<Rightarrow> string \<Rightarrow> string" where
  "close_words orig rep = (if last rep = CHR '','' then butlast rep @ ''}'' else orig)"

fun triple_text :: "int list piece \<Rightarrow> string option" where
  "triple_text (Kept c) = Some [c]"
| "triple_text (Found ns orig) =
     (let a = min (ns ! 0) (ns ! 1); b = max (ns ! 0) (ns ! 1); inc = ns ! 2
      in if inc = 0 then Some orig
         else if inc > 0 then map_option (close_words orig) (count_loop a b inc ''{'')
         else map_option (close_words orig) (count_loop b a inc ''{''))"

fun double_text :: "int list piece \<Rightarrow> string option" where
  "double_text (Kept c) = Some [c]"
| "double_text (Found ns orig) =
     (let a = min (ns ! 0) (ns ! 1); b = max (ns ! 0) (ns ! 1)
      in if b = a then Some (int_to_string a)
         else map_option (close_words orig) (count_loop a b 1 ''{''))"

definition replace_ranges :: "nat \<Rightarrow> (int list piece \<Rightarrow> string option) \<Rightarrow> string \<Rightarrow> string res option" where
  "replace_ranges n f s =
     (case map_res read_piece (matches_in (scan_range n) s) of
        Err e \<Rightarrow> Some (Err e)
      | Ok ps \<Rightarrow> map_option (\<lambda>ts. Ok (concat ts)) (those (map f ps)))"

definition expand_ranges :: "string \<Rightarrow> string res option" where
  "expand_ranges s =
     (case replace_ranges 3 triple_text s of
        Some (Ok t) \<Rightarrow> replace_ranges 2 double_text t
      | r \<Rightarrow> r)"

section \<open>Character classes\<close>

definition is_class_char :: "char \<Rightarrow> bool" where
  "is_class_char c \<longleftrightarrow>
     char_between CHR ''a'' c CHR ''z'' \<or> char_between CHR ''A'' c CHR ''Z'' \<or> is_digit c \<or> c = CHR ''-''"

definition scan_class :: "string \<Rightarrow> (string \<times> string) option" where
  "scan_class s =
     (let cs = takeWhile is_class_char (drop 1 s); rest = drop (length cs + 1) s
      in if take 1 s = ''['' \<and> cs \<noteq> [] \<and> take 1 rest = '']'' then Some (cs, drop 1 rest) else None)"

fun class_codes :: "string \<Rightarrow> nat list" where
  "class_codes (a # b # c # cs) =
     (if b = CHR ''-'' \<and> of_char a < (of_char c :: nat) then [of_char a ..< of_char c + 1] @ class_codes (c # cs)
      else of_char a # class_codes (b # c # cs))"
| "class_codes (a # cs) = of_char a # class_codes cs"
| "class_codes [] = []"

fun class_text :: "string piece \<Rightarrow> string" where
  "class_text (Kept c) = [c]"
| "class_text (Found cs orig) =
     close_words orig
       (CHR ''{'' # concat (map (\<lambda>i. [char_of i, CHR '','']) (filter (\<lambda>i. i \<in> set (class_codes cs)) [0..<128])))"

definition canonicalize_str :: "string \<Rightarrow> string res option" where
  "canonicalize_str s =
     expand_ranges
       (concat (map class_text (matches_in scan_class (map (\<lambda>c. if c = CHR ''|'' then CHR '','' else c) s))))"

section \<open>Creating the nodes\<close>

fun create_each :: "bool \<Rightarrow> 'p node \<Rightarrow> string list \<Rightarrow> ('p node \<times> event list \<times> nat list list) res" where
  "create_each ct n [] = Ok (n, [], [])"
| "create_each ct n (a # as) =
     res_bind (create_node ct n a)
       (\<lambda>(m, evs, p). res_map (\<lambda>(m', evs', ps). (m', evs @ evs', p # ps)) (create_each ct m as))"

definition create_nodes ::
  "bool \<Rightarrow> 'p node \<Rightarrow> string \<Rightarrow> ('p node \<times> event list \<times> nat list list) res option" where
  "create_nodes ct n pattern =
     (if is_brace_expansion pattern then
        map_option (\<lambda>r. res_bind r (\<lambda>s. create_each ct n (expand s))) (canonicalize_str pattern)
      else Some (create_each ct n [pattern]))"

section \<open>What the ranges expand to\<close>

text \<open>The list of words that a list of numbers stands for.\<close>

definition count_text :: "int list \<Rightarrow> string" where
  "count_text ns = concat (map (\<lambda>n. int_to_string n @ '','') ns)"

definition steps_to :: "int \<Rightarrow> int \<Rightarrow> int \<Rightarrow> int list" where
  "steps_to v stop inc = (if v \<le> stop then map (\<lambda>k. v + int k * inc) [0..<nat ((stop - v) div inc) + 1] else [])"

lemma steps_to_step:
  assumes "0 < inc" "v \<le> stop"
  shows "steps_to v stop inc = v # steps_to (v + inc) stop inc"
proof (cases "v + inc \<le> stop")
  case True
  have "(stop - v) div inc = (stop - (v + inc)) div inc + 1"
    using assms div_add_self2 [of inc "stop - (v + inc)"] by (simp add: algebra_simps)
  moreover have "0 \<le> (stop - (v + inc)) div inc"
    using assms True by (simp add: pos_imp_zdiv_nonneg_iff)
  ultimately have "nat ((stop - v) div inc) + 1 = Suc (nat ((stop - (v + inc)) div inc) + 1)"
    by simp
  then show ?thesis
    using assms True
    by (simp add: steps_to_def upt_conv_Cons map_Suc_upt [symmetric] algebra_simps del: upt_Suc)
next
  case False
  then have "(stop - v) div inc = 0" using assms by (simp add: div_pos_pos_trivial)
  then show ?thesis using assms False by (simp add: steps_to_def)
qed

text \<open>The loop ends when it counts upwards, with one number per turn.\<close>

lemma count_loop_up:
  assumes "0 < inc"
  shows "count_loop v stop inc rep = Some (rep @ count_text (steps_to v stop inc))"
proof (induction "nat (stop - v + 1)" arbitrary: v rep rule: less_induct)
  case less
  show ?case
  proof (cases "v \<le> stop")
    case True
    then show ?thesis
      using less [of "v + inc" "rep @ int_to_string v @ '',''"] assms
      by (simp add: count_loop.simps [of v] steps_to_step count_text_def)
  next
    case False
    then show ?thesis by (simp add: count_loop.simps [of v] steps_to_def count_text_def)
  qed
qed

text \<open>It does not end when it counts downwards from a number that is not above the last one.\<close>

lemma count_loop_result: "count_loop v stop inc rep = Some s \<Longrightarrow> inc \<le> 0 \<longrightarrow> stop < v"
  by (erule count_loop.raw_induct [where P = "\<lambda>v stop inc rep s. inc \<le> 0 \<longrightarrow> stop < v", rotated])
    (fastforce split: if_splits)

lemma count_loop_down:
  assumes "inc \<le> 0" "v \<le> stop"
  shows "count_loop v stop inc rep = None"
  using count_loop_result [of v stop inc rep] assms by (cases "count_loop v stop inc rep") auto

lemma close_count:
  "ns \<noteq> [] \<Longrightarrow> close_words orig (CHR ''{'' # count_text ns) = CHR ''{'' # join_commas (map int_to_string ns) @ ''}''"
proof -
  assume "ns \<noteq> []"
  then have "count_text ns = join_commas (map int_to_string ns) @ '',''"
    by (induction ns rule: list_nonempty_induct) (auto simp: count_text_def neq_Nil_conv)
  then show ?thesis by (simp add: close_words_def butlast_append)
qed

lemma int_to_string_shape:
  obtains ds where "int_to_string n = (if n < 0 then ''-'' else []) @ ds" "ds \<noteq> []" "digits ds"
  using put_loop_spec [of "\<bar>n\<bar>" "[]"] that [of "put_loop \<bar>n\<bar> []"]
  by (cases "n < 0") (auto simp: int_to_string_def decimal_def)

lemma scan_int_string:
  assumes "\<forall>c cs. rest = c # cs \<longrightarrow> \<not> is_digit c"
  shows "scan_int (int_to_string n @ rest) = Some (int_to_string n, rest)"
proof -
  obtain ds where ds: "int_to_string n = (if n < 0 then ''-'' else []) @ ds" "ds \<noteq> []" "digits ds"
    by (rule int_to_string_shape)
  have "takeWhile is_digit rest = []" using assms by (cases rest) auto
  then have "takeWhile is_digit (ds @ rest) = ds" using ds(3) by (simp add: list_all_iff takeWhile_append2)
  moreover have "take 1 (ds @ rest) \<noteq> ''-''" using ds(2,3) by (cases ds) auto
  ultimately show ?thesis using ds by (auto simp: scan_int_def Let_def)
qed

definition range2 :: "int \<Rightarrow> int \<Rightarrow> string" where
  "range2 a b = ''{'' @ int_to_string a @ ''..'' @ int_to_string b @ ''}''"

definition range3 :: "int \<Rightarrow> int \<Rightarrow> int \<Rightarrow> string" where
  "range3 a b c = ''{'' @ int_to_string a @ ''..'' @ int_to_string b @ ''..'' @ int_to_string c @ ''}''"

definition words_of :: "int list \<Rightarrow> string" where
  "words_of ns = ''{'' @ join_commas (map int_to_string ns) @ ''}''"

lemma scan_marks [simp]: "\<not> is_digit CHR ''.''" "\<not> is_digit CHR ''}''" "\<not> is_digit CHR '',''"
  by (simp_all add: is_digit_def char_code_def)

lemma scan_ints_step:
  "scan_ints (Suc (Suc n)) (int_to_string a @ CHR ''.'' # CHR ''.'' # rest) =
     map_option (\<lambda>(is, r). (int_to_string a # is, r)) (scan_ints (Suc n) rest)"
  "scan_ints (Suc 0) (int_to_string a @ CHR ''}'' # rest) = Some ([int_to_string a], rest)"
  "scan_ints (Suc (Suc n)) (int_to_string a @ CHR ''}'' # rest) = None"
  "scan_ints (Suc 0) (int_to_string a @ CHR ''.'' # rest) = None"
  "scan_ints (Suc n) (int_to_string a @ CHR '','' # rest) = None"
  by (simp_all add: scan_ints.simps [of _ "int_to_string a @ _"] scan_int_string split: nat.split)

lemma pieces_skip:
  "CHR ''{'' \<notin> set s \<Longrightarrow> pieces_of (scan_range k) (length s + n) (s @ rest) = map Kept s @ pieces_of (scan_range k) n rest"
  by (induction s) (auto simp: scan_range_def)

lemma pieces_none:
  "CHR ''{'' \<notin> set s \<Longrightarrow> length s \<le> n \<Longrightarrow> pieces_of (scan_range k) n s = map Kept s"
  using pieces_skip [of s k "n - length s" "[]"] by simp

lemma pieces_found:
  assumes "scan_range k (c # cs @ rest) = Some (x, rest)" "CHR ''{'' \<notin> set rest"
  shows "pieces_of (scan_range k) (Suc (length cs + length rest)) (c # cs @ rest) =
    Found x (c # cs) # map Kept rest"
  using assms by (simp add: pieces_none)

lemma pieces_left:
  assumes "scan_range k (c # cs) = None" "CHR ''{'' \<notin> set cs"
  shows "pieces_of (scan_range k) (Suc (length cs)) (c # cs) = map Kept (c # cs)"
  using assms by (simp add: pieces_none)

text \<open>The matches in a text with one range between two texts without an opening brace.\<close>

lemma matches_one:
  assumes "scan_range k (c # cs @ post) = Some (x, post)" "CHR ''{'' \<notin> set pre" "CHR ''{'' \<notin> set post"
  shows "matches_in (scan_range k) (pre @ c # cs @ post) = map Kept pre @ Found x (c # cs) # map Kept post"
  using pieces_skip [OF assms(2), of k "Suc (length cs + length post)" "c # cs @ post"]
    pieces_found [OF assms(1,3)]
  by (simp add: matches_in_def)

lemma matches_none:
  assumes "scan_range k (c # cs @ post) = None" "CHR ''{'' \<notin> set pre" "CHR ''{'' \<notin> set (cs @ post)"
  shows "matches_in (scan_range k) (pre @ c # cs @ post) = map Kept (pre @ c # cs @ post)"
  using pieces_skip [OF assms(2), of k "Suc (length (cs @ post))" "c # cs @ post"]
    pieces_left [OF assms(1,3)]
  by (simp add: matches_in_def)

lemma map_res_kept: "map_res read_piece (map Kept s) = Ok (map Kept s)"
  by (induction s) auto

lemma map_res_kept_append:
  "map_res read_piece (map Kept s @ ps) = res_map (\<lambda>qs. map Kept s @ qs) (map_res read_piece ps)"
  by (induction s; cases "map_res read_piece ps") auto

lemma those_singles: "those (map (\<lambda>c. Some [c]) s) = Some (map (\<lambda>c. [c]) s)"
  by (induction s) auto

lemma those_singles_append:
  "those (map (\<lambda>c. Some [c]) s @ ys) = map_option (\<lambda>b. map (\<lambda>c. [c]) s @ b) (those ys)"
  by (induction s; cases "those ys") auto

lemma replace_ranges_none:
  assumes "matches_in (scan_range k) s = map Kept s" "\<And>c. f (Kept c) = Some [c]"
  shows "replace_ranges k f s = Some (Ok s)"
  using assms by (simp add: replace_ranges_def map_res_kept comp_def those_singles)

lemma replace_ranges_one:
  assumes "matches_in (scan_range k) s = map Kept pre @ Found (map int_to_string ns) orig # map Kept post"
    and "\<And>c. f (Kept c) = Some [c]" "list_all in_i32 ns"
  shows "replace_ranges k f s = map_option (\<lambda>t. Ok (pre @ t @ post)) (f (Found ns orig))"
proof -
  have "map_res stoi (map int_to_string ns) = Ok ns"
    using assms(3) by (induction ns) (auto simp: stoi_def lexical_roundtrip)
  then show ?thesis
    using assms(1,2)
    by (cases "f (Found ns orig)")
      (simp_all add: replace_ranges_def map_res_kept_append map_res_kept those_singles_append those_singles comp_def)
qed

lemma no_brace_int [simp]: "CHR ''{'' \<notin> set (int_to_string n)"
proof
  assume "CHR ''{'' \<in> set (int_to_string n)"
  from int_to_string_chars [OF this] show False by (simp add: is_digit_def char_code_def)
qed

lemma no_brace_words [simp]: "CHR ''{'' \<notin> set (join_commas (map int_to_string ns))"
  by (induction ns rule: induct_list012) auto

lemma range_scans:
  "scan_range 3 (range2 a b @ post) = None"
  "scan_range 2 (range2 a b @ post) = Some (map int_to_string [a, b], post)"
  "scan_range 3 (range3 a b c @ post) = Some (map int_to_string [a, b, c], post)"
  "scan_range 2 (range3 a b c @ post) = None"
  by (simp_all add: scan_range_def range2_def range3_def scan_ints_step numeral_eq_Suc)

lemma words_scan: "ns \<noteq> [] \<Longrightarrow> scan_range 2 (words_of ns @ post) = None"
  by (cases ns rule: remdups_adj.cases)
    (simp_all add: scan_range_def words_of_def scan_ints_step numeral_eq_Suc)

lemma range_shapes:
  obtains cs where "range2 a b = CHR ''{'' # cs" "CHR ''{'' \<notin> set cs"
  by (simp add: range2_def)

lemma range3_shape:
  obtains cs where "range3 a b c = CHR ''{'' # cs" "CHR ''{'' \<notin> set cs"
  by (simp add: range3_def)

lemma words_shape:
  obtains cs where "words_of ns = CHR ''{'' # cs" "CHR ''{'' \<notin> set cs"
  by (simp add: words_of_def)

definition no_brace :: "string \<Rightarrow> bool" where
  "no_brace s \<longleftrightarrow> CHR ''{'' \<notin> set s"

lemma replace_kept:
  assumes "\<And>c. f (Kept c) = Some [c]" "scan_range k (s @ post) = None" "s = CHR ''{'' # cs" "no_brace cs"
    and "no_brace pre" "no_brace post"
  shows "replace_ranges k f (pre @ s @ post) = Some (Ok (pre @ s @ post))"
  using matches_none [of k "CHR ''{''" cs post pre] assms
  by (intro replace_ranges_none) (auto simp: no_brace_def)

lemma replace_found:
  assumes "\<And>c. f (Kept c) = Some [c]" "scan_range k (s @ post) = Some (map int_to_string ns, post)"
    and "s = CHR ''{'' # cs" "list_all in_i32 ns" "no_brace pre" "no_brace post"
  shows "replace_ranges k f (pre @ s @ post) = map_option (\<lambda>t. Ok (pre @ t @ post)) (f (Found ns s))"
  using matches_one [of k "CHR ''{''" cs post "map int_to_string ns" pre] assms
  by (intro replace_ranges_one) (auto simp: no_brace_def)

lemma steps_nonempty: "v \<le> stop \<Longrightarrow> steps_to v stop inc \<noteq> []"
  by (simp add: steps_to_def)

lemma count_words:
  assumes "0 < inc" "v \<le> stop"
  shows "map_option (close_words orig) (count_loop v stop inc ''{'') = Some (words_of (steps_to v stop inc))"
  using close_count [OF steps_nonempty [OF assms(2)], of orig inc] assms
  by (simp add: count_loop_up words_of_def)

text \<open>
  A range of two numbers becomes the list of all the numbers from the smaller to the larger one; a
  range of a number to itself becomes that number, without braces.
\<close>

lemma expand_ranges_double:
  assumes "in_i32 a" "in_i32 b" "no_brace pre" "no_brace post"
  shows "expand_ranges (pre @ range2 a b @ post) =
    Some (Ok (pre @ (if a = b then int_to_string a else words_of (steps_to (min a b) (max a b) 1)) @ post))"
proof -
  obtain cs where cs: "range2 a b = CHR ''{'' # cs" "no_brace cs"
    by (rule range_shapes [of a b]) (simp add: no_brace_def)
  have "replace_ranges 3 triple_text (pre @ range2 a b @ post) = Some (Ok (pre @ range2 a b @ post))"
    using cs assms by (intro replace_kept range_scans) auto
  moreover have "replace_ranges 2 double_text (pre @ range2 a b @ post) =
      map_option (\<lambda>t. Ok (pre @ t @ post)) (double_text (Found [a, b] (range2 a b)))"
    using cs assms by (intro replace_found [OF _ range_scans(2)]) auto
  ultimately show ?thesis
    using count_words [of 1 "min a b" "max a b" "range2 a b"]
    by (auto simp: expand_ranges_def Let_def min_def max_def)
qed

text \<open>
  With a positive step the numbers are those of the step; with a negative one the text stays as it
  is, or the loop has no end, which is the case when both numbers are the same.
\<close>

lemma expand_ranges_triple:
  assumes "in_i32 a" "in_i32 b" "in_i32 c" "no_brace pre" "no_brace post"
  shows "expand_ranges (pre @ range3 a b c @ post) =
    (if c > 0 then Some (Ok (pre @ words_of (steps_to (min a b) (max a b) c) @ post))
     else if c < 0 \<and> a = b then None
     else Some (Ok (pre @ range3 a b c @ post)))"
proof -
  let ?ws = "steps_to (min a b) (max a b) c"
  obtain cs where cs: "range3 a b c = CHR ''{'' # cs" "no_brace cs"
    by (rule range3_shape [of a b c]) (simp add: no_brace_def)
  obtain ds where ds: "words_of ?ws = CHR ''{'' # ds" "no_brace ds"
    by (rule words_shape [of ?ws]) (simp add: no_brace_def)
  have first: "replace_ranges 3 triple_text (pre @ range3 a b c @ post) =
      map_option (\<lambda>t. Ok (pre @ t @ post)) (triple_text (Found [a, b, c] (range3 a b c)))"
    using cs assms by (intro replace_found [OF _ range_scans(3)]) auto
  have kept: "replace_ranges 2 double_text (pre @ range3 a b c @ post) = Some (Ok (pre @ range3 a b c @ post))"
    using cs assms by (intro replace_kept range_scans) auto
  have "replace_ranges 2 double_text (pre @ words_of ?ws @ post) = Some (Ok (pre @ words_of ?ws @ post))"
    using ds assms steps_nonempty [of "min a b" "max a b"] by (intro replace_kept words_scan) auto
  with first kept show ?thesis
    using count_words [of c "min a b" "max a b" "range3 a b c"]
      count_loop_down [of c "max a b" "min a b" "''{''"]
      count_loop.simps [of "max a b" "min a b" c "''{''"]
    by (auto simp: expand_ranges_def Let_def min_def max_def close_words_def split: if_splits)
qed

text \<open>
  One new node for each address: the nodes are different from each other and from the nodes there
  were, which keep their places.
\<close>

lemma create_each_spec:
  "create_each ct n as = Ok (m, evs, ps) \<Longrightarrow>
   length ps = length as \<and> distinct ps \<and> (\<forall>p\<in>set ps. node_at n p = None \<and> node_at m p \<noteq> None) \<and>
   enlarged n m \<and> (wf_tree n \<longrightarrow> wf_tree m) \<and> node_count m = node_count n + length evs"
proof (induction ct n as arbitrary: m evs ps rule: create_each.induct)
  case (2 ct n a as)
  obtain k evs1 p evs2 ps' where k: "create_node ct n a = Ok (k, evs1, p)"
    and rest: "create_each ct k as = Ok (m, evs2, ps')" "evs = evs1 @ evs2" "ps = p # ps'"
    using "2.prems" by auto
  note IH = "2.IH" [OF k refl refl rest(1)]
  note new = create_node_fresh [OF k] and gr = create_node_enlarged [OF k]
  have "node_at k p \<noteq> None" using new by auto
  then have "p \<notin> set ps'" "node_at m p \<noteq> None" using IH enlarged_at [of k m p] by auto
  moreover have "\<forall>q\<in>set ps'. node_at n q = None" using IH enlarged_at [OF gr] by metis
  ultimately show ?case
    using IH rest new create_node_count [OF k] enlarged_trans [OF gr] by auto
qed simp

lemma create_nodes_plain: "\<not> is_brace_expansion s \<Longrightarrow> create_nodes ct n s = Some (create_each ct n [s])"
  by (simp add: create_nodes_def)

lemma create_nodes_Ok:
  assumes "create_nodes ct n s = Some (Ok (m, evs, ps))"
  obtains as where "create_each ct n as = Ok (m, evs, ps)"
  using assms that by (fastforce simp: create_nodes_def simp del: create_each.simps split: if_splits)

text \<open>A class of one range becomes the list of its characters.\<close>

lemma filter_range: "b < n \<Longrightarrow> filter (\<lambda>i. i \<in> {a..b}) [0..<n] = [a..<Suc b]"
proof -
  assume "b < n"
  have "set (filter (\<lambda>i. i \<in> {a..b}) [0..<n]) = set [a..<Suc b]" using \<open>b < n\<close> by auto
  moreover have "sorted (filter (\<lambda>i. i \<in> {a..b}) [0..<n])" by (simp add: sorted_wrt_filter)
  ultimately show ?thesis by (metis distinct_filter distinct_upt sorted_distinct_set_unique sorted_upt)
qed

lemma close_list:
  "ws \<noteq> [] \<Longrightarrow> close_words orig (CHR ''{'' # concat (map (\<lambda>w. w @ '','') ws)) = CHR ''{'' # join_commas ws @ ''}''"
proof -
  assume "ws \<noteq> []"
  then have "concat (map (\<lambda>w. w @ '','') ws) = join_commas ws @ '',''"
    by (induction ws rule: list_nonempty_induct) (auto simp: neq_Nil_conv)
  then show ?thesis by (simp add: close_words_def butlast_append)
qed

lemma class_range:
  assumes "of_char a < (of_char b :: nat)" "of_char b < (128 :: nat)"
  shows "class_text (Found [a, CHR ''-'', b] orig) =
    CHR ''{'' # join_commas (map (\<lambda>i. [char_of i]) [of_char a ..< Suc (of_char b)]) @ ''}''"
proof -
  have "set (class_codes [a, CHR ''-'', b]) = {of_char a .. of_char b}" using assms(1) by auto
  then have "filter (\<lambda>i. i \<in> set (class_codes [a, CHR ''-'', b])) [0..<128] = [of_char a ..< Suc (of_char b)]"
    using filter_range [OF assms(2), of "of_char a"] by simp
  then show ?thesis
    using close_list [of "map (\<lambda>i. [char_of i]) [of_char a ..< Suc (of_char b)]" orig] assms(1)
    by (simp add: comp_def)
qed

end
