(* ===== verification/Path.thy ===== *)
theory Path
  imports Brace_Expansion
begin

text \<open>
  Paths with patterns: \<open>network/common/path.cpp\<close>, with \<open>get_address_scope\<close> and \<open>find_nodes\<close> of
  \<open>network/base/node_functions.cpp\<close>. A node is the list of the positions that lead to it from the
  root of its device. The compiler of \<open>std::regex\<close> and \<open>std::regex_match\<close> are arguments of the
  definitions; the cache of compiled expressions is a state that the construction of a path passes
  on. A path whose ranges never end to be written is \<open>None\<close>, one that raises an exception an error.
\<close>

section \<open>Traversals\<close>

datatype 'rx step =
    Parent_step
  | All_step
  | Name_is string
  | Name_matches 'rx
  | Device_is string
  | Device_matches 'rx

definition parent_of :: "nat list \<Rightarrow> nat list option" where
  "parent_of p = (if p = [] then None else Some (butlast p))"

text \<open>\<open>get_parent\<close>: the parents that were not yet inserted, in order.\<close>

fun parents_loop :: "nat list list \<Rightarrow> nat list list \<Rightarrow> nat list list" where
  "parents_loop vec [] = vec"
| "parents_loop vec (p # ps) =
     parents_loop (case parent_of p of None \<Rightarrow> vec | Some q \<Rightarrow> if q \<in> set vec then vec else vec @ [q]) ps"

definition get_parent :: "nat list list \<Rightarrow> nat list list" where
  "get_parent vec = parents_loop [] vec"

text \<open>
  \<open>get_all_children_rec\<close> appends, for each node, its children and what the same function appends to
  these; nothing is put in \<open>inserted\<close>. The places are counted from the node.
\<close>

primrec children_rec :: "'p node \<Rightarrow> nat list list" where
  "children_rec (Node s p cs) =
     map (\<lambda>i. [i]) [0..<length cs] @
     concat (map (\<lambda>(i, qs). map (Cons i) qs) (zip [0..<length cs] (map children_rec cs)))"

definition nodes_below :: "'p node \<Rightarrow> nat list \<Rightarrow> nat list list" where
  "nodes_below device p = (case node_at device p of Some n \<Rightarrow> map (\<lambda>q. p @ q) (children_rec n) | None \<Rightarrow> [])"

definition get_all_children :: "'p node \<Rightarrow> nat list list \<Rightarrow> nat list list" where
  "get_all_children device vec = vec @ concat (map (nodes_below device) vec)"

definition match_device :: "(string \<Rightarrow> bool) \<Rightarrow> 'p node \<Rightarrow> nat list list \<Rightarrow> nat list list" where
  "match_device ok device vec = filter (\<lambda>_. ok (node_name device)) vec"

definition children_where :: "(string \<Rightarrow> bool) \<Rightarrow> 'p node \<Rightarrow> nat list \<Rightarrow> nat list list" where
  "children_where ok device p =
     (case node_at device p of
        Some n \<Rightarrow>
          map (\<lambda>i. p @ [i]) (filter (\<lambda>i. ok (node_name (node_children n ! i))) [0..<length (node_children n)])
      | None \<Rightarrow> [])"

definition match_children :: "(string \<Rightarrow> bool) \<Rightarrow> 'p node \<Rightarrow> nat list list \<Rightarrow> nat list list" where
  "match_children ok device vec = concat (map (children_where ok device) vec)"

fun apply_step :: "('rx \<Rightarrow> string \<Rightarrow> bool) \<Rightarrow> 'p node \<Rightarrow> 'rx step \<Rightarrow> nat list list \<Rightarrow> nat list list" where
  "apply_step matches device Parent_step vec = get_parent vec"
| "apply_step matches device All_step vec = get_all_children device vec"
| "apply_step matches device (Name_is s) vec = match_children (\<lambda>t. t = s) device vec"
| "apply_step matches device (Name_matches r) vec = match_children (matches r) device vec"
| "apply_step matches device (Device_is s) vec = match_device (\<lambda>t. t = s) device vec"
| "apply_step matches device (Device_matches r) vec = match_device (matches r) device vec"

definition apply_path ::
  "('rx \<Rightarrow> string \<Rightarrow> bool) \<Rightarrow> 'p node \<Rightarrow> 'rx step list \<Rightarrow> nat list list \<Rightarrow> nat list list" where
  "apply_path matches device steps vec = fold (apply_step matches device) steps vec"

section \<open>From a pattern to a regular expression\<close>

definition name_characters :: string where
  "name_characters = ''a-zA-Z0-9_~(): .-''"

definition name_characters_no_instance :: string where
  "name_characters_no_instance = ''a-zA-Z0-9_~(): -''"

definition instance_regex :: string where
  "instance_regex = ''('' @ [CHR 0x5C, CHR ''.'', CHR ''[''] @ name_characters_no_instance @ '']+)?''"

definition regex_char :: "char \<Rightarrow> string" where
  "regex_char c =
     (if c = CHR ''('' then [CHR 0x5C, CHR ''(''] else if c = CHR '')'' then [CHR 0x5C, CHR '')'']
      else if c = CHR ''{'' then ''('' else if c = CHR ''}'' then '')''
      else if c = CHR '','' then ''|''
      else if c = CHR ''?'' then ''['' @ name_characters @ '']?''
      else if c = CHR ''*'' then ''['' @ name_characters @ '']*''
      else if c = CHR ''!'' then instance_regex
      else [c])"

definition regex_text :: "string \<Rightarrow> string" where
  "regex_text part = ''^'' @ concat (map regex_char part) @ ''$''"

definition make_regex :: "(string \<Rightarrow> 'rx option) \<Rightarrow> string \<Rightarrow> 'rx res option" where
  "make_regex compile part =
     map_option (\<lambda>r. res_bind r (\<lambda>s.
         case compile (regex_text s) of Some rx \<Rightarrow> Ok rx | None \<Rightarrow> Err Bad_regex))
       (expand_ranges part)"

definition is_regex :: "string \<Rightarrow> bool" where
  "is_regex s \<longleftrightarrow> list_ex (\<lambda>c. c \<in> set ''({[*?^$/.,!'' \<or> c = CHR 0x5C) s"

definition is_pattern :: "string \<Rightarrow> bool" where
  "is_pattern address \<longleftrightarrow> take 2 address = ''//'' \<or> list_ex (\<lambda>c. c \<in> set ''?*[]{}!'') address"

section \<open>Construction of a path\<close>

datatype address_scope = Relative | Absolute | Global

definition get_address_scope :: "string \<Rightarrow> address_scope" where
  "get_address_scope addr =
     (let first_slash = length (first_part addr)
      in if take 2 addr = ''//'' then Relative
         else if take 1 addr = ''/'' then Absolute
         else if first_slash < length addr \<and> first_slash > 1 \<and> addr ! (first_slash - 1) = CHR '':'' then Global
         else Relative)"

record 'rx path =
  path_address :: string
  path_scope :: address_scope
  child_functions :: "'rx step list"

type_synonym 'rx cache = "string \<Rightarrow> 'rx option"

text \<open>The expression for a part of an address, from the cache or put there.\<close>

definition cached_regex ::
  "(string \<Rightarrow> 'rx option) \<Rightarrow> 'rx cache \<Rightarrow> string \<Rightarrow> ('rx cache \<times> 'rx res) option" where
  "cached_regex compile cache part =
     (case cache part of
        Some r \<Rightarrow> Some (cache, Ok r)
      | None \<Rightarrow>
          map_option (\<lambda>r. case r of Ok rx \<Rightarrow> (cache(part \<mapsto> rx), Ok rx) | Err e \<Rightarrow> (cache, Err e))
            (make_regex compile part))"

definition add_device_part ::
  "(string \<Rightarrow> 'rx option) \<Rightarrow> 'rx cache \<Rightarrow> string \<Rightarrow> ('rx cache \<times> 'rx step res) option" where
  "add_device_part compile cache part =
     (if \<not> is_regex part then Some (cache, Ok (Device_is part))
      else map_option (\<lambda>(c, r). (c, res_map Device_matches r)) (cached_regex compile cache part))"

definition add_relative_path ::
  "(string \<Rightarrow> 'rx option) \<Rightarrow> 'rx cache \<Rightarrow> string \<Rightarrow> ('rx cache \<times> 'rx step res) option" where
  "add_relative_path compile cache part =
     (if part = ''..'' then Some (cache, Ok Parent_step)
      else if \<not> is_regex part then Some (cache, Ok (Name_is part))
      else map_option (\<lambda>(c, r). (c, res_map Name_matches r)) (cached_regex compile cache part))"

text \<open>Each part adds a function to the path; an exception leaves the rest.\<close>

fun add_simple_address ::
  "(string \<Rightarrow> 'rx option) \<Rightarrow> 'rx cache \<Rightarrow> string list \<Rightarrow> ('rx cache \<times> 'rx step list res) option" where
  "add_simple_address compile cache [] = Some (cache, Ok [])"
| "add_simple_address compile cache (part # parts) =
     (case add_relative_path compile cache part of
        None \<Rightarrow> None
      | Some (c, Err e) \<Rightarrow> Some (c, Err e)
      | Some (c, Ok step) \<Rightarrow>
          map_option (\<lambda>(c', r). (c', res_map (Cons step) r)) (add_simple_address compile c parts))"

definition add_address ::
  "(string \<Rightarrow> 'rx option) \<Rightarrow> 'rx cache \<Rightarrow> string \<Rightarrow> ('rx cache \<times> 'rx step list res) option" where
  "add_address compile cache address =
     (if take 2 address = ''//'' then
        map_option (\<lambda>(c, r). (c, res_map (Cons All_step) r))
          (add_simple_address compile cache (address_parts (drop 2 address)))
      else add_simple_address compile cache (address_parts address))"

definition path_steps ::
  "(string \<Rightarrow> 'rx option) \<Rightarrow> 'rx cache \<Rightarrow> string \<Rightarrow> ('rx cache \<times> 'rx step list res) option" where
  "path_steps compile cache address =
     (if address = [] then Some (cache, Ok [])
      else case get_address_scope address of
        Relative \<Rightarrow> add_address compile cache address
      | Absolute \<Rightarrow> add_address compile cache address
      | Global \<Rightarrow>
          (let start = length (first_part address)
           in case add_device_part compile cache (take (start - 1) address) of
                None \<Rightarrow> None
              | Some (c, Err e) \<Rightarrow> Some (c, Err e)
              | Some (c, Ok step) \<Rightarrow>
                  map_option (\<lambda>(c', r). (c', res_map (Cons step) r)) (add_address compile c (drop start address))))"

text \<open>\<open>make_path\<close> catches every exception.\<close>

definition make_path ::
  "(string \<Rightarrow> 'rx option) \<Rightarrow> 'rx cache \<Rightarrow> string \<Rightarrow> ('rx cache \<times> 'rx path option) option" where
  "make_path compile cache address =
     map_option (\<lambda>(c, r). (c, case r of
         Ok steps \<Rightarrow> Some \<lparr>path_address = address, path_scope = get_address_scope address, child_functions = steps\<rparr>
       | Err _ \<Rightarrow> None))
       (path_steps compile cache address)"

definition path_matches ::
  "('rx \<Rightarrow> string \<Rightarrow> bool) \<Rightarrow> 'rx path \<Rightarrow> 'p node \<Rightarrow> nat list \<Rightarrow> nat list \<Rightarrow> bool" where
  "path_matches matches p device start node \<longleftrightarrow>
     node \<in> set (apply_path matches device (child_functions p) [start])"

text \<open>\<open>find_nodes\<close> from the node at the place \<open>start\<close>.\<close>

definition find_from :: "'p node \<Rightarrow> nat list \<Rightarrow> string \<Rightarrow> nat list list" where
  "find_from device start address =
     (case node_at device start of
        None \<Rightarrow> []
      | Some n \<Rightarrow> (case find_node n address of Some q \<Rightarrow> [start @ q] | None \<Rightarrow> []))"

definition find_nodes ::
  "(string \<Rightarrow> 'rx option) \<Rightarrow> ('rx \<Rightarrow> string \<Rightarrow> bool) \<Rightarrow> 'rx cache \<Rightarrow> 'p node \<Rightarrow> nat list \<Rightarrow> string \<Rightarrow>
   ('rx cache \<times> nat list list) option" where
  "find_nodes compile matches cache device start pattern =
     (if \<not> is_pattern pattern then Some (cache, find_from device start pattern)
      else map_option (\<lambda>(c, r). (c, case r of
          Some p \<Rightarrow> apply_path matches device (child_functions p) [start]
        | None \<Rightarrow> find_from device start pattern))
        (make_path compile cache pattern))"

section \<open>What the traversals select\<close>

definition valid_refs :: "'p node \<Rightarrow> nat list list \<Rightarrow> bool" where
  "valid_refs device vec \<longleftrightarrow> (\<forall>p\<in>set vec. node_at device p \<noteq> None)"

lemma parents_loop_spec:
  "distinct vec \<Longrightarrow> distinct (parents_loop vec ps) \<and>
   set (parents_loop vec ps) = set vec \<union> butlast ` (set ps - {[]})"
proof (induction vec ps rule: parents_loop.induct)
  case (2 vec p ps)
  show ?case
  proof (cases "p = [] \<or> butlast p \<in> set vec")
    case True
    then show ?thesis using 2 by (auto simp: parent_of_def insert_Diff_if insert_absorb)
  next
    case False
    then show ?thesis using 2 by (auto simp: parent_of_def insert_Diff_if)
  qed
qed simp

lemma get_parent_spec: "distinct (get_parent vec) \<and> set (get_parent vec) = butlast ` (set vec - {[]})"
  using parents_loop_spec [of "[]" vec] by (simp add: get_parent_def)

lemma node_at_append: "node_at n (p @ q) = (case node_at n p of Some m \<Rightarrow> node_at m q | None \<Rightarrow> None)"
  by (induction n p rule: node_at.induct) auto

lemma node_at_butlast: "node_at n p \<noteq> None \<Longrightarrow> node_at n (butlast p) \<noteq> None"
  by (cases p rule: rev_cases) (auto simp: node_at_append split: option.splits)

lemma node_at_snoc:
  "node_at n (p @ [i]) = (case node_at n p of
     Some m \<Rightarrow> if i < length (node_children m) then Some (node_children m ! i) else None | None \<Rightarrow> None)"
  by (simp add: node_at_append split: option.splits)

lemma set_numbered:
  "length xs = length ys \<Longrightarrow> set (zip [0..<length xs] ys) = {(i, ys ! i) | i. i < length xs}"
  by (force simp: set_zip)

lemma children_rec_set: "set (children_rec n) = {q. q \<noteq> [] \<and> node_at n q \<noteq> None}"
proof (induction n)
  case (Node s p cs)
  have *: "q \<in> set (children_rec (Node s p cs)) \<longleftrightarrow>
      (\<exists>i<length cs. q = [i] \<or> (\<exists>r\<in>set (children_rec (cs ! i)). q = i # r))" for q
    by (auto simp: set_numbered)
  have "q \<in> set (children_rec (Node s p cs)) \<longleftrightarrow> q \<noteq> [] \<and> node_at (Node s p cs) q \<noteq> None" for q
  proof (cases q)
    case (Cons i r)
    have "set (children_rec (cs ! i)) = {q. q \<noteq> [] \<and> node_at (cs ! i) q \<noteq> None}" if "i < length cs"
      using Node that by simp
    then show ?thesis unfolding * using Cons by auto
  qed (unfold *, simp)
  then show ?case by blast
qed

lemma distinct_concat_heads:
  assumes "\<And>i. i < length qss \<Longrightarrow> distinct (qss ! i) \<and> [] \<notin> set (qss ! i)"
  shows "distinct (map (\<lambda>i. [i]) [0..<length qss] @ concat (map (\<lambda>(i, qs). map (Cons i) qs) (zip [0..<length qss] qss)))"
  using assms
proof (induction qss rule: rev_induct)
  case (snoc qs qss)
  have "distinct (map (\<lambda>i. [i]) [0..<length qss] @
      concat (map (\<lambda>(i, qs). map (Cons i) qs) (zip [0..<length qss] qss)))"
    using snoc.IH snoc.prems by (metis length_append_singleton less_SucI nth_append)
  moreover have "distinct qs" "[] \<notin> set qs" using snoc.prems [of "length qss"] by auto
  moreover have "[] \<notin> set (qss ! i)" if "i < length qss" for i
    using snoc.prems [of i] that by (simp add: nth_append)
  ultimately show ?case by (auto simp: distinct_map set_numbered dest: set_zip_leftD)
qed simp

lemma children_rec_distinct: "distinct (children_rec n)"
proof (induction n)
  case (Node s p cs)
  have "distinct (children_rec (cs ! i)) \<and> [] \<notin> set (children_rec (cs ! i))" if "i < length cs" for i
    using Node that by (simp add: children_rec_set)
  then show ?case using distinct_concat_heads [of "map children_rec cs"] by simp
qed

text \<open>From the root, \<open>get_all_children\<close> selects each node of the tree once.\<close>

lemma get_all_children_root:
  "distinct (get_all_children device [[]]) \<and> set (get_all_children device [[]]) = {p. node_at device p \<noteq> None}"
  by (auto simp: get_all_children_def nodes_below_def children_rec_set children_rec_distinct distinct_map
      inj_on_def)

lemma children_where_set:
  "set (children_where ok device p) =
     {p @ [i] | i. \<exists>n. node_at device (p @ [i]) = Some n \<and> ok (node_name n)}"
  by (cases "node_at device p") (auto simp: children_where_def node_at_snoc split: if_splits)

lemma match_children_set:
  "set (match_children ok device vec) =
     {p @ [i] | p i. p \<in> set vec \<and> (\<exists>n. node_at device (p @ [i]) = Some n \<and> ok (node_name n))}"
  by (auto simp: match_children_def children_where_set)

lemma match_children_distinct: "distinct vec \<Longrightarrow> distinct (match_children ok device vec)"
proof (induction vec)
  case (Cons p vec)
  have "distinct (children_where ok device p)"
    by (auto simp: children_where_def distinct_map inj_on_def split: option.splits)
  moreover have "set (children_where ok device p) \<inter> set (match_children ok device vec) = {}"
    using Cons.prems by (auto simp: children_where_set match_children_set)
  ultimately show ?case using Cons by (simp add: match_children_def)
qed (simp add: match_children_def)

lemma apply_step_valid: "valid_refs device vec \<Longrightarrow> valid_refs device (apply_step matches device step vec)"
proof (cases step)
  case Parent_step
  assume "valid_refs device vec"
  then show ?thesis using Parent_step get_parent_spec [of vec] node_at_butlast by (fastforce simp: valid_refs_def)
next
  case All_step
  assume "valid_refs device vec"
  then show ?thesis using All_step
    by (fastforce simp: valid_refs_def get_all_children_def nodes_below_def children_rec_set node_at_append
        split: option.splits)
qed (auto simp: valid_refs_def match_children_set match_device_def)

text \<open>A path only leads to nodes of the tree.\<close>

lemma apply_path_valid: "valid_refs device vec \<Longrightarrow> valid_refs device (apply_path matches device steps vec)"
  unfolding apply_path_def
  by (induction steps arbitrary: vec) (auto intro: apply_step_valid)

lemma find_nodes_valid:
  assumes "node_at device start \<noteq> None"
    and "find_nodes compile matches cache device start pattern = Some (c, ps)"
  shows "valid_refs device ps"
proof -
  have "valid_refs device (find_from device start pattern)"
  proof (cases "node_at device start")
    case (Some n)
    show ?thesis
    proof (cases "find_node n pattern")
      case found: (Some q)
      have "node_at n q \<noteq> None"
        using found find_parts_path [of n] by (auto simp: find_node_parts split: if_splits)
      then show ?thesis using Some found by (simp add: find_from_def valid_refs_def node_at_append)
    qed (use Some in \<open>simp add: find_from_def valid_refs_def\<close>)
  qed (use assms(1) in simp)
  moreover have "valid_refs device [start]" using assms(1) by (simp add: valid_refs_def)
  ultimately show ?thesis
    using assms(2) by (auto simp: find_nodes_def apply_path_valid split: if_splits option.splits)
qed

text \<open>Whether a name is accepted by a step that looks for names.\<close>

fun step_accepts :: "('rx \<Rightarrow> string \<Rightarrow> bool) \<Rightarrow> 'rx step \<Rightarrow> string \<Rightarrow> bool" where
  "step_accepts matches (Name_is s) t = (t = s)"
| "step_accepts matches (Name_matches r) t = matches r t"
| "step_accepts matches _ t = False"

fun is_name_step :: "'rx step \<Rightarrow> bool" where
  "is_name_step (Name_is s) = True"
| "is_name_step (Name_matches r) = True"
| "is_name_step _ = False"

lemma apply_name_step: "is_name_step step \<Longrightarrow> apply_step matches device step = match_children (step_accepts matches step) device"
  by (rule ext, cases step) (auto simp: fun_eq_iff intro!: arg_cong2 [where f = "\<lambda>ok. match_children ok device"])

lemma apply_path_simps [simp]:
  "apply_path matches device [] vec = vec"
  "apply_path matches device (step # steps) vec = apply_path matches device steps (apply_step matches device step vec)"
  by (simp_all add: apply_path_def)

lemma apply_names_distinct:
  "list_all is_name_step steps \<Longrightarrow> distinct vec \<Longrightarrow> distinct (apply_path matches device steps vec)"
  by (induction steps arbitrary: vec) (auto simp: apply_name_step match_children_distinct)

lemma path_names_append: "node_at n p = Some m \<Longrightarrow> path_names n (p @ q) = path_names n p @ path_names m q"
  by (induction n p rule: node_at.induct) (auto split: if_splits)

lemma path_names_length [simp]: "length (path_names n p) = length p"
  by (induction n p rule: path_names.induct) auto

lemma path_names_snoc: "node_at n (p @ [i]) = Some m \<Longrightarrow> path_names n (p @ [i]) = path_names n p @ [node_name m]"
  by (cases "node_at n p") (auto simp: node_at_snoc path_names_append split: if_splits)

text \<open>The nodes that a sequence of name steps selects: those below a start whose names are accepted.\<close>

fun selects :: "('rx \<Rightarrow> string \<Rightarrow> bool) \<Rightarrow> 'p node \<Rightarrow> 'rx step list \<Rightarrow> nat list \<Rightarrow> bool" where
  "selects matches n [] q \<longleftrightarrow> q = []"
| "selects matches n (step # steps) [] \<longleftrightarrow> False"
| "selects matches n (step # steps) (i # q) \<longleftrightarrow>
     i < length (node_children n) \<and> step_accepts matches step (node_name (node_children n ! i)) \<and>
     selects matches (node_children n ! i) steps q"

lemma selects_names:
  "selects matches n steps q \<longleftrightarrow> node_at n q \<noteq> None \<and> list_all2 (step_accepts matches) steps (path_names n q)"
  by (induction matches n steps q rule: selects.induct) (auto simp: list_all2_Cons1 elim: path_names.elims)

lemma selects_step:
  assumes "node_at device p = Some n"
  shows "(\<exists>i q'. r = (p @ [i]) @ q' \<and> (\<exists>m. node_at device (p @ [i]) = Some m \<and>
      step_accepts matches step (node_name m) \<and> selects matches m steps q')) \<longleftrightarrow>
    (\<exists>q. r = p @ q \<and> selects matches n (step # steps) q)"
  (is "?l \<longleftrightarrow> ?r")
proof
  assume ?l
  then obtain i q' m where "r = (p @ [i]) @ q'" "node_at device (p @ [i]) = Some m"
      "step_accepts matches step (node_name m)" "selects matches m steps q'" by blast
  then show ?r using assms by (intro exI [of _ "i # q'"]) (simp add: node_at_snoc split: if_splits)
next
  assume ?r
  then obtain q where q: "r = p @ q" "selects matches n (step # steps) q" by blast
  then show ?l using assms by (cases q) (auto simp: node_at_snoc)
qed

lemma apply_names_iff:
  "list_all is_name_step steps \<Longrightarrow> valid_refs device vec \<Longrightarrow>
   r \<in> set (apply_path matches device steps vec) \<longleftrightarrow>
   (\<exists>p\<in>set vec. \<exists>n. node_at device p = Some n \<and> (\<exists>q. r = p @ q \<and> selects matches n steps q))"
proof (induction steps arbitrary: vec)
  case Nil
  then show ?case by (auto simp: valid_refs_def)
next
  case (Cons step steps)
  let ?vec = "match_children (step_accepts matches step) device vec"
  let ?below = "\<lambda>p. \<exists>i q'. r = (p @ [i]) @ q' \<and> (\<exists>m. node_at device (p @ [i]) = Some m \<and>
      step_accepts matches step (node_name m) \<and> selects matches m steps q')"
  have "valid_refs device ?vec"
    using apply_step_valid [OF Cons.prems(2), of matches step] Cons.prems(1) by (simp add: apply_name_step)
  then have "r \<in> set (apply_path matches device (step # steps) vec) \<longleftrightarrow>
      (\<exists>p\<in>set ?vec. \<exists>n. node_at device p = Some n \<and> (\<exists>q. r = p @ q \<and> selects matches n steps q))"
    using Cons.IH [of ?vec] Cons.prems by (simp add: apply_name_step)
  also have "\<dots> \<longleftrightarrow> (\<exists>p\<in>set vec. ?below p)"
    unfolding match_children_set by force
  also have "\<dots> \<longleftrightarrow>
      (\<exists>p\<in>set vec. \<exists>n. node_at device p = Some n \<and> (\<exists>q. r = p @ q \<and> selects matches n (step # steps) q))"
  proof (rule bex_cong [OF refl])
    fix p assume "p \<in> set vec"
    then obtain n where n: "node_at device p = Some n" using Cons.prems(2) by (auto simp: valid_refs_def)
    then show "?below p \<longleftrightarrow> (\<exists>n. node_at device p = Some n \<and> (\<exists>q. r = p @ q \<and> selects matches n (step # steps) q))"
      unfolding selects_step [OF n] by simp
  qed
  finally show ?case .
qed

text \<open>From the root: the nodes whose names the steps accept, one by one.\<close>

lemma apply_names_root:
  assumes "list_all is_name_step steps"
  shows "set (apply_path matches device steps [[]]) =
    {q. node_at device q \<noteq> None \<and> list_all2 (step_accepts matches) steps (path_names device q)}"
  using apply_names_iff [OF assms, of device "[[]]" _ matches]
  by (auto simp: valid_refs_def selects_names)

section \<open>Addresses without a pattern\<close>

text \<open>Parts of an address that are names and nothing else.\<close>

definition literal_parts :: "string list \<Rightarrow> bool" where
  "literal_parts parts \<longleftrightarrow>
     parts \<noteq> [] \<and> (\<forall>s\<in>set parts. s \<noteq> [] \<and> CHR ''/'' \<notin> set s \<and> \<not> is_regex s)"

lemma literal_dots: "\<not> is_regex s \<Longrightarrow> s \<noteq> ''..''"
  by (auto simp: is_regex_def)

lemma add_literals:
  "list_all (\<lambda>s. \<not> is_regex s) parts \<Longrightarrow>
   add_simple_address compile cache parts = Some (cache, Ok (map Name_is parts))"
  by (induction parts) (auto simp: add_relative_path_def literal_dots)

lemma join_slash_head: "ss \<noteq> [] \<Longrightarrow> hd ss \<noteq> [] \<Longrightarrow> take 1 (join_slash ss) = take 1 (hd ss)"
  by (cases ss rule: join_slash.cases) (auto simp: neq_Nil_conv)

lemma absolute_scope:
  assumes "ss \<noteq> []" "\<forall>s\<in>set ss. s \<noteq> [] \<and> CHR ''/'' \<notin> set s"
  shows "take 2 (CHR ''/'' # join_slash ss) \<noteq> ''//''"
    and "get_address_scope (CHR ''/'' # join_slash ss) = Absolute"
proof -
  have "take 1 (join_slash ss) \<noteq> ''/''"
    using assms join_slash_head [OF assms(1)] by (cases ss; cases "hd ss") auto
  then show "take 2 (CHR ''/'' # join_slash ss) \<noteq> ''//''" by (cases "join_slash ss") auto
  then show "get_address_scope (CHR ''/'' # join_slash ss) = Absolute"
    by (simp add: get_address_scope_def Let_def)
qed

lemma absolute_steps:
  assumes "ss \<noteq> []" "\<forall>s\<in>set ss. s \<noteq> [] \<and> CHR ''/'' \<notin> set s"
  shows "path_steps compile cache (CHR ''/'' # join_slash ss) = add_simple_address compile cache ss"
  using absolute_scope [OF assms] address_parts_join(2) [OF assms(1)] assms(2)
  by (simp add: path_steps_def add_address_def)

lemma literal_path_steps:
  assumes "literal_parts parts"
  shows "path_steps compile cache (CHR ''/'' # join_slash parts) = Some (cache, Ok (map Name_is parts))"
  using absolute_steps [of parts compile cache] add_literals [of parts] assms
  by (auto simp: literal_parts_def list_all_iff)

lemma make_path_steps:
  "path_steps compile cache a = Some (c, Ok steps) \<Longrightarrow>
   make_path compile cache a =
     Some (c, Some \<lparr>path_address = a, path_scope = get_address_scope a, child_functions = steps\<rparr>)"
  by (simp add: make_path_def)

lemma find_node_absolute:
  assumes "ss \<noteq> []" "\<forall>s\<in>set ss. s \<noteq> [] \<and> CHR ''/'' \<notin> set s"
  shows "find_node n (CHR ''/'' # join_slash ss) = find_parts n ss"
  using assms sanitize_address_join [OF assms(1)] join_slash_ends(1) [OF assms(1)] split_join_slash [OF assms(1)]
  by (simp add: find_node_parts)

lemma accepts_literals: "list_all2 (step_accepts matches) (map Name_is ss) ts \<longleftrightarrow> ts = ss"
  by (induction ss arbitrary: ts) (auto simp: list_all2_Cons1)

lemma distinct_singleton: "distinct xs \<Longrightarrow> set xs = {x} \<Longrightarrow> xs = [x]"
  by (cases xs; cases "tl xs") (auto simp: insert_eq_iff)

lemma literal_apply:
  assumes "wf_tree device" "parts \<noteq> []"
  shows "apply_path matches device (map Name_is parts) [[]] =
    (case find_parts device parts of Some q \<Rightarrow> [q] | None \<Rightarrow> [])"
proof -
  have steps: "list_all is_name_step (map Name_is parts)" by (simp add: list_all_iff)
  have sel: "set (apply_path matches device (map Name_is parts) [[]]) =
      {q. node_at device q \<noteq> None \<and> path_names device q = parts}"
    using apply_names_root [OF steps, of matches device] by (simp add: accepts_literals)
  have "set (apply_path matches device (map Name_is parts) [[]]) =
      (case find_parts device parts of Some q \<Rightarrow> {q} | None \<Rightarrow> {})"
  proof (cases "find_parts device parts")
    case None
    then show ?thesis unfolding sel using path_find_parts [OF assms(1)] by force
  next
    case (Some q)
    have "r = q" if "node_at device r \<noteq> None" "path_names device r = parts" for r
      using path_find_parts [OF assms(1), of r] that Some by auto
    then show ?thesis unfolding sel using find_parts_path [OF Some] Some by auto
  qed
  then show ?thesis
    using apply_names_distinct [OF steps, of "[[]]" matches device] distinct_singleton
    by (cases "find_parts device parts") auto
qed

section \<open>Any depth\<close>

text \<open>A path after two slashes: the nodes whose last names the steps accept, each once.\<close>

lemma apply_all_names:
  assumes "list_all is_name_step steps"
  shows "set (apply_path matches device (All_step # steps) [[]]) =
      {p @ q | p q. node_at device (p @ q) \<noteq> None \<and>
         (\<exists>ss. path_names device (p @ q) = path_names device p @ ss \<and> list_all2 (step_accepts matches) steps ss)}"
    and "distinct (apply_path matches device (All_step # steps) [[]])"
proof -
  have all: "valid_refs device (get_all_children device [[]])"
    using apply_step_valid [of device "[[]]" matches All_step] by (simp add: valid_refs_def)
  have eq: "(\<exists>n. node_at device p = Some n \<and> (\<exists>q. r = p @ q \<and> selects matches n steps q)) \<longleftrightarrow>
      (\<exists>q. r = p @ q \<and> node_at device (p @ q) \<noteq> None \<and>
         (\<exists>ss. path_names device (p @ q) = path_names device p @ ss \<and> list_all2 (step_accepts matches) steps ss))" for p r
    by (auto simp: selects_names node_at_append path_names_append split: option.splits)
  show "set (apply_path matches device (All_step # steps) [[]]) =
      {p @ q | p q. node_at device (p @ q) \<noteq> None \<and>
         (\<exists>ss. path_names device (p @ q) = path_names device p @ ss \<and> list_all2 (step_accepts matches) steps ss)}"
  proof (rule set_eqI)
    fix r
    have up: "node_at device p \<noteq> None" if "node_at device (p @ q) \<noteq> None" for p q
      using that by (auto simp: node_at_append split: option.splits)
    show "r \<in> set (apply_path matches device (All_step # steps) [[]]) \<longleftrightarrow>
      r \<in> {p @ q | p q. node_at device (p @ q) \<noteq> None \<and>
         (\<exists>ss. path_names device (p @ q) = path_names device p @ ss \<and> list_all2 (step_accepts matches) steps ss)}"
      unfolding apply_path_simps apply_step.simps apply_names_iff [OF assms all] eq
      using get_all_children_root [of device] up by blast
  qed
  show "distinct (apply_path matches device (All_step # steps) [[]])"
    using apply_names_distinct [OF assms] get_all_children_root [of device] by auto
qed

section \<open>The cache of expressions\<close>

text \<open>
  Every expression of the cache is the one that its key compiles to; then the cache has no effect on
  the result, and it stays so.
\<close>

definition cache_ok :: "(string \<Rightarrow> 'rx option) \<Rightarrow> 'rx cache \<Rightarrow> bool" where
  "cache_ok compile cache \<longleftrightarrow> (\<forall>k r. cache k = Some r \<longrightarrow> make_regex compile k = Some (Ok r))"

definition same_outcome ::
  "(string \<Rightarrow> 'rx option) \<Rightarrow> ('rx cache \<times> 'a) option \<Rightarrow> ('rx cache \<times> 'a) option \<Rightarrow> bool" where
  "same_outcome compile x y \<longleftrightarrow>
     (x = None \<and> y = None) \<or>
     (\<exists>c d r. x = Some (c, r) \<and> y = Some (d, r) \<and> cache_ok compile c \<and> cache_ok compile d)"

lemma same_outcome_map:
  "same_outcome compile x y \<Longrightarrow>
   same_outcome compile (map_option (\<lambda>(c, r). (c, f r)) x) (map_option (\<lambda>(c, r). (c, f r)) y)"
  by (auto simp: same_outcome_def)

lemma same_outcome_Some:
  "cache_ok compile c \<Longrightarrow> cache_ok compile d \<Longrightarrow> same_outcome compile (Some (c, r)) (Some (d, r))"
  by (simp add: same_outcome_def)

lemma same_outcome_None: "same_outcome compile None None"
  by (simp add: same_outcome_def)

lemma cache_okD: "cache_ok compile c \<Longrightarrow> c k = Some r \<Longrightarrow> make_regex compile k = Some (Ok r)"
  by (simp add: cache_ok_def)

lemma cache_ok_update: "cache_ok compile c \<Longrightarrow> make_regex compile k = Some (Ok r) \<Longrightarrow> cache_ok compile (c(k \<mapsto> r))"
  by (simp add: cache_ok_def)

lemma cached_regex_outcome:
  assumes "cache_ok compile c"
  shows "case make_regex compile s of
      None \<Rightarrow> cached_regex compile c s = None
    | Some r \<Rightarrow> \<exists>c'. cached_regex compile c s = Some (c', r) \<and> cache_ok compile c'"
proof (cases "c s")
  case None
  then show ?thesis
    using assms by (auto simp: cached_regex_def cache_ok_update split: option.splits res.splits)
next
  case (Some r)
  then show ?thesis using assms cache_okD [OF assms Some] by (simp add: cached_regex_def)
qed

lemma cached_regex_same:
  assumes "cache_ok compile c" "cache_ok compile d"
  shows "same_outcome compile (cached_regex compile c s) (cached_regex compile d s)"
  using cached_regex_outcome [OF assms(1), of s] cached_regex_outcome [OF assms(2), of s]
  by (auto simp: same_outcome_def split: option.splits)

lemmas same_outcome_rules = same_outcome_Some same_outcome_None same_outcome_map cached_regex_same

lemma add_relative_same:
  "cache_ok compile c \<Longrightarrow> cache_ok compile d \<Longrightarrow>
   same_outcome compile (add_relative_path compile c s) (add_relative_path compile d s)"
  by (simp add: add_relative_path_def same_outcome_rules)

lemma add_device_same:
  "cache_ok compile c \<Longrightarrow> cache_ok compile d \<Longrightarrow>
   same_outcome compile (add_device_part compile c s) (add_device_part compile d s)"
  by (simp add: add_device_part_def same_outcome_rules)

lemma same_outcome_cases:
  assumes "same_outcome compile x y"
  obtains "x = None" "y = None"
  | c d r where "x = Some (c, r)" "y = Some (d, r)" "cache_ok compile c" "cache_ok compile d"
  using assms by (auto simp: same_outcome_def)

lemma add_simple_same:
  "cache_ok compile c \<Longrightarrow> cache_ok compile d \<Longrightarrow>
   same_outcome compile (add_simple_address compile c ss) (add_simple_address compile d ss)"
proof (induction ss arbitrary: c d)
  case (Cons s ss)
  show ?case
  proof (cases rule: same_outcome_cases [OF add_relative_same [OF Cons.prems, of s]])
    case (2 c' d' r)
    show ?thesis
    proof (cases r)
      case (Ok step)
      then show ?thesis using 2 same_outcome_map [OF Cons.IH [OF 2(3,4)]] by simp
    qed (use 2 in \<open>simp add: same_outcome_def\<close>)
  qed (simp add: same_outcome_def)
qed (simp add: same_outcome_def)

lemma add_address_same:
  "cache_ok compile c \<Longrightarrow> cache_ok compile d \<Longrightarrow>
   same_outcome compile (add_address compile c a) (add_address compile d a)"
  by (simp add: add_address_def add_simple_same same_outcome_map)

lemma path_steps_same:
  assumes "cache_ok compile c" "cache_ok compile d"
  shows "same_outcome compile (path_steps compile c a) (path_steps compile d a)"
proof (cases "a = []")
  case True
  then show ?thesis using assms by (simp add: path_steps_def same_outcome_def)
next
  case False
  let ?dev = "take (length (first_part a) - 1) a"
  show ?thesis
  proof (cases "get_address_scope a")
    case Global
    show ?thesis
    proof (cases rule: same_outcome_cases [OF add_device_same [OF assms, of ?dev]])
      case (2 c' d' r)
      then show ?thesis
        using False Global same_outcome_map [OF add_address_same [OF 2(3,4)]]
        by (cases r) (simp_all add: path_steps_def Let_def same_outcome_rules)
    qed (use False Global in \<open>simp add: path_steps_def Let_def same_outcome_rules\<close>)
  qed (use False assms add_address_same in \<open>simp_all add: path_steps_def\<close>)
qed

lemma make_path_same:
  "cache_ok compile c \<Longrightarrow> cache_ok compile d \<Longrightarrow> same_outcome compile (make_path compile c a) (make_path compile d a)"
  unfolding make_path_def by (intro same_outcome_map path_steps_same)

end
