(* ===== verification/Path_Pattern.thy ===== *)
theory Path_Pattern
  imports Path
begin

text \<open>
  What the patterns of \<open>network/common/path.cpp\<close> mean. The regular expressions that \<open>make_regex\<close>
  writes use a small part of the ECMAScript syntax of \<open>std::regex\<close>: characters, escaped characters,
  the dot, sets, one level of groups with alternatives, and the three quantifiers. This part is
  parsed and matched here; a pattern of an address is given its own meaning, and the expression
  written for it has the same one.
\<close>

section \<open>A part of the ECMAScript expressions\<close>

datatype atom = R_char char | R_any | R_set string

datatype quant = Once | Optional | Many | Several

datatype rx = Rx_atom atom quant | Rx_group "(atom \<times> quant) list list" quant

text \<open>A set: ranges and single characters; a dash is a range sign between two others, or stands last.\<close>

fun in_set :: "string \<Rightarrow> char \<Rightarrow> bool" where
  "in_set (a # b # d # cs) c =
     (if b = CHR ''-'' then char_between a c d \<or> in_set cs c else c = a \<or> in_set (b # d # cs) c)"
| "in_set cs c = (c \<in> set cs)"

fun ok_set :: "string \<Rightarrow> bool" where
  "ok_set (a # b # d # cs) =
     (if b = CHR ''-'' then a \<noteq> CHR ''-'' \<and> d \<noteq> CHR ''-'' \<and> char_code a \<le> char_code d \<and> ok_set cs
      else a \<noteq> CHR ''-'' \<and> ok_set (b # d # cs))"
| "ok_set [a, b] = (a \<noteq> CHR ''-'')"
| "ok_set _ = True"

definition is_meta :: "char \<Rightarrow> bool" where
  "is_meta c \<longleftrightarrow> c = CHR 0x5C \<or> c \<in> set ''^$.|[]()*+?{}''"

definition parse_atom :: "string \<Rightarrow> (atom \<times> string) option" where
  "parse_atom s =
     (case s of
        [] \<Rightarrow> None
      | c # cs \<Rightarrow>
          if c = CHR 0x5C then
            (case cs of [] \<Rightarrow> None | d # ds \<Rightarrow> if is_meta d then Some (R_char d, ds) else None)
          else if c = CHR ''.'' then Some (R_any, cs)
          else if c = CHR ''['' then
            (let body = takeWhile (\<lambda>d. d \<noteq> CHR '']'') cs; rest = dropWhile (\<lambda>d. d \<noteq> CHR '']'') cs
             in if body \<noteq> [] \<and> hd body \<noteq> CHR ''^'' \<and> CHR 0x5C \<notin> set body \<and> CHR ''['' \<notin> set body \<and>
                  ok_set body \<and> rest \<noteq> []
                then Some (R_set body, tl rest) else None)
          else if is_meta c then None
          else Some (R_char c, cs))"

fun parse_quant :: "string \<Rightarrow> quant \<times> string" where
  "parse_quant [] = (Once, [])"
| "parse_quant (c # cs) =
     (if c = CHR ''?'' then (Optional, cs) else if c = CHR ''*'' then (Many, cs)
      else if c = CHR ''+'' then (Several, cs) else (Once, c # cs))"

lemma parse_quant_length: "parse_quant s = (q, r) \<Longrightarrow> length r \<le> length s"
  by (cases s) (auto split: if_splits)

lemma parse_atom_length: "parse_atom s = Some (a, r) \<Longrightarrow> length r < length s"
  using length_dropWhile_le [of "\<lambda>d. d \<noteq> CHR '']''" "tl s"]
  by (auto simp: parse_atom_def Let_def split: list.splits if_splits)

definition parse_piece :: "string \<Rightarrow> ((atom \<times> quant) \<times> string) option" where
  "parse_piece s = map_option (\<lambda>(a, r). let (q, r') = parse_quant r in ((a, q), r')) (parse_atom s)"

lemma parse_piece_length: "parse_piece s = Some (p, r) \<Longrightarrow> length r < length s"
proof -
  assume *: "parse_piece s = Some (p, r)"
  then obtain a u where u: "parse_atom s = Some (a, u)" by (auto simp: parse_piece_def)
  obtain q v where "parse_quant u = (q, v)" by fastforce
  with * u parse_atom_length [OF u] parse_quant_length [OF this] show ?thesis by (simp add: parse_piece_def)
qed

text \<open>A sequence up to the next bar or closing parenthesis.\<close>

function parse_seq :: "string \<Rightarrow> ((atom \<times> quant) list \<times> string) option" where
  "parse_seq s =
     (if s = [] \<or> hd s \<in> set ''|)'' then Some ([], s)
      else case parse_piece s of
        None \<Rightarrow> None
      | Some (p, r) \<Rightarrow> map_option (\<lambda>(ps, r'). (p # ps, r')) (parse_seq r))"
  by pat_completeness auto
termination by (relation "measure length") (auto dest: parse_piece_length)

declare parse_seq.simps [simp del]

lemma parse_seq_length: "parse_seq s = Some (ps, r) \<Longrightarrow> length r \<le> length s"
proof (induction s arbitrary: ps r rule: parse_seq.induct)
  case (1 s)
  show ?case
    using "1.prems" "1.IH" parse_piece_length
    by (subst (asm) parse_seq.simps) (fastforce split: if_splits option.splits)
qed

text \<open>The alternatives of a group, after its opening parenthesis.\<close>

function parse_alts :: "string \<Rightarrow> ((atom \<times> quant) list list \<times> string) option" where
  "parse_alts s =
     (case parse_seq s of
        None \<Rightarrow> None
      | Some (ps, r) \<Rightarrow>
          (case r of
             [] \<Rightarrow> None
           | c # cs \<Rightarrow>
               if c = CHR '')'' then Some ([ps], cs)
               else map_option (\<lambda>(alts, r'). (ps # alts, r')) (parse_alts cs)))"
  by pat_completeness auto
termination by (relation "measure length") (auto dest: parse_seq_length)

declare parse_alts.simps [simp del]

lemma parse_alts_length: "parse_alts s = Some (alts, r) \<Longrightarrow> length r < length s"
proof (induction s arbitrary: alts r rule: parse_alts.induct)
  case (1 s)
  show ?case
    using "1.prems" "1.IH" parse_seq_length
    by (subst (asm) parse_alts.simps) (fastforce split: if_splits option.splits list.splits)
qed

function parse_items :: "string \<Rightarrow> rx list option" where
  "parse_items s =
     (if s = [] then Some []
      else if hd s = CHR ''('' then
        (case parse_alts (tl s) of
           None \<Rightarrow> None
         | Some (alts, r) \<Rightarrow>
             (let (q, r') = parse_quant r in map_option (Cons (Rx_group alts q)) (parse_items r')))
      else
        (case parse_piece s of
           None \<Rightarrow> None
         | Some ((a, q), r) \<Rightarrow> map_option (Cons (Rx_atom a q)) (parse_items r)))"
  by pat_completeness auto
termination
proof (relation "measure length", goal_cases)
  case (2 s alts_r alts r qr q r')
  then show ?case using parse_alts_length [of "tl s" alts r] parse_quant_length [of r q r'] by (cases s) auto
qed (auto dest: parse_piece_length)

declare parse_items.simps [simp del]

definition parse_regex :: "string \<Rightarrow> rx list option" where
  "parse_regex s =
     (if s \<noteq> [] \<and> hd s = CHR ''^'' \<and> tl s \<noteq> [] \<and> last s = CHR ''$'' then parse_items (butlast (tl s)) else None)"

text \<open>Matching: what is left of a string after a match of a beginning of it.\<close>

fun atom_accepts :: "atom \<Rightarrow> char \<Rightarrow> bool" where
  "atom_accepts (R_char d) c = (c = d)"
| "atom_accepts R_any c = (c \<notin> {CHR 0x0A, CHR 0x0D})"
| "atom_accepts (R_set body) c = in_set body c"

definition ends_atom :: "atom \<Rightarrow> string \<Rightarrow> string list" where
  "ends_atom a s = (case s of [] \<Rightarrow> [] | c # cs \<Rightarrow> if atom_accepts a c then [cs] else [])"

fun repeated :: "(string \<Rightarrow> string list) \<Rightarrow> nat \<Rightarrow> string \<Rightarrow> string list" where
  "repeated f 0 s = [s]"
| "repeated f (Suc n) s = s # concat (map (repeated f n) (filter (\<lambda>t. length t < length s) (f s)))"

fun ends_quant :: "(string \<Rightarrow> string list) \<Rightarrow> quant \<Rightarrow> string \<Rightarrow> string list" where
  "ends_quant f Once s = f s"
| "ends_quant f Optional s = f s @ [s]"
| "ends_quant f Many s = repeated f (length s) s"
| "ends_quant f Several s = concat (map (\<lambda>t. repeated f (length t) t) (f s))"

fun ends_seq :: "(atom \<times> quant) list \<Rightarrow> string \<Rightarrow> string list" where
  "ends_seq [] s = [s]"
| "ends_seq ((a, q) # ps) s = concat (map (ends_seq ps) (ends_quant (ends_atom a) q s))"

fun ends_rx :: "rx \<Rightarrow> string \<Rightarrow> string list" where
  "ends_rx (Rx_atom a q) s = ends_quant (ends_atom a) q s"
| "ends_rx (Rx_group alts q) s = ends_quant (\<lambda>t. concat (map (\<lambda>ps. ends_seq ps t) alts)) q s"

fun ends_items :: "rx list \<Rightarrow> string \<Rightarrow> string list" where
  "ends_items [] s = [s]"
| "ends_items (r # rs) s = concat (map (ends_items rs) (ends_rx r s))"

definition regex_matches :: "rx list \<Rightarrow> string \<Rightarrow> bool" where
  "regex_matches rs s \<longleftrightarrow> list_ex (\<lambda>t. t = []) (ends_items rs s)"

text \<open>What the expressions of \<open>std::regex\<close> do, as far as this part of the syntax goes.\<close>

definition ecmascript :: "(string \<Rightarrow> 'rx option) \<Rightarrow> ('rx \<Rightarrow> string \<Rightarrow> bool) \<Rightarrow> bool" where
  "ecmascript compile matches \<longleftrightarrow>
     (\<forall>t rs. parse_regex t = Some rs \<longrightarrow> (\<exists>c. compile t = Some c \<and> (\<forall>s. matches c s \<longleftrightarrow> regex_matches rs s)))"

lemma ecmascript_instance: "ecmascript parse_regex regex_matches"
  by (simp add: ecmascript_def)

section \<open>Patterns\<close>

text \<open>The parts of an address that are patterns, and what they mean for a name.\<close>

datatype pat = Plain char | Dot | Star | Qmark | Bang | One_of string | Words "string list"

fun pat_item :: "pat \<Rightarrow> string" where
  "pat_item (Plain c) = [c]"
| "pat_item Dot = ''.''"
| "pat_item Star = ''*''"
| "pat_item Qmark = ''?''"
| "pat_item Bang = ''!''"
| "pat_item (One_of body) = ''['' @ body @ '']''"
| "pat_item (Words ws) = ''{'' @ join_commas ws @ ''}''"

definition pat_text :: "pat list \<Rightarrow> string" where
  "pat_text ps = concat (map pat_item ps)"

abbreviation name_char :: "char \<Rightarrow> bool" where
  "name_char \<equiv> is_valid_character_for_name"

text \<open>
  A star stands for any characters of a name, a question mark for at most one, an exclamation mark
  for nothing or for an instance, a dot for any character but the ends of lines.
\<close>

fun pat_matches :: "pat list \<Rightarrow> string \<Rightarrow> bool" where
  "pat_matches [] s = (s = [])"
| "pat_matches (Plain c # ps) s = (s \<noteq> [] \<and> hd s = c \<and> pat_matches ps (tl s))"
| "pat_matches (Dot # ps) s = (s \<noteq> [] \<and> hd s \<notin> {CHR 0x0A, CHR 0x0D} \<and> pat_matches ps (tl s))"
| "pat_matches (Star # ps) s =
     (\<exists>k\<le>length s. list_all name_char (take k s) \<and> pat_matches ps (drop k s))"
| "pat_matches (Qmark # ps) s = (pat_matches ps s \<or> (s \<noteq> [] \<and> name_char (hd s) \<and> pat_matches ps (tl s)))"
| "pat_matches (Bang # ps) s =
     (pat_matches ps s \<or>
      (s \<noteq> [] \<and> hd s = CHR ''.'' \<and>
       (\<exists>k\<le>length (tl s). 0 < k \<and> list_all (\<lambda>c. name_char c \<and> c \<noteq> CHR ''.'') (take k (tl s)) \<and>
          pat_matches ps (drop k (tl s)))))"
| "pat_matches (One_of body # ps) s = (s \<noteq> [] \<and> in_set body (hd s) \<and> pat_matches ps (tl s))"
| "pat_matches (Words ws # ps) s =
     (\<exists>w\<in>set ws. take (length w) s = w \<and> pat_matches ps (drop (length w) s))"

text \<open>The characters and words that a pattern can have.\<close>

definition plain_pattern_char :: "char \<Rightarrow> bool" where
  "plain_pattern_char c \<longleftrightarrow> c \<noteq> CHR 0x5C \<and> c \<notin> set ''^$.|[]*+?{},!/''"

definition valid_set :: "string \<Rightarrow> bool" where
  "valid_set body \<longleftrightarrow> body \<noteq> [] \<and> ok_set body \<and>
     list_all (\<lambda>c. c \<noteq> CHR 0x5C \<and> c \<notin> set ''^$|[]()*+?{},!/'') body"

fun valid_pat :: "pat \<Rightarrow> bool" where
  "valid_pat (Plain c) = plain_pattern_char c"
| "valid_pat (One_of body) = valid_set body"
| "valid_pat (Words ws) = (ws \<noteq> [] \<and> list_all (list_all plain_pattern_char) ws)"
| "valid_pat _ = True"

fun pat_rx :: "pat \<Rightarrow> rx" where
  "pat_rx (Plain c) = Rx_atom (R_char c) Once"
| "pat_rx Dot = Rx_atom R_any Once"
| "pat_rx Star = Rx_atom (R_set name_characters) Many"
| "pat_rx Qmark = Rx_atom (R_set name_characters) Optional"
| "pat_rx Bang = Rx_group [[(R_char CHR ''.'', Once), (R_set name_characters_no_instance, Several)]] Optional"
| "pat_rx (One_of body) = Rx_atom (R_set body) Once"
| "pat_rx (Words ws) = Rx_group (map (map (\<lambda>c. (R_char c, Once))) ws) Once"

text \<open>The sets of the expressions are those of the names.\<close>

lemma name_set: "in_set name_characters c \<longleftrightarrow> name_char c"
  by (auto simp: name_characters_def is_valid_character_for_name_def)

lemma instance_set: "in_set name_characters_no_instance c \<longleftrightarrow> name_char c \<and> c \<noteq> CHR ''.''"
  by (auto simp: name_characters_no_instance_def is_valid_character_for_name_def char_between_def char_code_def)

lemma repeated_atom:
  "length s \<le> n \<Longrightarrow>
   t \<in> set (repeated (ends_atom a) n s) \<longleftrightarrow> (\<exists>k\<le>length s. list_all (atom_accepts a) (take k s) \<and> t = drop k s)"
proof (induction n arbitrary: s)
  case (Suc n)
  show ?case
  proof (cases s)
    case (Cons c cs)
    have ends: "filter (\<lambda>t. length t < length s) (ends_atom a s) = (if atom_accepts a c then [cs] else [])"
      using Cons by (simp add: ends_atom_def)
    have "(\<exists>k\<le>length s. list_all (atom_accepts a) (take k s) \<and> t = drop k s) \<longleftrightarrow>
        t = s \<or> (atom_accepts a c \<and> (\<exists>k\<le>length cs. list_all (atom_accepts a) (take k cs) \<and> t = drop k cs))"
      (is "?l \<longleftrightarrow> ?r")
    proof
      assume ?l
      then obtain k where k: "k \<le> length s" "list_all (atom_accepts a) (take k s)" "t = drop k s" by blast
      then show ?r using Cons by (cases k) auto
    next
      assume ?r
      then show ?l
      proof
        assume "t = s"
        then show ?l by (intro exI [of _ 0]) simp
      next
        assume "atom_accepts a c \<and> (\<exists>k\<le>length cs. list_all (atom_accepts a) (take k cs) \<and> t = drop k cs)"
        then obtain k where "atom_accepts a c" "k \<le> length cs" "list_all (atom_accepts a) (take k cs)" "t = drop k cs"
          by blast
        then show ?l using Cons by (intro exI [of _ "Suc k"]) simp
      qed
    qed
    then show ?thesis using Suc Cons ends by simp
  qed (simp add: ends_atom_def)
qed auto

text \<open>Some way of matching one item leaves a string with a given property.\<close>

definition leaves :: "rx \<Rightarrow> (string \<Rightarrow> bool) \<Rightarrow> string \<Rightarrow> bool" where
  "leaves r P s \<longleftrightarrow> (\<exists>t\<in>set (ends_rx r s). P t)"

lemma regex_matches_leaves:
  "regex_matches [] s \<longleftrightarrow> s = []" "regex_matches (r # rs) s \<longleftrightarrow> leaves r (regex_matches rs) s"
  by (auto simp: regex_matches_def leaves_def list_ex_iff)

lemma ends_atom_ex:
  "(\<exists>t\<in>set (ends_atom a s). P t) \<longleftrightarrow> s \<noteq> [] \<and> atom_accepts a (hd s) \<and> P (tl s)"
  by (cases s) (auto simp: ends_atom_def)

lemma ends_many_ex:
  "(\<exists>t\<in>set (repeated (ends_atom a) (length s) s). P t) \<longleftrightarrow>
   (\<exists>k\<le>length s. list_all (atom_accepts a) (take k s) \<and> P (drop k s))"
  using repeated_atom [of s "length s"] by auto

lemma ends_several_ex:
  "(\<exists>t\<in>set (ends_quant (ends_atom a) Several s). P t) \<longleftrightarrow>
   (\<exists>k\<le>length s. 0 < k \<and> list_all (atom_accepts a) (take k s) \<and> P (drop k s))"
proof (cases s)
  case (Cons c cs)
  have "(\<exists>k\<le>length s. 0 < k \<and> list_all (atom_accepts a) (take k s) \<and> P (drop k s)) \<longleftrightarrow>
      (\<exists>j\<le>length cs. list_all (atom_accepts a) (take (Suc j) s) \<and> P (drop (Suc j) s))"
    using Cons by (metis Suc_le_mono Zero_not_Suc gr0_conv_Suc length_Cons zero_less_Suc)
  then show ?thesis using Cons ends_many_ex [of a cs P] by (auto simp: ends_atom_def)
qed (simp add: ends_atom_def)

lemma ends_word_ex: "(\<exists>t\<in>set (ends_seq (map (\<lambda>c. (R_char c, Once)) w) s). P t) \<longleftrightarrow>
  take (length w) s = w \<and> P (drop (length w) s)"
proof (induction w arbitrary: s)
  case (Cons c w)
  then show ?case by (cases s) (auto simp: ends_atom_def)
qed simp

lemma atom_accepts_set:
  "atom_accepts (R_set name_characters) = name_char"
  "atom_accepts (R_set name_characters_no_instance) = (\<lambda>c. name_char c \<and> c \<noteq> CHR ''.'')"
  by (auto simp: name_set instance_set)

lemma leaves_item:
  "leaves (pat_rx (Plain c)) P s \<longleftrightarrow> s \<noteq> [] \<and> hd s = c \<and> P (tl s)"
  "leaves (pat_rx Dot) P s \<longleftrightarrow> s \<noteq> [] \<and> hd s \<notin> {CHR 0x0A, CHR 0x0D} \<and> P (tl s)"
  "leaves (pat_rx Star) P s \<longleftrightarrow> (\<exists>k\<le>length s. list_all name_char (take k s) \<and> P (drop k s))"
  "leaves (pat_rx Qmark) P s \<longleftrightarrow> P s \<or> (s \<noteq> [] \<and> name_char (hd s) \<and> P (tl s))"
  "leaves (pat_rx (One_of body)) P s \<longleftrightarrow> s \<noteq> [] \<and> in_set body (hd s) \<and> P (tl s)"
  "leaves (pat_rx (Words ws)) P s \<longleftrightarrow> (\<exists>w\<in>set ws. take (length w) s = w \<and> P (drop (length w) s))"
  by (simp_all add: leaves_def ends_atom_ex ends_many_ex bex_Un name_set ends_word_ex atom_accepts_set
      del: atom_accepts.simps(3)) (auto simp: name_set)

lemma leaves_bang:
  "leaves (pat_rx Bang) P s \<longleftrightarrow>
     P s \<or> (s \<noteq> [] \<and> hd s = CHR ''.'' \<and>
       (\<exists>k\<le>length (tl s). 0 < k \<and> list_all (\<lambda>c. name_char c \<and> c \<noteq> CHR ''.'') (take k (tl s)) \<and> P (drop k (tl s))))"
proof -
  have "leaves (pat_rx Bang) P s \<longleftrightarrow>
      P s \<or> (\<exists>t\<in>set (ends_atom (R_char CHR ''.'') s).
        \<exists>u\<in>set (ends_quant (ends_atom (R_set name_characters_no_instance)) Several t). P u)"
    by (auto simp: leaves_def)
  then show ?thesis unfolding ends_atom_ex ends_several_ex atom_accepts_set by simp
qed

text \<open>The expression for a pattern means what the pattern means.\<close>

lemma pattern_meaning: "regex_matches (map pat_rx ps) s \<longleftrightarrow> pat_matches ps s"
proof (induction ps arbitrary: s)
  case (Cons p ps)
  then have "regex_matches (map pat_rx ps) = pat_matches ps" by (rule ext)
  then show ?case by (cases p) (simp_all only: list.map regex_matches_leaves leaves_item leaves_bang pat_matches.simps)
qed (simp add: regex_matches_leaves)

section \<open>The expression that is written\<close>

definition rx_text :: "string \<Rightarrow> string" where
  "rx_text s = concat (map regex_char s)"

lemma rx_text_simps [simp]:
  "rx_text [] = []" "rx_text (c # s) = regex_char c @ rx_text s" "rx_text (s @ t) = rx_text s @ rx_text t"
  by (simp_all add: rx_text_def)

definition no_quant :: "string \<Rightarrow> bool" where
  "no_quant s \<longleftrightarrow> s = [] \<or> hd s \<notin> set ''?*+''"

lemma parse_no_quant: "no_quant s \<Longrightarrow> parse_quant s = (Once, s)"
  by (cases s) (auto simp: no_quant_def)

lemma paren_parse:
  "no_quant r \<Longrightarrow> parse_piece (regex_char CHR ''('' @ r) = Some ((R_char CHR ''('', Once), r)"
  "no_quant r \<Longrightarrow> parse_piece (regex_char CHR '')'' @ r) = Some ((R_char CHR '')'', Once), r)"
  by (simp_all add: parse_piece_def parse_atom_def regex_char_def is_meta_def parse_no_quant)

lemma plain_char_rest:
  assumes "plain_pattern_char c" "c \<noteq> CHR ''(''" "c \<noteq> CHR '')''"
  shows "regex_char c = [c]" "\<not> is_meta c" "c \<noteq> CHR 0x5C" "c \<noteq> CHR ''.''" "c \<noteq> CHR ''[''"
  using assms unfolding plain_pattern_char_def regex_char_def is_meta_def by simp_all

lemma plain_parse:
  assumes "plain_pattern_char c" "no_quant r"
  shows "parse_piece (regex_char c @ r) = Some ((R_char c, Once), r)"
proof (cases "c = CHR ''('' \<or> c = CHR '')''")
  case True
  then show ?thesis using assms(2) paren_parse by blast
next
  case False
  then have "parse_atom (c # r) = Some (R_char c, r)"
    using plain_char_rest [OF assms(1)] by (simp add: parse_atom_def)
  then show ?thesis using False plain_char_rest(1) [OF assms(1)] assms(2) by (simp add: parse_piece_def parse_no_quant)
qed

lemma plain_start: "plain_pattern_char c \<Longrightarrow> regex_char c \<noteq> [] \<and> hd (regex_char c) \<notin> set ''?*+|''
    \<and> hd (regex_char c) \<noteq> CHR ''('' \<and> hd (regex_char c) \<noteq> CHR '')''"
  by (auto simp: plain_pattern_char_def regex_char_def)

lemma set_parse:
  assumes "body \<noteq> []" "ok_set body" "hd body \<noteq> CHR ''^''"
    and "list_all (\<lambda>c. c \<noteq> CHR 0x5C \<and> c \<notin> set ''[]'') body"
  shows "parse_piece (CHR ''['' # body @ CHR '']'' # r) =
    (case parse_quant r of (q, r') \<Rightarrow> Some ((R_set body, q), r'))"
proof -
  have all: "\<forall>c\<in>set body. c \<noteq> CHR '']''" "CHR ''['' \<notin> set body" "CHR 0x5C \<notin> set body"
    using assms(4) by (auto simp: list_all_iff)
  then have "takeWhile (\<lambda>d. d \<noteq> CHR '']'') (body @ CHR '']'' # r) = body"
    "dropWhile (\<lambda>d. d \<noteq> CHR '']'') (body @ CHR '']'' # r) = CHR '']'' # r"
    by (simp_all add: takeWhile_append2 dropWhile_append2)
  then show ?thesis
    using assms(1-3) all by (simp add: parse_piece_def parse_atom_def split: prod.splits)
qed

lemma name_set_parse:
  "parse_piece (CHR ''['' # name_characters @ CHR '']'' # r) =
     (case parse_quant r of (q, r') \<Rightarrow> Some ((R_set name_characters, q), r'))"
  "parse_piece (CHR ''['' # name_characters_no_instance @ CHR '']'' # r) =
     (case parse_quant r of (q, r') \<Rightarrow> Some ((R_set name_characters_no_instance, q), r'))"
  by (rule set_parse; code_simp)+

lemma set_chars: "valid_set body \<Longrightarrow> rx_text body = body"
proof -
  assume "valid_set body"
  then have "\<forall>c\<in>set body. regex_char c = [c]"
    by (auto simp: valid_set_def list_all_iff regex_char_def)
  then show ?thesis by (induction body) auto
qed

lemma parse_seq_piece:
  assumes "s \<noteq> []" "hd s \<notin> set ''|)''" "parse_piece s = Some (p, r)"
  shows "parse_seq s = map_option (\<lambda>(ps, r'). (p # ps, r')) (parse_seq r)"
  using assms by (subst parse_seq.simps) simp

lemma parse_seq_end: "c = CHR ''|'' \<or> c = CHR '')'' \<Longrightarrow> parse_seq (c # r) = Some ([], c # r)"
  by (subst parse_seq.simps) auto

lemma parse_word:
  "list_all plain_pattern_char w \<Longrightarrow> c = CHR ''|'' \<or> c = CHR '')'' \<Longrightarrow>
   parse_seq (rx_text w @ c # r) = Some (map (\<lambda>d. (R_char d, Once)) w, c # r)"
proof (induction w)
  case Nil
  then show ?case by (simp add: parse_seq_end)
next
  case (Cons d w)
  let ?u = "rx_text w @ c # r"
  have d: "plain_pattern_char d" using Cons.prems by simp
  note start = plain_start [OF d]
  have "no_quant ?u"
  proof (cases w)
    case Nil
    then show ?thesis using Cons.prems(2) by (auto simp: no_quant_def)
  next
    case (Cons e v)
    then have "plain_pattern_char e" using Cons.prems(1) by simp
    from plain_start [OF this] show ?thesis using Cons by (simp add: no_quant_def)
  qed
  from plain_parse [OF d this] have "parse_seq (regex_char d @ ?u) = map_option (\<lambda>(ps, r'). ((R_char d, Once) # ps, r')) (parse_seq ?u)"
    using start by (intro parse_seq_piece) auto
  then show ?case using Cons by simp
qed

lemma parse_words:
  "ws \<noteq> [] \<Longrightarrow> list_all (list_all plain_pattern_char) ws \<Longrightarrow>
   parse_alts (rx_text (join_commas ws) @ CHR '')'' # r) = Some (map (map (\<lambda>d. (R_char d, Once))) ws, r)"
proof (induction ws rule: join_commas.induct)
  case (2 w)
  then show ?case by (subst parse_alts.simps) (simp add: parse_word)
next
  case (3 w v vs)
  have "parse_alts (rx_text (join_commas (w # v # vs)) @ CHR '')'' # r) =
      parse_alts (rx_text w @ CHR ''|'' # rx_text (join_commas (v # vs)) @ CHR '')'' # r)"
    by (simp add: regex_char_def)
  also have "\<dots> = map_option (\<lambda>(alts, r'). (map (\<lambda>d. (R_char d, Once)) w # alts, r'))
      (parse_alts (rx_text (join_commas (v # vs)) @ CHR '')'' # r))"
    using 3 by (subst parse_alts.simps) (simp add: parse_word)
  finally show ?case using 3 by simp
qed simp

lemma parse_items_piece:
  assumes "s \<noteq> []" "hd s \<noteq> CHR ''(''" "parse_piece s = Some ((a, q), r)"
  shows "parse_items s = map_option (Cons (Rx_atom a q)) (parse_items r)"
  using assms by (subst parse_items.simps) simp

lemma parse_items_group:
  assumes "parse_alts s = Some (alts, r)" "parse_quant r = (q, r')"
  shows "parse_items (CHR ''('' # s) = map_option (Cons (Rx_group alts q)) (parse_items r')"
  using assms by (subst parse_items.simps) simp

lemma parse_bang:
  "parse_items (instance_regex @ r) = map_option (Cons (pat_rx Bang)) (parse_items r)"
proof -
  let ?set = "CHR ''['' # name_characters_no_instance @ CHR '']'' # CHR ''+'' # CHR '')'' # CHR ''?'' # r"
  have "parse_piece (CHR 0x5C # CHR ''.'' # ?set) = Some ((R_char CHR ''.'', Once), ?set)"
    by (simp add: parse_piece_def parse_atom_def is_meta_def)
  moreover have "parse_seq (CHR '')'' # CHR ''?'' # r) = Some ([], CHR '')'' # CHR ''?'' # r)"
    by (simp add: parse_seq.simps)
  ultimately have "parse_alts (CHR 0x5C # CHR ''.'' # ?set) =
      Some ([[(R_char CHR ''.'', Once), (R_set name_characters_no_instance, Several)]], CHR ''?'' # r)"
    by (subst parse_alts.simps) (simp add: parse_seq.simps [of "_ # _"] name_set_parse)
  from parse_items_group [OF this] show ?thesis by (simp add: instance_regex_def)
qed

lemma parse_pat:
  assumes "valid_pat p" "no_quant r"
  shows "parse_items (rx_text (pat_item p) @ r) = map_option (Cons (pat_rx p)) (parse_items r)"
proof (cases p)
  case (Plain c)
  then show ?thesis
    using assms plain_start [of c] plain_parse [of c r]
      parse_items_piece [of "regex_char c @ r" "R_char c" Once r] by auto
next
  case Dot
  have "parse_piece (CHR ''.'' # r) = Some ((R_any, Once), r)"
    using assms(2) by (simp add: parse_piece_def parse_atom_def parse_no_quant)
  from parse_items_piece [OF _ _ this] show ?thesis using Dot by (simp add: regex_char_def)
next
  case Star
  have "parse_piece (CHR ''['' # name_characters @ CHR '']'' # CHR ''*'' # r) = Some ((R_set name_characters, Many), r)"
    by (simp add: name_set_parse)
  from parse_items_piece [OF _ _ this] show ?thesis using Star by (simp add: regex_char_def)
next
  case Qmark
  have "parse_piece (CHR ''['' # name_characters @ CHR '']'' # CHR ''?'' # r) = Some ((R_set name_characters, Optional), r)"
    by (simp add: name_set_parse)
  from parse_items_piece [OF _ _ this] show ?thesis using Qmark by (simp add: regex_char_def)
next
  case Bang
  then show ?thesis using parse_bang [of r] by (simp add: regex_char_def)
next
  case (One_of body)
  then have v: "valid_set body" using assms(1) by simp
  have "hd body \<noteq> CHR ''^''" "list_all (\<lambda>c. c \<noteq> CHR 0x5C \<and> c \<notin> set ''[]'') body"
    using v by (cases body; auto simp: valid_set_def list_all_iff)+
  then have "parse_piece (CHR ''['' # body @ CHR '']'' # r) = Some ((R_set body, Once), r)"
    using v set_parse [of body r] assms(2) by (simp add: valid_set_def parse_no_quant)
  from parse_items_piece [OF _ _ this] show ?thesis using One_of v by (simp add: regex_char_def set_chars)
next
  case (Words ws)
  then have "parse_items (CHR ''('' # rx_text (join_commas ws) @ CHR '')'' # r) =
      map_option (Cons (Rx_group (map (map (\<lambda>d. (R_char d, Once))) ws) Once)) (parse_items r)"
    using assms by (intro parse_items_group [OF parse_words]) (auto simp: parse_no_quant)
  then show ?thesis using Words by (simp add: regex_char_def)
qed

lemma pat_start: "valid_pat p \<Longrightarrow> no_quant (rx_text (pat_item p) @ r)"
  using plain_start by (cases p) (auto simp: no_quant_def regex_char_def instance_regex_def)

lemma parse_pattern:
  "list_all valid_pat ps \<Longrightarrow> parse_regex (regex_text (pat_text ps)) = Some (map pat_rx ps)"
proof -
  have "list_all valid_pat ps \<Longrightarrow> parse_items (rx_text (pat_text ps)) = Some (map pat_rx ps) \<and> no_quant (rx_text (pat_text ps))"
  proof (induction ps)
    case (Cons p ps)
    then show ?case using parse_pat [of p "rx_text (pat_text ps)"] pat_start [of p "rx_text (pat_text ps)"]
      by (simp add: pat_text_def)
  qed (simp add: pat_text_def parse_items.simps no_quant_def)
  then show "list_all valid_pat ps \<Longrightarrow> ?thesis"
    by (simp add: parse_regex_def regex_text_def rx_text_def)
qed

section \<open>The nodes that a pattern selects\<close>

text \<open>A part of an address without two dots in a row has no range to write out.\<close>

fun no_dots :: "string \<Rightarrow> bool" where
  "no_dots (a # b # cs) \<longleftrightarrow> \<not> (a = CHR ''.'' \<and> b = CHR ''.'') \<and> no_dots (b # cs)"
| "no_dots _ = True"

lemma no_dots_append: "no_dots (u @ s) \<Longrightarrow> no_dots s"
proof (induction u)
  case (Cons a u)
  then show ?case by (cases "u @ s") auto
qed simp

lemma no_dots_take: "no_dots s \<Longrightarrow> take 2 s \<noteq> ''..''"
  by (cases s rule: no_dots.cases) auto

lemma scan_int_append: "scan_int s = Some (i, rest) \<Longrightarrow> \<exists>u. s = u @ rest"
proof -
  assume "scan_int s = Some (i, rest)"
  then have "rest = drop (length i) s"
    by (auto simp: scan_int_def Let_def split: if_splits)
  then have "s = take (length i) s @ rest" by simp
  then show ?thesis by blast
qed

lemma scan_range_no_dots: "no_dots s \<Longrightarrow> scan_range (Suc (Suc n)) s = None"
proof (cases "scan_int (drop 1 s)")
  case None
  then show ?thesis by (simp add: scan_range_def scan_ints.simps)
next
  case (Some ir)
  assume "no_dots s"
  then have d: "no_dots (drop 1 s)" by (cases s) (auto dest: no_dots_append [of "[_]", simplified])
  obtain i rest where ir: "ir = (i, rest)" by (cases ir)
  obtain u where "drop 1 s = u @ rest" using scan_int_append Some ir by blast
  with d have "take 2 rest \<noteq> ''..''" using no_dots_append no_dots_take by metis
  then show ?thesis using Some ir by (simp add: scan_range_def scan_ints.simps)
qed

lemma matches_no_dots: "no_dots s \<Longrightarrow> matches_in (scan_range (Suc (Suc n))) s = map Kept s"
proof -
  have "no_dots s \<Longrightarrow> length s \<le> k \<Longrightarrow> pieces_of (scan_range (Suc (Suc n))) k s = map Kept s" for k
  proof (induction s arbitrary: k)
    case (Cons c cs)
    then show ?case
      using no_dots_append [of "[c]" cs] scan_range_no_dots [OF Cons.prems(1), of n] by (cases k) auto
  qed simp
  then show "no_dots s \<Longrightarrow> ?thesis" by (simp add: matches_in_def)
qed

lemma expand_ranges_no_dots: "no_dots s \<Longrightarrow> expand_ranges s = Some (Ok s)"
  using replace_ranges_none [OF matches_no_dots [of s 1], of triple_text]
    replace_ranges_none [OF matches_no_dots [of s 0], of double_text]
  by (simp add: expand_ranges_def numeral_eq_Suc)

definition valid_part :: "pat list \<Rightarrow> bool" where
  "valid_part ps \<longleftrightarrow> ps \<noteq> [] \<and> list_all valid_pat ps \<and> no_dots (pat_text ps)"

lemma make_regex_pattern:
  assumes "ecmascript compile matches" "valid_part ps"
  shows "\<exists>rx. make_regex compile (pat_text ps) = Some (Ok rx) \<and> (\<forall>s. matches rx s \<longleftrightarrow> pat_matches ps s)"
proof -
  have "parse_regex (regex_text (pat_text ps)) = Some (map pat_rx ps)"
    using assms(2) by (simp add: valid_part_def parse_pattern)
  then obtain rx where "compile (regex_text (pat_text ps)) = Some rx" "\<forall>s. matches rx s \<longleftrightarrow> regex_matches (map pat_rx ps) s"
    using assms(1) unfolding ecmascript_def by blast
  then show ?thesis
    using assms(2) by (simp add: make_regex_def valid_part_def expand_ranges_no_dots pattern_meaning)
qed

lemma is_regex_append: "is_regex (s @ t) \<longleftrightarrow> is_regex s \<or> is_regex t"
  by (simp add: is_regex_def)

lemma item_regex: "is_regex (pat_item p) \<or> (\<exists>c. p = Plain c)"
  by (cases p) (simp_all add: is_regex_def)

lemma plain_matches: "pat_matches (map Plain s) t \<longleftrightarrow> t = s"
proof (induction s arbitrary: t)
  case (Cons c s)
  then show ?case by (cases t) auto
qed simp

lemma literal_pattern: "\<not> is_regex (pat_text ps) \<Longrightarrow> pat_matches ps t \<longleftrightarrow> t = pat_text ps"
proof -
  assume no: "\<not> is_regex (pat_text ps)"
  have "\<not> is_regex (pat_text ps) \<Longrightarrow> ps = map Plain (pat_text ps)"
  proof (induction ps)
    case (Cons p ps)
    then have "\<not> is_regex (pat_item p)" "\<not> is_regex (pat_text ps)"
      by (simp_all add: pat_text_def is_regex_append)
    then show ?case using Cons.IH item_regex [of p] by (auto simp: pat_text_def)
  qed (simp add: pat_text_def)
  then show "pat_matches ps t \<longleftrightarrow> t = pat_text ps" using no plain_matches by metis
qed

lemma add_pattern:
  assumes "ecmascript compile matches" "cache_ok compile cache" "valid_part ps"
  shows "\<exists>c step. add_relative_path compile cache (pat_text ps) = Some (c, Ok step) \<and> cache_ok compile c \<and>
    is_name_step step \<and> (\<forall>t. step_accepts matches step t \<longleftrightarrow> pat_matches ps t)"
proof (cases "is_regex (pat_text ps)")
  case True
  obtain rx where rx: "make_regex compile (pat_text ps) = Some (Ok rx)" "\<forall>s. matches rx s \<longleftrightarrow> pat_matches ps s"
    using make_regex_pattern [OF assms(1,3)] by blast
  obtain c where "cached_regex compile cache (pat_text ps) = Some (c, Ok rx)" "cache_ok compile c"
    using cached_regex_outcome [OF assms(2), of "pat_text ps"] rx(1) by auto
  moreover have "pat_text ps \<noteq> ''..''" using assms(3) by (auto simp: valid_part_def)
  ultimately show ?thesis using True rx(2) by (simp add: add_relative_path_def)
next
  case False
  then show ?thesis
    using assms(2) literal_dots [OF False] literal_pattern [OF False] by (simp add: add_relative_path_def)
qed

lemma add_patterns:
  assumes "ecmascript compile matches" "cache_ok compile cache" "list_all valid_part pss"
  shows "\<exists>c steps. add_simple_address compile cache (map pat_text pss) = Some (c, Ok steps) \<and> cache_ok compile c \<and>
    list_all is_name_step steps \<and>
    (\<forall>ts. list_all2 (step_accepts matches) steps ts \<longleftrightarrow> list_all2 pat_matches pss ts)"
  using assms(2,3)
proof (induction pss arbitrary: cache)
  case (Cons ps pss)
  obtain c step where step: "add_relative_path compile cache (pat_text ps) = Some (c, Ok step)" "cache_ok compile c"
      "is_name_step step" "\<forall>t. step_accepts matches step t \<longleftrightarrow> pat_matches ps t"
    using add_pattern [OF assms(1) Cons.prems(1), of ps] Cons.prems(2) by auto
  obtain d steps where "add_simple_address compile c (map pat_text pss) = Some (d, Ok steps)" "cache_ok compile d"
      "list_all is_name_step steps"
      "\<forall>ts. list_all2 (step_accepts matches) steps ts \<longleftrightarrow> list_all2 pat_matches pss ts"
    using Cons.IH [OF step(2)] Cons.prems(2) by auto
  then show ?case using step by (simp add: list_all2_Cons1)
qed simp

lemma pat_text_parts:
  assumes "valid_part ps"
  shows "pat_text ps \<noteq> []" "CHR ''/'' \<notin> set (pat_text ps)"
proof -
  have item: "valid_pat p \<Longrightarrow> pat_item p \<noteq> [] \<and> CHR ''/'' \<notin> set (pat_item p)" for p
  proof (cases p)
    case (Words ws)
    have "list_all (list_all plain_pattern_char) ws \<Longrightarrow> CHR ''/'' \<notin> set (join_commas ws)"
      by (induction ws rule: join_commas.induct) (auto simp: list_all_iff plain_pattern_char_def)
    then show "valid_pat p \<Longrightarrow> ?thesis" using Words by simp
  qed (auto simp: plain_pattern_char_def valid_set_def list_all_iff)
  show "pat_text ps \<noteq> []" using assms item by (cases ps) (auto simp: valid_part_def pat_text_def)
  show "CHR ''/'' \<notin> set (pat_text ps)"
    using assms item by (auto simp: valid_part_def pat_text_def list_all_iff)
qed

text \<open>An absolute pattern selects the nodes whose names match it, part by part, each of them once.\<close>

definition pattern_address :: "pat list list \<Rightarrow> string" where
  "pattern_address pss = CHR ''/'' # join_slash (map pat_text pss)"

lemma pattern_path:
  assumes "ecmascript compile matches" "cache_ok compile cache" "pss \<noteq> []" "list_all valid_part pss"
  shows "\<exists>c p. make_path compile cache (pattern_address pss) = Some (c, Some p) \<and> cache_ok compile c \<and>
    distinct (apply_path matches device (child_functions p) [[]]) \<and>
    set (apply_path matches device (child_functions p) [[]]) =
      {q. node_at device q \<noteq> None \<and> list_all2 pat_matches pss (path_names device q)}"
proof -
  have parts: "map pat_text pss \<noteq> []" "\<forall>s\<in>set (map pat_text pss). s \<noteq> [] \<and> CHR ''/'' \<notin> set s"
    using assms(3,4) pat_text_parts by (auto simp: list_all_iff)
  obtain c steps where steps: "add_simple_address compile cache (map pat_text pss) = Some (c, Ok steps)" "cache_ok compile c"
      "list_all is_name_step steps"
      "\<forall>ts. list_all2 (step_accepts matches) steps ts \<longleftrightarrow> list_all2 pat_matches pss ts"
    using add_patterns [OF assms(1,2,4)] by blast
  from make_path_steps [OF absolute_steps [OF parts, of compile cache, unfolded steps(1)]] steps
  show ?thesis
    using apply_names_root [OF steps(3), of matches device] apply_names_distinct [OF steps(3), of "[[]]" matches device]
    by (simp add: pattern_address_def)
qed

end
