(* ===== verification/Osc_Protocol.thy ===== *)
theory Osc_Protocol
  imports Osc Path_Pattern
begin

text \<open>
  The OSC protocol of a device: \<open>network/osc/osc.cpp\<close> with \<open>filter_value\<close> and \<open>update_value\<close> of
  \<open>network/osc/detail/osc.hpp\<close>, \<open>handle_osc_message\<close> of \<open>network/osc/detail/osc_receive.hpp\<close> and the map
  of listened parameters of \<open>network/base/listening.hpp\<close>. The device is a tree of nodes with parameters;
  a pointer to a parameter is the place of its node. A message is its address and its arguments; the
  sockets, the loggers and the thread that receives are not modelled.
\<close>

section \<open>The map of listened parameters\<close>

type_synonym 'v listened = "string \<Rightarrow> 'v option"

definition listened_insert :: "'v listened \<Rightarrow> string \<Rightarrow> 'v \<Rightarrow> 'v listened" where
  "listened_insert m k v = (case m k of None \<Rightarrow> m(k \<mapsto> v) | Some _ \<Rightarrow> m)"

definition listened_erase :: "'v listened \<Rightarrow> string \<Rightarrow> 'v listened" where
  "listened_erase m k = m(k := None)"

definition find_and_take :: "'v listened \<Rightarrow> string \<Rightarrow> 'v listened \<times> 'v option" where
  "find_and_take m k = (case m k of Some v \<Rightarrow> (listened_erase m k, Some v) | None \<Rightarrow> (m, None))"

definition listened_rename :: "'v listened \<Rightarrow> string \<Rightarrow> string \<Rightarrow> 'v listened" where
  "listened_rename m oldk newk =
     (case m oldk of Some v \<Rightarrow> listened_insert (listened_erase m oldk) newk v | None \<Rightarrow> m)"

section \<open>The device\<close>

type_synonym message = "string \<times> osc_arg list"

record 'rx osc_device =
  dev_root :: "parameter node"
  dev_listening :: "nat list listened"
  dev_cache :: "'rx cache"
  dev_learning :: bool

datatype dev_event =
    Effect "nat list" effect
  | On_message "nat list"
  | Unhandled string val
  | Tree_event event

definition param_at :: "'p node \<Rightarrow> nat list \<Rightarrow> 'p option" where
  "param_at n p = (case node_at n p of Some m \<Rightarrow> node_param m | None \<Rightarrow> None)"

fun set_param_at :: "'p node \<Rightarrow> nat list \<Rightarrow> 'p \<Rightarrow> 'p node" where
  "set_param_at n [] x = Node (node_name n) (Some x) (node_children n)"
| "set_param_at n (i # p) x =
     set_children ((node_children n)[i := set_param_at (node_children n ! i) p x]) n"

section \<open>Sending\<close>

text \<open>\<open>filter_value\<close> on a value that is copied, and on one that is moved.\<close>

definition domain_filter :: "text_io \<Rightarrow> domain \<Rightarrow> bounding_mode \<Rightarrow> val \<Rightarrow> val res" where
  "domain_filter io d b v = (if d \<noteq> DNone then apply_domain io d b v else Ok v)"

definition domain_filter_move :: "text_io \<Rightarrow> domain \<Rightarrow> bounding_mode \<Rightarrow> val \<Rightarrow> val res" where
  "domain_filter_move io d b v = (if d \<noteq> DNone then apply_domain_move io d b v else Ok v)"

definition outbound_value :: "text_io \<Rightarrow> parameter \<Rightarrow> val \<Rightarrow> val res" where
  "outbound_value io p v =
     res_map (\<lambda>w. if filter_value p w then VUnset else w) (domain_filter io (p_domain p) (p_bounding p) v)"

text \<open>\<open>push\<close>: the message that is sent, if any.\<close>

definition osc_push :: "text_io \<Rightarrow> string \<Rightarrow> parameter \<Rightarrow> val \<Rightarrow> message option res" where
  "osc_push io address p v =
     (if p_access p = GET then Ok None
      else res_map (\<lambda>w. if valid w then Some (address, osc_outbound w) else None) (outbound_value io p v))"

text \<open>\<open>push_bundle\<close>: the messages of the bundle, for parameters that are given with their addresses.\<close>

definition osc_push_bundle :: "text_io \<Rightarrow> (string \<times> parameter) list \<Rightarrow> message list res" where
  "osc_push_bundle io ps =
     res_map (\<lambda>ms. List.map_filter (\<lambda>m. m) ms) (map_res (\<lambda>(a, p). osc_push io a p (p_value p)) ps)"

section \<open>Receiving\<close>

definition update_value ::
  "text_io \<Rightarrow> lex_io \<Rightarrow> parameter \<Rightarrow> osc_arg list \<Rightarrow> (parameter \<times> effect list \<times> bool) res" where
  "update_value io lio p args =
     res_bind (osc_to_value lio (p_value p) args) (\<lambda>v.
       res_bind (domain_filter_move io (p_domain p) (p_bounding p) v) (\<lambda>w.
         if valid w then
           (case set_value io p w of Returned (p', es) \<Rightarrow> Ok (p', es, True) | Thrown e _ \<Rightarrow> Err e)
         else Ok (p, [], False)))"

definition update_value_quiet ::
  "text_io \<Rightarrow> lex_io \<Rightarrow> parameter \<Rightarrow> osc_arg list \<Rightarrow> (parameter \<times> effect list \<times> bool) res" where
  "update_value_quiet io lio p args =
     res_bind (osc_to_value lio (p_value p) args) (\<lambda>v.
       res_bind (domain_filter_move io (p_domain p) (p_bounding p) v) (\<lambda>w.
         if valid w then
           (case set_value_quiet io p w of Returned p' \<Rightarrow> Ok (p', [], True) | Thrown e _ \<Rightarrow> Err e)
         else Ok (p, [], False)))"

text \<open>
  What a message does to the parameter of the node at a place. A pointer to a node without
  parameter is one that has become invalid.
\<close>

definition receive_at ::
  "text_io \<Rightarrow> lex_io \<Rightarrow> bool \<Rightarrow> 'rx osc_device \<Rightarrow> nat list \<Rightarrow> osc_arg list \<Rightarrow>
   ('rx osc_device \<times> dev_event list) outcome" where
  "receive_at io lio quiet dev p args =
     (case param_at (dev_root dev) p of
        None \<Rightarrow> Thrown Undefined_behaviour (dev, [])
      | Some x \<Rightarrow>
          (case (if quiet then update_value_quiet io lio x args else update_value io lio x args) of
             Err e \<Rightarrow> Thrown e (dev, [])
           | Ok (x', es, updated) \<Rightarrow>
               Returned (dev\<lparr>dev_root := set_param_at (dev_root dev) p x'\<rparr>,
                 map (Effect p) es @ (if updated then [On_message p] else []))))"

text \<open>The loop over the nodes that match a pattern.\<close>

fun receive_each ::
  "text_io \<Rightarrow> lex_io \<Rightarrow> bool \<Rightarrow> 'rx osc_device \<Rightarrow> nat list list \<Rightarrow> osc_arg list \<Rightarrow>
   ('rx osc_device \<times> dev_event list) outcome" where
  "receive_each io lio silent dev [] args = Returned (dev, [])"
| "receive_each io lio silent dev (p # ps) args =
     (if param_at (dev_root dev) p = None then receive_each io lio silent dev ps args
      else
        (let quiet = (silent \<and> dev_listening dev (osc_parameter_string (dev_root dev) p) = None)
         in case receive_at io lio quiet dev p args of
           Thrown e s \<Rightarrow> Thrown e s
         | Returned (dev', evs) \<Rightarrow>
             (case receive_each io lio silent dev' ps args of
                Thrown e (dev'', evs') \<Rightarrow> Thrown e (dev'', evs @ evs')
              | Returned (dev'', evs') \<Rightarrow> Returned (dev'', evs @ evs'))))"

definition unhandled :: "'rx osc_device \<Rightarrow> message \<Rightarrow> ('rx osc_device \<times> dev_event list) outcome" where
  "unhandled dev m =
     (case create_any (snd m) of
        Ok v \<Rightarrow> Returned (dev, [Unhandled (fst m) v])
      | Err e \<Rightarrow> Thrown e (dev, []))"

text \<open>\<open>handle_osc_message\<close>; it is \<open>None\<close> when the construction of the path does not end.\<close>

definition handle_osc_message ::
  "text_io \<Rightarrow> lex_io \<Rightarrow> (string \<Rightarrow> 'rx option) \<Rightarrow> ('rx \<Rightarrow> string \<Rightarrow> bool) \<Rightarrow> bool \<Rightarrow> 'rx osc_device \<Rightarrow> message \<Rightarrow>
   ('rx osc_device \<times> dev_event list) outcome option" where
  "handle_osc_message io lio compile matches silent dev m =
     (case dev_listening dev (fst m) of
        Some p \<Rightarrow> Some (receive_at io lio False dev p (snd m))
      | None \<Rightarrow>
          (case find_node (dev_root dev) (fst m) of
             Some p \<Rightarrow>
               (if param_at (dev_root dev) p = None then Some (Returned (dev, []))
                else Some (receive_at io lio silent dev p (snd m)))
           | None \<Rightarrow>
               map_option
                 (\<lambda>(c, ps). if ps = [] then unhandled (dev\<lparr>dev_cache := c\<rparr>) m
                    else receive_each io lio silent (dev\<lparr>dev_cache := c\<rparr>) ps (snd m))
                 (find_nodes compile matches (dev_cache dev) (dev_root dev) [] (fst m))))"

definition observe :: "'rx osc_device \<Rightarrow> nat list \<Rightarrow> bool \<Rightarrow> 'rx osc_device" where
  "observe dev p enable =
     (let a = osc_parameter_string (dev_root dev) p
      in dev\<lparr>dev_listening := (if enable then listened_insert (dev_listening dev) a p
                               else listened_erase (dev_listening dev) a)\<rparr>)"

section \<open>Learning\<close>

text \<open>The walk along the parts of the address, and whether a node was created on the way.\<close>

fun learn_walk :: "bool \<Rightarrow> 'p node \<Rightarrow> string list \<Rightarrow> ('p node \<times> event list \<times> nat list \<times> bool) res" where
  "learn_walk ct n [] = Ok (n, [], [], False)"
| "learn_walk ct n (s # ss) =
     (case find_child n s of
        Some i \<Rightarrow>
          res_map (\<lambda>(c, evs, p, new). (set_children ((node_children n)[i := c]) n,
              map (below (node_name c)) evs, i # p, new))
            (learn_walk ct (node_children n ! i) ss)
      | None \<Rightarrow>
          res_bind (create_child ct n s) (\<lambda>(n', evs, r).
            case r of
              None \<Rightarrow> Err Undefined_behaviour
            | Some i \<Rightarrow>
                res_map (\<lambda>(c, evs', p, new). (set_children ((node_children n')[i := c]) n',
                    evs @ map (below (node_name c)) evs', i # p, True))
                  (learn_walk ct (node_children n' ! i) ss)))"

definition is_vec_of :: "nat \<Rightarrow> val list \<Rightarrow> bool" where
  "is_vec_of n vs \<longleftrightarrow> length vs = n \<and> list_all (\<lambda>v. get_type v = T_FLOAT) vs"

text \<open>The type of the parameter that is created, and the value that it is given, if any.\<close>

definition learned_value :: "text_io \<Rightarrow> osc_arg list \<Rightarrow> (val_type \<times> val option) res" where
  "learned_value io args =
     (case args of
        [] \<Rightarrow> Ok (T_IMPULSE, None)
      | [a] \<Rightarrow> Ok (get_type (create_value a), Some (create_value a))
      | _ \<Rightarrow>
          res_map (\<lambda>vs.
              if length args = 2 \<and> is_vec_of 2 vs then (T_VEC2F, Some (VVec2f (list_to_vec io 2 vs)))
              else if length args = 3 \<and> is_vec_of 3 vs then (T_VEC3F, Some (VVec3f (list_to_vec io 3 vs)))
              else if length args = 4 \<and> is_vec_of 4 vs then (T_VEC4F, Some (VVec4f (list_to_vec io 4 vs)))
              else (T_LIST, Some (VList vs)))
            (create_list args))"

definition learn_parameter ::
  "text_io \<Rightarrow> parameter option \<Rightarrow> osc_arg list \<Rightarrow> (parameter option \<times> effect list) outcome" where
  "learn_parameter io p args =
     (case learned_value io args of
        Err e \<Rightarrow> Thrown e (p, [])
      | Ok (t, v) \<Rightarrow>
          (case and_then (create_parameter io p t)
              (\<lambda>q. case v of None \<Rightarrow> Returned (q, []) | Some w \<Rightarrow> set_value io q w) of
             Returned (q, es) \<Rightarrow> Returned (Some q, es)
           | Thrown e (q, es) \<Rightarrow> Thrown e (Some q, es)))"

definition on_learn ::
  "text_io \<Rightarrow> bool \<Rightarrow> 'rx osc_device \<Rightarrow> message \<Rightarrow> ('rx osc_device \<times> dev_event list) outcome" where
  "on_learn io ct dev m =
     (case learn_walk ct (dev_root dev) (address_parts (fst m)) of
        Err e \<Rightarrow> Thrown e (dev, [])
      | Ok (n, evs, p, new) \<Rightarrow>
          (if \<not> new then Returned (dev, [])
           else case learn_parameter io (param_at n p) (snd m) of
             Returned (Some x, es) \<Rightarrow>
               Returned (dev\<lparr>dev_root := set_param_at n p x\<rparr>, map Tree_event evs @ map (Effect p) es)
           | Returned (None, es) \<Rightarrow> Returned (dev\<lparr>dev_root := n\<rparr>, map Tree_event evs)
           | Thrown e _ \<Rightarrow> Thrown e (dev\<lparr>dev_root := n\<rparr>, map Tree_event evs)))"

definition on_received_message ::
  "text_io \<Rightarrow> lex_io \<Rightarrow> (string \<Rightarrow> 'rx option) \<Rightarrow> ('rx \<Rightarrow> string \<Rightarrow> bool) \<Rightarrow> bool \<Rightarrow> 'rx osc_device \<Rightarrow> message \<Rightarrow>
   ('rx osc_device \<times> dev_event list) outcome option" where
  "on_received_message io lio compile matches ct dev m =
     (if \<not> dev_learning dev then handle_osc_message io lio compile matches False dev m
      else Some (on_learn io ct dev m))"

section \<open>Parameters in the tree\<close>

lemma set_param_at_name [simp]: "node_name (set_param_at n p x) = node_name n"
  by (cases p) simp_all

lemma set_param_at_children:
  "length (node_children (set_param_at n p x)) = length (node_children n)"
  by (cases p) simp_all

lemma children_names_set_param: "children_names (set_param_at n p x) = children_names n"
  by (cases p) (simp_all add: children_names_def names_update [unfolded children_names_def])

lemma find_child_set_param: "find_child (set_param_at n p x) s = find_child n s"
  by (simp add: find_child_def children_names_set_param)

text \<open>Replacing a parameter moves no node and changes no other parameter.\<close>

lemma node_at_set_param: "node_at (set_param_at n p x) q = None \<longleftrightarrow> node_at n q = None"
proof (induction n p x arbitrary: q rule: set_param_at.induct)
  case (1 n x)
  then show ?case by (cases q) simp_all
next
  case (2 n i p x)
  show ?case
  proof (cases q)
    case (Cons j r)
    then show ?thesis using 2 [of r] by (cases "j = i") auto
  qed simp
qed

lemma param_at_simps [simp]:
  "param_at n [] = node_param n"
  "param_at n (i # p) = (if i < length (node_children n) then param_at (node_children n ! i) p else None)"
  by (simp_all add: param_at_def)

lemma param_at_set_param:
  "node_at n p \<noteq> None \<Longrightarrow> param_at (set_param_at n p x) q = (if q = p then Some x else param_at n q)"
proof (induction n p x arbitrary: q rule: set_param_at.induct)
  case (1 n x)
  then show ?case by (cases q) simp_all
next
  case (2 n i p x)
  then have i: "i < length (node_children n)" "node_at (node_children n ! i) p \<noteq> None"
    by (auto split: if_splits)
  show ?case
  proof (cases q)
    case Nil
    then show ?thesis by (simp add: set_children_def)
  next
    case (Cons j r)
    then show ?thesis using "2.IH" [OF i(2), of r] i(1) by (cases "j = i") auto
  qed
qed

lemma update_child_nth:
  "node_children (set_param_at n (i # p) x) ! j =
     (if j = i \<and> i < length (node_children n) then set_param_at (node_children n ! i) p x else node_children n ! j)"
  by (cases "i < length (node_children n)") (auto simp: list_update_beyond)

lemma path_names_set_param: "path_names (set_param_at n p x) q = path_names n q"
proof (induction q arbitrary: n p)
  case (Cons j r)
  show ?case
  proof (cases p)
    case (Cons i p')
    then show ?thesis
      using Cons.IH [of "node_children n ! i" p']
      by (simp add: update_child_nth del: set_param_at.simps)
  qed (simp add: Cons.IH)
qed simp

lemma wf_set_param: "wf_tree n \<Longrightarrow> wf_tree (set_param_at n p x)"
proof (induction n p x rule: set_param_at.induct)
  case (1 n x)
  then show ?case by (cases n) simp
next
  case (2 n i p x)
  show ?case
  proof (cases "i < length (node_children n)")
    case True
    then show ?thesis using 2 wf_child [OF 2(2) True] by (auto intro: wf_update)
  qed (use 2(2) in \<open>simp add: list_update_beyond\<close>)
qed

lemma find_parts_set_param: "find_parts (set_param_at n p x) ss = find_parts n ss"
proof (induction ss arbitrary: n p)
  case (Cons s ss)
  show ?case
  proof (cases "find_child n s")
    case (Some i)
    then have find: "find_child (set_param_at n p x) s = Some i" by (simp add: find_child_set_param)
    show ?thesis
    proof (cases p)
      case Nil
      then show ?thesis using Some find by simp
    next
      case (Cons j r)
      then show ?thesis
        using Some find Cons.IH [of "node_children n ! j" r]
        by (simp add: update_child_nth del: set_param_at.simps)
    qed
  qed (simp add: find_child_set_param)
qed simp

lemma find_node_set_param: "find_node (set_param_at n p x) a = find_node n a"
  by (simp add: find_node_parts find_parts_set_param)

lemma osc_string_set_param: "osc_parameter_string (set_param_at n p x) q = osc_parameter_string n q"
  by (simp add: osc_parameter_string_def path_names_set_param)

section \<open>The invariant of the device\<close>

text \<open>
  The names of the tree are those of a tree, every parameter has a value of its type, and the
  listened places are those of parameters.
\<close>

definition typed_parameter :: "parameter \<Rightarrow> bool" where
  "typed_parameter p \<longleftrightarrow> get_type (p_value p) = p_value_type p \<and> p_value_type p \<noteq> T_NONE"

definition wf_device :: "'rx osc_device \<Rightarrow> bool" where
  "wf_device dev \<longleftrightarrow>
     wf_tree (dev_root dev) \<and>
     (\<forall>p x. param_at (dev_root dev) p = Some x \<longrightarrow> typed_parameter x) \<and>
     (\<forall>a p. dev_listening dev a = Some p \<longrightarrow> param_at (dev_root dev) p \<noteq> None)"

lemma param_at_node: "param_at n p = Some x \<Longrightarrow> node_at n p \<noteq> None"
  by (auto simp: param_at_def split: option.splits)

lemma wf_device_set_param:
  assumes "wf_device dev" "param_at (dev_root dev) p = Some x" "typed_parameter y"
  shows "wf_device (dev\<lparr>dev_root := set_param_at (dev_root dev) p y\<rparr>)"
  using assms param_at_set_param [OF param_at_node [OF assms(2)]]
  by (auto simp: wf_device_def wf_set_param)

lemma wf_device_cache [simp]: "wf_device (dev\<lparr>dev_cache := c\<rparr>) \<longleftrightarrow> wf_device dev"
  by (simp add: wf_device_def)

lemma set_value_typed:
  assumes "typed_parameter p" "set_value io p v = Returned (p', es)"
  shows "typed_parameter p' \<and> p_value_type p' = p_value_type p"
  using assms convert_like_type [of io v "p_value p"]
  by (fastforce simp: set_value_def typed_parameter_def split: if_splits res.splits)

lemma update_value_typed:
  assumes "typed_parameter p" "update_value io lio p args = Ok (p', es, b)"
  shows "typed_parameter p' \<and> p_value_type p' = p_value_type p"
  using assms set_value_typed [OF assms(1)]
  by (auto simp: update_value_def split: if_splits outcome.splits)

lemma res_map_bind: "res_map g (res_bind m f) = res_bind m (\<lambda>x. res_map g (f x))"
  by (cases m) simp_all

lemma update_value_quiet_same:
  "update_value_quiet io lio p args =
     res_map (\<lambda>(p', es, b). (p', [], b)) (update_value io lio p args)"
proof -
  have "(case set_value_quiet io p w of Returned p' \<Rightarrow> Ok (p', [] :: effect list, True) | Thrown e x \<Rightarrow> Err e) =
      res_map (\<lambda>(p', es, b). (p', [], b))
        (case set_value io p w of Returned (p', es) \<Rightarrow> Ok (p', es, True) | Thrown e x \<Rightarrow> Err e)" for w
    by (auto simp: set_value_def set_value_quiet_def split: res.splits)
  then show ?thesis
    unfolding update_value_def update_value_quiet_def res_map_bind if_distrib [of "res_map _"]
    by (simp cong: if_cong)
qed

section \<open>What a message changes\<close>

text \<open>The parameter after a message, when the message can be read.\<close>

definition received :: "text_io \<Rightarrow> lex_io \<Rightarrow> parameter \<Rightarrow> osc_arg list \<Rightarrow> parameter" where
  "received io lio x args = (case update_value io lio x args of Ok (y, _, _) \<Rightarrow> y | Err _ \<Rightarrow> x)"

lemma receive_at_Returned:
  assumes "receive_at io lio quiet dev p args = Returned (dev', evs)"
  obtains x where "param_at (dev_root dev) p = Some x" "update_value io lio x args \<noteq> Err Undefined_behaviour"
    "dev' = dev\<lparr>dev_root := set_param_at (dev_root dev) p (received io lio x args)\<rparr>"
proof -
  obtain x where x: "param_at (dev_root dev) p = Some x"
    using assms by (auto simp: receive_at_def split: option.splits)
  show ?thesis
    using assms x that [OF x]
    by (cases "update_value io lio x args")
      (auto simp: receive_at_def received_def update_value_quiet_same split: if_splits)
qed

lemma received_typed: "typed_parameter x \<Longrightarrow> typed_parameter (received io lio x args)"
  by (auto simp: received_def dest: update_value_typed split: res.splits)

lemma receive_at_wf:
  assumes "wf_device dev" "receive_at io lio quiet dev p args = Returned (dev', evs)"
  shows "wf_device dev'"
proof -
  obtain x where x: "param_at (dev_root dev) p = Some x"
      "dev' = dev\<lparr>dev_root := set_param_at (dev_root dev) p (received io lio x args)\<rparr>"
    by (rule receive_at_Returned [OF assms(2)])
  have "typed_parameter (received io lio x args)"
    using assms(1) x(1) by (intro received_typed) (simp add: wf_device_def)
  with wf_device_set_param [OF assms(1) x(1)] x(2) show ?thesis by simp
qed

lemma receive_at_thrown: "receive_at io lio quiet dev p args = Thrown e s \<Longrightarrow> s = (dev, [])"
  by (auto simp: receive_at_def split: option.splits res.splits)

text \<open>Exactly the parameters of the given nodes are changed, each to what the message makes of it.\<close>

lemma receive_each_spec:
  "receive_each io lio silent dev ps args = Returned (dev', evs) \<Longrightarrow> distinct ps \<Longrightarrow>
   param_at (dev_root dev') q = map_option (\<lambda>x. if q \<in> set ps then received io lio x args else x) (param_at (dev_root dev) q) \<and>
   path_names (dev_root dev') q = path_names (dev_root dev) q \<and> dev_listening dev' = dev_listening dev"
proof (induction io lio silent dev ps args arbitrary: evs rule: receive_each.induct)
  case (1 io lio silent dev args)
  then show ?case by (cases "param_at (dev_root dev) q") auto
next
  case (2 io lio silent dev p ps args)
  show ?case
  proof (cases "param_at (dev_root dev) p")
    case None
    then show ?thesis using 2 by (cases "q = p") auto
  next
    case (Some x)
    let ?quiet = "silent \<and> dev_listening dev (osc_parameter_string (dev_root dev) p) = None"
    obtain dev1 evs1 evs2 where one: "receive_at io lio ?quiet dev p args = Returned (dev1, evs1)"
      and rest: "receive_each io lio silent dev1 ps args = Returned (dev', evs2)"
      using "2.prems"(1) Some by (auto split: outcome.splits)
    have dev1: "dev1 = dev\<lparr>dev_root := set_param_at (dev_root dev) p (received io lio x args)\<rparr>"
      using one Some by (auto elim: receive_at_Returned)
    note step = param_at_set_param [OF param_at_node [OF Some], of "received io lio x args" q]
    have "param_at (dev_root dev') q = map_option (\<lambda>x. if q \<in> set ps then received io lio x args else x) (param_at (dev_root dev1) q) \<and>
        path_names (dev_root dev') q = path_names (dev_root dev1) q \<and> dev_listening dev' = dev_listening dev1"
      using "2.IH"(2) [OF _ _ one refl rest] Some "2.prems"(2) by simp
    then show ?thesis
      using step "2.prems"(2) Some dev1 by (auto simp: path_names_set_param)
  qed
qed

lemma receive_each_wf:
  "receive_each io lio silent dev ps args = Returned (dev', evs) \<Longrightarrow> wf_device dev \<Longrightarrow> wf_device dev'"
proof (induction io lio silent dev ps args arbitrary: evs rule: receive_each.induct)
  case (2 io lio silent dev p ps args)
  show ?case
  proof (cases "param_at (dev_root dev) p")
    case None
    then show ?thesis using 2 by simp
  next
    case (Some x)
    let ?quiet = "silent \<and> dev_listening dev (osc_parameter_string (dev_root dev) p) = None"
    obtain dev1 evs1 evs2 where one: "receive_at io lio ?quiet dev p args = Returned (dev1, evs1)"
      and rest: "receive_each io lio silent dev1 ps args = Returned (dev', evs2)"
      using "2.prems"(1) Some by (auto split: outcome.splits)
    from "2.IH"(2) [OF _ _ one refl rest] Some receive_at_wf [OF "2.prems"(2) one] show ?thesis by simp
  qed
qed simp

text \<open>Handling a message keeps the invariant.\<close>

lemma unhandled_wf: "unhandled dev m = Returned (dev', evs) \<Longrightarrow> dev' = dev"
  by (auto simp: unhandled_def split: res.splits)

lemma handle_osc_message_wf:
  assumes "wf_device dev" "handle_osc_message io lio compile matches silent dev m = Some (Returned (dev', evs))"
  shows "wf_device dev'"
  using assms
  by (auto simp: handle_osc_message_def dest: receive_at_wf receive_each_wf unhandled_wf
      split: option.splits if_splits)

section \<open>From one device to another\<close>

text \<open>Where a message for an address goes, when there is a parameter for it.\<close>

definition target :: "'rx osc_device \<Rightarrow> string \<Rightarrow> nat list option" where
  "target dev a = (case dev_listening dev a of Some p \<Rightarrow> Some p | None \<Rightarrow> find_node (dev_root dev) a)"

lemma handle_target:
  assumes "target dev a = Some p" "param_at (dev_root dev) p \<noteq> None"
  shows "handle_osc_message io lio compile matches False dev (a, args) = Some (receive_at io lio False dev p args)"
  using assms by (auto simp: target_def handle_osc_message_def split: option.splits)

lemma osc_push_Some:
  "osc_push io a p v = Ok (Some m) \<longleftrightarrow>
   p_access p \<noteq> GET \<and>
   (\<exists>w. domain_filter io (p_domain p) (p_bounding p) v = Ok w \<and> valid w \<and> \<not> filter_value p w \<and> m = (a, osc_outbound w))"
  by (auto simp: osc_push_def outbound_value_def res_map_Ok_iff split: if_splits)

text \<open>
  The value that leaves one device is the value that the parameter of the other device gets, when
  that parameter has its type and accepts it.
\<close>

lemma update_value_received:
  assumes "wf_parameter x" "osc_faithful w" "wf_val w" "valid w" "get_type w = p_value_type x"
    and "domain_filter_move io (p_domain x) (p_bounding x) w = Ok w"
  shows "update_value io lio x (osc_outbound w) =
    Ok (x\<lparr>p_previous := p_value x, p_value := w\<rparr>, [Sent w], True)"
proof -
  have "osc_to_value lio (p_value x) (osc_outbound w) = Ok w"
    using assms(1,5) by (intro osc_roundtrip [OF assms(2,3)]) (auto simp: wf_parameter_def)
  then show ?thesis
    using assms(4,6) set_value_same_type [OF assms(1,5)] by (simp add: update_value_def)
qed

lemma push_received:
  assumes "osc_push io a p v = Ok (Some m)"
    and "domain_filter io (p_domain p) (p_bounding p) v = Ok w"
    and "osc_faithful w" "wf_val w"
    and "target dev a = Some q" "param_at (dev_root dev) q = Some x"
    and "wf_parameter x" "get_type w = p_value_type x"
    and "domain_filter_move io (p_domain x) (p_bounding x) w = Ok w"
  shows "handle_osc_message io' lio compile matches False dev m =
      handle_osc_message io' lio compile matches False dev (a, osc_outbound w)"
    and "handle_osc_message io lio compile matches False dev m =
      Some (Returned (dev\<lparr>dev_root := set_param_at (dev_root dev) q (x\<lparr>p_previous := p_value x, p_value := w\<rparr>)\<rparr>,
        [Effect q (Sent w), On_message q]))"
proof -
  have m: "m = (a, osc_outbound w)" and w: "valid w" using assms(1,2) by (auto simp: osc_push_Some)
  show "handle_osc_message io' lio compile matches False dev m =
      handle_osc_message io' lio compile matches False dev (a, osc_outbound w)" by (simp add: m)
  have "param_at (dev_root dev) q \<noteq> None" using assms(6) by simp
  from handle_target [OF assms(5) this, of io lio compile matches "osc_outbound w"]
  show "handle_osc_message io lio compile matches False dev m =
      Some (Returned (dev\<lparr>dev_root := set_param_at (dev_root dev) q (x\<lparr>p_previous := p_value x, p_value := w\<rparr>)\<rparr>,
        [Effect q (Sent w), On_message q]))"
    using update_value_received [OF assms(7,3,4) w assms(8,9)] assms(6) by (simp add: m receive_at_def)
qed

section \<open>Messages for a pattern\<close>

text \<open>
  A message whose address is a pattern is received by the parameters of the nodes whose names match
  it, part by part, and by no other; it never runs forever.
\<close>

lemma pattern_find_nodes:
  assumes "ecmascript compile matches" "cache_ok compile cache" "pss \<noteq> []" "list_all valid_part pss"
    and "is_pattern (pattern_address pss)"
  shows "\<exists>c ps. find_nodes compile matches cache device [] (pattern_address pss) = Some (c, ps) \<and> cache_ok compile c \<and>
    distinct ps \<and> set ps = {q. node_at device q \<noteq> None \<and> list_all2 pat_matches pss (path_names device q)}"
  using pattern_path [OF assms(1-4), of device] assms(5) by (fastforce simp: find_nodes_def)

lemma handle_pattern:
  assumes "ecmascript compile matches" "cache_ok compile (dev_cache dev)" "pss \<noteq> []" "list_all valid_part pss"
    and "is_pattern (pattern_address pss)" "target dev (pattern_address pss) = None"
  shows "handle_osc_message io lio compile matches silent dev (pattern_address pss, args) \<noteq> None"
    and "handle_osc_message io lio compile matches silent dev (pattern_address pss, args) = Some (Returned (dev', evs)) \<Longrightarrow>
      param_at (dev_root dev') q = map_option
        (\<lambda>x. if list_all2 pat_matches pss (path_names (dev_root dev) q) then received io lio x args else x)
        (param_at (dev_root dev) q)"
proof -
  obtain c ps where ps: "find_nodes compile matches (dev_cache dev) (dev_root dev) [] (pattern_address pss) = Some (c, ps)"
      "distinct ps" "set ps = {q. node_at (dev_root dev) q \<noteq> None \<and> list_all2 pat_matches pss (path_names (dev_root dev) q)}"
    using pattern_find_nodes [OF assms(1-5), of "dev_root dev"] by blast
  have run: "handle_osc_message io lio compile matches silent dev (pattern_address pss, args) =
      Some (if ps = [] then unhandled (dev\<lparr>dev_cache := c\<rparr>) (pattern_address pss, args)
        else receive_each io lio silent (dev\<lparr>dev_cache := c\<rparr>) ps args)"
    using assms(6) ps(1) by (auto simp: handle_osc_message_def target_def split: option.splits)
  then show "handle_osc_message io lio compile matches silent dev (pattern_address pss, args) \<noteq> None" by simp
  have iff: "q \<in> set ps \<longleftrightarrow> list_all2 pat_matches pss (path_names (dev_root dev) q)"
    if "param_at (dev_root dev) q = Some x" for x
    using ps(3) param_at_node [OF that] by simp
  assume "handle_osc_message io lio compile matches silent dev (pattern_address pss, args) = Some (Returned (dev', evs))"
  then have res: "(if ps = [] then unhandled (dev\<lparr>dev_cache := c\<rparr>) (pattern_address pss, args)
        else receive_each io lio silent (dev\<lparr>dev_cache := c\<rparr>) ps args) = Returned (dev', evs)"
    using run by simp
  show "param_at (dev_root dev') q = map_option
      (\<lambda>x. if list_all2 pat_matches pss (path_names (dev_root dev) q) then received io lio x args else x)
      (param_at (dev_root dev) q)"
  proof (cases "ps = []")
    case True
    then show ?thesis using res unhandled_wf iff by (cases "param_at (dev_root dev) q") fastforce+
  next
    case False
    then have "receive_each io lio silent (dev\<lparr>dev_cache := c\<rparr>) ps args = Returned (dev', evs)" using res by simp
    from receive_each_spec [OF this ps(2), of q] iff show ?thesis
      by (cases "param_at (dev_root dev) q") auto
  qed
qed

section \<open>What is learned\<close>

lemma learn_walk_parts:
  "list_all valid_name ss \<Longrightarrow>
   \<exists>evs. learn_walk True n ss = Ok (fst (ensure_parts n ss), evs, snd (ensure_parts n ss), find_parts n ss = None)"
proof (induction ss arbitrary: n)
  case (Cons s ss)
  have IH: "\<exists>evs. learn_walk True c ss =
      Ok (fst (ensure_parts c ss), evs, snd (ensure_parts c ss), find_parts c ss = None)" for c :: "'a node"
    using Cons by simp
  show ?case
  proof (cases "find_child n s")
    case None
    then show ?thesis
      using IH [of "Node s None []"] Cons.prems create_child_new [of s n]
      by (auto simp: split_beta nth_append list_update_append)
  next
    case (Some i)
    then show ?thesis using IH [of "node_children n ! i"] by (auto simp: split_beta)
  qed
qed simp

text \<open>A node that was missing is created without a parameter.\<close>

lemma ensure_new_param:
  "find_parts n ss = None \<Longrightarrow> param_at (fst (ensure_parts n ss)) (snd (ensure_parts n ss)) = None"
proof (induction ss arbitrary: n)
  case (Cons s ss)
  show ?case
  proof (cases "find_child n s")
    case None
    let ?new = "Node s None [] :: 'a node"
    have "param_at (fst (ensure_parts ?new ss)) (snd (ensure_parts ?new ss)) = None"
      using Cons.IH [of "Node s None []"] by (cases ss) (auto simp: find_child_def children_names_def)
    then show ?thesis using None by (simp add: split_beta nth_append)
  next
    case (Some i)
    then show ?thesis
      using Cons.IH [of "node_children n ! i"] Cons.prems find_child_Some [OF Some] by (auto simp: split_beta)
  qed
qed simp

lemma ensure_keeps_params:
  "param_at n q = Some x \<Longrightarrow> param_at (fst (ensure_parts n ss)) q = Some x"
proof (induction n ss arbitrary: q rule: ensure_parts.induct)
  case (2 n s ss)
  show ?case
  proof (cases q)
    case Nil
    then show ?thesis using "2.prems" by (auto simp: split_beta set_children_def split: option.splits)
  next
    case (Cons j r)
    show ?thesis
    proof (cases "find_child n s")
      case None
      then show ?thesis using "2.prems" Cons by (auto simp: split_beta nth_append split: if_splits)
    next
      case (Some i)
      then show ?thesis using "2.IH"(2) [OF Some, of r] "2.prems" Cons
        by (cases "j = i") (auto simp: split_beta split: if_splits)
    qed
  qed
qed simp

lemma set_type_generic:
  "init_value t = Ok u \<Longrightarrow>
   set_value_type io generic_parameter t =
     Returned (generic_parameter\<lparr>p_value_type := t, p_value := u\<rparr>, [Modified Value_type_attr])"
  by (simp add: set_value_type_def generic_parameter_def Let_def)

definition learned_parameter :: "val_type \<Rightarrow> val \<Rightarrow> val \<Rightarrow> parameter" where
  "learned_parameter t u v = generic_parameter\<lparr>p_value_type := t, p_previous := u, p_value := v\<rparr>"

lemma learn_parameter_value:
  assumes "learned_value io args = Ok (t, Some v)" "get_type v = t" "init_value t = Ok u"
  shows "learn_parameter io None args =
    Returned (Some (learned_parameter t u v), [Modified Value_type_attr, Parameter_created, Sent v])"
proof -
  have "valid v" using assms(2,3) by (cases v) auto
  then show ?thesis
    using assms init_value_type [OF assms(3)]
    by (simp add: learn_parameter_def create_parameter_def set_type_generic set_value_def learned_parameter_def)
qed

text \<open>
  A message for an address that is not known creates the missing nodes, and a parameter with the
  value of the message; what was there stays. The next message for it changes nothing.
\<close>

lemma on_learn_new:
  assumes "list_all valid_name (address_parts a)" "find_parts (dev_root dev) (address_parts a) = None"
    and "learned_value io args = Ok (t, Some v)" "get_type v = t" "init_value t = Ok u"
  shows "\<exists>n p evs. on_learn io True dev (a, args) = Returned (dev\<lparr>dev_root := n\<rparr>, evs) \<and>
    find_parts n (address_parts a) = Some p \<and> param_at n p = Some (learned_parameter t u v) \<and>
    (wf_tree (dev_root dev) \<longrightarrow> wf_tree n) \<and>
    (\<forall>q x. param_at (dev_root dev) q = Some x \<longrightarrow> param_at n q = Some x)"
proof -
  let ?ss = "address_parts a"
  let ?m = "fst (ensure_parts (dev_root dev) ?ss)" and ?p = "snd (ensure_parts (dev_root dev) ?ss)"
  let ?x = "learned_parameter t u v"
  obtain evs where walk: "learn_walk True (dev_root dev) ?ss = Ok (?m, evs, ?p, True)"
    using learn_walk_parts [OF assms(1), of "dev_root dev"] assms(2) by auto
  have none: "param_at ?m ?p = None" using assms(2) by (rule ensure_new_param)
  have found: "find_parts ?m ?ss = Some ?p" by (rule ensure_finds)
  then have at: "node_at ?m ?p \<noteq> None" using find_parts_path by blast
  have run: "on_learn io True dev (a, args) = Returned (dev\<lparr>dev_root := set_param_at ?m ?p ?x\<rparr>,
      map Tree_event evs @ map (Effect ?p) [Modified Value_type_attr, Parameter_created, Sent v])"
    using walk learn_parameter_value [OF assms(3-5)] none by (simp add: on_learn_def)
  have keep: "param_at (set_param_at ?m ?p ?x) q = Some y" if q: "param_at (dev_root dev) q = Some y" for q y
  proof -
    have "param_at ?m q = Some y" using ensure_keeps_params [OF q] .
    then have "q \<noteq> ?p" using none by auto
    then show ?thesis using param_at_set_param [OF at, of ?x q] \<open>param_at ?m q = Some y\<close> by simp
  qed
  show ?thesis
    using run found param_at_set_param [OF at, of ?x ?p] keep ensure_wf [OF _ assms(1), of "dev_root dev"]
    by (fastforce simp: find_parts_set_param wf_set_param)
qed

lemma learn_walk_found: "find_parts n ss = Some p \<Longrightarrow> learn_walk ct n ss = Ok (n, [], p, False)"
  by (induction ss arbitrary: n p) (auto split: option.splits)

lemma on_learn_known:
  "find_parts (dev_root dev) (address_parts a) = Some p \<Longrightarrow> on_learn io ct dev (a, args) = Returned (dev, [])"
  by (simp add: on_learn_def learn_walk_found)

text \<open>What is learned from the message for a value: the value, but for Booleans and characters.\<close>

fun learnable :: "val \<Rightarrow> bool" where
  "learnable (VList vs) = (2 \<le> length vs \<and> list_all osc_plain vs \<and>
     \<not> (length vs \<le> 4 \<and> list_all (\<lambda>v. get_type v = T_FLOAT) vs))"
| "learnable v = (get_type v \<in> {T_INT, T_FLOAT, T_STRING, T_VEC2F, T_VEC3F, T_VEC4F})"

lemma create_list_floats: "create_list (map A_float xs) = Ok (map VFloat xs)"
proof -
  have "create_list_rec (map A_float xs) = Ok (map VFloat xs, [])" by (induction xs) simp_all
  then show ?thesis by (simp add: create_list_def)
qed

lemma is_vec_floats: "is_vec_of n (map VFloat xs) \<longleftrightarrow> length xs = n"
  by (auto simp: is_vec_of_def list_all_iff)

lemma plain_outbound: "osc_plain v \<Longrightarrow> \<exists>a. osc_outbound_array v = [a]"
  by (cases v) (auto simp: osc_plain_def)

lemma plain_outbound_length: "list_all osc_plain vs \<Longrightarrow> length (concat (map osc_outbound_array vs)) = length vs"
  using plain_outbound by (induction vs) fastforce+

lemma learned_of_value:
  assumes "learnable v" "wf_val v"
  shows "learned_value io (osc_outbound v) = Ok (get_type v, Some v)"
proof (cases v)
  case (VList vs)
  let ?args = "concat (map osc_outbound_array vs)"
  have vs: "2 \<le> length vs" "list_all osc_plain vs" using assms(1) VList by auto
  have len: "length ?args = length vs" by (rule plain_outbound_length [OF vs(2)])
  have "create_list ?args = Ok vs" using create_list_plain [OF vs(2)] by (simp add: create_list_def)
  moreover have "\<not> (length vs = n \<and> is_vec_of n vs)" if "n \<le> 4" for n
    using assms(1) VList that by (auto simp: is_vec_of_def)
  from this [of 2] this [of 3] this [of 4] have "\<not> (length vs = 2 \<and> is_vec_of 2 vs)"
    "\<not> (length vs = 3 \<and> is_vec_of 3 vs)" "\<not> (length vs = 4 \<and> is_vec_of 4 vs)" by simp_all
  moreover obtain a b as where "?args = a # b # as"
    using len vs(1) by (cases ?args; cases "tl ?args") auto
  ultimately show ?thesis using VList len by (simp add: learned_value_def osc_outbound_def)
next
  case (VVec2f xs)
  then obtain x y where xs: "xs = [x, y]" using assms(2) by (auto simp: wf_vec_def length_Suc_conv numeral_eq_Suc)
  then show ?thesis using VVec2f create_list_floats [of xs] is_vec_floats [of 2 xs] list_to_vec_floats [of xs 2 io]
    by (simp add: learned_value_def osc_outbound_def)
next
  case (VVec3f xs)
  then obtain x y z where xs: "xs = [x, y, z]" using assms(2) by (auto simp: wf_vec_def length_Suc_conv numeral_eq_Suc)
  then show ?thesis using VVec3f create_list_floats [of xs] is_vec_floats [of 3 xs] list_to_vec_floats [of xs 3 io]
    by (simp add: learned_value_def osc_outbound_def)
next
  case (VVec4f xs)
  then obtain x y z w where xs: "xs = [x, y, z, w]" using assms(2) by (auto simp: wf_vec_def length_Suc_conv numeral_eq_Suc)
  then show ?thesis using VVec4f create_list_floats [of xs] is_vec_floats [of 4 xs] list_to_vec_floats [of xs 4 io]
    by (simp add: learned_value_def osc_outbound_def)
qed (use assms in \<open>simp_all add: learned_value_def osc_outbound_def\<close>)

section \<open>The invariant under learning\<close>

definition same_params :: "'p node \<Rightarrow> 'p node \<Rightarrow> bool" where
  "same_params n m \<longleftrightarrow> (\<forall>q. param_at m q = param_at n q)"

lemma param_at_append:
  "param_at (set_children (node_children n @ [c]) n) (i # q) =
     (if i < length (node_children n) then param_at n (i # q)
      else if i = length (node_children n) then param_at c q else None)"
  by (auto simp: nth_append)

lemma no_params_leaf: "param_at (Node s None []) q = None"
  by (cases q) simp_all

lemma same_params_append: "(\<forall>q. param_at c q = None) \<Longrightarrow> same_params n (set_children (node_children n @ [c]) n)"
  unfolding same_params_def
proof
  fix q assume "\<forall>q. param_at c q = None"
  then show "param_at (set_children (node_children n @ [c]) n) q = param_at n q"
    by (cases q) (auto simp: set_children_def nth_append)
qed

lemma same_params_update:
  assumes "same_params (node_children n ! i) c"
  shows "same_params n (set_children ((node_children n)[i := c]) n)"
  unfolding same_params_def
proof
  fix q show "param_at (set_children ((node_children n)[i := c]) n) q = param_at n q"
    using assms by (cases q; cases "hd q = i") (auto simp: same_params_def set_children_def)
qed

lemma same_params_trans: "same_params n m \<Longrightarrow> same_params m k \<Longrightarrow> same_params n k"
  by (simp add: same_params_def)

lemma create_child_same_params: "create_child ct n s = Ok (m, evs, r) \<Longrightarrow> same_params n m"
  by (cases r) (auto simp: create_child_None same_params_def [of n n] elim!: create_child_Ok
      intro: same_params_append no_params_leaf)

lemma learn_walk_params:
  "learn_walk ct n ss = Ok (m, evs, p, new) \<Longrightarrow>
   same_params n m \<and> node_name m = node_name n \<and> node_at m p \<noteq> None \<and> (wf_tree n \<longrightarrow> wf_tree m)"
proof (induction ss arbitrary: n m evs p new)
  case Nil
  then show ?case by (simp add: same_params_def)
next
  case (Cons s ss)
  show ?case
  proof (cases "find_child n s")
    case None
    then obtain k evs1 i c evs2 p' new' where k: "create_child ct n s = Ok (k, evs1, Some i)"
      and c: "learn_walk ct (node_children k ! i) ss = Ok (c, evs2, p', new')"
      and m: "m = set_children ((node_children k)[i := c]) k" "p = i # p'"
      using Cons.prems by (auto split: option.splits)
    have i: "i < length (node_children k)" "node_name k = node_name n"
      by (rule create_child_Ok [OF k], simp)+
    note IH = Cons.IH [OF c]
    have "same_params n m"
      using same_params_trans [OF create_child_same_params [OF k] same_params_update] IH m(1) by blast
    moreover have "wf_tree n \<longrightarrow> wf_tree m"
      using create_child_wf [OF k] wf_child [OF _ i(1)] IH m(1) wf_update by auto
    ultimately show ?thesis using IH m i by simp
  next
    case (Some i)
    then obtain c evs2 p' where c: "learn_walk ct (node_children n ! i) ss = Ok (c, evs2, p', new)"
      and m: "m = set_children ((node_children n)[i := c]) n" "p = i # p'"
      using Cons.prems by auto
    note bound = find_child_Some [OF Some] and IH = Cons.IH [OF c]
    have "same_params n m" using same_params_update IH m(1) by blast
    moreover have "wf_tree n \<longrightarrow> wf_tree m" using wf_child [of n i] bound IH m(1) wf_update by auto
    ultimately show ?thesis using IH m bound by simp
  qed
qed

lemma set_value_type_typed:
  assumes "set_value_type io p t = Returned (q, es)"
  shows "typed_parameter q \<and> p_value_type q = t"
proof -
  obtain v where v: "init_value t = Ok v" using assms
    by (auto simp: set_value_type_def signal_Returned split: res.splits)
  let ?p = "p\<lparr>p_value_type := t, p_value := v\<rparr>"
  have "t \<noteq> T_NONE" "get_type v = t" using init_value_type [OF v] v by auto
  moreover have "q = ?p \<or> convert_own_domain io ?p = Returned q"
    using assms v by (auto simp: set_value_type_def signal_Returned Let_def split: if_splits)
  ultimately show ?thesis
    using convert_own_domain_frame [of io ?p q] by (elim disjE) (simp_all add: typed_parameter_def)
qed

lemma create_parameter_typed: "create_parameter io p t = Returned (q, es) \<Longrightarrow> typed_parameter q"
  by (auto simp: create_parameter_def and_then_Returned dest: set_value_type_typed split: option.splits)

lemma learn_parameter_typed:
  assumes "learn_parameter io p args = Returned (Some x, es)"
  shows "typed_parameter x"
proof -
  obtain t v q es1 es2 where q: "create_parameter io p t = Returned (q, es1)"
    and v: "(case v of None \<Rightarrow> Returned (q, []) | Some w \<Rightarrow> set_value io q w) = Returned (x, es2)"
    using assms by (auto simp: learn_parameter_def and_then_Returned split: res.splits outcome.splits)
  show ?thesis using create_parameter_typed [OF q] v set_value_typed [of q io] by (cases v) auto
qed

lemma on_learn_wf:
  assumes "wf_device dev" "on_learn io ct dev m = Returned (dev', evs)"
  shows "wf_device dev'"
proof -
  obtain n evs1 p new where walk: "learn_walk ct (dev_root dev) (address_parts (fst m)) = Ok (n, evs1, p, new)"
    using assms(2) by (auto simp: on_learn_def split: res.splits)
  note n = learn_walk_params [OF walk]
  have root: "wf_device (dev\<lparr>dev_root := n\<rparr>)"
    using assms(1) n by (auto simp: wf_device_def same_params_def)
  consider "dev' = dev" | "dev' = dev\<lparr>dev_root := n\<rparr>"
    | x es where "learn_parameter io (param_at n p) (snd m) = Returned (Some x, es)"
        "dev' = dev\<lparr>dev_root := set_param_at n p x\<rparr>"
    using assms(2) walk by (auto simp: on_learn_def split: if_splits outcome.splits option.splits)
  then show ?thesis
  proof cases
    case 3
    have "node_at n p \<noteq> None" using n by simp
    from param_at_set_param [OF this, of x] show ?thesis
      using root learn_parameter_typed [OF 3(1)] 3(2) by (auto simp: wf_device_def wf_set_param)
  qed (use assms(1) root in auto)
qed

lemma on_received_message_wf:
  "wf_device dev \<Longrightarrow> on_received_message io lio compile matches ct dev m = Some (Returned (dev', evs)) \<Longrightarrow> wf_device dev'"
  by (auto simp: on_received_message_def dest: handle_osc_message_wf on_learn_wf split: if_splits)

lemma observe_wf:
  "wf_device dev \<Longrightarrow> param_at (dev_root dev) p \<noteq> None \<Longrightarrow> wf_device (observe dev p b)"
  by (auto simp: observe_def wf_device_def listened_insert_def listened_erase_def Let_def split: option.splits if_splits)

text \<open>What is received through the map of listened parameters is what is received without it.\<close>

lemma observe_target:
  assumes "wf_device dev" "node_at (dev_root dev) p = Some n" "[] \<notin> set (path_names (dev_root dev) p)"
    and "dev_listening dev (osc_parameter_string (dev_root dev) p) = None"
  shows "target (observe dev p True) (osc_parameter_string (dev_root dev) p) = Some p"
    and "target (observe dev p False) (osc_parameter_string (dev_root dev) p) = Some p"
  using assms find_node_osc_string [of "dev_root dev" p n]
  by (auto simp: target_def observe_def listened_insert_def listened_erase_def wf_device_def Let_def)

section \<open>Addresses that no name can have\<close>

text \<open>An address that is found has valid names, and learning that adds a node counts it.\<close>

lemma found_parts_valid: "wf_tree n \<Longrightarrow> find_parts n ss = Some p \<Longrightarrow> list_all valid_name ss"
proof (induction n ss arbitrary: p rule: find_parts.induct)
  case (2 n s ss)
  then obtain i q where i: "find_child n s = Some i" "find_parts (node_children n ! i) ss = Some q"
    by (auto split: option.splits)
  have pos: "i < length (node_children n)" "node_name (node_children n ! i) = s"
    using find_child_Some [OF i(1)] by simp_all
  then have "valid_name s" using 2(2) wf_tree_iff [of n] by (auto simp: naming.good_names_def children_names_def list_all_iff)
  then show ?case using 2(1) [OF i(1) wf_child [OF 2(2) pos(1)] i(2)] by simp
qed simp

lemma node_count_set_param: "node_count (set_param_at n p x) = node_count n"
proof (induction n p x rule: set_param_at.induct)
  case (1 n x)
  then show ?case by (cases n) simp
next
  case (2 n i p x)
  show ?case
  proof (cases "i < length (node_children n)")
    case True
    then show ?thesis using node_count_update [OF True, of "set_param_at (node_children n ! i) p x"] 2 by simp
  next
    case False
    then show ?thesis by (cases n) (simp add: list_update_beyond set_children_def)
  qed
qed

lemma learn_walk_count:
  "learn_walk ct n ss = Ok (m, evs, p, new) \<Longrightarrow>
   node_count m = node_count n + length evs \<and> (new \<longrightarrow> evs \<noteq> []) \<and> (\<not> new \<longrightarrow> find_parts n ss = Some p)"
proof (induction ss arbitrary: n m evs p new)
  case (Cons s ss)
  show ?case
  proof (cases "find_child n s")
    case (Some i)
    then obtain c evs' q where r: "learn_walk ct (node_children n ! i) ss = Ok (c, evs', q, new)"
      and m: "m = set_children ((node_children n)[i := c]) n" "evs = map (below (node_name c)) evs'" "p = i # q"
      using Cons.prems by auto
    have "i < length (node_children n)" using find_child_Some [OF Some] by simp
    from node_count_update [OF this, of c] show ?thesis using Cons.IH [OF r] m Some by auto
  next
    case None
    then obtain k evs1 i c evs2 q b where k: "create_child ct n s = Ok (k, evs1, Some i)"
      and r: "learn_walk ct (node_children k ! i) ss = Ok (c, evs2, q, b)"
      and m: "m = set_children ((node_children k)[i := c]) k" "evs = evs1 @ map (below (node_name c)) evs2" "new"
      using Cons.prems by (auto split: option.splits)
    have i: "i < length (node_children k)" by (rule create_child_Ok [OF k]) simp
    have "evs1 \<noteq> []" by (rule create_child_Ok [OF k]) simp
    with node_count_update [OF i, of c] create_child_count [OF k] Cons.IH [OF r] m show ?thesis by auto
  qed
qed simp

lemma on_learn_invalid:
  assumes "wf_device dev" "\<not> list_all valid_name (address_parts a)" "on_learn io ct dev (a, args) = Returned (dev', evs)"
  shows "wf_device dev' \<and> find_parts (dev_root dev') (address_parts a) = None \<and>
    node_count (dev_root dev) < node_count (dev_root dev')"
proof -
  have unknown: "find_parts (dev_root d) (address_parts a) = None" if "wf_device d" for d :: "'a osc_device"
    using found_parts_valid [of "dev_root d" "address_parts a"] assms(2) that
    by (cases "find_parts (dev_root d) (address_parts a)") (auto simp: wf_device_def)
  have wf: "wf_device dev'" by (rule on_learn_wf [OF assms(1,3)])
  obtain n es p new where walk: "learn_walk ct (dev_root dev) (address_parts a) = Ok (n, es, p, new)"
    using assms(3) by (cases "learn_walk ct (dev_root dev) (address_parts a)") (auto simp: on_learn_def)
  have new: "new" using learn_walk_count [OF walk] unknown [OF assms(1)] by auto
  then have "node_count (dev_root dev) < node_count n" using learn_walk_count [OF walk] by auto
  moreover have "node_count (dev_root dev') = node_count n"
    using assms(3) walk new
    by (auto simp: on_learn_def node_count_set_param split: outcome.splits option.splits)
  ultimately show ?thesis using wf unknown [OF wf] by simp
qed

end
