(* ===== verification/Json.thy ===== *)
theory Json
  imports Node_Tree Value "HOL-Library.AList" "HOL-Library.Multiset" "HOL-Library.Sublist"
begin

text \<open>
  The documents that presets are written to and read from (\<open>preset/preset.cpp\<close>): the conversion of
  values to JSON and back, the insertion of a value at a key and the exploration of a document. A
  document is a tree like \<open>rapidjson::Value\<close>: the members of an object are in order, a number is an
  integer or a \<open>double\<close>. An assertion of \<open>rapidjson\<close> that does not hold (a member of a value that is
  not an object, the number of one that is not a number) is undefined behaviour, as assertions are
  not compiled in a release. The text of a document is not modelled: its parser and its writer are
  those of \<open>rapidjson\<close>.
\<close>

section \<open>Documents\<close>

datatype json =
    JNull
  | JBool bool
  | JInt int
  | JDouble fl
  | JStr string
  | JArr "json list"
  | JObj "(string \<times> json) list"

fun is_object :: "json \<Rightarrow> bool" where
  "is_object (JObj _) = True"
| "is_object _ = False"

fun is_double :: "json \<Rightarrow> bool" where
  "is_double (JDouble _) = True"
| "is_double _ = False"

fun members :: "json \<Rightarrow> (string \<times> json) list res" where
  "members (JObj ms) = Ok ms"
| "members _ = Err Undefined_behaviour"

fun get_double :: "json \<Rightarrow> fl res" where
  "get_double (JInt n) = Ok (fl_of_int F64 n)"
| "get_double (JDouble x) = Ok x"
| "get_double _ = Err Undefined_behaviour"

text \<open>A string that goes through a \<open>const char*\<close>.\<close>

definition c_str :: "string \<Rightarrow> string" where
  "c_str s = takeWhile (\<lambda>c. c \<noteq> CHR 0x00) s"

section \<open>Values\<close>

text \<open>Whether the numbers that follow the first one are all different from zero, read in order.\<close>

fun all_nonzero :: "json list \<Rightarrow> bool res" where
  "all_nonzero [] = Ok True"
| "all_nonzero (j # js) =
     res_bind (get_double j) (\<lambda>x. if fl_eq x fl_zero then Ok False else all_nonzero js)"

definition reads_as_vec :: "json list \<Rightarrow> bool res" where
  "reads_as_vec js =
     (if length js \<in> {2, 3, 4} \<and> is_double (hd js) then all_nonzero (tl js) else Ok False)"

definition make_vec :: "json list \<Rightarrow> val res" where
  "make_vec js =
     res_map (\<lambda>xs. if length js = 2 then VVec2f xs else if length js = 3 then VVec3f xs else VVec4f xs)
       (map_res (\<lambda>j. res_map fl_narrow (get_double j)) js)"

function json_to_ossia_value :: "json \<Rightarrow> val res" where
  "json_to_ossia_value JNull = Ok VUnset"
| "json_to_ossia_value (JBool b) = Ok (VBool b)"
| "json_to_ossia_value (JInt n) = Ok (if in_i32 n then VInt (word_of_int n) else VFloat (fl_narrow (fl_of_int F64 n)))"
| "json_to_ossia_value (JDouble x) = Ok (VFloat (fl_narrow x))"
| "json_to_ossia_value (JStr s) = Ok (VString (c_str s))"
| "json_to_ossia_value (JObj ms) = Ok VUnset"
| "json_to_ossia_value (JArr js) =
     res_bind (reads_as_vec js) (\<lambda>vec. if vec then make_vec js else res_map VList (map_res json_to_ossia_value js))"
  by pat_completeness auto
termination by (relation "measure size") (auto simp: less_Suc_eq_le size_list_estimation')

definition char_text :: "i8 \<Rightarrow> string" where
  "char_text c = [char_of (unat c)]"

fun ossia_to_json_value :: "val \<Rightarrow> json res" where
  "ossia_to_json_value VImpulse = Ok JNull"
| "ossia_to_json_value (VInt n) = Ok (JInt (sint n))"
| "ossia_to_json_value (VFloat x) = Ok (JDouble x)"
| "ossia_to_json_value (VBool b) = Ok (JBool b)"
| "ossia_to_json_value (VChar c) = Ok (JStr (char_text c))"
| "ossia_to_json_value (VString s) = Ok (JStr s)"
| "ossia_to_json_value (VVec2f xs) = Ok (JArr (map JDouble xs))"
| "ossia_to_json_value (VVec3f xs) = Ok (JArr (map JDouble xs))"
| "ossia_to_json_value (VVec4f xs) = Ok (JArr (map JDouble xs))"
| "ossia_to_json_value (VList vs) = res_map JArr (map_res ossia_to_json_value vs)"
| "ossia_to_json_value VUnset = Err No_value_type"

section \<open>From a document to a preset\<close>

type_synonym preset = "(string \<times> val) list"

fun numbered :: "nat \<Rightarrow> 'a list \<Rightarrow> (nat \<times> 'a) list" where
  "numbered n [] = []"
| "numbered n (x # xs) = (n, x) # numbered (Suc n) xs"

lemma numbered_set: "(i, x) \<in> set (numbered n xs) \<Longrightarrow> x \<in> set xs"
  by (induction n xs rule: numbered.induct) auto

lemma size_member: "(k, j) \<in> set ms \<Longrightarrow> size j < Suc (size_list (size_prod (\<lambda>_. 0) size) ms)"
  by (induction ms) auto

function explore :: "string \<Rightarrow> json \<Rightarrow> preset res" where
  "explore key (JObj ms) =
     res_map concat (map_res (\<lambda>(k, j). explore (key @ ''/'' @ c_str k) j) ms)"
| "explore key (JArr js) =
     (if list_ex is_object js then
        res_map concat (map_res (\<lambda>(i, j). explore (key @ ''.'' @ int_to_string (int i)) j) (numbered 0 js))
      else res_map (\<lambda>v. [(key, v)]) (json_to_ossia_value (JArr js)))"
| "explore key JNull = Ok [(key, VUnset)]"
| "explore key (JBool b) = res_map (\<lambda>v. [(key, v)]) (json_to_ossia_value (JBool b))"
| "explore key (JInt n) = res_map (\<lambda>v. [(key, v)]) (json_to_ossia_value (JInt n))"
| "explore key (JDouble x) = res_map (\<lambda>v. [(key, v)]) (json_to_ossia_value (JDouble x))"
| "explore key (JStr s) = res_map (\<lambda>v. [(key, v)]) (json_to_ossia_value (JStr s))"
  by pat_completeness auto
termination
  by (relation "measure (\<lambda>(_, j). size j)")
    (auto dest: numbered_set size_member simp: less_Suc_eq_le size_list_estimation')

text \<open>\<open>read_json\<close> on the document that was parsed.\<close>

definition read_json :: "bool \<Rightarrow> json \<Rightarrow> preset res" where
  "read_json skip_first_level doc =
     (if \<not> skip_first_level then explore [] doc
      else case doc of
        JObj ((_, j) # _) \<Rightarrow> explore [] j
      | _ \<Rightarrow> Ok [])"

section \<open>From a preset to a document\<close>

text \<open>\<open>boost::split\<close> with \<open>token_compress_on\<close>: a run of separators separates once.\<close>

function split_runs :: "(char \<Rightarrow> bool) \<Rightarrow> string \<Rightarrow> string list" where
  "split_runs p s =
     (case dropWhile (\<lambda>c. \<not> p c) s of
        [] \<Rightarrow> [s]
      | _ # rest \<Rightarrow> takeWhile (\<lambda>c. \<not> p c) s # split_runs p (dropWhile p rest))"
  by pat_completeness auto
termination
proof (relation "measure (\<lambda>(_, s). length s)")
  fix p and s :: string and c rest
  assume "dropWhile (\<lambda>c. \<not> p c) s = c # rest"
  then have "length (c # rest) \<le> length s" by (metis length_dropWhile_le)
  then show "((p, dropWhile p rest), p, s) \<in> measure (\<lambda>(_, s). length s)"
    using length_dropWhile_le [of p rest] by simp
qed simp

declare split_runs.simps [simp del]

text \<open>\<open>std::atoi\<close>: white space, a sign and the digits there are; an overflow is not defined.\<close>

definition is_space :: "char \<Rightarrow> bool" where
  "is_space c \<longleftrightarrow> c = CHR '' '' \<or> (9 \<le> char_code c \<and> char_code c \<le> 13)"

definition atoi :: "string \<Rightarrow> int res" where
  "atoi s =
     (let t = dropWhile is_space s;
          sign = (if take 1 t = ''-'' then - 1 else 1);
          u = (if take 1 t = ''-'' \<or> take 1 t = ''+'' then drop 1 t else t);
          n = sign * rev_value (rev (takeWhile is_digit u))
      in if in_i32 n then Ok n else Err Undefined_behaviour)"

text \<open>
  An index below zero becomes a size close to \<open>2^64\<close>, for which \<open>rapidjson\<close> gets no memory and does not
  check it.
\<close>

function (sequential) json_insert :: "json \<Rightarrow> string list \<Rightarrow> val \<Rightarrow> json res"
  and json_insert_array :: "json \<Rightarrow> string list \<Rightarrow> val \<Rightarrow> string list \<Rightarrow> json res" where
  "json_insert recipient [] v = Ok recipient"
| "json_insert recipient (key # keys) v =
     (let r = (if recipient = JNull then JObj [] else recipient); arraykeys = split_runs (\<lambda>c. c = CHR ''.'') key
      in if length arraykeys > 1 then
           res_bind (members r) (\<lambda>ms. res_map (\<lambda>j. JObj (AList.update (hd arraykeys) j ms))
             (json_insert_array (case map_of ms (hd arraykeys) of Some j \<Rightarrow> j | None \<Rightarrow> JArr []) keys v (tl arraykeys)))
         else if keys = [] then
           res_bind (ossia_to_json_value v) (\<lambda>j. res_map (\<lambda>ms. JObj (AList.update key j ms)) (members r))
         else
           res_bind (members r) (\<lambda>ms. res_map (\<lambda>j. JObj (AList.update key j ms))
             (json_insert (case map_of ms key of Some j \<Rightarrow> j | None \<Rightarrow> JObj []) keys v)))"
| "json_insert_array array keys v [] = Ok (case array of JArr js \<Rightarrow> JArr js | _ \<Rightarrow> JArr [])"
| "json_insert_array array keys v (a # arraykeys) =
     (let js = (case array of JArr js \<Rightarrow> js | _ \<Rightarrow> [])
      in res_bind (atoi a) (\<lambda>n.
           if n < 0 then Err Undefined_behaviour
           else
             (let i = nat n; js' = js @ replicate (i + 1 - length js) JNull
              in res_map (\<lambda>j. JArr (js'[i := j]))
                   (if arraykeys \<noteq> [] then json_insert_array (js' ! i) keys v arraykeys
                    else if keys = [] then ossia_to_json_value v
                    else json_insert (if js' ! i = JNull then JObj [] else js' ! i) keys v))))"
  by pat_completeness auto
termination
  by (relation "inv_image (less_than <*lex*> less_than)
        (\<lambda>x. case x of Inl (_, keys, _) \<Rightarrow> (length keys, 0) | Inr (_, keys, _, aks) \<Rightarrow> (length keys, Suc (length aks)))")
    auto

declare json_insert.simps [simp del] json_insert_array.simps [simp del]

definition preset_keys :: "string \<Rightarrow> string list" where
  "preset_keys key =
     (let keys = split_runs (\<lambda>c. c = CHR ''/'') key in if hd keys = [] then tl keys else keys)"

fun insert_all :: "json \<Rightarrow> preset \<Rightarrow> json res" where
  "insert_all obj [] = Ok obj"
| "insert_all obj ((key, v) # p) = res_bind (json_insert obj (preset_keys key) v) (\<lambda>obj'. insert_all obj' p)"

text \<open>The document that \<open>write_json\<close> writes.\<close>

definition write_json :: "string \<Rightarrow> preset \<Rightarrow> json res" where
  "write_json device p = res_map (\<lambda>obj. JObj [(device, obj)]) (insert_all (JObj []) p)"

section \<open>Values that survive\<close>

text \<open>
  A value that is read back as it was (the writer refuses what is not finite), and the documents that
  values are written to.
\<close>

fun json_stable :: "val \<Rightarrow> bool" where
  "json_stable (VInt n) = True"
| "json_stable (VFloat x) = (wf_fl F32 x \<and> fl_finite x)"
| "json_stable (VBool b) = True"
| "json_stable (VString s) = (CHR 0x00 \<notin> set s)"
| "json_stable (VVec2f xs) = (wf_vec 2 xs \<and> list_all fl_finite xs \<and> list_all (\<lambda>x. \<not> fl_eq x fl_zero) (tl xs))"
| "json_stable (VVec3f xs) = (wf_vec 3 xs \<and> list_all fl_finite xs \<and> list_all (\<lambda>x. \<not> fl_eq x fl_zero) (tl xs))"
| "json_stable (VVec4f xs) = (wf_vec 4 xs \<and> list_all fl_finite xs \<and> list_all (\<lambda>x. \<not> fl_eq x fl_zero) (tl xs))"
| "json_stable (VList vs) =
     (list_all json_stable vs \<and> \<not> (length vs \<in> {2, 3, 4} \<and> get_type (hd vs) = T_FLOAT))"
| "json_stable v = False"

fun json_leaf :: "json \<Rightarrow> bool" where
  "json_leaf (JObj _) = False"
| "json_leaf (JArr js) = (\<not> list_ex is_object js)"
| "json_leaf j = True"

lemma value_not_object: "ossia_to_json_value v = Ok j \<Longrightarrow> \<not> is_object j"
  by (cases v) auto

lemma value_is_leaf: "ossia_to_json_value v = Ok j \<Longrightarrow> json_leaf j"
proof (cases v)
  case (VList vs)
  assume "ossia_to_json_value v = Ok j"
  then obtain js where "j = JArr js" "map_res ossia_to_json_value vs = Ok js"
    using VList by (auto simp: res_map_Ok_iff)
  then show ?thesis
    using value_not_object by (auto simp: map_res_Ok_iff list_all2_conv_all_nth list_ex_length)
qed (auto simp: list_ex_iff)

lemma double_value: "ossia_to_json_value v = Ok j \<Longrightarrow> is_double j \<longleftrightarrow> get_type v = T_FLOAT"
  by (cases v) auto

lemma all_nonzero_doubles: "all_nonzero (map JDouble xs) = Ok (list_all (\<lambda>x. \<not> fl_eq x fl_zero) xs)"
  by (induction xs) auto

lemma narrow_doubles:
  "list_all (wf_fl F32) xs \<Longrightarrow> map_res (\<lambda>j. res_map fl_narrow (get_double j)) (map JDouble xs) = Ok xs"
  by (induction xs) (auto simp: fl_narrow_wf)

lemma vec_roundtrip:
  assumes "wf_vec n xs" "n \<in> {2, 3, 4}" "list_all (\<lambda>x. \<not> fl_eq x fl_zero) (tl xs)"
  shows "json_to_ossia_value (JArr (map JDouble xs)) =
    Ok (if n = 2 then VVec2f xs else if n = 3 then VVec3f xs else VVec4f xs)"
proof -
  have len: "length xs = n" "list_all (wf_fl F32) xs" using assms(1) by (auto simp: wf_vec_def)
  have "xs \<noteq> []" using len(1) assms(2) by auto
  then have "reads_as_vec (map JDouble xs) = Ok True"
    using assms(2,3) len(1) by (cases xs) (auto simp: reads_as_vec_def all_nonzero_doubles)
  then show ?thesis using len by (simp add: make_vec_def narrow_doubles)
qed

lemma list_all2_choose: "(\<And>x. x \<in> set xs \<Longrightarrow> \<exists>y. R x y) \<Longrightarrow> \<exists>ys. list_all2 R xs ys"
proof (induction xs)
  case (Cons x xs)
  obtain y where "R x y" using Cons.prems by auto
  moreover obtain ys where "list_all2 R xs ys" using Cons by auto
  ultimately show ?case by (intro exI [of _ "y # ys"]) simp
qed (auto intro: exI [of _ "[]"])

lemma json_value_roundtrip:
  "json_stable v \<Longrightarrow> \<exists>j. ossia_to_json_value v = Ok j \<and> json_to_ossia_value j = Ok v"
proof (induction v)
  case (VInt n)
  then show ?case using sint_i32_range [of n] by (simp add: in_i32_def int32_min_def int32_max_def)
next
  case (VList vs)
  let ?R = "\<lambda>v j. ossia_to_json_value v = Ok j \<and> json_to_ossia_value j = Ok v"
  have "\<exists>js. list_all2 ?R vs js"
    using VList by (intro list_all2_choose) (auto simp: list_all_iff)
  then obtain js where js: "list_all2 ?R vs js" ..
  have "map_res ossia_to_json_value vs = Ok js" "map_res json_to_ossia_value js = Ok vs"
    using js by (auto simp: map_res_Ok_iff list_all2_conv_all_nth)
  moreover have "reads_as_vec js = Ok False"
  proof -
    have "length js = length vs" using js by (simp add: list_all2_lengthD)
    moreover have "is_double (hd js) \<longleftrightarrow> get_type (hd vs) = T_FLOAT" if "vs \<noteq> []"
      using that js double_value by (cases vs; cases js) auto
    ultimately show ?thesis using VList.prems by (cases vs) (auto simp: reads_as_vec_def)
  qed
  ultimately show ?case by simp
next
  case (VVec2f xs)
  then show ?case using vec_roundtrip [of 2 xs] by simp
next
  case (VVec3f xs)
  then show ?case using vec_roundtrip [of 3 xs] by simp
next
  case (VVec4f xs)
  then show ?case using vec_roundtrip [of 4 xs] by simp
qed (auto simp: fl_narrow_wf c_str_def takeWhile_eq_all_conv)

section \<open>The entries of a document\<close>

text \<open>The keys that lead to the values of a document made of objects.\<close>

function entries :: "json \<Rightarrow> (string list \<times> json) list" where
  "entries (JObj ms) = concat (map (\<lambda>(k, j). map (apfst (Cons k)) (entries j)) ms)"
| "entries JNull = [([], JNull)]"
| "entries (JBool b) = [([], JBool b)]"
| "entries (JInt n) = [([], JInt n)]"
| "entries (JDouble x) = [([], JDouble x)]"
| "entries (JStr s) = [([], JStr s)]"
| "entries (JArr js) = [([], JArr js)]"
  by pat_completeness auto
termination by (relation "measure size") (auto dest: size_member)

lemma entries_leaf: "\<not> is_object j \<Longrightarrow> entries j = [([], j)]"
  by (cases j) simp_all

lemma map_res_append:
  "map_res f (xs @ ys) = res_bind (map_res f xs) (\<lambda>as. res_map (\<lambda>bs. as @ bs) (map_res f ys))"
proof (induction xs)
  case Nil
  show ?case by (cases "map_res f ys") simp_all
next
  case (Cons x xs)
  then show ?case by (cases "f x"; cases "map_res f xs"; cases "map_res f ys") simp_all
qed

lemma map_res_concat: "res_map concat (map_res (\<lambda>x. map_res f (g x)) xs) = map_res f (concat (map g xs))"
proof (induction xs)
  case (Cons x xs)
  show ?case
    by (cases "map_res f (g x)"; cases "map_res (\<lambda>x. map_res f (g x)) xs")
      (use Cons in \<open>simp_all add: map_res_append flip: Cons\<close>)
qed simp

text \<open>A document whose values are all leaves is explored entry by entry, in order.\<close>

definition entry_value :: "string \<Rightarrow> string list \<times> json \<Rightarrow> (string \<times> val) res" where
  "entry_value key e = res_map (Pair (key @ slash_names (map c_str (fst e)))) (json_to_ossia_value (snd e))"

definition leaf_entries :: "(string list \<times> json) list \<Rightarrow> bool" where
  "leaf_entries es \<longleftrightarrow> list_all (json_leaf \<circ> snd) es"

lemma entry_value_Cons: "entry_value key (apfst (Cons k) e) = entry_value (key @ ''/'' @ c_str k) e"
  by (simp add: entry_value_def slash_names_def)

lemma map_res_map: "map_res f (map g xs) = map_res (\<lambda>x. f (g x)) xs"
  by (induction xs) simp_all

lemma map_res_single: "map_res f [x] = res_map (\<lambda>y. [y]) (f x)"
  by (cases "f x") simp_all

lemma res_map_res_map: "res_map f (res_map g m) = res_map (\<lambda>x. f (g x)) m"
  by (cases m) simp_all

lemma leaf_entries_member:
  "leaf_entries (entries (JObj ms)) \<Longrightarrow> (k, j) \<in> set ms \<Longrightarrow> leaf_entries (entries j)"
  by (induction ms) (auto simp: leaf_entries_def list.pred_map comp_def)

lemma explore_entries: "leaf_entries (entries j) \<Longrightarrow> explore key j = map_res (entry_value key) (entries j)"
proof (induction key j rule: explore.induct)
  case (1 key ms)
  have "explore (key @ ''/'' @ c_str k) j = map_res (\<lambda>e. entry_value key (apfst (Cons k) e)) (entries j)"
    if "(k, j) \<in> set ms" for k j
  proof -
    have "leaf_entries (entries j)"
      using 1(2) that by (rule leaf_entries_member)
    then show ?thesis using 1(1) [OF that refl] by (simp add: entry_value_Cons)
  qed
  then have "map_res (\<lambda>(k, j). explore (key @ ''/'' @ c_str k) j) ms =
    map_res (\<lambda>(k, j). map_res (entry_value key) (map (apfst (Cons k)) (entries j))) ms"
    by (intro map_res_cong) (auto simp: map_res_map)
  also have "\<dots> = map_res (\<lambda>x. map_res (entry_value key) (case x of (k, j) \<Rightarrow> map (apfst (Cons k)) (entries j))) ms"
    by (intro map_res_cong) auto
  finally show ?case by (simp add: map_res_concat)
next
  case (2 key js)
  then have "\<not> list_ex is_object js" by (simp add: leaf_entries_def)
  then show ?case by (simp add: map_res_single entry_value_def slash_names_def res_map_res_map del: map_res.simps json_to_ossia_value.simps)
qed (auto simp: map_res_single entry_value_def slash_names_def res_map_res_map simp del: map_res.simps)

section \<open>Insertion\<close>

definition member_or_empty :: "(string \<times> json) list \<Rightarrow> string \<Rightarrow> json" where
  "member_or_empty ms k = (case map_of ms k of Some j \<Rightarrow> j | None \<Rightarrow> JObj [])"

lemma member_or_empty_Cons:
  "member_or_empty ((k', j) # ms) k = (if k = k' then j else member_or_empty ms k)"
  by (simp add: member_or_empty_def)

lemma member_entries:
  "e \<in> set (entries (member_or_empty ms k)) \<Longrightarrow> apfst (Cons k) e \<in> set (entries (JObj ms))"
  by (induction ms) (auto simp: member_or_empty_Cons member_or_empty_def [of "[]"] split: if_splits)

lemma update_entries:
  "mset (entries (JObj (AList.update k j ms))) + mset (map (apfst (Cons k)) (entries (member_or_empty ms k))) =
    mset (entries (JObj ms)) + mset (map (apfst (Cons k)) (entries j))"
  by (induction ms) (auto simp: member_or_empty_Cons member_or_empty_def [of "[]"])

text \<open>Two paths of which neither leads through the other.\<close>

definition apart :: "string list \<Rightarrow> string list \<Rightarrow> bool" where
  "apart ks ks' \<longleftrightarrow> \<not> prefix ks ks' \<and> \<not> prefix ks' ks"

lemma apart_Cons [simp]: "apart (k # ks) (k # ks') \<longleftrightarrow> apart ks ks'"
  by (simp add: apart_def)

lemma not_apart_Nil [simp]: "\<not> apart [] ks" "\<not> apart ks []"
  by (simp_all add: apart_def)

definition key_name :: "string \<Rightarrow> bool" where
  "key_name k \<longleftrightarrow> k \<noteq> [] \<and> CHR ''/'' \<notin> set k"

definition plain_key :: "string \<Rightarrow> bool" where
  "plain_key k \<longleftrightarrow> key_name k \<and> CHR ''.'' \<notin> set k \<and> CHR 0x00 \<notin> set k"

lemma split_runs_none: "list_all (\<lambda>c. \<not> p c) s \<Longrightarrow> split_runs p s = [s]"
  by (subst split_runs.simps) (simp add: list_all_iff dropWhile_eq_Nil_conv [THEN iffD2])

lemma plain_key_dots: "plain_key k \<Longrightarrow> split_runs (\<lambda>c. c = CHR ''.'') k = [k]"
  by (rule split_runs_none) (auto simp: plain_key_def list_all_iff)

lemma plain_key_c_str: "plain_key k \<Longrightarrow> c_str k = k"
  by (auto simp: plain_key_def c_str_def takeWhile_eq_all_conv)

text \<open>
  The insertion of a value at a path of plain keys that is apart from every path of the document adds
  that one entry, whatever objects are on the way.
\<close>

lemma insert_entries:
  assumes "list_all plain_key ks" "ks \<noteq> []" "\<forall>e \<in> set (entries (JObj ms)). apart (fst e) ks"
    and v: "ossia_to_json_value v = Ok jv"
  shows "\<exists>ms'. json_insert (JObj ms) ks v = Ok (JObj ms') \<and>
    mset (entries (JObj ms')) = add_mset (ks, jv) (mset (entries (JObj ms)))"
  using assms(1,2,3)
proof (induction ks arbitrary: ms)
  case (Cons k ks)
  let ?child = "member_or_empty ms k"
  have dots: "split_runs (\<lambda>c. c = CHR ''.'') k = [k]" using Cons.prems(1) by (simp add: plain_key_dots)
  have below: "apart (fst e) ks" if "e \<in> set (entries ?child)" for e
    using bspec [OF Cons.prems(3) member_entries [OF that]] by simp
  show ?case
  proof (cases "ks = []")
    case True
    then have "entries ?child = []" using below by (cases "entries ?child") auto
    then show ?thesis
      using True dots v update_entries [of k jv ms] value_not_object [OF v]
      by (simp add: json_insert.simps entries_leaf)
  next
    case False
    then have "is_object ?child" 
      using below [of "([], ?child)"] by (cases "is_object ?child") (simp_all add: entries_leaf)
    then obtain cs where cs: "?child = JObj cs" by (cases ?child) auto
    obtain cs' where cs': "json_insert (JObj cs) ks v = Ok (JObj cs')"
      "mset (entries (JObj cs')) = add_mset (ks, jv) (mset (entries (JObj cs)))"
      using Cons.IH [of cs] Cons.prems(1) False below cs by auto
    have "json_insert (JObj ms) (k # ks) v = Ok (JObj (AList.update k (JObj cs') ms))"
      using False dots cs cs'(1) by (simp add: json_insert.simps(2) member_or_empty_def)
    moreover have "mset (entries (JObj (AList.update k (JObj cs') ms))) =
      add_mset (k # ks, jv) (mset (entries (JObj ms)))"
      using update_entries [of k "JObj cs'" ms] cs cs'(2)
      by (simp del: entries.simps)
    ultimately show ?thesis by blast
  qed
qed simp

fun prefix_free :: "(string list \<times> 'a) list \<Rightarrow> bool" where
  "prefix_free [] = True"
| "prefix_free ((ks, v) # es) = (list_all (\<lambda>e. apart (fst e) ks) es \<and> prefix_free es)"

lemma apart_sym: "apart ks ks' \<Longrightarrow> apart ks' ks"
  by (simp add: apart_def)

lemma split_names:
  "list_all key_name (k # ks) \<Longrightarrow> split_runs (\<lambda>c. c = CHR ''/'') (k @ slash_names ks) = k # ks"
proof (induction ks arbitrary: k)
  case Nil
  then show ?case by (auto simp: slash_names_def key_name_def list_all_iff intro!: split_runs_none)
next
  case (Cons k' ks)
  have "CHR ''/'' \<notin> set k" "k' \<noteq> []" "CHR ''/'' \<notin> set k'" using Cons.prems by (auto simp: key_name_def)
  moreover have "dropWhile (\<lambda>c. c = CHR ''/'') (k' @ slash_names ks) = k' @ slash_names ks"
    using calculation(2,3) by (cases k') auto
  ultimately show ?case
    using Cons by (subst split_runs.simps) (simp add: slash_names_def dropWhile_append_neq takeWhile_append_neq)
qed

lemma split_slash_names:
  assumes "list_all key_name ks" "ks \<noteq> []"
  shows "split_runs (\<lambda>c. c = CHR ''/'') (slash_names ks) = [] # ks"
proof -
  obtain k ks' where ks: "ks = k # ks'" "key_name k" using assms by (cases ks) auto
  then have "dropWhile (\<lambda>c. c = CHR ''/'') (k @ slash_names ks') = k @ slash_names ks'"
    by (cases k) (auto simp: key_name_def)
  then show ?thesis
    using split_names [of k ks'] assms(1) ks by (subst split_runs.simps) (simp add: slash_names_def)
qed

lemma plain_key_names: "list_all plain_key ks \<Longrightarrow> list_all key_name ks"
  by (simp add: list_all_iff plain_key_def)

lemma preset_keys_path: "list_all plain_key ks \<Longrightarrow> ks \<noteq> [] \<Longrightarrow> preset_keys (slash_names ks) = ks"
  by (simp add: preset_keys_def split_slash_names plain_key_names)

text \<open>A preset by the names of its paths.\<close>

type_synonym named_preset = "(string list \<times> val) list"

definition preset_of :: "named_preset \<Rightarrow> preset" where
  "preset_of es = map (apfst slash_names) es"

definition writable :: "named_preset \<Rightarrow> bool" where
  "writable es \<longleftrightarrow>
     prefix_free es \<and> list_all (\<lambda>(ks, v). ks \<noteq> [] \<and> list_all plain_key ks \<and> json_stable v) es"

lemma insert_all_entries:
  assumes "writable es" "\<forall>e \<in> set (entries (JObj ms)). \<forall>e' \<in> set es. apart (fst e) (fst e')"
  shows "\<exists>ms' js. insert_all (JObj ms) (preset_of es) = Ok (JObj ms') \<and>
    list_all2 (\<lambda>e j. json_to_ossia_value j = Ok (snd e) \<and> json_leaf j) es js \<and>
    mset (entries (JObj ms')) = mset (entries (JObj ms)) + mset (zip (map fst es) js)"
  using assms
proof (induction es arbitrary: ms)
  case (Cons e es)
  obtain ks v where e: "e = (ks, v)" by (cases e)
  have ok: "ks \<noteq> []" "list_all plain_key ks" "json_stable v" "writable es"
    using Cons.prems(1) by (auto simp: e writable_def)
  obtain jv where jv: "ossia_to_json_value v = Ok jv" "json_to_ossia_value jv = Ok v"
    using json_value_roundtrip [OF ok(3)] by auto
  obtain ms1 where ms1: "json_insert (JObj ms) ks v = Ok (JObj ms1)"
    "mset (entries (JObj ms1)) = add_mset (ks, jv) (mset (entries (JObj ms)))"
    using insert_entries [OF ok(2,1) _ jv(1), of ms] Cons.prems(2) by (auto simp: e simp del: entries.simps)
  have "set (entries (JObj ms1)) = insert (ks, jv) (set (entries (JObj ms)))"
    using arg_cong [OF ms1(2), of set_mset] by simp
  then have "\<forall>e \<in> set (entries (JObj ms1)). \<forall>e' \<in> set es. apart (fst e) (fst e')"
    using Cons.prems by (auto simp: e writable_def list_all_iff intro: apart_sym)
  then obtain ms' js where IH: "insert_all (JObj ms1) (preset_of es) = Ok (JObj ms')"
    "list_all2 (\<lambda>e j. json_to_ossia_value j = Ok (snd e) \<and> json_leaf j) es js"
    "mset (entries (JObj ms')) = mset (entries (JObj ms1)) + mset (zip (map fst es) js)"
    using Cons.IH [OF ok(4)] by blast
  have "insert_all (JObj ms) (preset_of (e # es)) = Ok (JObj ms')"
    using ms1(1) IH(1) ok by (simp add: e preset_of_def preset_keys_path)
  moreover have "list_all2 (\<lambda>e j. json_to_ossia_value j = Ok (snd e) \<and> json_leaf j) (e # es) (jv # js)"
    using IH(2) jv value_is_leaf by (simp add: e)
  moreover have "mset (entries (JObj ms')) = mset (entries (JObj ms)) + mset (zip (map fst (e # es)) (jv # js))"
    using IH(3) ms1(2) by (simp add: e del: entries.simps)
  ultimately show ?case by blast
qed (auto simp: preset_of_def)

lemma map_res_mset:
  assumes "mset xs = mset ys" "map_res f xs = Ok as"
  shows "\<exists>bs. map_res f ys = Ok bs \<and> mset bs = mset as"
proof -
  obtain bs where "list_all2 (\<lambda>y a. f y = Ok a) ys bs" "mset bs = mset as"
    using list_all2_reorder_left_invariance [of "\<lambda>y a. f y = Ok a" xs as ys] assms
    by (auto simp: map_res_Ok_iff)
  then show ?thesis by (auto simp: map_res_Ok_iff)
qed

text \<open>What is written is read back, in the order of the document.\<close>

lemma document_roundtrip:
  assumes "writable es"
  shows "\<exists>doc p. write_json device (preset_of es) = Ok doc \<and> read_json True doc = Ok p \<and> mset p = mset (preset_of es)"
proof -
  obtain ms js where ms: "insert_all (JObj []) (preset_of es) = Ok (JObj ms)"
    "list_all2 (\<lambda>e j. json_to_ossia_value j = Ok (snd e) \<and> json_leaf j) es js"
    "mset (entries (JObj ms)) = mset (zip (map fst es) js)"
    using insert_all_entries [OF assms, of "[]"] by auto
  have leaves: "leaf_entries (entries (JObj ms))"
    using ms(2) arg_cong [OF ms(3), of set_mset]
    by (auto simp: leaf_entries_def list_all_iff list_all2_conv_all_nth set_zip simp del: entries.simps)
  have "map_res (entry_value []) (zip (map fst es) js) = Ok (preset_of es)"
    using ms(2) assms
    by (induction es js rule: list_all2_induct)
      (auto simp: entry_value_def preset_of_def writable_def list_all_iff plain_key_c_str cong: map_cong)
  then obtain p where "map_res (entry_value []) (entries (JObj ms)) = Ok p" "mset p = mset (preset_of es)"
    using map_res_mset [OF ms(3) [symmetric]] by blast
  then show ?thesis
    using ms(1) explore_entries [OF leaves, of "[]"] by (simp add: write_json_def read_json_def)
qed

section \<open>What does not survive\<close>

text \<open>
  Siblings that share a name are told apart by a numbered suffix. The value of the first one is
  replaced by the array that its instances are written to.
\<close>

lemma instances_lose_first:
  "res_bind (write_json ''d'' [(''/foo'', VInt 1), (''/foo.1'', VInt 2)]) (read_json True) =
    Ok [(''/foo'', VList [VUnset, VInt 2])]"
  by code_simp

text \<open>Instances whose suffix is not a number share the first place.\<close>

lemma named_instances_collide:
  "res_bind (write_json ''d'' [(''/foo.a'', VInt 1), (''/foo.b'', VInt 2)]) (read_json True) =
    Ok [(''/foo'', VList [VInt 2])]"
  by code_simp

text \<open>A vector with a component after the first one that is zero is read as a list.\<close>

lemma zero_component_becomes_list:
  "res_bind (ossia_to_json_value (VVec2f [fl_zero, fl_zero])) json_to_ossia_value =
    Ok (VList [VFloat fl_zero, VFloat fl_zero])"
  by code_simp

lemma value_with_children_undefined:
  "write_json ''d'' [(''/foo'', VInt 1), (''/foo/bar'', VInt 2)] = Err Undefined_behaviour"
  by code_simp

text \<open>An impulse is read back as the value without a type, a character as a string.\<close>

lemma impulse_and_char_change_type:
  "res_bind (ossia_to_json_value VImpulse) json_to_ossia_value = Ok VUnset"
  "res_bind (ossia_to_json_value (VChar 65)) json_to_ossia_value = Ok (VString ''A'')"
  by code_simp+

end
