(* ===== verification/Preset.thy ===== *)
theory Preset
  imports Osc_Protocol Json
begin

text \<open>
  Presets of a tree of nodes (\<open>preset/preset.cpp\<close>): the values of a tree are collected, as a list of
  keys or as a document, and applied to a tree. The text of a document is parsed and written by
  \<open>rapidjson\<close>, that of a list of keys by a grammar of \<open>Boost.Spirit\<close>: the operations are given what
  was parsed. The order in which \<open>list_all_child\<close> and \<open>make_json_preset\<close> visit the children of a node
  is the one its calls of \<open>std::sort\<close> leave, which is an argument, as is whether a node is marked
  \<open>recall_safe\<close>. The tree can change when an operation throws: an outcome keeps it.
\<close>

section \<open>Events\<close>

text \<open>
  What happens beside the change of the tree: what a parameter does when a value is pushed to it, the
  signals of the tree, the call of the function of the user on a node, and the call of one of the
  instance functions on a node that was created.
\<close>

datatype preset_event =
    Param_effect "nat list" effect
  | Tree_signal event
  | Applied "nat list"
  | Instance_function nat "nat list"

fun in_place :: "nat \<Rightarrow> string \<Rightarrow> preset_event \<Rightarrow> preset_event" where
  "in_place i s (Param_effect p e) = Param_effect (i # p) e"
| "in_place i s (Tree_signal e) = Tree_signal (below s e)"
| "in_place i s (Applied p) = Applied (i # p)"
| "in_place i s (Instance_function k p) = Instance_function k (i # p)"

text \<open>A step on the child at a position, seen from its parent.\<close>

type_synonym tree_step = "(parameter node \<times> preset_event list) outcome"

section \<open>The nodes below a node\<close>

type_synonym arrangement = "parameter node list \<Rightarrow> nat list"

function list_all_child :: "arrangement \<Rightarrow> parameter node \<Rightarrow> nat list list" where
  "list_all_child arrange (Node s p cs) =
     concat (map (\<lambda>i. if i < length cs then [i] # map (Cons i) (list_all_child arrange (cs ! i)) else [])
       (arrange cs))"
  by pat_completeness auto
termination
  by (relation "measure (\<lambda>(_, n). size n)") (auto simp: less_Suc_eq_le intro!: trans_le_add2 size_list_estimation')

declare list_all_child.simps [simp del]

definition make_preset :: "arrangement \<Rightarrow> parameter node \<Rightarrow> preset" where
  "make_preset arrange n =
     List.map_filter (\<lambda>p. case param_at n p of
         Some x \<Rightarrow> if p_value_type x \<noteq> T_IMPULSE then Some (slash_names (path_names n p), p_value x) else None
       | None \<Rightarrow> None)
       (list_all_child arrange n)"

section \<open>A value at a key\<close>

text \<open>A key that ends with \<open>.0\<close>, for a child with a name shorter by two.\<close>

definition first_instance_key :: "string \<Rightarrow> string \<Rightarrow> bool" where
  "first_instance_key key child_name \<longleftrightarrow> length key = length child_name + 2 \<and> drop (length child_name) key = ''.0''"

definition push_at_node :: "text_io \<Rightarrow> parameter node \<Rightarrow> val \<Rightarrow> tree_step" where
  "push_at_node io n v =
     (case node_param n of
        None \<Rightarrow> Thrown Undefined_behaviour (n, [])
      | Some x \<Rightarrow>
          (case push_value io x v of
             Returned (x', es) \<Rightarrow> Returned (set_param_at n [] x', map (Param_effect []) es)
           | Thrown e (x', es) \<Rightarrow> Thrown e (set_param_at n [] x', map (Param_effect []) es)))"

text \<open>
  The loop over the children from a position on: the key is cut once a child has matched it without
  its suffix, and every child that matches is visited.
\<close>

type_synonym key_step = "(parameter node \<times> preset_event list \<times> nat list list) outcome"

fun each_match ::
  "(parameter node \<Rightarrow> key_step) \<Rightarrow> nat \<Rightarrow> string \<Rightarrow> parameter node list \<Rightarrow>
   (parameter node list \<times> preset_event list \<times> nat list list \<times> string \<times> bool) outcome" where
  "each_match f i key [] = Returned ([], [], [], key, False)"
| "each_match f i key (c # cs) =
     (if key = node_name c \<or> first_instance_key key (node_name c) then
        (let key' = (if key = node_name c then key else take (length key - 2) key)
         in case f c of
           Thrown e (c', evs, ps) \<Rightarrow> Thrown e (c' # cs, map (in_place i (node_name c)) evs, map (Cons i) ps, key', True)
         | Returned (c', evs, ps) \<Rightarrow>
             (case each_match f (Suc i) key' cs of
                Thrown e (cs', evs', ps', key'', _) \<Rightarrow>
                  Thrown e (c' # cs', map (in_place i (node_name c)) evs @ evs', map (Cons i) ps @ ps', key'', True)
              | Returned (cs', evs', ps', key'', _) \<Rightarrow>
                  Returned (c' # cs', map (in_place i (node_name c)) evs @ evs', map (Cons i) ps @ ps', key'', True)))
      else
        (case each_match f (Suc i) key cs of
           Thrown e (cs', rest) \<Rightarrow> Thrown e (c # cs', rest)
         | Returned (cs', rest) \<Rightarrow> Returned (c # cs', rest)))"

text \<open>The parameter of a node that is created for the last key has the type of the value.\<close>

definition with_parameter :: "text_io \<Rightarrow> val \<Rightarrow> parameter node \<Rightarrow> tree_step" where
  "with_parameter io v n =
     (case create_parameter io (node_param n) (get_type v) of
        Returned (x, es) \<Rightarrow> Returned (set_param_at n [] x, map (Param_effect []) es)
      | Thrown e _ \<Rightarrow> Thrown e (n, []))"

text \<open>The step on the child at a position of the tree after the child was created.\<close>

definition in_created :: "parameter node \<Rightarrow> nat \<Rightarrow> preset_event list \<Rightarrow> key_step \<Rightarrow> key_step" where
  "in_created n i evs r =
     (let s = node_name (node_children n ! i);
          put = (\<lambda>(c, evs', ps). (set_children ((node_children n)[i := c]) n, evs @ map (in_place i s) evs', [i] # map (Cons i) ps))
      in case r of Returned t \<Rightarrow> Returned (put t) | Thrown e t \<Rightarrow> Thrown e (put t))"

fun apply_preset_node ::
  "text_io \<Rightarrow> bool \<Rightarrow> bool \<Rightarrow> bool \<Rightarrow> val \<Rightarrow> string list \<Rightarrow> parameter node \<Rightarrow> key_step" where
  "apply_preset_node io ct keep_arch allow_nonterminal v [] n =
     (if \<not> allow_nonterminal \<and> node_children n \<noteq> [] then Thrown Invalid_address (n, [], [])
      else case push_at_node io n v of
        Returned (m, evs) \<Rightarrow> Returned (m, evs, [])
      | Thrown e (m, evs) \<Rightarrow> Thrown e (m, evs, []))"
| "apply_preset_node io ct keep_arch allow_nonterminal v (key # keys) n =
     (case each_match (apply_preset_node io ct keep_arch allow_nonterminal v keys) 0 key (node_children n) of
        Thrown e (cs, evs, ps, _) \<Rightarrow> Thrown e (set_children cs n, evs, ps)
      | Returned (cs, evs, ps, key', child_exists) \<Rightarrow>
          (if child_exists then Returned (set_children cs n, evs, ps)
           else if keep_arch then Thrown Architecture_kept (n, [], [])
           else case create_child ct n key' of
             Err e \<Rightarrow> Thrown e (n, [], [])
           | Ok (m, sigs, None) \<Rightarrow> Returned (m, map Tree_signal sigs, [])
           | Ok (m, sigs, Some i) \<Rightarrow>
               in_created m i (map Tree_signal sigs)
                 (case (if keys = [] then with_parameter io v (node_children m ! i)
                        else Returned (node_children m ! i, [])) of
                    Thrown e (c, evs') \<Rightarrow> Thrown e (c, evs', [])
                  | Returned (c, evs') \<Rightarrow>
                      (case apply_preset_node io ct keep_arch allow_nonterminal v keys c of
                         Thrown e (c', evs'', ps') \<Rightarrow> Thrown e (c', evs' @ evs'', ps')
                       | Returned (c', evs'', ps') \<Rightarrow> Returned (c', evs' @ evs'', ps')))))"

section \<open>A preset on a tree\<close>

fun replace_at :: "'p node \<Rightarrow> nat list \<Rightarrow> 'p node \<Rightarrow> 'p node" where
  "replace_at n [] c = c"
| "replace_at n (i # p) c = set_children ((node_children n)[i := replace_at (node_children n ! i) p c]) n"

text \<open>The event of a node below the one at a place of the device, seen from the device.\<close>

fun from_device :: "nat list \<Rightarrow> string list \<Rightarrow> preset_event \<Rightarrow> preset_event" where
  "from_device (i # p) (s # ss) e = in_place i s (from_device p ss e)"
| "from_device _ _ e = e"

text \<open>
  The keys of an entry: the first substring, which is empty, is removed, then the name of the device
  when nodes with children get no value, then one more when the node is not the root of its device.
\<close>

definition entry_keys :: "bool \<Rightarrow> bool \<Rightarrow> bool \<Rightarrow> string \<Rightarrow> string list res" where
  "entry_keys remove_first allow_nonterminal has_parent key =
     (let ks = split_runs (\<lambda>c. c = CHR ''/'') key;
          ks1 = (if remove_first then tl ks else ks);
          ks2 = (if \<not> allow_nonterminal then tl ks1 else ks1)
      in if has_parent then (if ks2 = [] then Err Undefined_behaviour else Ok (tl ks2)) else Ok ks2)"

fun apply_entries ::
  "text_io \<Rightarrow> bool \<Rightarrow> bool \<Rightarrow> bool \<Rightarrow> bool \<Rightarrow> bool \<Rightarrow> preset \<Rightarrow> parameter node \<Rightarrow> key_step" where
  "apply_entries io ct keep_arch allow_nonterminal remove_first has_parent [] n = Returned (n, [], [])"
| "apply_entries io ct keep_arch allow_nonterminal remove_first has_parent ((key, v) # p) n =
     (case entry_keys remove_first allow_nonterminal has_parent key of
        Err e \<Rightarrow> Thrown e (n, [], [])
      | Ok ks \<Rightarrow>
          (case apply_preset_node io ct keep_arch allow_nonterminal v ks n of
             Thrown e s \<Rightarrow> Thrown e s
           | Returned (n', evs, ps) \<Rightarrow>
               (case apply_entries io ct keep_arch allow_nonterminal remove_first has_parent p n' of
                  Thrown e (n'', evs', ps') \<Rightarrow> Thrown e (n'', evs @ evs', ps @ ps')
                | Returned (n'', evs', ps') \<Rightarrow> Returned (n'', evs @ evs', ps @ ps'))))"

text \<open>The instance functions that are called on a node that was created, by their positions.\<close>

definition on_instance_creation ::
  "('rx \<Rightarrow> string \<Rightarrow> bool) \<Rightarrow> 'rx list \<Rightarrow> parameter node \<Rightarrow> nat list \<Rightarrow> preset_event list" where
  "on_instance_creation matches functions device p =
     map (\<lambda>(k, rx). Instance_function k p)
       (filter (\<lambda>(k, rx). matches rx (address_string_from_node device p)) (numbered 0 functions))"

text \<open>\<open>apply_preset\<close> on the node at a place of a device.\<close>

definition apply_preset ::
  "text_io \<Rightarrow> ('rx \<Rightarrow> string \<Rightarrow> bool) \<Rightarrow> bool \<Rightarrow> bool \<Rightarrow> 'rx list \<Rightarrow> bool \<Rightarrow> bool \<Rightarrow> parameter node \<Rightarrow> nat list \<Rightarrow>
   preset \<Rightarrow> (parameter node \<times> preset_event list) outcome" where
  "apply_preset io matches ct keep_arch functions allow_nonterminal remove_first device p preset =
     (case node_at device p of
        None \<Rightarrow> Thrown Undefined_behaviour (device, [])
      | Some n \<Rightarrow>
          (case apply_entries io ct keep_arch allow_nonterminal remove_first (p \<noteq> []) preset n of
             Thrown e (m, evs, _) \<Rightarrow> Thrown e (replace_at device p m, map (from_device p (path_names device p)) evs)
           | Returned (m, evs, created) \<Rightarrow>
               (let device' = replace_at device p m
                in Returned (device', map (from_device p (path_names device p)) evs @
                     concat (map (\<lambda>q. on_instance_creation matches functions device' (p @ q)) created)))))"

section \<open>The document of a tree\<close>

text \<open>
  \<open>make_json_from_node\<close>: the members that are added to the object of the parent. A node with a
  parameter and children adds two members of the same name.
\<close>

fun node_value_member :: "string \<Rightarrow> parameter option \<Rightarrow> (string \<times> json) list res" where
  "node_value_member s None = Ok []"
| "node_value_member s (Some x) =
     (if p_value_type x \<noteq> T_IMPULSE then res_map (\<lambda>j. [(s, j)]) (ossia_to_json_value (p_value x)) else Ok [])"

function make_json_from_node :: "arrangement \<Rightarrow> parameter node \<Rightarrow> (string \<times> json) list res" where
  "make_json_from_node arrange (Node s p cs) =
     res_bind (node_value_member s p) (\<lambda>ms.
       if cs = [] then Ok ms
       else res_map (\<lambda>mss. ms @ [(s, JObj (concat mss))])
         (map_res (\<lambda>i. if i < length cs then make_json_from_node arrange (cs ! i) else Ok []) (arrange cs)))"
  by pat_completeness auto
termination
  by (relation "measure (\<lambda>(_, n). size n)") (auto simp: less_Suc_eq_le intro!: trans_le_add2 size_list_estimation')

declare make_json_from_node.simps [simp del]

definition make_json_preset :: "arrangement \<Rightarrow> parameter node \<Rightarrow> json res" where
  "make_json_preset arrange n =
     res_map (\<lambda>mss. JObj (concat mss))
       (map_res (\<lambda>i. make_json_from_node arrange (node_children n ! i)) (arrange (node_children n)))"

section \<open>A document on a tree\<close>

text \<open>
  The operations below walk the whole tree by places. A place is the one of a node that was found, so
  its node is there.
\<close>

text \<open>The value is pushed to the parameter at a place, if there is one, and the function is called.\<close>

definition recall_at :: "text_io \<Rightarrow> bool \<Rightarrow> nat list \<Rightarrow> val \<Rightarrow> parameter node \<Rightarrow> tree_step" where
  "recall_at io fn p v n =
     (case param_at n p of
        None \<Rightarrow> Returned (n, [])
      | Some x \<Rightarrow>
          (case push_value io x v of
             Returned (x', es) \<Rightarrow>
               Returned (set_param_at n p x', map (Param_effect p) es @ (if fn then [Applied p] else []))
           | Thrown e (x', es) \<Rightarrow> Thrown e (set_param_at n p x', map (Param_effect p) es)))"

definition find_below :: "parameter node \<Rightarrow> nat list \<Rightarrow> string \<Rightarrow> nat list option" where
  "find_below n p name =
     (case node_at n p of None \<Rightarrow> None | Some m \<Rightarrow> map_option (\<lambda>q. p @ q) (find_node m (c_str name)))"

function apply_json_member_to_node ::
  "text_io \<Rightarrow> (nat list \<Rightarrow> bool) \<Rightarrow> bool \<Rightarrow> json \<Rightarrow> nat list \<Rightarrow> parameter node \<Rightarrow> tree_step" where
  "apply_json_member_to_node io safe fn j p n =
     (case j of
        JObj ms \<Rightarrow>
          do_all (\<lambda>(name, j') m.
            case find_below m p name of
              Some q \<Rightarrow> if \<not> safe q then apply_json_member_to_node io safe fn j' q m else Returned (m, [])
            | None \<Rightarrow> Returned (m, [])) ms n
      | _ \<Rightarrow>
          (if safe p then Returned (n, [])
           else if param_at n p = None then Returned (n, [])
           else case json_to_ossia_value j of
             Err e \<Rightarrow> Thrown e (n, [])
           | Ok v \<Rightarrow> recall_at io fn p v n))"
  by pat_completeness auto
termination
  by (relation "measure (\<lambda>(_, _, _, j, _, _). size j)") (auto dest: size_member)

declare apply_json_member_to_node.simps [simp del]

text \<open>\<open>apply_json\<close> on the document that was parsed, if it could be, and what it returns.\<close>

definition apply_json ::
  "text_io \<Rightarrow> (nat list \<Rightarrow> bool) \<Rightarrow> bool \<Rightarrow> json option \<Rightarrow> parameter node \<Rightarrow> bool \<times> tree_step" where
  "apply_json io safe fn doc n =
     (case doc of
        None \<Rightarrow> (False, Returned (n, []))
      | Some (JObj ms) \<Rightarrow>
          (True, do_all (\<lambda>(name, j) m.
             case find_below m [] name of
               Some q \<Rightarrow> if \<not> safe q then apply_json_member_to_node io safe fn j q m else Returned (m, [])
             | None \<Rightarrow> Returned (m, [])) ms n)
      | Some _ \<Rightarrow> (True, Returned (n, [])))"

text \<open>\<open>apply_preset\<close> on one address and its value for each line.\<close>

definition apply_kiss ::
  "text_io \<Rightarrow> (nat list \<Rightarrow> bool) \<Rightarrow> bool \<Rightarrow> preset \<Rightarrow> parameter node \<Rightarrow> tree_step" where
  "apply_kiss io safe fn preset n =
     do_all (\<lambda>(address, v) m.
       case find_node m address of
         None \<Rightarrow> Returned (m, [])
       | Some q \<Rightarrow> if safe q then Returned (m, []) else recall_at io fn q v m) preset n"

section \<open>Lookup of a node, text of a device\<close>

text \<open>The keys are a reference: what a child removes from them is removed for the children after it.\<close>

fun get_node_node :: "'p node \<Rightarrow> string list \<Rightarrow> string list \<times> nat list option"
  and get_node_children :: "nat \<Rightarrow> 'p node list \<Rightarrow> string list \<Rightarrow> string list \<times> nat list option" where
  "get_node_node (Node s p cs) keys =
     (case keys of
        [] \<Rightarrow> (keys, None)
      | key # rest \<Rightarrow>
          (if s = key then (if rest = [] then (keys, Some []) else get_node_children 0 cs rest)
           else (keys, None)))"
| "get_node_children i [] keys = (keys, None)"
| "get_node_children i (c # cs) keys =
     (case get_node_node c keys of
        (keys', r) \<Rightarrow>
          (case get_node_children (Suc i) cs keys' of
             (keys'', Some q) \<Rightarrow> (keys'', Some q)
           | (keys'', None) \<Rightarrow> (keys'', map_option (Cons i) r)))"

text \<open>The keys are split without compression.\<close>

definition get_node :: "'p node \<Rightarrow> string \<Rightarrow> nat list option" where
  "get_node n address = snd (get_node_node n (tl (split_slash address)))"

definition value_to_std_string :: "(fl \<Rightarrow> string) \<Rightarrow> val \<Rightarrow> string" where
  "value_to_std_string float_text v =
     (case v of
        VBool b \<Rightarrow> ''Bool '' @ (if b then ''1'' else ''0'')
      | VInt n \<Rightarrow> ''Int '' @ int_to_string (sint n)
      | VFloat x \<Rightarrow> ''Float '' @ float_text x
      | VChar c \<Rightarrow> ''Char '' @ char_text c
      | VString s \<Rightarrow> ''String '' @ s
      | _ \<Rightarrow> ''Other'')"

fun join_with :: "string \<Rightarrow> string list \<Rightarrow> string" where
  "join_with sep [] = []"
| "join_with sep [s] = s"
| "join_with sep (s # t # ts) = s @ sep @ join_with sep (t # ts)"

fun to_string_node :: "(fl \<Rightarrow> string) \<Rightarrow> string list \<Rightarrow> parameter node \<Rightarrow> string list" where
  "to_string_node float_text keys (Node s p cs) =
     concat (map (to_string_node float_text (keys @ [s])) cs) @
     (case p of
        Some x \<Rightarrow>
          (if cs = [] \<and> valid (p_value x) then
             [join_with ''/'' (keys @ [s]) @ '': '' @ value_to_std_string float_text (p_value x)]
           else [])
      | None \<Rightarrow> [])"

definition device_to_string :: "(fl \<Rightarrow> string) \<Rightarrow> parameter node \<Rightarrow> string" where
  "device_to_string float_text n = ''['' @ join_with '', '' (to_string_node float_text [] n) @ '']''"

section \<open>Names that are keys\<close>

text \<open>
  The names below a node are not empty and none ends with the suffix \<open>.0\<close>, which a key can have for a
  sibling of any name of the right length.
\<close>

definition key_safe :: "string \<Rightarrow> bool" where
  "key_safe s \<longleftrightarrow> s \<noteq> [] \<and> drop (length s - 2) s \<noteq> ''.0''"

fun names_below :: "(string \<Rightarrow> bool) \<Rightarrow> 'p node \<Rightarrow> bool" where
  "names_below P (Node s p cs) = list_all (\<lambda>c. P (node_name c) \<and> names_below P c) cs"

abbreviation keyed_names :: "'p node \<Rightarrow> bool" where
  "keyed_names \<equiv> names_below key_safe"

lemma keyed_child:
  "names_below P n \<Longrightarrow> i < length (node_children n) \<Longrightarrow>
   P (node_name (node_children n ! i)) \<and> names_below P (node_children n ! i)"
  by (cases n) (auto simp: list_all_length)

lemma key_safe_key: "key_safe s \<Longrightarrow> \<not> first_instance_key s t"
  by (auto simp: key_safe_def first_instance_key_def)

lemma names_are_keys:
  "wf_tree n \<Longrightarrow> keyed_names n \<Longrightarrow> node_at n q \<noteq> None \<Longrightarrow> list_all key_name (path_names n q)"
proof (induction q arbitrary: n)
  case (Cons i q)
  then have i: "i < length (node_children n)" "node_at (node_children n ! i) q \<noteq> None" by (auto split: if_splits)
  have "valid_name (node_name (node_children n ! i))"
    using Cons.prems(1) i(1) by (cases n) (simp add: list_all_length)
  then show ?case
    using Cons.IH [OF wf_child [OF Cons.prems(1) i(1)] _ i(2)] keyed_child [OF Cons.prems(2) i(1)]
    by (simp add: key_name_def key_safe_def slash_not_valid)
qed simp

section \<open>One key, one parameter\<close>

text \<open>Among siblings of different names, one child matches a key that is its name.\<close>

lemma each_match_none:
  "key \<notin> set (map node_name cs) \<Longrightarrow> key_safe key \<Longrightarrow> each_match f i key cs = Returned (cs, [], [], key, False)"
  by (induction cs arbitrary: i) (auto simp: key_safe_key)

lemma each_match_one:
  assumes "distinct (map node_name cs)" "j < length cs" "key = node_name (cs ! j)" "key_safe key"
    and "f (cs ! j) = Returned (c, evs, ps)"
  shows "each_match f i key cs =
    Returned (cs[j := c], map (in_place (i + j) key) evs, map (Cons (i + j)) ps, key, True)"
  using assms
proof (induction cs arbitrary: i j)
  case (Cons d ds)
  show ?case
  proof (cases j)
    case 0
    then have "key \<notin> set (map node_name ds)" using Cons.prems by auto
    then show ?thesis using 0 Cons.prems by (simp add: each_match_none)
  next
    case (Suc k)
    then have "node_name (ds ! k) \<in> set (map node_name ds)" using Cons.prems(2) by simp
    then have "key \<noteq> node_name d" using Suc Cons.prems(1,3) by auto
    then show ?thesis using Cons.IH [of k "Suc i"] Suc Cons.prems by (simp add: key_safe_key)
  qed
qed simp

lemma key_reaches_place:
  assumes "wf_tree n" "keyed_names n" "param_at n q = Some x" "push_value io x v = Returned (x', es)"
  shows "apply_preset_node io ct keep True v (path_names n q) n =
    Returned (set_param_at n q x', map (Param_effect q) es, [])"
  using assms(1-3)
proof (induction q arbitrary: n)
  case Nil
  then show ?case using assms(4) by (simp add: push_at_node_def)
next
  case (Cons i q)
  then have i: "i < length (node_children n)" "param_at (node_children n ! i) q = Some x" by (auto split: if_splits)
  have safe: "key_safe (node_name (node_children n ! i))" "keyed_names (node_children n ! i)"
    using keyed_child [OF Cons.prems(2) i(1)] by auto
  have "distinct (map node_name (node_children n))" using Cons.prems(1) by (cases n) simp
  note one = each_match_one [OF this i(1) refl safe(1), where i = 0,
      of "apply_preset_node io ct keep True v (path_names (node_children n ! i) q)"]
  from one [OF Cons.IH [OF wf_child [OF Cons.prems(1) i(1)] safe(2) i(2)]]
  show ?case by (simp add: comp_def)
qed

section \<open>The places below a node\<close>

definition arranges :: "arrangement \<Rightarrow> bool" where
  "arranges arrange \<longleftrightarrow> (\<forall>cs. distinct (arrange cs) \<and> set (arrange cs) = {..<length cs})"

lemma list_all_child_children:
  "list_all_child arrange n = concat (map (\<lambda>i. if i < length (node_children n)
     then [i] # map (Cons i) (list_all_child arrange (node_children n ! i)) else []) (arrange (node_children n)))"
  by (cases n) (simp add: list_all_child.simps cong: if_cong)

lemma list_all_child_union:
  assumes "arranges arrange"
  shows "set (list_all_child arrange n) = (\<Union>i \<in> {..<length (node_children n)}.
    insert [i] (Cons i ` set (list_all_child arrange (node_children n ! i))))"
  using assms by (subst list_all_child_children) (simp add: arranges_def)

lemma list_all_child_set:
  assumes "arranges arrange"
  shows "q \<in> set (list_all_child arrange n) \<longleftrightarrow> q \<noteq> [] \<and> node_at n q \<noteq> None"
proof (induction q arbitrary: n)
  case Nil
  show ?case by (subst list_all_child_union [OF assms]) auto
next
  case (Cons i q)
  have "i # q \<in> set (list_all_child arrange n) \<longleftrightarrow>
    i < length (node_children n) \<and> (q = [] \<or> q \<in> set (list_all_child arrange (node_children n ! i)))"
    by (subst list_all_child_union [OF assms]) auto
  then show ?case using Cons by auto
qed

lemma list_all_child_distinct:
  assumes "arranges arrange"
  shows "distinct (list_all_child arrange n)"
proof (induction n)
  case (Node s p cs)
  have "distinct (list_all_child arrange (Node s p cs))"
  proof -
    have "distinct ([i] # map (Cons i) (list_all_child arrange (cs ! i)))" if "i < length cs" for i
      using Node [of "cs ! i"] that list_all_child_set [OF assms, of "[]"] by (auto simp: distinct_map)
    then show ?thesis
      using assms unfolding list_all_child.simps
      by (intro distinct_concat) (auto simp: arranges_def distinct_map inj_on_def split: if_splits)
  qed
  then show ?case .
qed

section \<open>Trees of one form\<close>

text \<open>
  Two trees with the same names and parameters at the same places are related by the relator of the
  datatype of nodes.
\<close>

lemma rel_node_parts:
  "rel_node R n m \<Longrightarrow> node_name n = node_name m \<and> rel_option R (node_param n) (node_param m) \<and>
    list_all2 (rel_node R) (node_children n) (node_children m)"
  by (cases n; cases m) simp

lemma rel_node_name: "rel_node R n m \<Longrightarrow> node_name m = node_name n"
  by (simp add: rel_node_parts)

lemma rel_node_node_at:
  "rel_node R n m \<Longrightarrow> (node_at n q = None \<longleftrightarrow> node_at m q = None) \<and> rel_option R (param_at n q) (param_at m q) \<and>
    (node_at n q \<noteq> None \<longrightarrow> path_names n q = path_names m q)"
proof (induction q arbitrary: n m)
  case Nil
  then show ?case by (cases n; cases m) simp
next
  case (Cons i q)
  have len: "length (node_children n) = length (node_children m)"
    using list_all2_lengthD rel_node_parts Cons.prems(1) by blast
  have sub: "i < length (node_children n) \<Longrightarrow> rel_node R (node_children n ! i) (node_children m ! i)"
    using rel_node_parts [OF Cons.prems] by (simp add: list_all2_nthD)
  show ?case
  proof (cases "i < length (node_children n)")
    case True
    then show ?thesis using Cons.IH [OF sub [OF True]] rel_node_parts [OF sub [OF True]] len by auto
  qed (use len in simp)
qed

lemma rel_node_set_param:
  assumes "rel_node R n m" "param_at n q = Some x" "R x y"
  shows "rel_node R n (set_param_at m q y)"
  using assms
proof (induction q arbitrary: n m)
  case Nil
  then show ?case by (cases n; cases m) simp
next
  case (Cons i q)
  have len: "length (node_children n) = length (node_children m)"
    using list_all2_lengthD rel_node_parts Cons.prems(1) by blast
  have i: "i < length (node_children n)" "param_at (node_children n ! i) q = Some x"
    using Cons.prems(2) by (auto split: if_splits)
  have sub: "list_all2 (rel_node R) (node_children n) (node_children m)"
    using rel_node_parts [OF Cons.prems(1)] by simp
  then have "rel_node R (node_children n ! i) (set_param_at (node_children m ! i) q y)"
    using Cons.IH [OF _ i(2) Cons.prems(3)] i(1) by (simp add: list_all2_nthD)
  then have "list_all2 (rel_node R) ((node_children n)[i := node_children n ! i])
      ((node_children m)[i := set_param_at (node_children m ! i) q y])"
    using sub by (intro list_all2_update_cong)
  then show ?case using Cons.prems(1) by (cases n; cases m) (simp add: set_children_def)
qed

lemma rel_node_pointwise:
  assumes "rel_node R n m" "\<And>q x y. param_at n q = Some x \<Longrightarrow> param_at m q = Some y \<Longrightarrow> S x y"
  shows "rel_node S n m"
  using assms
proof (induction n arbitrary: m)
  case (Node s p cs)
  obtain s' p' cs' where m: "m = Node s' p' cs'" by (cases m)
  have rel: "s = s'" "rel_option R p p'" "list_all2 (rel_node R) cs cs'" using Node.prems(1) by (simp_all add: m)
  have "rel_node S (cs ! i) (cs' ! i)" if i: "i < length cs" for i
  proof (rule Node.IH)
    show "cs ! i \<in> set cs" using i by simp
    show "rel_node R (cs ! i) (cs' ! i)" using rel(3) i by (rule list_all2_nthD)
    show "S x y" if "param_at (cs ! i) q = Some x" "param_at (cs' ! i) q = Some y" for q x y
      using Node.prems(2) [of "i # q" x y] that i list_all2_lengthD [OF rel(3)] by (simp add: m)
  qed
  moreover have "rel_option S p p'"
    using rel(2) Node.prems(2) [of "[]"] by (cases p; cases p') (simp_all add: m)
  ultimately show ?case using rel(1) list_all2_lengthD [OF rel(3)] by (simp add: m list_all2_conv_all_nth)
qed

lemma rel_children_pointwise:
  assumes "rel_node R n m" "\<And>q x y. q \<noteq> [] \<Longrightarrow> param_at n q = Some x \<Longrightarrow> param_at m q = Some y \<Longrightarrow> S x y"
  shows "list_all2 (rel_node S) (node_children n) (node_children m)"
proof -
  have sub: "list_all2 (rel_node R) (node_children n) (node_children m)"
    using rel_node_parts [OF assms(1)] by simp
  have "rel_node S (node_children n ! i) (node_children m ! i)" if i: "i < length (node_children n)" for i
    using rel_node_pointwise [OF list_all2_nthD [OF sub i], of S] assms(2) [of "i # _"] i
      list_all2_lengthD [OF sub] by simp
  then show ?thesis using list_all2_lengthD [OF sub] by (simp add: list_all2_conv_all_nth)
qed

section \<open>Saving and restoring\<close>

text \<open>
  Two well-formed parameters of one type; and a parameter that has the value of
  another one, unless they are impulses.
\<close>

definition alike :: "parameter \<Rightarrow> parameter \<Rightarrow> bool" where
  "alike x y \<longleftrightarrow> wf_parameter x \<and> wf_parameter y \<and> p_value_type x = p_value_type y"

definition restored :: "parameter \<Rightarrow> parameter \<Rightarrow> bool" where
  "restored x y \<longleftrightarrow> p_value_type y = p_value_type x \<and> (p_value_type x \<noteq> T_IMPULSE \<longrightarrow> p_value y = p_value x)"

text \<open>The places that a preset records, and the entry of each.\<close>

definition recorded :: "parameter node \<Rightarrow> nat list \<Rightarrow> bool" where
  "recorded n q \<longleftrightarrow> (case param_at n q of Some x \<Rightarrow> p_value_type x \<noteq> T_IMPULSE | None \<Rightarrow> False)"

definition entry_at :: "parameter node \<Rightarrow> nat list \<Rightarrow> string list \<times> val" where
  "entry_at n q = (path_names n q, p_value (the (param_at n q)))"

definition recorded_places :: "arrangement \<Rightarrow> parameter node \<Rightarrow> nat list list" where
  "recorded_places arrange n = filter (recorded n) (list_all_child arrange n)"

lemma make_preset_entries:
  "make_preset arrange n = preset_of (map (entry_at n) (recorded_places arrange n))"
proof -
  have "List.map_filter (\<lambda>p. case param_at n p of
      Some x \<Rightarrow> if p_value_type x \<noteq> T_IMPULSE then Some (slash_names (path_names n p), p_value x) else None
    | None \<Rightarrow> None) qs = preset_of (map (entry_at n) (filter (recorded n) qs))" for qs
    by (induction qs) (auto simp: preset_of_def recorded_def entry_at_def List.map_filter_simps split: option.splits)
  then show ?thesis by (simp add: make_preset_def recorded_places_def)
qed

lemma wf_with_value:
  "wf_parameter y \<Longrightarrow> wf_val v \<Longrightarrow> get_type v = p_value_type y \<Longrightarrow>
   wf_parameter (y\<lparr>p_previous := u, p_value := v\<rparr>)"
  by (simp add: wf_parameter_def)

lemma set_value_alike:
  assumes "alike x y"
  obtains y' es where "push_value io y (p_value x) = Returned (y', es)" "alike x y'" "p_value y' = p_value x"
proof -
  have wf: "wf_parameter x" "wf_parameter y" "get_type (p_value x) = p_value_type y" "wf_val (p_value x)"
    using assms by (auto simp: alike_def wf_parameter_def)
  let ?y = "y\<lparr>p_previous := p_value y, p_value := p_value x\<rparr>"
  have "push_value io y (p_value x) = Returned (?y, [Sent (p_value x), Pushed (p_value x)])"
    using set_value_same_type [OF wf(2,3)] by (simp add: push_value_def)
  moreover have "alike x ?y" using assms wf_with_value [OF wf(2,4,3)] by (simp add: alike_def)
  ultimately show thesis using that by simp
qed

lemma keyed_names_rel: "rel_node R n m \<Longrightarrow> names_below P n \<Longrightarrow> names_below P m"
proof (induction n arbitrary: m)
  case (Node s p cs)
  obtain s' p' cs' where m: "m = Node s' p' cs'" by (cases m)
  have rel: "list_all2 (rel_node R) cs cs'" using Node.prems(1) by (simp add: m)
  have "P (node_name (cs' ! i)) \<and> names_below P (cs' ! i)" if "i < length cs'" for i
    using that Node.IH [of "cs ! i" "cs' ! i"] Node.prems(2) list_all2_nthD2 [OF rel that]
      rel_node_name [OF list_all2_nthD2 [OF rel that]] list_all2_lengthD [OF rel]
    by (auto simp: list_all_length)
  then show ?case by (simp add: m list_all_length)
qed

lemma wf_tree_rel: "rel_node R n m \<Longrightarrow> wf_tree n \<Longrightarrow> wf_tree m"
proof (induction n arbitrary: m)
  case (Node s p cs)
  obtain s' p' cs' where m: "m = Node s' p' cs'" by (cases m)
  have rel: "list_all2 (rel_node R) cs cs'" using Node.prems(1) by (simp add: m)
  have "map node_name cs' = map node_name cs"
    using rel by (induction rule: list_all2_induct) (auto dest: rel_node_name)
  moreover have "wf_tree (cs' ! i)" if "i < length cs'" for i
    using that Node.IH [of "cs ! i" "cs' ! i"] Node.prems(2) list_all2_nthD2 [OF rel that]
      list_all2_lengthD [OF rel]
    by (simp add: list_all_length)
  ultimately show ?case using Node.prems(2) by (simp add: m list_all_length)
qed

text \<open>The entries of places of a tree, in any order, on a tree of the same form.\<close>

lemma apply_places:
  assumes "wf_tree n" "keyed_names n" "rel_node alike n m" "\<forall>q \<in> set qs. q \<noteq> [] \<and> recorded n q"
  shows "\<exists>m' evs. apply_entries io ct True True True False (preset_of (map (entry_at n) qs)) m = Returned (m', evs, []) \<and>
    rel_node alike n m' \<and>
    (\<forall>q x y. param_at n q = Some x \<longrightarrow> param_at m' q = Some y \<longrightarrow>
       q \<in> set qs \<or> (\<exists>z. param_at m q = Some z \<and> p_value z = p_value x) \<longrightarrow> p_value y = p_value x)"
  using assms(3,4)
proof (induction qs arbitrary: m)
  case Nil
  then show ?case by (auto simp: preset_of_def)
next
  case (Cons q qs)
  have wf: "wf_tree m" "keyed_names m" using wf_tree_rel keyed_names_rel Cons.prems(1) assms(1,2) by blast+
  obtain x where x: "param_at n q = Some x" using Cons.prems(2) by (auto simp: recorded_def split: option.splits)
  obtain z where z: "param_at m q = Some z" "alike x z"
    using rel_node_node_at [OF Cons.prems(1), of q] x by (auto simp: option_rel_Some1)
  obtain z' es where z': "push_value io z (p_value x) = Returned (z', es)" "alike x z'" "p_value z' = p_value x"
    by (rule set_value_alike [OF z(2)])
  let ?m = "set_param_at m q z'"
  have names: "path_names n q = path_names m q" "list_all key_name (path_names n q)" "path_names n q \<noteq> []"
    using rel_node_node_at [OF Cons.prems(1), of q] param_at_node [OF x] names_are_keys [OF assms(1,2), of q] Cons.prems(2)
    by (simp_all, cases q, simp_all)
  have step: "apply_preset_node io ct True True (p_value x) (path_names n q) m =
      Returned (?m, map (Param_effect q) es, [])"
    using key_reaches_place [OF wf z(1) z'(1)] names(1) by simp
  have rel: "rel_node alike n ?m" by (rule rel_node_set_param [OF Cons.prems(1) x z'(2)])
  obtain m' evs where IH: "apply_entries io ct True True True False (preset_of (map (entry_at n) qs)) ?m = Returned (m', evs, [])"
      "rel_node alike n m'"
    and vals: "\<And>q' x' y. param_at n q' = Some x' \<Longrightarrow> param_at m' q' = Some y \<Longrightarrow>
       q' \<in> set qs \<or> (\<exists>w. param_at ?m q' = Some w \<and> p_value w = p_value x') \<Longrightarrow> p_value y = p_value x'"
    using Cons.IH [OF rel] Cons.prems(2) by force
  have "p_value y = p_value x'"
    if "param_at n q' = Some x'" "param_at m' q' = Some y"
      "q' \<in> set (q # qs) \<or> (\<exists>w. param_at m q' = Some w \<and> p_value w = p_value x')" for q' x' y
  proof (rule vals [OF that(1,2)])
    show "q' \<in> set qs \<or> (\<exists>w. param_at ?m q' = Some w \<and> p_value w = p_value x')"
      using that x z'(3) param_at_set_param [OF param_at_node [OF z(1)], of z' q'] by (cases "q' = q") auto
  qed
  moreover have "preset_of (map (entry_at n) (q # qs)) =
      (slash_names (path_names n q), p_value x) # preset_of (map (entry_at n) qs)"
    by (simp add: preset_of_def entry_at_def x)
  then have "apply_entries io ct True True True False (preset_of (map (entry_at n) (q # qs))) m =
      Returned (m', map (Param_effect q) es @ evs, [])"
    using step IH(1) names(2,3) by (simp add: entry_keys_def split_slash_names)
  ultimately show ?case using IH(2) by blast
qed

lemma recorded_places_set:
  "arranges arrange \<Longrightarrow> q \<in> set (recorded_places arrange n) \<longleftrightarrow> q \<noteq> [] \<and> recorded n q"
  by (auto simp: recorded_places_def list_all_child_set recorded_def param_at_def split: option.splits)

lemma mset_of_map:
  assumes "mset ys = image_mset f (mset xs)"
  shows "\<exists>zs. ys = map f zs \<and> mset zs = mset xs"
proof -
  have "list_all2 (\<lambda>y x. y = f x) (map f xs) xs" by (simp add: list_all2_conv_all_nth)
  then obtain zs where zs: "list_all2 (\<lambda>y x. y = f x) ys zs" "mset zs = mset xs"
    using list_all2_reorder_left_invariance [of _ "map f xs" xs ys] assms by auto
  have "ys = map f zs" using zs(1) by (induction rule: list_all2_induct) auto
  then show ?thesis using zs(2) by blast
qed

text \<open>Every order of the entries of a preset restores the values of the tree it was made of.\<close>

lemma apply_preset_restores:
  assumes "wf_tree n" "keyed_names n" "rel_node alike n m" "arranges arrange"
    and "mset p = mset (make_preset arrange n)"
  shows "\<exists>m' evs. apply_preset io matches ct True functions True True m [] p = Returned (m', evs) \<and>
    list_all2 (rel_node restored) (node_children n) (node_children m')"
proof -
  obtain qs where qs: "p = preset_of (map (entry_at n) qs)" "mset qs = mset (recorded_places arrange n)"
  proof -
    have "mset p = image_mset (\<lambda>q. apfst slash_names (entry_at n q)) (mset (recorded_places arrange n))"
      using assms(5) by (simp add: make_preset_entries preset_of_def comp_def multiset.map_comp)
    then obtain qs where "p = map (\<lambda>q. apfst slash_names (entry_at n q)) qs" "mset qs = mset (recorded_places arrange n)"
      using mset_of_map by blast
    then show thesis using that by (simp add: preset_of_def comp_def)
  qed
  have places: "q \<in> set qs \<longleftrightarrow> q \<noteq> [] \<and> recorded n q" for q
    using recorded_places_set [OF assms(4)] mset_eq_setD [OF qs(2)] by simp
  obtain m' evs where m': "apply_entries io ct True True True False p m = Returned (m', evs, [])"
      "rel_node alike n m'"
    and vals: "\<And>q x y. param_at n q = Some x \<Longrightarrow> param_at m' q = Some y \<Longrightarrow> q \<in> set qs \<Longrightarrow> p_value y = p_value x"
    using apply_places [OF assms(1,2,3), of qs io ct] places unfolding qs(1) by blast
  have "list_all2 (rel_node restored) (node_children n) (node_children m')"
  proof (rule rel_children_pointwise [OF m'(2)])
    fix q x y assume q: "q \<noteq> []" "param_at n q = Some x" "param_at m' q = Some y"
    have "alike x y" using rel_node_node_at [OF m'(2), of q] q by simp
    moreover have "p_value_type x \<noteq> T_IMPULSE \<Longrightarrow> p_value y = p_value x"
      using vals [OF q(2,3)] places q by (simp add: recorded_def)
    ultimately show "restored x y" by (simp add: restored_def alike_def)
  qed
  then show ?thesis using m'(1) by (simp add: apply_preset_def)
qed

section \<open>Through a document\<close>

text \<open>The parameters are those of the leaves of the tree.\<close>

fun leaf_params :: "'p node \<Rightarrow> bool" where
  "leaf_params (Node s p cs) \<longleftrightarrow> (p \<noteq> None \<longrightarrow> cs = []) \<and> list_all leaf_params cs"

lemma leaf_params_at: "leaf_params n \<Longrightarrow> param_at n q = Some x \<Longrightarrow> node_at n (q @ q') \<noteq> None \<Longrightarrow> q' = []"
proof (induction q arbitrary: n)
  case Nil
  then show ?case by (cases n; cases q') auto
next
  case (Cons i q)
  then show ?case by (cases n) (auto simp: list_all_length split: if_splits)
qed

lemma param_at_set_node: "param_at n q = Some x \<Longrightarrow> x \<in> set_node n"
proof (induction q arbitrary: n)
  case Nil
  then show ?case by (cases n) auto
next
  case (Cons i q)
  then have "x \<in> set_node (node_children n ! i)" "i < length (node_children n)" by (auto split: if_splits)
  then show ?case by (cases n) auto
qed

lemma prefix_of_names:
  "wf_tree n \<Longrightarrow> node_at n q \<noteq> None \<Longrightarrow> node_at n q' \<noteq> None \<Longrightarrow> prefix (path_names n q) (path_names n q') \<Longrightarrow>
   prefix q q'"
proof (induction q arbitrary: n q')
  case (Cons i q)
  then obtain j r where q': "q' = j # r" by (cases q') auto
  have ij: "i < length (node_children n)" "j < length (node_children n)"
    using Cons.prems(2,3) by (auto simp: q' split: if_splits)
  have "node_name (node_children n ! i) = node_name (node_children n ! j)" using Cons.prems(4) by (simp add: q')
  then have "i = j" using Cons.prems(1) ij by (cases n) (auto simp: distinct_conv_nth)
  then show ?case
    using Cons.IH [OF wf_child [OF Cons.prems(1) ij(1)], of r] Cons.prems(2-4) ij by (simp add: q')
qed simp

lemma plain_key_safe: "plain_key s \<Longrightarrow> key_safe s"
proof -
  have "CHR ''.'' \<in> set s" if "drop (length s - 2) s = ''.0''"
    using that in_set_dropD [of "CHR ''.''" "length s - 2" s] by simp
  then show "plain_key s \<Longrightarrow> key_safe s" by (auto simp: plain_key_def key_name_def key_safe_def)
qed

lemma names_below_mono: "(\<And>s. P s \<Longrightarrow> Q s) \<Longrightarrow> names_below P n \<Longrightarrow> names_below Q n"
  by (induction n) (auto simp: list_all_iff)

lemma names_below_path: "names_below P n \<Longrightarrow> node_at n q \<noteq> None \<Longrightarrow> list_all P (path_names n q)"
proof (induction q arbitrary: n)
  case (Cons i q)
  then show ?case using keyed_child [OF Cons.prems(1), of i] by (auto split: if_splits)
qed simp

lemma prefix_free_places:
  assumes "distinct qs"
    and "\<And>q q'. q \<in> set qs \<Longrightarrow> q' \<in> set qs \<Longrightarrow> q \<noteq> q' \<Longrightarrow> apart (path_names n q) (path_names n q')"
  shows "prefix_free (map (entry_at n) qs)"
  using assms by (induction qs) (auto simp: entry_at_def list_all_iff)

text \<open>What is stable in a document is what the parameters below the node have.\<close>

definition savable :: "parameter node \<Rightarrow> bool" where
  "savable n \<longleftrightarrow> wf_tree n \<and> names_below plain_key n \<and> leaf_params n \<and>
     (\<forall>x \<in> set_node n. p_value_type x \<noteq> T_IMPULSE \<longrightarrow> json_stable (p_value x))"

lemma savable_writable:
  assumes "savable n" "arranges arrange"
  shows "writable (map (entry_at n) (recorded_places arrange n))"
proof -
  have place: "\<exists>x. param_at n q = Some x \<and> p_value_type x \<noteq> T_IMPULSE" "q \<noteq> []" "node_at n q \<noteq> None"
    if "q \<in> set (recorded_places arrange n)" for q
    using that param_at_node [of n q] by (auto simp: recorded_places_set [OF assms(2)] recorded_def split: option.splits)
  have not_prefix: "\<not> prefix (path_names n q) (path_names n q')"
    if qs: "q \<in> set (recorded_places arrange n)" "q' \<in> set (recorded_places arrange n)" "q \<noteq> q'" for q q'
  proof
    assume "prefix (path_names n q) (path_names n q')"
    then have "prefix q q'"
      using prefix_of_names [of n q q'] place [OF qs(1)] place [OF qs(2)] assms(1) by (simp add: savable_def)
    then obtain r where "q' = q @ r" by (auto simp: prefix_def)
    then show False
      using leaf_params_at [of n q _ r] place [OF qs(1)] place [OF qs(2)] assms(1) qs(3) by (auto simp: savable_def)
  qed
  have "prefix_free (map (entry_at n) (recorded_places arrange n))"
    using not_prefix list_all_child_distinct [OF assms(2), of n]
    by (intro prefix_free_places) (auto simp: apart_def recorded_places_def)
  moreover have "path_names n q \<noteq> [] \<and> list_all plain_key (path_names n q) \<and> json_stable (p_value (the (param_at n q)))"
    if q: "q \<in> set (recorded_places arrange n)" for q
  proof -
    have "path_names n q \<noteq> []" using place(2) [OF q] by (cases q) simp_all
    moreover have "list_all plain_key (path_names n q)"
      using assms(1) place(3) [OF q] by (intro names_below_path) (auto simp: savable_def)
    moreover obtain x where "param_at n q = Some x" "p_value_type x \<noteq> T_IMPULSE" using place(1) [OF q] by blast
    ultimately show ?thesis using assms(1) param_at_set_node [of n q x] by (simp add: savable_def)
  qed
  ultimately show ?thesis by (simp add: writable_def list_all_iff entry_at_def)
qed

text \<open>
  The preset of a tree, written to a document, read back and applied to a tree of the same form.
\<close>

lemma save_and_load:
  assumes "savable n" "arranges arrange" "rel_node alike n m"
  shows "\<exists>doc p m' evs. write_json device (make_preset arrange n) = Ok doc \<and> read_json True doc = Ok p \<and>
    apply_preset io matches ct True functions True True m [] p = Returned (m', evs) \<and>
    list_all2 (rel_node restored) (node_children n) (node_children m')"
proof -
  obtain doc p where doc: "write_json device (make_preset arrange n) = Ok doc" "read_json True doc = Ok p"
      "mset p = mset (make_preset arrange n)"
    using document_roundtrip [OF savable_writable [OF assms(1,2)], of device] by (auto simp: make_preset_entries)
  have "wf_tree n" "keyed_names n"
    using assms(1) names_below_mono [OF plain_key_safe] by (auto simp: savable_def)
  from apply_preset_restores [OF this assms(3,2) doc(3)] show ?thesis using doc(1,2) by blast
qed

section \<open>Through the document of a tree\<close>

text \<open>
  A vector with a component that is zero is read as a list, a list of two to four numbers as a vector:
  the parameter they are pushed to converts them back.
\<close>

fun json_recalled :: "val \<Rightarrow> bool" where
  "json_recalled (VVec2f xs) = (wf_vec 2 xs \<and> list_all fl_finite xs)"
| "json_recalled (VVec3f xs) = (wf_vec 3 xs \<and> list_all fl_finite xs)"
| "json_recalled (VVec4f xs) = (wf_vec 4 xs \<and> list_all fl_finite xs)"
| "json_recalled (VList vs) =
     (json_stable (VList vs) \<or> list_all (\<lambda>v. get_type v = T_FLOAT \<and> json_stable v) vs)"
| "json_recalled v = json_stable v"

lemma doubles_read:
  assumes "list_all (wf_fl F32) xs"
  obtains "json_to_ossia_value (JArr (map JDouble xs)) = Ok (VList (map VFloat xs))"
  | "json_to_ossia_value (JArr (map JDouble xs)) = Ok (VVec2f xs)" "length xs = 2"
  | "json_to_ossia_value (JArr (map JDouble xs)) = Ok (VVec3f xs)" "length xs = 3"
  | "json_to_ossia_value (JArr (map JDouble xs)) = Ok (VVec4f xs)" "length xs = 4"
proof -
  have list: "map_res json_to_ossia_value (map JDouble xs) = Ok (map VFloat xs)"
    using assms by (induction xs) (auto simp: fl_narrow_wf)
  have "\<exists>b. reads_as_vec (map JDouble xs) = Ok b \<and> (b \<longrightarrow> length xs \<in> {2, 3, 4})"
    using all_nonzero_doubles [of "tl xs"] by (auto simp: reads_as_vec_def map_tl)
  then obtain b where b: "reads_as_vec (map JDouble xs) = Ok b" "b \<longrightarrow> length xs \<in> {2, 3, 4}" by blast
  show thesis
    by (cases b) (use that list b narrow_doubles [OF assms] in \<open>auto simp: make_vec_def\<close>)
qed

text \<open>What is read back from the document of a value, on a current value of its type.\<close>

definition recalls :: "text_io \<Rightarrow> val \<Rightarrow> val \<Rightarrow> bool" where
  "recalls io v w \<longleftrightarrow> valid w \<and>
     (w = v \<or> get_type w \<noteq> get_type v \<and>
       (\<forall>cur. get_type cur = get_type v \<longrightarrow> wf_val cur \<longrightarrow> convert_like io w cur = Ok v))"

lemma get_type_cases:
  "get_type v = T_VEC2F \<Longrightarrow> \<exists>xs. v = VVec2f xs" "get_type v = T_VEC3F \<Longrightarrow> \<exists>xs. v = VVec3f xs"
  "get_type v = T_VEC4F \<Longrightarrow> \<exists>xs. v = VVec4f xs" "get_type v = T_LIST \<Longrightarrow> \<exists>vs. v = VList vs"
  "get_type v = T_FLOAT \<Longrightarrow> \<exists>x. v = VFloat x"
  by (cases v; simp)+

lemma json_stable_valid: "json_stable v \<Longrightarrow> valid v"
  by (cases v) simp_all

lemma recalled_vec:
  assumes "wf_vec n xs" "V = (if n = 2 then VVec2f xs else if n = 3 then VVec3f xs else VVec4f xs)" "n \<in> {2, 3, 4}"
  shows "\<exists>w. json_to_ossia_value (JArr (map JDouble xs)) = Ok w \<and> recalls io V w"
proof -
  have xs: "length xs = n" "list_all (wf_fl F32) xs" using assms(1) by (auto simp: wf_vec_def)
  have "recalls io V (VList (map VFloat xs))"
    using assms(2,3) xs(1) by (auto simp: recalls_def list_to_vec_floats wf_vec_def dest!: get_type_cases)
  moreover have "recalls io V V" using assms(2,3) by (auto simp: recalls_def)
  ultimately show ?thesis using assms(2) xs(1) by (auto intro: doubles_read [OF xs(2)])
qed

lemma floats_written: "map_res ossia_to_json_value (map VFloat xs) = Ok (map JDouble xs)"
  by (induction xs) auto

lemma recalled_floats:
  assumes "list_all (\<lambda>v. get_type v = T_FLOAT \<and> json_stable v) vs"
  shows "\<exists>j w. ossia_to_json_value (VList vs) = Ok j \<and> json_to_ossia_value j = Ok w \<and> recalls io (VList vs) w"
proof -
  obtain xs where xs: "vs = map VFloat xs" "list_all (wf_fl F32) xs"
  proof
    let ?xs = "map (\<lambda>v. case v of VFloat x \<Rightarrow> x | _ \<Rightarrow> fl_zero) vs"
    show "vs = map VFloat ?xs" "list_all (wf_fl F32) ?xs"
      using assms by (induction vs) (auto dest!: get_type_cases)
  qed
  have "ossia_to_json_value (VList vs) = Ok (JArr (map JDouble xs))"
    unfolding xs(1) by (simp add: floats_written)
  moreover have "recalls io (VList vs) (VList vs)" by (simp add: recalls_def)
  moreover have "recalls io (VList vs) (VVec2f xs)" "recalls io (VList vs) (VVec3f xs)" "recalls io (VList vs) (VVec4f xs)"
    by (auto simp: recalls_def xs(1) dest!: get_type_cases)
  ultimately show ?thesis using xs(1) by (auto intro: doubles_read [OF xs(2)])
qed

lemma json_value_recalled:
  assumes "json_recalled v"
  shows "\<exists>j w. ossia_to_json_value v = Ok j \<and> json_to_ossia_value j = Ok w \<and> recalls io v w"
proof -
  have stable: ?thesis if "json_stable v"
    using json_value_roundtrip [OF that] json_stable_valid [OF that] by (auto simp: recalls_def)
  show ?thesis
  proof (cases v)
    case (VVec2f xs)
    then show ?thesis using recalled_vec [of 2 xs v io] assms by simp
  next
    case (VVec3f xs)
    then show ?thesis using recalled_vec [of 3 xs v io] assms by simp
  next
    case (VVec4f xs)
    then show ?thesis using recalled_vec [of 4 xs v io] assms by simp
  next
    case (VList vs)
    then show ?thesis using recalled_floats [of vs io] stable assms by auto
  qed (use assms stable in auto)
qed

lemma recalls_pushed:
  assumes "alike x z" "recalls io (p_value x) w"
  obtains z' es where "push_value io z w = Returned (z', es)" "alike x z'" "p_value z' = p_value x"
proof (cases "w = p_value x")
  case True
  then show ?thesis using set_value_alike [OF assms(1)] that by metis
next
  case False
  have wf: "wf_parameter z" "get_type (p_value z) = get_type (p_value x)" "wf_val (p_value z)"
    "wf_val (p_value x)" "get_type (p_value x) = p_value_type z"
    using assms(1) by (auto simp: alike_def wf_parameter_def)
  have "valid w" "get_type w \<noteq> get_type (p_value x)" "convert_like io w (p_value z) = Ok (p_value x)"
    using assms(2) False wf by (auto simp: recalls_def)
  then have "push_value io z w =
      Returned (z\<lparr>p_previous := p_value z, p_value := p_value x\<rparr>, [Sent (p_value x), Pushed (p_value x)])"
    using wf(2) by (simp add: push_value_def set_value_def)
  then show ?thesis
    using that assms(1) wf_with_value [OF wf(1,4,5)] by (simp add: alike_def)
qed

lemma param_at_append_place:
  "param_at n (p @ q) = (case node_at n p of Some m \<Rightarrow> param_at m q | None \<Rightarrow> None)"
  by (simp add: param_at_def node_at_append split: option.splits)

lemma wf_tree_at: "wf_tree n \<Longrightarrow> node_at n p = Some m \<Longrightarrow> wf_tree m"
  by (induction p arbitrary: n) (auto intro: wf_child split: if_splits)

lemma names_below_at: "names_below P n \<Longrightarrow> node_at n p = Some m \<Longrightarrow> names_below P m"
  by (induction p arbitrary: n) (auto dest: keyed_child split: if_splits)

lemma rel_node_at: "rel_node R n m \<Longrightarrow> node_at n p = Some a \<Longrightarrow> \<exists>b. node_at m p = Some b \<and> rel_node R a b"
proof (induction p arbitrary: n m)
  case (Cons i p)
  have "list_all2 (rel_node R) (node_children n) (node_children m)" using rel_node_parts [OF Cons.prems(1)] by simp
  then show ?case
    using Cons.IH [of "node_children n ! i" "node_children m ! i"] Cons.prems(2)
    by (auto simp: list_all2_conv_all_nth split: if_splits)
qed simp

lemma find_node_child:
  assumes "wf_tree n" "i < length (node_children n)" "node_name (node_children n ! i) \<noteq> []"
  shows "find_node n (node_name (node_children n ! i)) = Some [i]"
proof -
  let ?s = "node_name (node_children n ! i)"
  have "valid_name ?s" using assms(1,2) by (cases n) (simp add: list_all_length)
  then have none: "CHR ''/'' \<notin> set ?s" by (rule slash_not_valid)
  have id: "dropWhile (\<lambda>c. c = CHR ''/'') s = s" if "CHR ''/'' \<notin> set s" for s
    using that by (cases s) auto
  have "sanitize_address ?s = ?s" using none by (simp add: sanitize_address_def Let_def id)
  moreover have drop: "dropWhile (\<lambda>c. c \<noteq> CHR ''/'') ?s = []" using none by auto
  have "after_slash ?s = None" unfolding after_slash_def drop by simp
  then have "find_node_rec n ?s = Some [i]"
    by (subst find_node_rec.simps) (simp add: find_child_unique [OF assms(1,2)])
  ultimately show ?thesis using assms(3) by (simp add: find_node_def)
qed

lemma valid_c_str: "valid_name s \<Longrightarrow> c_str s = s"
proof -
  have "\<not> is_valid_character_for_name CHR 0x00" by code_simp
  then show "valid_name s \<Longrightarrow> c_str s = s"
    by (auto simp: c_str_def takeWhile_eq_all_conv valid_name_def list_all_iff)
qed

lemma find_below_place:
  assumes "wf_tree m" "keyed_names m" "node_at m (p @ [i]) = Some c"
  shows "find_below m p (node_name c) = Some (p @ [i])"
proof -
  obtain k where k: "node_at m p = Some k" "i < length (node_children k)" "c = node_children k ! i"
    using assms(3) by (auto simp: node_at_append split: option.splits if_splits)
  have wf: "wf_tree k" "keyed_names k" using wf_tree_at [OF assms(1) k(1)] names_below_at [OF assms(2) k(1)] by auto
  have "valid_name (node_name c)" using wf(1) k(2,3) by (cases k) (simp add: list_all_length)
  moreover have "node_name c \<noteq> []" using keyed_child [OF wf(2) k(2)] k(3) by (simp add: key_safe_def)
  ultimately show ?thesis
    using find_node_child [OF wf(1) k(2)] k by (simp add: find_below_def valid_c_str)
qed

text \<open>
  The step on a member below a place, and the places that are reached from one: no node on the way,
  the first one included, is marked as safe.
\<close>

definition json_step ::
  "text_io \<Rightarrow> (nat list \<Rightarrow> bool) \<Rightarrow> bool \<Rightarrow> nat list \<Rightarrow> string \<times> json \<Rightarrow> parameter node \<Rightarrow> tree_step" where
  "json_step io safe fn p =
     (\<lambda>(name, j) m. case find_below m p name of
        Some q \<Rightarrow> if \<not> safe q then apply_json_member_to_node io safe fn j q m else Returned (m, [])
      | None \<Rightarrow> Returned (m, []))"

lemma apply_object: "apply_json_member_to_node io safe fn (JObj ms) p n = do_all (json_step io safe fn p) ms n"
  by (subst apply_json_member_to_node.simps) (simp add: json_step_def)

lemma apply_json_object: "apply_json io safe fn (Some (JObj ms)) n = (True, do_all (json_step io safe fn []) ms n)"
  by (simp add: apply_json_def json_step_def)

fun no_safe_from :: "(nat list \<Rightarrow> bool) \<Rightarrow> nat list \<Rightarrow> nat list \<Rightarrow> bool" where
  "no_safe_from safe p [] = (\<not> safe p)"
| "no_safe_from safe p (i # q) = (\<not> safe p \<and> no_safe_from safe (p @ [i]) q)"

definition reached :: "(nat list \<Rightarrow> bool) \<Rightarrow> nat list \<Rightarrow> nat list \<Rightarrow> bool" where
  "reached safe p q \<longleftrightarrow> prefix p q \<and> no_safe_from safe p (drop (length p) q)"

lemma reached_step: "reached safe p q \<longleftrightarrow> \<not> safe p \<and> (q = p \<or> (\<exists>i. reached safe (p @ [i]) q))"
proof (cases "prefix p q")
  case True
  then obtain r where q: "q = p @ r" by (auto simp: prefix_def)
  show ?thesis by (cases r) (auto simp: reached_def q)
next
  case False
  then show ?thesis by (auto simp: reached_def dest: append_prefixD)
qed

text \<open>The values at the places are brought back, the others are as they were.\<close>

definition brought_back ::
  "(nat list \<Rightarrow> bool) \<Rightarrow> parameter node \<Rightarrow> parameter node \<Rightarrow> parameter node \<Rightarrow> bool" where
  "brought_back P n m m' \<longleftrightarrow> rel_node alike n m' \<and>
     (\<forall>q x y. param_at n q = Some x \<longrightarrow> param_at m' q = Some y \<longrightarrow>
        (if P q then restored x y else param_at m q = Some y))"

lemma brought_back_none: "rel_node alike n m \<Longrightarrow> (\<And>q. \<not> P q) \<Longrightarrow> brought_back P n m m"
  by (simp add: brought_back_def)

lemma brought_back_trans:
  assumes "brought_back P n m m1" "brought_back Q n m1 m2" "\<And>q. param_at n q \<noteq> None \<Longrightarrow> R q \<longleftrightarrow> P q \<or> Q q"
  shows "brought_back R n m m2"
  unfolding brought_back_def
proof (intro conjI allI impI)
  show "rel_node alike n m2" using assms(2) by (simp add: brought_back_def)
  fix q x y assume q: "param_at n q = Some x" "param_at m2 q = Some y"
  obtain z where z: "param_at m1 q = Some z"
    using assms(1) q(1) rel_node_node_at [of alike n m1 q] by (auto simp: brought_back_def option_rel_Some1)
  have "if P q then restored x z else param_at m q = Some z" using assms(1) q(1) z by (simp add: brought_back_def)
  moreover have "if Q q then restored x y else z = y" using assms(2) q z by (auto simp: brought_back_def)
  ultimately show "if R q then restored x y else param_at m q = Some y"
    using assms(3) [of q] q(1) by (auto split: if_splits)
qed

lemma brought_back_rel: "brought_back P n m m' \<Longrightarrow> rel_node alike n m'"
  by (simp add: brought_back_def)

text \<open>A step that returns and brings back the places.\<close>

definition brings ::
  "(parameter node \<Rightarrow> tree_step) \<Rightarrow> (nat list \<Rightarrow> bool) \<Rightarrow> parameter node \<Rightarrow> parameter node \<Rightarrow> bool" where
  "brings f P n m \<longleftrightarrow> (\<exists>m' evs. f m = Returned (m', evs) \<and> brought_back P n m m')"

lemma brings_then:
  assumes "brings f P n m" "\<And>m'. rel_node alike n m' \<Longrightarrow> brings g Q n m'"
    "\<And>q. param_at n q \<noteq> None \<Longrightarrow> R q \<longleftrightarrow> P q \<or> Q q"
  shows "brings (\<lambda>m. then_do (f m) g) R n m"
proof -
  obtain m1 evs1 where m1: "f m = Returned (m1, evs1)" "brought_back P n m m1"
    using assms(1) by (auto simp: brings_def)
  obtain m2 evs2 where m2: "g m1 = Returned (m2, evs2)" "brought_back Q n m1 m2"
    using assms(2) [OF brought_back_rel [OF m1(2)]] by (auto simp: brings_def)
  from brought_back_trans [OF m1(2) m2(2) assms(3)] show ?thesis by (simp add: brings_def m1(1) m2(1))
qed

lemma brings_weaken:
  "brings f P n m \<Longrightarrow> (\<And>q x y. param_at n q = Some x \<Longrightarrow> R q \<longleftrightarrow> P q) \<Longrightarrow> brings f R n m"
  unfolding brings_def brought_back_def by (metis (no_types, lifting))

lemma brings_nothing:
  "rel_node alike n m \<Longrightarrow> (\<And>q. param_at n q \<noteq> None \<Longrightarrow> \<not> P q) \<Longrightarrow> f m = Returned (m, []) \<Longrightarrow> brings f P n m"
  by (auto simp: brings_def brought_back_def)

lemma brings_value:
  assumes "rel_node alike n m" "param_at n p = Some x" "\<not> safe p"
    and "ossia_to_json_value (p_value x) = Ok j" "json_to_ossia_value j = Ok w" "recalls io (p_value x) w"
  shows "brings (apply_json_member_to_node io safe fn j p) (\<lambda>q. q = p) n m"
proof -
  obtain z where z: "param_at m p = Some z" "alike x z"
    using rel_node_node_at [OF assms(1), of p] assms(2) by (auto simp: option_rel_Some1)
  obtain z' es where z': "push_value io z w = Returned (z', es)" "alike x z'" "p_value z' = p_value x"
    by (rule recalls_pushed [OF z(2) assms(6)])
  let ?m = "set_param_at m p z'" and ?evs = "map (Param_effect p) es @ (if fn then [Applied p] else [])"
  have "apply_json_member_to_node io safe fn j p m = Returned (?m, ?evs)"
    using value_not_object [OF assms(4)] assms(3,5) z(1) z'(1)
    by (cases j) (simp_all add: apply_json_member_to_node.simps recall_at_def)
  moreover have "brought_back (\<lambda>q. q = p) n m ?m"
  proof -
    have "restored x z'" using z'(2,3) by (simp add: restored_def alike_def)
    then show ?thesis
      using rel_node_set_param [OF assms(1,2) z'(2)] param_at_set_param [OF param_at_node [OF z(1)], of z'] assms(2)
      by (auto simp: brought_back_def)
  qed
  ultimately show ?thesis by (auto simp: brings_def)
qed

lemma find_below_rel:
  assumes "rel_node alike n m" "wf_tree n" "keyed_names n" "node_at n (p @ [i]) = Some c"
  shows "find_below m p (node_name c) = Some (p @ [i])"
proof -
  obtain b where b: "node_at m (p @ [i]) = Some b" "node_name b = node_name c"
    using rel_node_at [OF assms(1,4)] rel_node_name by blast
  show ?thesis
    using find_below_place [OF wf_tree_rel [OF assms(1,2)] keyed_names_rel [OF assms(1,3)] b(1)] b(2) by simp
qed

lemma brings_member:
  assumes "rel_node alike n m" "wf_tree n" "keyed_names n" "node_at n (p @ [i]) = Some c"
    and "brings (apply_json_member_to_node io safe fn j (p @ [i])) P n m"
  shows "brings (do_all (json_step io safe fn p) [(node_name c, j)]) (\<lambda>q. \<not> safe (p @ [i]) \<and> P q) n m"
proof -
  note find = find_below_rel [OF assms(1-4)]
  show ?thesis
  proof (cases "safe (p @ [i])")
    case True
    then show ?thesis using find assms(1) by (intro brings_nothing) (simp_all add: json_step_def)
  next
    case False
    obtain m' evs where m': "apply_json_member_to_node io safe fn j (p @ [i]) m = Returned (m', evs)"
        "brought_back P n m m'"
      using assms(5) by (auto simp: brings_def)
    have "do_all (json_step io safe fn p) [(node_name c, j)] m = Returned (m', evs)"
      using False find m'(1) by (simp add: json_step_def)
    then show ?thesis using m'(2) False by (auto simp: brings_def)
  qed
qed

lemma brings_each:
  assumes "\<And>i m. i \<in> set is \<Longrightarrow> rel_node alike n m \<Longrightarrow> brings (do_all f (mss i)) (P i) n m" "rel_node alike n m"
  shows "brings (do_all f (concat (map mss is))) (\<lambda>q. \<exists>i \<in> set is. P i q) n m"
  using assms
proof (induction "is" arbitrary: m)
  case (Cons i js)
  have "brings (\<lambda>m. then_do (do_all f (mss i) m) (do_all f (concat (map mss js)))) (\<lambda>q. \<exists>i \<in> set (i # js). P i q) n m"
    using Cons.prems(1) [of i m] Cons.prems(2) Cons.IH Cons.prems(1)
    by (intro brings_then [where P = "P i" and Q = "\<lambda>q. \<exists>i \<in> set js. P i q"]) auto
  then show ?case by (simp add: brings_def do_all_append)
qed (auto intro: brings_nothing)

definition recalled_below :: "parameter node \<Rightarrow> bool" where
  "recalled_below n \<longleftrightarrow> (\<forall>x \<in> set_node n. p_value_type x \<noteq> T_IMPULSE \<longrightarrow> json_recalled (p_value x))"

lemma brings_node:
  assumes "wf_tree n" "keyed_names n" "arranges arrange"
  shows "node_at n (p @ [i]) = Some c \<Longrightarrow> recalled_below c \<Longrightarrow>
    \<exists>ms. make_json_from_node arrange c = Ok ms \<and>
      (\<forall>m. rel_node alike n m \<longrightarrow> brings (do_all (json_step io safe fn p) ms) (reached safe (p @ [i])) n m)"
proof (induction c arbitrary: p i)
  case (Node s pa cs)
  let ?p = "p @ [i]" and ?c = "Node s pa cs"
  define mss where "mss k = (case make_json_from_node arrange (cs ! k) of Ok ms \<Rightarrow> ms | Err e \<Rightarrow> [])" for k
  have child: "make_json_from_node arrange (cs ! k) = Ok (mss k) \<and>
      (\<forall>m. rel_node alike n m \<longrightarrow> brings (do_all (json_step io safe fn ?p) (mss k)) (reached safe (?p @ [k])) n m)"
    if k: "k < length cs" for k
  proof -
    have "node_at n (?p @ [k]) = Some (cs ! k)" using Node.prems(1) k by (simp add: node_at_append [of n "p @ [i]"] del: append_assoc)
    moreover have "recalled_below (cs ! k)" using Node.prems(2) nth_mem [OF k] by (auto simp: recalled_below_def)
    ultimately show ?thesis using Node.IH [of "cs ! k" ?p k] k by (auto simp: mss_def)
  qed
  obtain vm where vm: "node_value_member s pa = Ok vm"
    and at_value: "\<And>m. rel_node alike n m \<Longrightarrow> brings (do_all (json_step io safe fn p) vm) (\<lambda>q. \<not> safe ?p \<and> q = ?p) n m"
  proof (cases "\<exists>x. pa = Some x \<and> p_value_type x \<noteq> T_IMPULSE")
    case True
    then obtain x where x: "pa = Some x" "p_value_type x \<noteq> T_IMPULSE" by blast
    have at: "param_at n ?p = Some x" using Node.prems(1) x(1) by (simp add: param_at_def)
    obtain j w where j: "ossia_to_json_value (p_value x) = Ok j" "json_to_ossia_value j = Ok w" "recalls io (p_value x) w"
      using json_value_recalled [of "p_value x" io] Node.prems(2) x by (auto simp: recalled_below_def)
    have "brings (do_all (json_step io safe fn p) [(s, j)]) (\<lambda>q. \<not> safe ?p \<and> q = ?p) n m" if rel: "rel_node alike n m" for m
    proof (cases "safe ?p")
      case True
      then show ?thesis
        using find_below_rel [OF rel assms(1,2) Node.prems(1)]
        by (intro brings_nothing [OF rel]) (simp_all add: json_step_def)
    next
      case False
      have "brings (apply_json_member_to_node io safe fn j ?p) (\<lambda>q. q = ?p) n m"
        by (rule brings_value [where safe = safe, OF rel at False j])
      from brings_member [OF rel assms(1,2) Node.prems(1) this] show ?thesis by simp
    qed
    then show thesis using that [of "[(s, j)]"] x j(1) by simp
  next
    case False
    then have "node_value_member s pa = Ok []" by (cases pa) auto
    moreover have "brought_back (\<lambda>q. \<not> safe ?p \<and> q = ?p) n m m" if rel: "rel_node alike n m" for m
      unfolding brought_back_def
    proof (intro conjI allI impI rel)
      fix q x y assume q: "param_at n q = Some x" "param_at m q = Some y"
      then have "alike x y" using rel_node_node_at [OF rel, of q] by simp
      moreover have "p_value_type x = T_IMPULSE" if "q = ?p" using False q(1) Node.prems(1) that by (auto simp: param_at_def)
      ultimately show "if \<not> safe ?p \<and> q = ?p then restored x y else param_at m q = Some y"
        using q(2) by (simp add: restored_def alike_def)
    qed
    ultimately show thesis using that [of "[]"] by (simp add: brings_def)
  qed
  show ?case
  proof (cases "cs = []")
    case True
    have "param_at n q = None" if "reached safe (?p @ [k]) q" for q k
      using that Node.prems(1) True
      by (auto simp: reached_def prefix_def param_at_append_place [of n "p @ [i]", simplified] split: option.splits)
    then have "reached safe ?p q \<longleftrightarrow> \<not> safe ?p \<and> q = ?p" if "param_at n q \<noteq> None" for q
      using that reached_step [of safe ?p q] by auto
    then show ?thesis using True vm at_value by (auto simp: make_json_from_node.simps intro: brings_weaken)
  next
    case False
    have arr: "set (arrange cs) = {..<length cs}" using assms(3) by (simp add: arranges_def)
    let ?obj = "[(s, JObj (concat (map mss (arrange cs))))]"
    have made: "make_json_from_node arrange ?c = Ok (vm @ ?obj)"
      using False vm child arr map_res_Ok_map [of "arrange cs" "\<lambda>i. if i < length cs then make_json_from_node arrange (cs ! i) else Ok []" mss]
      by (simp add: make_json_from_node.simps)
    have obj: "brings (do_all (json_step io safe fn p) ?obj) (\<lambda>q. \<not> safe ?p \<and> (\<exists>k \<in> set (arrange cs). reached safe (?p @ [k]) q)) n m"
      if rel: "rel_node alike n m" for m
    proof -
      have "brings (do_all (json_step io safe fn ?p) (concat (map mss (arrange cs))))
          (\<lambda>q. \<exists>k \<in> set (arrange cs). reached safe (?p @ [k]) q) n m"
        using child arr rel by (intro brings_each) auto
      then show ?thesis
        using brings_member [OF rel assms(1,2) Node.prems(1), of io safe fn "JObj (concat (map mss (arrange cs)))"]
        by (simp add: brings_def apply_object)
    qed
    have outside: "param_at n q = None" if "reached safe (?p @ [k]) q" "\<not> k < length cs" for q k
      using that Node.prems(1)
      by (auto simp: reached_def prefix_def param_at_append_place [of n "p @ [i]", simplified] split: option.splits)
    have "brings (do_all (json_step io safe fn p) (vm @ ?obj)) (reached safe ?p) n m" if rel: "rel_node alike n m" for m
    proof -
      have "reached safe ?p q \<longleftrightarrow> (\<not> safe ?p \<and> q = ?p) \<or> (\<not> safe ?p \<and> (\<exists>k \<in> set (arrange cs). reached safe (?p @ [k]) q))"
        if q: "param_at n q \<noteq> None" for q
      proof -
        have "k \<in> set (arrange cs)" if "reached safe (?p @ [k]) q" for k
          using outside [OF that] q unfolding arr by blast
        then show ?thesis using reached_step [of safe ?p q] by blast
      qed
      from brings_then [OF at_value [OF rel] obj this] show ?thesis by (simp add: brings_def do_all_append del: do_all.simps)
    qed
    then show ?thesis using made by blast
  qed
qed

text \<open>No node on the way to a place, the node itself included, is marked as safe.\<close>

definition unmarked :: "(nat list \<Rightarrow> bool) \<Rightarrow> nat list \<Rightarrow> bool" where
  "unmarked safe q \<longleftrightarrow> list_all (\<lambda>k. \<not> safe (take (Suc k) q)) [0..<length q]"

lemma no_safe_from_iff: "no_safe_from safe p r \<longleftrightarrow> (\<forall>k < Suc (length r). \<not> safe (p @ take k r))"
proof (induction r arbitrary: p)
  case (Cons i r)
  show ?case by (simp add: Cons All_less_Suc2 [of "Suc (length r)"])
qed simp

lemma reached_unmarked: "reached safe [i] (i # r) \<longleftrightarrow> unmarked safe (i # r)"
  by (auto simp: reached_def unmarked_def no_safe_from_iff list_all_iff)

text \<open>
  The document of a tree, applied to a tree of the same form, brings back every value whose node is
  not below one that is marked, and changes nothing else.
\<close>

lemma json_preset_restores:
  assumes "wf_tree n" "keyed_names n" "recalled_below n" "arranges arrange" "rel_node alike n m"
  shows "\<exists>doc m' evs. make_json_preset arrange n = Ok doc \<and>
    apply_json io safe fn (Some doc) m = (True, Returned (m', evs)) \<and>
    (\<forall>q x y. param_at n q = Some x \<longrightarrow> param_at m' q = Some y \<longrightarrow>
       (if q \<noteq> [] \<and> unmarked safe q then restored x y else param_at m q = Some y))"
proof -
  let ?cs = "node_children n"
  define mss where "mss k = (case make_json_from_node arrange (?cs ! k) of Ok ms \<Rightarrow> ms | Err e \<Rightarrow> [])" for k
  have arr: "set (arrange ?cs) = {..<length ?cs}" using assms(4) by (simp add: arranges_def)
  have child: "make_json_from_node arrange (?cs ! k) = Ok (mss k) \<and>
      (\<forall>m. rel_node alike n m \<longrightarrow> brings (do_all (json_step io safe fn []) (mss k)) (reached safe [k]) n m)"
    if k: "k < length ?cs" for k
  proof -
    have "recalled_below (?cs ! k)" using assms(3) nth_mem [OF k] by (cases n) (auto simp: recalled_below_def)
    then show ?thesis using brings_node [OF assms(1,2,4), of "[]" k "?cs ! k" io safe fn] k by (auto simp: mss_def)
  qed
  let ?ms = "concat (map mss (arrange ?cs))"
  have made: "make_json_preset arrange n = Ok (JObj ?ms)"
    using child arr map_res_Ok_map [of "arrange ?cs" "\<lambda>i. make_json_from_node arrange (?cs ! i)" mss]
    by (simp add: make_json_preset_def)
  have "brings (do_all (json_step io safe fn []) ?ms) (\<lambda>q. \<exists>k \<in> set (arrange ?cs). reached safe [k] q) n m"
    using child arr assms(5) by (intro brings_each) auto
  then have "brings (do_all (json_step io safe fn []) ?ms) (\<lambda>q. q \<noteq> [] \<and> unmarked safe q) n m"
  proof (rule brings_weaken)
    fix q x y assume q: "param_at n q = Some x"
    show "(q \<noteq> [] \<and> unmarked safe q) \<longleftrightarrow> (\<exists>k \<in> set (arrange ?cs). reached safe [k] q)"
    proof (cases q)
      case Nil
      then show ?thesis by (simp add: reached_def)
    next
      case (Cons i r)
      have "i \<in> set (arrange ?cs)" using q arr by (auto simp: Cons split: if_splits)
      moreover have "reached safe [k] q \<Longrightarrow> k = i" for k by (simp add: reached_def Cons)
      ultimately show ?thesis using reached_unmarked [of safe i r] by (auto simp: Cons)
    qed
  qed
  then obtain m' evs where m': "do_all (json_step io safe fn []) ?ms m = Returned (m', evs)"
      "brought_back (\<lambda>q. q \<noteq> [] \<and> unmarked safe q) n m m'"
    by (auto simp: brings_def)
  have "apply_json io safe fn (Some (JObj ?ms)) m = (True, Returned (m', evs))"
    by (simp only: apply_json_object m'(1))
  then show ?thesis using made m'(2) unfolding brought_back_def by blast
qed

section \<open>What goes wrong\<close>

definition int_parameter :: "int \<Rightarrow> parameter" where
  "int_parameter n = generic_parameter\<lparr>p_value_type := T_INT, p_value := VInt (word_of_int n)\<rparr>"

text \<open>
  A key that ends with \<open>.0\<close> is taken for that of any child whose name is shorter by two, whatever the
  name is, and every child that is tried after it is compared with the key that was cut.
\<close>

definition bar_tree :: "parameter node" where
  "bar_tree = Node ''d'' None [Node ''bar'' (Some (int_parameter 1)) [], Node ''foo.0'' (Some (int_parameter 2)) []]"

lemma first_instance_of_another_name:
  "case apply_preset_node io ct True True (VInt 7) [''foo.0''] bar_tree of
     Returned (n, _) \<Rightarrow> map_option p_value (param_at n [0]) = Some (VInt 7) \<and>
       map_option p_value (param_at n [1]) = Some (VInt 2)
   | Thrown _ _ \<Rightarrow> False"
  by (simp add: bar_tree_def int_parameter_def generic_parameter_def first_instance_key_def push_at_node_def
      push_value_def set_value_def)

text \<open>
  The default arguments of \<open>apply_preset\<close> take away the first name of a key, which for a preset made by
  \<open>make_preset\<close> is not the name of the device but that of a child.
\<close>

lemma default_arguments_drop_a_name:
  "entry_keys True False False (slash_names [''foo'', ''bar'']) = Ok [''bar'']"
  by code_simp

text \<open>
  \<open>get_node\<close> finds another node than the one at the address: the keys that the first child has removed
  are missing for the second.
\<close>

lemma get_node_of_another_address:
  "get_node (Node ''d'' None [Node ''a'' None [Node ''b'' None []], Node ''b'' None []] :: unit node) ''/d/a/b'' = Some [1]"
  by code_simp

section \<open>A preset that keeps the tree\<close>

text \<open>The same nodes, with parameters of the same types and domains.\<close>

definition same_form :: "parameter node \<Rightarrow> parameter node \<Rightarrow> bool" where
  "same_form n m \<longleftrightarrow> rel_node (\<lambda>x y. p_value_type y = p_value_type x \<and> p_domain y = p_domain x) n m"

lemma same_form_refl [simp]: "same_form n n"
  by (simp add: same_form_def node.rel_refl)

lemma same_form_trans: "same_form n m \<Longrightarrow> same_form m k \<Longrightarrow> same_form n k"
proof -
  have "transp (\<lambda>x y. p_value_type y = p_value_type x \<and> p_domain y = p_domain x)" by (simp add: transp_def)
  then have "transp (rel_node (\<lambda>x y. p_value_type y = p_value_type x \<and> p_domain y = p_domain x))"
    by (rule node.rel_transp)
  then show "same_form n m \<Longrightarrow> same_form m k \<Longrightarrow> same_form n k" unfolding same_form_def by (rule transpD)
qed

lemma same_form_children:
  "list_all2 same_form (node_children n) cs \<Longrightarrow> same_form n (set_children cs n)"
proof -
  have eq: "same_form = rel_node (\<lambda>x y. p_value_type y = p_value_type x \<and> p_domain y = p_domain x)"
    by (intro ext) (simp add: same_form_def)
  show "list_all2 same_form (node_children n) cs \<Longrightarrow> same_form n (set_children cs n)"
    unfolding eq by (cases n) (simp add: set_children_def option.rel_refl)
qed

definition keeps_form :: "parameter node \<Rightarrow> key_step \<Rightarrow> bool" where
  "keeps_form n r \<longleftrightarrow> same_form n (fst (state_of r)) \<and> snd (snd (state_of r)) = []"

lemma push_keeps_form: "same_form n (fst (state_of (push_at_node io n v)))"
proof (cases n)
  case (Node s p cs)
  have "p_value_type x' = p_value_type x \<and> p_domain x' = p_domain x"
    if "push_value io x v = Returned (x', es) \<or> push_value io x v = Thrown e (x', es)" for x x' es e
    using that by (auto simp: push_value_def set_value_def split: outcome.splits if_splits res.splits)
  moreover have "list_all2 (rel_node R) cs cs" if "\<And>x. R x x" for R :: "parameter \<Rightarrow> parameter \<Rightarrow> bool"
    by (rule list_all2_refl) (rule node.rel_refl [OF that])
  ultimately show ?thesis
    by (auto simp: push_at_node_def Node same_form_def option.rel_refl split: option.splits outcome.splits)
qed

lemma each_match_keeps:
  assumes "\<And>c. keeps_form c (f c)"
  shows "list_all2 same_form cs (fst (state_of (each_match f i key cs))) \<and>
    fst (snd (snd (state_of (each_match f i key cs)))) = []"
proof (induction cs arbitrary: i key)
  case (Cons c cs)
  have refl: "list_all2 same_form cs cs" by (simp add: list_all2_refl)
  consider "key = node_name c" | "key \<noteq> node_name c" "first_instance_key key (node_name c)"
    | "key \<noteq> node_name c" "\<not> first_instance_key key (node_name c)" by blast
  then show ?case
  proof cases
    case 1
    then show ?thesis
      using assms [of c] Cons [of "Suc i" key] refl
      by (cases "f c"; cases "each_match f (Suc i) key cs") (auto simp: keeps_form_def)
  next
    case 2
    then show ?thesis
      using assms [of c] Cons [of "Suc i" "take (length key - 2) key"] refl
      by (cases "f c"; cases "each_match f (Suc i) (take (length key - 2) key) cs") (auto simp: keeps_form_def)
  next
    case 3
    then show ?thesis
      using Cons [of "Suc i" key] by (cases "each_match f (Suc i) key cs") auto
  qed
qed simp

lemma apply_node_keeps: "keeps_form n (apply_preset_node io ct True allow_nonterminal v keys n)"
proof (induction keys arbitrary: n)
  case Nil
  then show ?case
    using push_keeps_form [of n io v] by (cases "push_at_node io n v") (auto simp: keeps_form_def)
next
  case (Cons key keys)
  have "list_all2 same_form (node_children n) (fst (state_of (each_match (apply_preset_node io ct True allow_nonterminal v keys) 0 key (node_children n)))) \<and>
      fst (snd (snd (state_of (each_match (apply_preset_node io ct True allow_nonterminal v keys) 0 key (node_children n))))) = []"
    by (rule each_match_keeps [OF Cons])
  then show ?case
    by (cases "each_match (apply_preset_node io ct True allow_nonterminal v keys) 0 key (node_children n)")
      (auto simp: keeps_form_def intro: same_form_children)
qed

lemma apply_entries_keeps: "keeps_form n (apply_entries io ct True allow_nonterminal remove_first has_parent p n)"
proof (induction p arbitrary: n)
  case Nil
  then show ?case by (simp add: keeps_form_def)
next
  case (Cons e p)
  obtain key v where e: "e = (key, v)" by (cases e)
  show ?case
  proof (cases "entry_keys remove_first allow_nonterminal has_parent key")
    case (Ok ks)
    show ?thesis
    proof (cases "apply_preset_node io ct True allow_nonterminal v ks n")
      case (Returned s)
      obtain m evs ps where s: "s = (m, evs, ps)" by (cases s)
      have "same_form n m" "ps = []" using apply_node_keeps [of n io ct allow_nonterminal v ks] Returned s by (auto simp: keeps_form_def)
      then show ?thesis
        using Cons [of m] Ok Returned s e same_form_trans
        by (cases "apply_entries io ct True allow_nonterminal remove_first has_parent p m") (auto simp: keeps_form_def)
    next
      case (Thrown err s)
      then show ?thesis using apply_node_keeps [of n io ct allow_nonterminal v ks] Ok e by (simp add: keeps_form_def)
    qed
  qed (simp add: e keeps_form_def)
qed

end
