(* ===== verification/Oscquery_Values.thy ===== *)
theory Oscquery_Values
  imports Json Osc Parameter
begin

text \<open>
  The values of the OSCQuery protocol (\<open>network/oscquery/detail\<close>): the tags of the types of values
  (\<open>typetag.cpp\<close>), the values that are written to JSON and read from it
  (\<open>value_to_json.hpp\<close>, with \<open>parse_oscquery_value\<close> of \<open>json_reader_detail.cpp\<close>), the units
  (\<open>oscquery_units.hpp\<close>), and the bounding modes, access modes and domains of
  \<open>json_writer_detail.cpp\<close>, \<open>domain_to_json.hpp\<close> and \<open>json_reader_detail.cpp\<close>. What is written is the
  document that is parsed from it; a number that is not finite has no text, and the writer of values
  does not look at that.
\<close>

section \<open>Tags\<close>

fun osc_type :: "val \<Rightarrow> string" where
  "osc_type VUnset = ''N''"
| "osc_type VImpulse = ''I''"
| "osc_type (VInt _) = ''i''"
| "osc_type (VFloat _) = ''f''"
| "osc_type (VBool b) = (if b then ''T'' else ''F'')"
| "osc_type (VChar _) = ''c''"
| "osc_type (VString _) = ''s''"
| "osc_type (VVec2f xs) = ''['' @ replicate (length xs) CHR ''f'' @ '']''"
| "osc_type (VVec3f xs) = ''['' @ replicate (length xs) CHR ''f'' @ '']''"
| "osc_type (VVec4f xs) = ''['' @ replicate (length xs) CHR ''f'' @ '']''"
| "osc_type (VList vs) = ''['' @ concat (map osc_type vs) @ '']''"

text \<open>The outer brackets of an array are left out.\<close>

definition get_osc_typetag :: "unit_t \<Rightarrow> string option \<Rightarrow> val \<Rightarrow> string" where
  "get_osc_typetag u ext v =
     (if u = Some (Color (Some rgba8_u)) then ''r''
      else if ext = Some ''buffer'' then ''b''
      else if get_type v \<in> {T_VEC2F, T_VEC3F, T_VEC4F, T_LIST} then tl (butlast (osc_type v))
      else osc_type v)"

definition get_type_from_osc_typetag :: "string \<Rightarrow> complex_type" where
  "get_type_from_osc_typetag s =
     (if s = [] \<or> s = ''N'' then No_type
      else if s = ''I'' then Of_type T_IMPULSE
      else if s = ''i'' \<or> s = ''h'' \<or> s = ''t'' then Of_type T_INT
      else if s = ''f'' \<or> s = ''d'' then Of_type T_FLOAT
      else if s = ''c'' then Of_type T_CHAR
      else if s = ''T'' \<or> s = ''F'' then Of_type T_BOOL
      else if s = ''s'' \<or> s = ''S'' then Of_type T_STRING
      else if s = ''b'' then Of_extended ''buffer''
      else if s = ''r'' then Of_unit (Some (Color (Some rgba8_u)))
      else if s = ''ff'' then Of_type T_VEC2F
      else if s = ''fff'' then Of_type T_VEC3F
      else if s = ''ffff'' then Of_type T_VEC4F
      else Of_type T_LIST)"

section \<open>Writing values\<close>

definition fl_to_u8 :: "fl \<Rightarrow> nat res" where
  "fl_to_u8 x = res_bind (fl_trunc x) (\<lambda>n. if 0 \<le> n \<and> n \<le> 255 then Ok (nat n) else Err Undefined_behaviour)"

definition hex_digit :: "nat \<Rightarrow> char" where
  "hex_digit n = ''0123456789ABCDEF'' ! n"

definition hex_byte :: "nat \<Rightarrow> string" where
  "hex_byte n = [hex_digit (n div 16), hex_digit (n mod 16)]"

definition write_rgba :: "fl list \<Rightarrow> json res" where
  "write_rgba xs = res_map (\<lambda>ns. JArr [JStr (''#'' @ concat (map hex_byte ns))]) (map_res fl_to_u8 xs)"

fun value_to_json :: "unit_t \<Rightarrow> val \<Rightarrow> json res" where
  "value_to_json u VImpulse = Ok JNull"
| "value_to_json u (VInt n) = Ok (JInt (sint n))"
| "value_to_json u (VFloat x) = Ok (JDouble x)"
| "value_to_json u (VBool b) = Ok JNull"
| "value_to_json u (VChar c) = Ok (JStr (char_text c))"
| "value_to_json u (VString s) = Ok (JStr s)"
| "value_to_json u (VVec2f xs) = Ok (JArr (map JDouble xs))"
| "value_to_json u (VVec3f xs) = Ok (JArr (map JDouble xs))"
| "value_to_json u (VVec4f xs) =
     (if u = Some (Color (Some rgba8_u)) then write_rgba xs else Ok (JArr (map JDouble xs)))"
| "value_to_json u (VList vs) = res_map JArr (map_res (value_to_json u) vs)"
| "value_to_json u VUnset = Err No_value_type"

section \<open>Reading values\<close>

definition from_hex :: "char \<Rightarrow> int res" where
  "from_hex c =
     (if char_code c \<ge> 128 then Err Undefined_behaviour
      else Ok (if char_between CHR ''0'' c CHR ''9'' then char_code c - char_code CHR ''0''
               else if char_between CHR ''a'' c CHR ''f'' then char_code c - char_code CHR ''a'' + 10
               else if char_between CHR ''A'' c CHR ''F'' then char_code c - char_code CHR ''A'' + 10
               else 0))"

definition hex_pair :: "string \<Rightarrow> nat \<Rightarrow> fl res" where
  "hex_pair s i =
     res_bind (from_hex (s ! i)) (\<lambda>a. res_map (\<lambda>b. fl_of_int F32 (a * 16 + b)) (from_hex (s ! Suc i)))"

text \<open>A color as \<open>#RRGGBBAA\<close>; the array is kept when there is none.\<close>

definition read_rgba :: "json \<Rightarrow> fl list \<Rightarrow> (bool \<times> fl list) res" where
  "read_rgba j xs =
     (case j of
        JStr s \<Rightarrow>
          (if length s = 9 then res_map (Pair True) (map_res (hex_pair s) [1, 3, 5, 7]) else Ok (False, xs))
      | _ \<Rightarrow> Ok (False, xs))"

text \<open>The numbers of an array of the length \<open>N\<close>, up to the first element that is none.\<close>

fun read_numbers :: "json list \<Rightarrow> fl list \<Rightarrow> bool \<times> fl list" where
  "read_numbers [] xs = (True, xs)"
| "read_numbers (j # js) xs =
     (case get_double j of
        Ok d \<Rightarrow> (case read_numbers js (tl xs) of (b, ys) \<Rightarrow> (b, fl_narrow d # ys))
      | Err _ \<Rightarrow> (False, xs))"

definition read_array :: "json \<Rightarrow> fl list \<Rightarrow> bool \<times> fl list" where
  "read_array j xs =
     (case j of
        JArr js \<Rightarrow> (if length js = length xs then read_numbers js xs else (False, xs))
      | _ \<Rightarrow> (False, xs))"

text \<open>The position of the first occurrence of a text, and \<open>can_read\<close>.\<close>

fun find_text :: "string \<Rightarrow> string \<Rightarrow> nat option" where
  "find_text p s =
     (if take (length p) s = p then Some 0
      else case s of [] \<Rightarrow> None | _ # t \<Rightarrow> map_option Suc (find_text p t))"

declare find_text.simps [simp del]

definition can_read :: "string \<Rightarrow> nat \<Rightarrow> string \<Rightarrow> bool" where
  "can_read tags k p \<longleftrightarrow> find_text p tags = Some k"

text \<open>
  The visitor of the current value, with the position in the tags. A list is appended to, and the
  elements of a list start from the values that \<open>{}\<close> gives.
\<close>

function (sequential) json_to_value :: "string \<Rightarrow> json \<Rightarrow> val \<Rightarrow> nat \<Rightarrow> (bool \<times> val \<times> nat) res"
  and read_elements :: "string \<Rightarrow> json list \<Rightarrow> val list \<Rightarrow> nat \<Rightarrow> (bool \<times> val list \<times> nat) res" where
  "json_to_value tags j VImpulse k = Ok (j = JNull, VImpulse, k + 1)"
| "json_to_value tags j (VInt n) k =
     (case j of
        JInt m \<Rightarrow> if in_i32 m then Ok (True, VInt (word_of_int m), k + 1) else Ok (False, VInt n, k + 1)
      | _ \<Rightarrow> Ok (False, VInt n, k + 1))"
| "json_to_value tags j (VFloat x) k =
     (case get_double j of
        Ok d \<Rightarrow> Ok (True, VFloat (fl_narrow d), k + 1)
      | Err _ \<Rightarrow> Ok (False, VFloat x, k + 1))"
| "json_to_value tags j (VBool b) k =
     (if k \<ge> length tags then Err Undefined_behaviour
      else if tags ! k = CHR ''F'' then Ok (True, VBool False, k + 1)
      else if tags ! k = CHR ''T'' then Ok (True, VBool True, k + 1)
      else (case j of JBool c \<Rightarrow> Ok (True, VBool c, k + 1) | _ \<Rightarrow> Ok (False, VBool b, k + 1)))"
| "json_to_value tags j (VChar c) k =
     (case j of
        JStr (d # s) \<Rightarrow> Ok (True, VChar (first_char (d # s)), k + 1)
      | _ \<Rightarrow> Ok (False, VChar c, k + 1))"
| "json_to_value tags j (VString s) k =
     (case j of JStr t \<Rightarrow> Ok (True, VString t, k + 1) | _ \<Rightarrow> Ok (False, VString s, k + 1))"
| "json_to_value tags j (VVec2f xs) k = (case read_array j xs of (b, ys) \<Rightarrow> Ok (b, VVec2f ys, k + 2))"
| "json_to_value tags j (VVec3f xs) k = (case read_array j xs of (b, ys) \<Rightarrow> Ok (b, VVec3f ys, k + 3))"
| "json_to_value tags j (VVec4f xs) k =
     (if k \<ge> length tags then Err Undefined_behaviour
      else if tags ! k = CHR ''r'' then res_map (\<lambda>(b, ys). (b, VVec4f ys, k + 1)) (read_rgba j xs)
      else (case read_array j xs of (b, ys) \<Rightarrow> Ok (b, VVec4f ys, k + 4)))"
| "json_to_value tags (JArr js) (VList vs) k = res_map (\<lambda>(b, ws, k'). (b, VList ws, k')) (read_elements tags js vs k)"
| "json_to_value tags j (VList vs) k = Ok (False, VList vs, k)"
| "json_to_value tags j VUnset k = Err No_value_type"
| "read_elements tags [] vs k = Ok (True, vs, k)"
| "read_elements tags (j # js) vs k =
     (if k \<ge> length tags then Ok (False, vs, k)
      else
        (let elt = (\<lambda>init start skip.
               res_bind (json_to_value tags j init start) (\<lambda>(b, v, k').
                 if b then read_elements tags js (vs @ [v]) (k' + skip) else Ok (False, vs, k')))
         in if tags ! k = CHR ''I'' then elt VImpulse k 0
            else if tags ! k = CHR ''i'' then elt (VInt 0) k 0
            else if tags ! k = CHR ''f'' then elt (VFloat fl_zero) k 0
            else if tags ! k = CHR ''c'' then elt (VChar 0) k 0
            else if tags ! k = CHR ''T'' \<or> tags ! k = CHR ''F'' then elt (VBool False) k 0
            else if tags ! k = CHR ''s'' \<or> tags ! k = CHR ''S'' then elt (VString []) k 0
            else if tags ! k = CHR ''['' then
              (if can_read tags k ''[ff]'' then elt (VVec2f (zeros 2)) (k + 1) 1
               else if can_read tags k ''[fff]'' then elt (VVec3f (zeros 3)) (k + 1) 1
               else if can_read tags k ''[ffff]'' then elt (VVec4f (zeros 4)) (k + 1) 1
               else elt (VList []) (k + 1) 1)
            else Ok (False, vs, k)))"
  by pat_completeness auto
termination
  by (relation "measure (\<lambda>x. case x of Inl (_, j, _, _) \<Rightarrow> 2 * size j | Inr (_, js, _, _) \<Rightarrow> 2 * size_list size js + 1)")
    auto

declare read_elements.simps(2) [simp del]

text \<open>With one tag. The flag that says that a Boolean was read is one of an inner scope.\<close>

fun json_to_single_value :: "string \<Rightarrow> json \<Rightarrow> val \<Rightarrow> (bool \<times> val) res" where
  "json_to_single_value tags j VImpulse = Ok (j = JNull, VImpulse)"
| "json_to_single_value tags j (VInt n) =
     (case j of JInt m \<Rightarrow> if in_i32 m then Ok (True, VInt (word_of_int m)) else Ok (False, VInt n) | _ \<Rightarrow> Ok (False, VInt n))"
| "json_to_single_value tags j (VFloat x) =
     (case get_double j of Ok d \<Rightarrow> Ok (True, VFloat (fl_narrow d)) | Err _ \<Rightarrow> Ok (False, VFloat x))"
| "json_to_single_value tags j (VBool b) =
     (if tags = ''F'' then Ok (True, VBool False)
      else if tags = ''T'' then Ok (True, VBool True)
      else (case j of JBool c \<Rightarrow> Ok (False, VBool c) | _ \<Rightarrow> Ok (False, VBool b)))"
| "json_to_single_value tags j (VChar c) =
     (case j of JStr (d # s) \<Rightarrow> Ok (True, VChar (first_char (d # s))) | _ \<Rightarrow> Ok (False, VChar c))"
| "json_to_single_value tags j (VString s) =
     (case j of JStr t \<Rightarrow> Ok (True, VString t) | _ \<Rightarrow> Ok (False, VString s))"
| "json_to_single_value tags j (VVec4f xs) =
     (if tags = [] then Err Undefined_behaviour
      else if hd tags = CHR ''r'' then res_map (\<lambda>(b, ys). (b, VVec4f ys)) (read_rgba j xs)
      else Ok (False, VVec4f xs))"
| "json_to_single_value tags j VUnset = Err No_value_type"
| "json_to_single_value tags j v = Ok (False, v)"

text \<open>The value that is read for a parameter from its current one, and whether it was.\<close>

definition parse_oscquery_value :: "val \<Rightarrow> json \<Rightarrow> string \<Rightarrow> (bool \<times> val) res" where
  "parse_oscquery_value cur j tags =
     (if length tags = 1 then
        (case j of
           JArr [] \<Rightarrow> Ok (False, cur)
         | JArr (e # _) \<Rightarrow> json_to_single_value tags e cur
         | _ \<Rightarrow> json_to_single_value tags j cur)
      else res_map (\<lambda>(b, v, _). (b, v)) (json_to_value tags j cur 0))"

text \<open>A value from a document alone, and the one of a parameter that is written over its current one.\<close>

fun read_value :: "json \<Rightarrow> val" where
  "read_value (JInt n) =
     (if in_i32 n \<or> (0 \<le> n \<and> n < 2 ^ 32) then VInt (word_of_int n) else VFloat (fl_narrow (fl_of_int F64 n)))"
| "read_value (JDouble x) = VFloat (fl_narrow x)"
| "read_value (JBool b) = VBool b"
| "read_value (JArr js) = VList (map read_value js)"
| "read_value (JStr s) = VString s"
| "read_value (JObj _) = VImpulse"
| "read_value JNull = VImpulse"

definition read_unchecked_array :: "json \<Rightarrow> fl list \<Rightarrow> fl list res" where
  "read_unchecked_array j xs =
     (case j of
        JArr js \<Rightarrow>
          (if length js = length xs then map_res (\<lambda>j. res_map fl_narrow (get_double j)) js else Ok xs)
      | _ \<Rightarrow> Ok xs)"

fun json_to_value_unchecked :: "json \<Rightarrow> val \<Rightarrow> val res" where
  "json_to_value_unchecked j VImpulse = Ok VImpulse"
| "json_to_value_unchecked j (VInt n) =
     (case j of JInt m \<Rightarrow> if in_i32 m then Ok (VInt (word_of_int m)) else Ok (VInt n) | _ \<Rightarrow> Ok (VInt n))"
| "json_to_value_unchecked j (VFloat x) =
     (case get_double j of Ok d \<Rightarrow> Ok (VFloat (fl_narrow d)) | Err _ \<Rightarrow> Ok (VFloat x))"
| "json_to_value_unchecked j (VBool b) = (case j of JBool c \<Rightarrow> Ok (VBool c) | _ \<Rightarrow> Ok (VBool b))"
| "json_to_value_unchecked j (VChar c) =
     (case j of JStr (d # s) \<Rightarrow> Ok (VChar (first_char (d # s))) | _ \<Rightarrow> Ok (VChar c))"
| "json_to_value_unchecked j (VString s) = (case j of JStr t \<Rightarrow> Ok (VString t) | _ \<Rightarrow> Ok (VString s))"
| "json_to_value_unchecked j (VVec2f xs) = res_map VVec2f (read_unchecked_array j xs)"
| "json_to_value_unchecked j (VVec3f xs) = res_map VVec3f (read_unchecked_array j xs)"
| "json_to_value_unchecked j (VVec4f xs) = res_map VVec4f (read_unchecked_array j xs)"
| "json_to_value_unchecked j (VList vs) = (case j of JArr js \<Rightarrow> Ok (VList (map read_value js)) | _ \<Rightarrow> Ok (VList vs))"
| "json_to_value_unchecked j VUnset = Err No_value_type"

section \<open>Values that a mirror gets back\<close>

text \<open>
  What the mirror of a parameter holds once it has been created by its tags and has read its value: a
  parameter that is created has the initial value of its type.
\<close>

definition mirrored :: "unit_t \<Rightarrow> val \<Rightarrow> (bool \<times> val) res" where
  "mirrored u v =
     (let tags = get_osc_typetag u None v
      in res_bind (value_to_json u v) (\<lambda>j.
           res_bind (init_value (underlying_type (get_type_from_osc_typetag tags))) (\<lambda>cur.
             parse_oscquery_value cur j tags)))"

fun floats_only :: "string \<Rightarrow> bool" where
  "floats_only s \<longleftrightarrow> s = ''ff'' \<or> s = ''fff'' \<or> s = ''ffff''"

declare floats_only.simps [simp del]

text \<open>
  An element of a list: an array in a list is looked for from the start of the tags, and a list of two
  to four floating-point numbers has the tags of an array.
\<close>

fun element_stable :: "val \<Rightarrow> bool" where
  "element_stable (VFloat x) = (wf_fl F32 x \<and> fl_finite x)"
| "element_stable (VList vs) = (list_all element_stable vs \<and> \<not> floats_only (concat (map osc_type vs)))"
| "element_stable (VVec2f _) = False"
| "element_stable (VVec3f _) = False"
| "element_stable (VVec4f _) = False"
| "element_stable VUnset = False"
| "element_stable v = True"

fun oscquery_stable :: "val \<Rightarrow> bool" where
  "oscquery_stable (VVec2f xs) = (wf_vec 2 xs \<and> list_all fl_finite xs)"
| "oscquery_stable (VVec3f xs) = (wf_vec 3 xs \<and> list_all fl_finite xs)"
| "oscquery_stable (VVec4f xs) = (wf_vec 4 xs \<and> list_all fl_finite xs)"
| "oscquery_stable (VList vs) =
     (list_all element_stable vs \<and> get_type_from_osc_typetag (concat (map osc_type vs)) = Of_type T_LIST)"
| "oscquery_stable v = element_stable v"

lemma find_text_Some: "find_text p s = Some k \<Longrightarrow> take (length p) (drop k s) = p"
proof (induction s arbitrary: k)
  case Nil
  then show ?case by (subst (asm) find_text.simps) (auto split: if_splits)
next
  case (Cons c s)
  show ?case
  proof (cases "take (length p) (c # s) = p")
    case True
    then show ?thesis using Cons.prems by (subst (asm) find_text.simps) auto
  next
    case False
    then show ?thesis using Cons by (subst (asm) (2) find_text.simps) auto
  qed
qed

lemma osc_type_nonempty: "osc_type v \<noteq> []"
  by (cases v) auto

lemma osc_type_head: "hd (osc_type v) \<noteq> CHR '']''"
  by (cases v) simp_all

lemma osc_type_float: "hd (osc_type v) = CHR ''f'' \<Longrightarrow> osc_type v = ''f''"
  by (cases v) (simp_all split: if_splits)

text \<open>The tags of a list that start with those of floating-point numbers and a closing bracket are they.\<close>

lemma float_tags:
  "take (Suc n) (concat (map osc_type vs) @ CHR '']'' # post) = replicate n CHR ''f'' @ '']'' \<Longrightarrow>
   concat (map osc_type vs) = replicate n CHR ''f''"
proof (induction vs arbitrary: n)
  case Nil
  then show ?case by (cases n) auto
next
  case (Cons v vs)
  obtain c s where v: "osc_type v = c # s" using osc_type_nonempty by (cases "osc_type v") auto
  show ?case
  proof (cases n)
    case 0
    then show ?thesis using Cons.prems v osc_type_head [of v] by simp
  next
    case (Suc m)
    then have "c = CHR ''f''" using Cons.prems v by simp
    then have "osc_type v = ''f''" using osc_type_float [of v] v by simp
    then have "take (Suc m) (concat (map osc_type vs) @ CHR '']'' # post) = replicate m CHR ''f'' @ '']''"
      using Cons.prems Suc by simp
    from Cons.IH [OF this] show ?thesis using \<open>osc_type v = ''f''\<close> Suc by simp
  qed
qed

lemma first_char_text: "first_char (char_text c) = c"
proof -
  have "unat c < 256" using unsigned_less [of c, where 'a = nat] by simp
  then show ?thesis by (simp add: first_char_def char_text_def)
qed

lemma char_text_Cons: "\<exists>d s. char_text c = d # s"
  by (simp add: char_text_def)

lemma at_append: "tags = pre @ s @ post \<Longrightarrow> k = length pre \<Longrightarrow> s = c # s' \<Longrightarrow> tags ! k = c \<and> k < length tags"
  by simp

lemma not_array:
  assumes "tags = pre @ osc_type (VList ws) @ post" "k = length pre" "\<not> floats_only (concat (map osc_type ws))"
    "p \<in> {''[ff]'', ''[fff]'', ''[ffff]''}"
  shows "\<not> can_read tags k p"
proof
  assume "can_read tags k p"
  then have "take (length p) (drop k tags) = p" by (simp add: can_read_def find_text_Some)
  moreover have "drop k tags = CHR ''['' # concat (map osc_type ws) @ CHR '']'' # post" using assms(1,2) by simp
  ultimately have "take (length p) (CHR ''['' # concat (map osc_type ws) @ CHR '']'' # post) = p" by simp
  then show False
    using assms(3,4) float_tags [of 2 ws post] float_tags [of 3 ws post] float_tags [of 4 ws post]
    by (auto simp: floats_only.simps numeral_eq_Suc)
qed

lemmas read_elements_Cons = read_elements.simps(2)

lemma read_element:
  assumes "element_stable v" "value_to_json None v = Ok j" "tags = pre @ osc_type v @ post" "k = length pre"
  shows "read_elements tags (j # js) acc k = read_elements tags js (acc @ [v]) (k + length (osc_type v))"
  using assms
proof (induction v arbitrary: j pre post k js acc)
  case (VList ws)
  obtain js' where js': "j = JArr js'" "list_all2 (\<lambda>w i. value_to_json None w = Ok i) ws js'"
    using VList.prems(2) by (auto simp: map_res_Ok_iff)
  have inner: "read_elements tags ls acc' (length pre') = Ok (True, acc' @ us, length pre' + length (concat (map osc_type us)))"
    if "set us \<subseteq> set ws" "list_all2 (\<lambda>w i. value_to_json None w = Ok i) us ls" "tags = pre' @ concat (map osc_type us) @ post'"
    for us ls acc' pre' post'
    using that
  proof (induction us arbitrary: ls acc' pre')
    case (Cons w us)
    obtain i ls' where ls: "ls = i # ls'" "value_to_json None w = Ok i" "list_all2 (\<lambda>w i. value_to_json None w = Ok i) us ls'"
      using Cons.prems(2) by (auto simp: list_all2_Cons1)
    have w: "w \<in> set ws" "element_stable w" using Cons.prems(1) VList.prems(1) by (auto simp: list_all_iff)
    have "read_elements tags (i # ls') acc' (length pre') = read_elements tags ls' (acc' @ [w]) (length pre' + length (osc_type w))"
      using Cons.prems(3) by (intro VList.IH [OF w(1,2) ls(2), of pre' "concat (map osc_type us) @ post'"]) simp_all
    moreover have "read_elements tags ls' (acc' @ [w]) (length (pre' @ osc_type w)) =
        Ok (True, (acc' @ [w]) @ us, length (pre' @ osc_type w) + length (concat (map osc_type us)))"
      using Cons.prems by (intro Cons.IH ls(3)) simp_all
    ultimately show ?case by (simp add: ls(1))
  qed simp
  let ?n = "length (concat (map osc_type ws))"
  have tags: "tags = (pre @ ''['') @ concat (map osc_type ws) @ (CHR '']'' # post)" using VList.prems(3) by simp
  from inner [OF subset_refl js'(2) tags, of "[]"]
  have read: "read_elements tags js' [] (k + 1) = Ok (True, ws, k + 1 + ?n)" using VList.prems(4) by simp
  have at: "tags ! k = CHR ''[''" "k < length tags" using VList.prems(3,4) by simp_all
  have not: "\<not> can_read tags k ''[ff]''" "\<not> can_read tags k ''[fff]''" "\<not> can_read tags k ''[ffff]''"
    using not_array [OF VList.prems(3,4)] VList.prems(1) by auto
  show ?case using at not read by (simp add: read_elements_Cons Let_def js'(1))
next
  case (VBool b)
  then show ?case by (cases b) (auto simp: read_elements_Cons Let_def)
next
  case (VChar c)
  obtain d s where "char_text c = d # s" using char_text_Cons by blast
  then show ?case using VChar first_char_text [of c] by (auto simp: read_elements_Cons Let_def)
next
  case (VInt n)
  then show ?case using sint_i32_range [of n] by (auto simp: read_elements_Cons Let_def)
qed (auto simp: read_elements_Cons Let_def fl_narrow_wf)

lemma read_list:
  assumes "list_all element_stable vs" "list_all2 (\<lambda>w i. value_to_json None w = Ok i) vs js"
    "tags = pre @ concat (map osc_type vs) @ post"
  shows "read_elements tags js acc (length pre) = Ok (True, acc @ vs, length pre + length (concat (map osc_type vs)))"
  using assms
proof (induction vs arbitrary: js acc pre)
  case (Cons v vs)
  obtain i ls where ls: "js = i # ls" "value_to_json None v = Ok i" "list_all2 (\<lambda>w i. value_to_json None w = Ok i) vs ls"
    using Cons.prems(2) by (auto simp: list_all2_Cons1)
  have "read_elements tags (i # ls) acc (length pre) = read_elements tags ls (acc @ [v]) (length pre + length (osc_type v))"
    using Cons.prems(1,3) ls(2) by (intro read_element [where post = "concat (map osc_type vs) @ post"]) simp_all
  moreover have "read_elements tags ls (acc @ [v]) (length (pre @ osc_type v)) =
      Ok (True, (acc @ [v]) @ vs, length (pre @ osc_type v) + length (concat (map osc_type vs)))"
    using Cons.prems by (intro Cons.IH ls(3)) simp_all
  ultimately show ?case by (simp add: ls(1))
qed simp

lemma read_doubles:
  "list_all (wf_fl F32) xs \<Longrightarrow> length ys = length xs \<Longrightarrow> read_numbers (map JDouble xs) ys = (True, xs)"
  by (induction xs arbitrary: ys) (auto simp: fl_narrow_wf)

lemma element_written: "element_stable v \<Longrightarrow> \<exists>j. value_to_json u v = Ok j"
proof (induction v)
  case (VList vs)
  then have "\<exists>js. list_all2 (\<lambda>w i. value_to_json u w = Ok i) vs js"
    by (intro list_all2_choose) (auto simp: list_all_iff)
  then show ?case by (auto simp: map_res_Ok_iff res_map_Ok_iff)
qed auto

lemma mirrored_list:
  assumes "list_all element_stable vs" "get_type_from_osc_typetag (concat (map osc_type vs)) = Of_type T_LIST"
  shows "mirrored None (VList vs) = Ok (True, VList vs)"
proof -
  let ?tags = "concat (map osc_type vs)"
  have "\<exists>js. list_all2 (\<lambda>w i. value_to_json None w = Ok i) vs js"
    using assms(1) element_written by (intro list_all2_choose) (auto simp: list_all_iff)
  then obtain js where js: "list_all2 (\<lambda>w i. value_to_json None w = Ok i) vs js" by blast
  have read: "json_to_value ?tags (JArr js) (VList []) 0 = Ok (True, VList vs, length ?tags)"
    using read_list [OF assms(1) js, of ?tags "[]" "[]" "[]"] by simp
  have len: "length ?tags \<noteq> 1"
  proof
    assume "length ?tags = 1"
    then obtain v where v: "vs = [v]"
    proof -
      have "length vs \<le> length ?tags"
      proof (induction vs)
        case (Cons v vs)
        then show ?case using osc_type_nonempty [of v] by (cases "osc_type v") auto
      qed simp
      moreover have "vs \<noteq> []" using \<open>length ?tags = 1\<close> by auto
      ultimately have "length vs = 1" using \<open>length ?tags = 1\<close> by (cases vs) auto
      then show thesis using that by (auto simp: length_Suc_conv)
    qed
    show False
      using assms \<open>length ?tags = 1\<close> unfolding v
      by (cases v) (auto simp: get_type_from_osc_typetag_def split: if_splits)
  qed
  have "map_res (value_to_json None) vs = Ok js" using js by (subst map_res_Ok_iff)
  then have "value_to_json None (VList vs) = Ok (JArr js)" by simp
  moreover have "get_osc_typetag None None (VList vs) = ?tags" by (simp add: get_osc_typetag_def butlast_append)
  ultimately show ?thesis
    using assms(2) len read by (simp add: mirrored_def parse_oscquery_value_def Let_def del: value_to_json.simps json_to_value.simps)
qed

lemma char_mirrored: "mirrored None (VChar c) = Ok (True, VChar c)"
proof -
  obtain d s where "char_text c = d # s" using char_text_Cons by blast
  then show ?thesis
    using first_char_text [of c]
    by (simp add: mirrored_def get_osc_typetag_def get_type_from_osc_typetag_def parse_oscquery_value_def)
qed

lemma vec_mirrored:
  "wf_vec 2 xs \<Longrightarrow> mirrored None (VVec2f xs) = Ok (True, VVec2f xs)"
  "wf_vec 3 xs \<Longrightarrow> mirrored None (VVec3f xs) = Ok (True, VVec3f xs)"
  "wf_vec 4 xs \<Longrightarrow> mirrored None (VVec4f xs) = Ok (True, VVec4f xs)"
  by (auto simp: mirrored_def get_osc_typetag_def get_type_from_osc_typetag_def parse_oscquery_value_def
      wf_vec_def read_array_def read_doubles numeral_eq_Suc)

lemma value_mirrored: "oscquery_stable v \<Longrightarrow> mirrored None v = Ok (True, v)"
proof (cases v)
  case (VList vs)
  assume "oscquery_stable v"
  then show ?thesis using VList mirrored_list by simp
next
  case (VChar c)
  then show ?thesis by (simp add: char_mirrored)
next
  case (VInt n)
  then show ?thesis
    using sint_i32_range [of n]
    by (simp add: mirrored_def get_osc_typetag_def get_type_from_osc_typetag_def parse_oscquery_value_def)
next
  case (VVec2f xs)
  assume "oscquery_stable v"
  then show ?thesis using VVec2f vec_mirrored by simp
next
  case (VVec3f xs)
  assume "oscquery_stable v"
  then show ?thesis using VVec3f vec_mirrored by simp
next
  case (VVec4f xs)
  assume "oscquery_stable v"
  then show ?thesis using VVec4f vec_mirrored by simp
qed (simp_all add: mirrored_def get_osc_typetag_def get_type_from_osc_typetag_def parse_oscquery_value_def fl_narrow_wf)

section \<open>Colors\<close>

text \<open>A color of integers between 0 and 255 is written as a text and read back.\<close>

lemma hex_digits: "d < 16 \<Longrightarrow> from_hex (hex_digit d) = Ok (int d)"
proof -
  have "list_all (\<lambda>d. from_hex (hex_digit d) = Ok (int d)) [0..<16]" by code_simp
  then show "d < 16 \<Longrightarrow> from_hex (hex_digit d) = Ok (int d)" by (simp add: list_all_iff)
qed

lemma byte_written: "n \<le> 255 \<Longrightarrow> fl_to_u8 (fl_of_int F32 (int n)) = Ok n"
proof -
  assume n: "n \<le> 255"
  then have "exact_int F32 (int n)" by (simp add: exact_int_def)
  then have "fl_trunc (fl_of_int F32 (int n)) = Ok (int n)" using is_int_fl_of_int is_int_fl_trunc by blast
  then show ?thesis using n by (simp add: fl_to_u8_def)
qed

lemma hex_pair_byte:
  assumes "n \<le> 255" "s ! i = hex_digit (n div 16)" "s ! Suc i = hex_digit (n mod 16)"
  shows "hex_pair s i = Ok (fl_of_int F32 (int n))"
proof -
  have "n div 16 < 16" "n mod 16 < 16" using assms(1) by auto
  moreover have "int (n div 16) * 16 + int (n mod 16) = int n" by (simp add: zdiv_int zmod_int)
  ultimately show ?thesis by (simp add: hex_pair_def assms(2,3) hex_digits)
qed

lemma color_mirrored:
  assumes "length ns = 4" "list_all (\<lambda>n. n \<le> 255) ns" "xs = map (\<lambda>n. fl_of_int F32 (int n)) ns"
  shows "mirrored (Some (Color (Some rgba8_u))) (VVec4f xs) = Ok (True, VVec4f xs)"
proof -
  obtain r g b a where ns: "ns = [r, g, b, a]" using assms(1) by (auto simp: numeral_eq_Suc length_Suc_conv)
  have bytes: "r \<le> 255" "g \<le> 255" "b \<le> 255" "a \<le> 255" using assms(2) by (auto simp: ns)
  let ?s = "''#'' @ hex_byte r @ hex_byte g @ hex_byte b @ hex_byte a"
  have "write_rgba xs = Ok (JArr [JStr ?s])" using bytes by (simp add: write_rgba_def assms(3) ns byte_written)
  moreover have "read_rgba (JStr ?s) ys = Ok (True, xs)" for ys
    using bytes hex_pair_byte [of r ?s 1] hex_pair_byte [of g ?s 3] hex_pair_byte [of b ?s 5] hex_pair_byte [of a ?s 7]
    by (simp add: read_rgba_def hex_byte_def assms(3) ns)
  ultimately show ?thesis
    by (simp add: mirrored_def get_osc_typetag_def get_type_from_osc_typetag_def parse_oscquery_value_def matching_type_def)
qed

section \<open>Units\<close>

text \<open>The key and the texts that a unit is written to; the unit of the tag \<open>r\<close> is not written.\<close>

definition accessor_texts :: "unit_variant \<Rightarrow> string list" where
  "accessor_texts d = map (\<lambda>c. make_pretty_unit_text d @ ''.'' @ [c]) (array_parameters d)"

fun color_accessors :: "color_u \<Rightarrow> string list" where
  "color_accessors argb_u = [''color.rgb.a'', ''color.rgb.r'', ''color.rgb.g'', ''color.rgb.b'']"
| "color_accessors rgba_u = [''color.rgb.r'', ''color.rgb.g'', ''color.rgb.b'', ''color.rgb.a'']"
| "color_accessors rgba8_u = []"
| "color_accessors rgb_u = [''color.rgb.r'', ''color.rgb.g'', ''color.rgb.b'']"
| "color_accessors bgr_u = [''color.rgb.b'', ''color.rgb.g'', ''color.rgb.r'']"
| "color_accessors argb8_u = [''color.rgb8.a'', ''color.rgb8.r'', ''color.rgb8.g'', ''color.rgb8.b'']"
| "color_accessors hsv_u = [''color.hsv.h'', ''color.hsv.s'', ''color.hsv.v'']"
| "color_accessors cmy8_u = [''color.cmyk8.c'', ''color.cmyk8.m'', ''color.cmyk8.y'']"
| "color_accessors xyz_u = [''color.ciexyz.x'', ''color.ciexyz.y'', ''color.ciexyz.z'']"

definition unit_writer :: "unit_variant \<Rightarrow> (string \<times> string list) option" where
  "unit_writer d =
     (case d of
        Color (Some c) \<Rightarrow> (if c = rgba8_u then None else Some (''EXTENDED_TYPE'', color_accessors c))
      | Position (Some cartesian_3d_u) \<Rightarrow>
          Some (''EXTENDED_TYPE'', [''position.cartesian.x'', ''position.cartesian.y'', ''position.cartesian.z''])
      | Position (Some cartesian_2d_u) \<Rightarrow> Some (''EXTENDED_TYPE'', [''position.cartesian.x'', ''position.cartesian.y''])
      | Position (Some _) \<Rightarrow> Some (''EXTENDED_TYPE'', accessor_texts d)
      | Orientation (Some _) \<Rightarrow> Some (''EXTENDED_TYPE'', accessor_texts d)
      | _ \<Rightarrow> (if unit_text d = [] then None else Some (''UNIT'', [make_pretty_unit_text d])))"

definition unit_matcher :: "unit_variant \<Rightarrow> string list \<times> unit_variant" where
  "unit_matcher d = (if array_parameters d = [] then [make_pretty_unit_text d] else accessor_texts d, d)"

definition unit_parser :: "(string list \<times> unit_variant) list" where
  "unit_parser =
     map (\<lambda>u. unit_matcher (Angle (Some u))) [degree_u, radian_u] @
     map (\<lambda>u. (color_accessors u, Color (Some u))) [argb_u, rgba_u, rgb_u, bgr_u, argb8_u, hsv_u, cmy8_u, xyz_u] @
     map (\<lambda>u. unit_matcher (Distance (Some u)))
       [meter_u, kilometer_u, decimeter_u, centimeter_u, millimeter_u, micrometer_u, nanometer_u, picometer_u,
        inch_u, foot_u, mile_u] @
     map (\<lambda>u. unit_matcher (Gain (Some u))) [linear_u, midigain_u, decibel_u, decibel_raw_u] @
     map (\<lambda>u. unit_matcher (Orientation (Some u))) [quaternion_u, euler_u, axis_u] @
     map (\<lambda>u. unit_matcher (Position (Some u))) [spherical_u, polar_u, opengl_u, cylindrical_u] @
     [([''position.cartesian.x'', ''position.cartesian.y'', ''position.cartesian.z''], Position (Some cartesian_3d_u)),
      ([''position.cartesian.x'', ''position.cartesian.y''], Position (Some cartesian_2d_u))] @
     map (\<lambda>u. unit_matcher (Speed (Some u)))
       [meter_per_second_u, miles_per_hour_u, kilometer_per_hour_u, knot_u, foot_per_hour_u, foot_per_second_u] @
     map (\<lambda>u. unit_matcher (Timing (Some u)))
       [second_u, bark_u, bpm_u, cent_u, frequency_u, mel_u, midi_pitch_u, millisecond_u, playback_speed_u]"

fun leading_strings :: "json list \<Rightarrow> string list" where
  "leading_strings (JStr s # js) = c_str s # leading_strings js"
| "leading_strings _ = []"

definition read_unit :: "json \<Rightarrow> unit_t" where
  "read_unit j = (case j of JArr js \<Rightarrow> map_of unit_parser (leading_strings js) | _ \<Rightarrow> None)"

text \<open>Every unit that is written is read back; the one that is not has its own tag.\<close>

definition unit_read_back :: "unit_variant \<Rightarrow> bool" where
  "unit_read_back d =
     (case unit_writer d of
        Some (_, ss) \<Rightarrow> read_unit (JArr (map JStr ss)) = Some d
      | None \<Rightarrow> underlying_type (get_type_from_osc_typetag (get_osc_typetag (Some d) None VUnset)) = variant_type d \<and>
          get_type_from_osc_typetag (get_osc_typetag (Some d) None VUnset) = Of_unit (Some d))"

lemma units_read_back_all: "list_all unit_read_back make_unit_array"
  by code_simp

lemma units_read_back: "concrete_unit d \<Longrightarrow> unit_read_back d"
  using units_read_back_all concrete_in_array by (simp add: list_all_iff)

section \<open>Bounding and access modes\<close>

fun bounding_text :: "bounding_mode \<Rightarrow> string" where
  "bounding_text FREE = ''none''"
| "bounding_text CLIP = ''both''"
| "bounding_text LOW = ''low''"
| "bounding_text HIGH = ''high''"
| "bounding_text WRAP = ''wrap''"
| "bounding_text FOLD = ''fold''"

text \<open>The third letter tells them apart; a mode that is not known leaves the current one.\<close>

definition bounding_of_text :: "string \<Rightarrow> bounding_mode option" where
  "bounding_of_text s =
     (if length s \<le> 2 then None
      else if s ! 2 = CHR ''n'' then Some FREE
      else if s ! 2 = CHR ''t'' then Some CLIP
      else if s ! 2 = CHR ''w'' then Some LOW
      else if s ! 2 = CHR ''g'' then Some HIGH
      else if s ! 2 = CHR ''a'' then Some WRAP
      else if s ! 2 = CHR ''l'' then Some FOLD
      else None)"

definition read_bounding :: "json \<Rightarrow> bounding_mode option" where
  "read_bounding j =
     (case j of
        JStr s \<Rightarrow> bounding_of_text s
      | JArr (JStr s # _) \<Rightarrow> bounding_of_text s
      | _ \<Rightarrow> None)"

fun access_number :: "access_mode \<Rightarrow> int" where
  "access_number GET = 1"
| "access_number SET = 2"
| "access_number BI = 3"

definition access_of_number :: "int \<Rightarrow> access_mode option" where
  "access_of_number n = (if n = 1 then Some GET else if n = 2 then Some SET else if n = 3 then Some BI else None)"

definition read_access :: "json \<Rightarrow> access_mode option res" where
  "read_access j =
     (case j of
        JInt n \<Rightarrow> (if in_i32 n then Ok (access_of_number n) else Err Undefined_behaviour)
      | JDouble x \<Rightarrow> res_bind (fl_trunc x) (\<lambda>n. if in_i32 n then Ok (access_of_number n) else Err Undefined_behaviour)
      | JArr (JInt n # _) \<Rightarrow> Ok (if in_i32 n then access_of_number n else None)
      | _ \<Rightarrow> Ok None)"

lemma bounding_read_back: "read_bounding (JStr (bounding_text b)) = Some b"
  by (cases b) (simp_all add: read_bounding_def bounding_of_text_def)

lemma access_read_back: "read_access (JInt (access_number a)) = Ok (Some a)"
  by (cases a) (simp_all add: read_access_def access_of_number_def in_i32_def int32_min_def int32_max_def)

section \<open>Domains\<close>

definition bound_members :: "('a \<Rightarrow> json) \<Rightarrow> 'a option \<Rightarrow> 'a option \<Rightarrow> (string \<times> json) list" where
  "bound_members f mn mx =
     (case mn of Some a \<Rightarrow> [(''MIN'', f a)] | None \<Rightarrow> []) @ (case mx of Some a \<Rightarrow> [(''MAX'', f a)] | None \<Rightarrow> [])"

definition num_to_json :: "('a \<Rightarrow> json) \<Rightarrow> 'a num_dom \<Rightarrow> json" where
  "num_to_json f d =
     (if num_min d = None \<and> num_max d = None \<and> num_values d = [] then JNull
      else JArr [JObj (bound_members f (num_min d) (num_max d) @
        (if num_values d = [] then [] else [(''VALS'', JArr (map f (num_values d)))]))])"

definition vecf_element :: "vecf_dom \<Rightarrow> nat \<Rightarrow> json" where
  "vecf_element d i =
     (if vf_values d ! i \<noteq> [] then JObj [(''VALS'', JArr (map JDouble (vf_values d ! i)))]
      else if vf_min d ! i = None \<and> vf_max d ! i = None then JNull
      else JObj (bound_members JDouble (vf_min d ! i) (vf_max d ! i)))"

text \<open>The bound of one list is read at a position that it may not have.\<close>

definition bound_entry :: "val list \<Rightarrow> nat \<Rightarrow> val res" where
  "bound_entry vs i = (if i < length vs then Ok (vs ! i) else Err Undefined_behaviour)"

definition member_of_value :: "string \<Rightarrow> val \<Rightarrow> (string \<times> json) list res" where
  "member_of_value key v = (if valid v then res_map (\<lambda>j. [(key, j)]) (value_to_json None v) else Ok [])"

definition vector_element :: "vector_dom \<Rightarrow> nat \<Rightarrow> json res" where
  "vector_element d i =
     (if i < length (vd_values d) \<and> vd_values d ! i \<noteq> [] then
        res_map (\<lambda>js. JObj [(''VALS'', JArr js)]) (map_res (value_to_json None) (vd_values d ! i))
      else if (i < length (vd_min d) \<and> valid (vd_min d ! i)) \<or> (i < length (vd_max d) \<and> valid (vd_max d ! i)) then
        res_bind (bound_entry (vd_min d) i) (\<lambda>a. res_bind (member_of_value ''MIN'' a) (\<lambda>ms.
          res_bind (bound_entry (vd_max d) i) (\<lambda>b. res_map (\<lambda>ms'. JObj (ms @ ms')) (member_of_value ''MAX'' b))))
      else Ok JNull)"

definition vecf_to_json :: "nat \<Rightarrow> vecf_dom \<Rightarrow> json" where
  "vecf_to_json n d = JArr (map (vecf_element d) [0..<n])"

text \<open>The domain of a value of any type writes nothing, not even \<open>null\<close>.\<close>

fun domain_to_json :: "domain \<Rightarrow> json option res" where
  "domain_to_json DNone = Ok (Some JNull)"
| "domain_to_json DImpulse = Ok (Some JNull)"
| "domain_to_json DBool = Ok (Some (JArr [JObj [(''VALS'', JArr [JBool False, JBool True])]]))"
| "domain_to_json (DInt d) = Ok (Some (num_to_json (\<lambda>n. JInt (sint n)) d))"
| "domain_to_json (DFloat d) = Ok (Some (num_to_json JDouble d))"
| "domain_to_json (DChar d) = Ok (Some (num_to_json (\<lambda>c. JInt (sint c)) d))"
| "domain_to_json (DString ss) =
     Ok (Some (if ss = [] then JNull else JArr [JObj [(''VALS'', JArr (map JStr ss))]]))"
| "domain_to_json (DVector d) =
     (let n = max (max (length (vd_min d)) (length (vd_max d))) (length (vd_values d))
      in if n = 0 then Ok (Some JNull) else res_map (\<lambda>js. Some (JArr js)) (map_res (vector_element d) [0..<n]))"
| "domain_to_json (DVec2f d) = Ok (Some (vecf_to_json 2 d))"
| "domain_to_json (DVec3f d) = Ok (Some (vecf_to_json 3 d))"
| "domain_to_json (DVec4f d) = Ok (Some (vecf_to_json 4 d))"
| "domain_to_json (DGeneric d) = Ok None"

definition read_domain_object :: "(string \<times> json) list \<Rightarrow> domain option res" where
  "read_domain_object ms =
     (case map_of ms ''VALS'' of
        Some (JArr js) \<Rightarrow> res_map Some (make_domain_values (map read_value js))
      | Some _ \<Rightarrow> Ok None
      | None \<Rightarrow>
          (if map_of ms ''MIN'' = None \<and> map_of ms ''MAX'' = None then Ok None
           else Ok (Some (make_domain (case map_of ms ''MIN'' of Some j \<Rightarrow> read_value j | None \<Rightarrow> VUnset)
             (case map_of ms ''MAX'' of Some j \<Rightarrow> read_value j | None \<Rightarrow> VUnset)))))"

text \<open>\<open>IsFloat\<close>: a number that is not an integer, within a limit just below the greatest \<open>float\<close>.\<close>

definition float_limit :: fl where
  "float_limit = fround F64 False (34028234 * 10 ^ 31)"

definition read_float_bound :: "json option \<Rightarrow> fl option" where
  "read_float_bound j =
     (case j of
        Some (JDouble x) \<Rightarrow>
          (if fl_le (fl_neg float_limit) x \<and> fl_le x float_limit then Some (fl_narrow x) else None)
      | _ \<Rightarrow> None)"

definition object_member :: "json \<Rightarrow> string \<Rightarrow> json option" where
  "object_member j key = (case j of JObj ms \<Rightarrow> map_of ms key | _ \<Rightarrow> None)"

definition parse_vecf :: "nat \<Rightarrow> json list \<Rightarrow> vecf_dom" where
  "parse_vecf n js =
     (let bounds = (\<lambda>key. map (\<lambda>i. if i < length js then read_float_bound (object_member (js ! i) key) else None) [0..<n])
      in \<lparr>vf_min = bounds ''MIN'', vf_max = bounds ''MAX'', vf_values = replicate n []\<rparr>)"

definition parse_vector :: "json list \<Rightarrow> vector_dom" where
  "parse_vector js =
     (let bound = (\<lambda>key j. case object_member j key of Some b \<Rightarrow> read_value b | None \<Rightarrow> VUnset)
      in \<lparr>vd_min = map (bound ''MIN'') js, vd_max = map (bound ''MAX'') js,
          vd_values = map (\<lambda>j. case object_member j ''VALS'' of
              Some (JArr vs) \<Rightarrow> value_set_of (map read_value vs) | _ \<Rightarrow> []) js\<rparr>)"

text \<open>The domain that is read for a parameter of a type; the first element of an array is looked at even when there is none.\<close>

definition read_domain :: "val_type \<Rightarrow> json \<Rightarrow> domain option res" where
  "read_domain t j =
     (case j of
        JObj ms \<Rightarrow> read_domain_object ms
      | JArr js \<Rightarrow>
          (case t of
             T_VEC2F \<Rightarrow> Ok (Some (DVec2f (parse_vecf 2 js)))
           | T_VEC3F \<Rightarrow> Ok (Some (DVec3f (parse_vecf 3 js)))
           | T_VEC4F \<Rightarrow> Ok (Some (DVec4f (parse_vecf 4 js)))
           | T_LIST \<Rightarrow> Ok (Some (DVector (parse_vector js)))
           | _ \<Rightarrow>
               (case js of
                  [] \<Rightarrow> Err Undefined_behaviour
                | JObj ms # _ \<Rightarrow> read_domain_object ms
                | _ \<Rightarrow> Ok None))
      | _ \<Rightarrow> Ok None)"

section \<open>Domains that are read back\<close>

text \<open>
  The values of a domain of numbers take the place of its bounds, and those of an array of numbers are
  not read.
\<close>

definition readable_num :: "('a \<Rightarrow> bool) \<Rightarrow> 'a num_dom \<Rightarrow> bool" where
  "readable_num ok d \<longleftrightarrow>
     (num_values d = [] \<and> (num_min d \<noteq> None \<or> num_max d \<noteq> None) \<or>
      num_values d \<noteq> [] \<and> num_min d = None \<and> num_max d = None) \<and>
     pred_option ok (num_min d) \<and> pred_option ok (num_max d) \<and> list_all ok (num_values d)"

definition float_bound_ok :: "fl option \<Rightarrow> bool" where
  "float_bound_ok x = pred_option (\<lambda>x. wf_fl F32 x \<and> fl_le (fl_neg float_limit) x \<and> fl_le x float_limit) x"

definition readable_vecf :: "nat \<Rightarrow> vecf_dom \<Rightarrow> bool" where
  "readable_vecf n d \<longleftrightarrow>
     length (vf_min d) = n \<and> length (vf_max d) = n \<and> vf_values d = replicate n [] \<and>
     list_all float_bound_ok (vf_min d) \<and> list_all float_bound_ok (vf_max d)"

fun readable_domain :: "domain \<Rightarrow> bool" where
  "readable_domain DBool = True"
| "readable_domain (DInt d) = readable_num (\<lambda>_. True) d"
| "readable_domain (DFloat d) = readable_num (\<lambda>x. wf_fl F32 x \<and> fl_finite x) d"
| "readable_domain (DString ss) = (ss \<noteq> [])"
| "readable_domain (DVec2f d) = readable_vecf 2 d"
| "readable_domain (DVec3f d) = readable_vecf 3 d"
| "readable_domain (DVec4f d) = readable_vecf 4 d"
| "readable_domain _ = False"

lemma map_filter_map: "(\<And>x. x \<in> set xs \<Longrightarrow> f (g x) = Some x) \<Longrightarrow> List.map_filter f (map g xs) = xs"
  by (induction xs) (simp_all add: List.map_filter_simps)

lemma read_num_object:
  assumes "readable_num ok d" "num_values d = []"
  shows "read_domain_object (bound_members f (num_min d) (num_max d)) =
    Ok (Some (make_domain (opt_val (\<lambda>x. read_value (f x)) (num_min d)) (opt_val (\<lambda>x. read_value (f x)) (num_max d))))"
  using assms
  by (cases "num_min d"; cases "num_max d") (auto simp: readable_num_def read_domain_object_def bound_members_def opt_val_def)

lemma int_read_value: "read_value (JInt (sint (n :: i32))) = VInt n"
  using sint_i32_range [of n] by simp

text \<open>The domain of numbers that are read back as \<open>g\<close>, where \<open>C\<close> is made from its bounds or its values.\<close>

lemma num_read_back:
  assumes d: "readable_num ok d"
    and g: "\<And>x. ok x \<Longrightarrow> read_value (f x) = g x"
    and bounds: "num_values d = [] \<Longrightarrow> make_domain (opt_val g (num_min d)) (opt_val g (num_max d)) = C d"
    and vals: "num_values d \<noteq> [] \<Longrightarrow> make_domain_values (map g (num_values d)) = Ok (C d)"
  shows "\<exists>ms. num_to_json f d = JArr [JObj ms] \<and> read_domain_object ms = Ok (Some (C d))"
proof (cases "num_values d = []")
  case True
  have "opt_val (\<lambda>x. read_value (f x)) b = opt_val g b" if "pred_option ok b" for b
    using that g by (cases b) (simp_all add: opt_val_def)
  then show ?thesis
    using d True bounds read_num_object [OF d True, of f] by (auto simp: num_to_json_def readable_num_def)
next
  case False
  then have none: "num_min d = None" "num_max d = None" using d by (auto simp: readable_num_def)
  have "map read_value (map f (num_values d)) = map g (num_values d)"
    using d g by (simp add: readable_num_def list_all_iff)
  then show ?thesis
    using False none vals by (simp add: num_to_json_def read_domain_object_def bound_members_def del: map_map list.map_comp)
qed

lemma num_domain_made:
  "readable_num ok d \<Longrightarrow> num_values d = [] \<Longrightarrow> make_domain (opt_val VInt (num_min d)) (opt_val VInt (num_max d)) = DInt d"
  "readable_num ok' e \<Longrightarrow> num_values e = [] \<Longrightarrow> make_domain (opt_val VFloat (num_min e)) (opt_val VFloat (num_max e)) = DFloat e"
   apply (cases d; cases "num_min d"; cases "num_max d";
      auto simp: readable_num_def make_domain_def opt_val_def empty_num_def domain_set_min_def domain_set_max_def)
  apply (cases e; cases "num_min e"; cases "num_max e";
      auto simp: readable_num_def make_domain_def opt_val_def empty_num_def domain_set_min_def domain_set_max_def)
  done

lemma num_values_made:
  "readable_num ok d \<Longrightarrow> num_values d \<noteq> [] \<Longrightarrow> make_domain_values (map VInt (num_values d)) = Ok (DInt d)"
  "readable_num ok' e \<Longrightarrow> num_values e \<noteq> [] \<Longrightarrow> make_domain_values (map VFloat (num_values e)) = Ok (DFloat e)"
  by (cases d; cases e; auto simp: readable_num_def make_domain_values_def hd_conv_nth [symmetric] hd_map empty_num_def map_filter_map)+

lemma float_bound_read: "float_bound_ok x \<Longrightarrow> read_float_bound (map_option JDouble x) = x"
  by (cases x) (auto simp: float_bound_ok_def read_float_bound_def fl_narrow_wf)

lemma vecf_read_back: "readable_vecf n d \<Longrightarrow> parse_vecf n (map (vecf_element d) [0..<n]) = d"
proof -
  assume d: "readable_vecf n d"
  have member: "object_member (vecf_element d i) ''MIN'' = map_option JDouble (vf_min d ! i)"
    "object_member (vecf_element d i) ''MAX'' = map_option JDouble (vf_max d ! i)" if "i < n" for i
    using d that by (auto simp: readable_vecf_def vecf_element_def object_member_def bound_members_def split: option.splits)
  have ok: "float_bound_ok (vf_min d ! i)" "float_bound_ok (vf_max d ! i)" if "i < n" for i
    using d that by (auto simp: readable_vecf_def list_all_length)
  have bounds: "map (\<lambda>i. if i < n then read_float_bound (object_member (map (vecf_element d) [0..<n] ! i) ''MIN'') else None) [0..<n] = vf_min d"
    "map (\<lambda>i. if i < n then read_float_bound (object_member (map (vecf_element d) [0..<n] ! i) ''MAX'') else None) [0..<n] = vf_max d"
    using d member ok by (auto simp: readable_vecf_def float_bound_read intro!: nth_equalityI)
  show ?thesis
    using bounds d by (intro vecf_dom.equality) (simp_all add: parse_vecf_def readable_vecf_def)
qed

lemma domain_read_back:
  assumes "readable_domain d"
  shows "\<exists>j. domain_to_json d = Ok (Some j) \<and> read_domain (domain_type d) j = Ok (Some d)"
proof (cases d)
  case (DInt e)
  then show ?thesis
    using assms num_read_back [of "\<lambda>_. True" e "\<lambda>n. JInt (sint n)" VInt DInt] num_domain_made(1) num_values_made(1) int_read_value
    by (auto simp: read_domain_def simp del: read_value.simps)
next
  case (DFloat e)
  then show ?thesis
    using assms num_read_back [of "\<lambda>x. wf_fl F32 x \<and> fl_finite x" e JDouble VFloat DFloat] num_domain_made(2) num_values_made(2)
    by (auto simp: read_domain_def fl_narrow_wf)
next
  case (DString ss)
  then show ?thesis
    using assms by (auto simp: read_domain_def read_domain_object_def make_domain_values_def hd_conv_nth [symmetric] hd_map comp_def map_filter_map)
next
  case DBool
  then show ?thesis by (simp add: read_domain_def read_domain_object_def make_domain_values_def)
next
  case (DVec2f e)
  then show ?thesis using assms vecf_read_back [of 2 e] by (simp add: vecf_to_json_def read_domain_def)
next
  case (DVec3f e)
  then show ?thesis using assms vecf_read_back [of 3 e] by (simp add: vecf_to_json_def read_domain_def)
next
  case (DVec4f e)
  then show ?thesis using assms vecf_read_back [of 4 e] by (simp add: vecf_to_json_def read_domain_def)
qed (use assms in simp_all)

section \<open>What a mirror gets wrong\<close>

text \<open>
  The tags of a list leave out its brackets: a list of one element is read as that element, one of two
  floating-point numbers as an array.
\<close>

lemma list_of_one_is_element: "mirrored None (VList [VInt 5]) = Ok (True, VInt 5)"
  by code_simp

lemma list_of_floats_is_array:
  "mirrored None (VList [VFloat fl_one, VFloat fl_one]) = Ok (True, VVec2f [fl_one, fl_one])"
  by code_simp

text \<open>An array in a list is recognised where its tags occur for the first time: the next one is read as a list.\<close>

lemma second_array_is_list:
  "mirrored None (VList [VVec2f [fl_one, fl_one], VVec2f [fl_one, fl_one]]) =
    Ok (True, VList [VVec2f [fl_one, fl_one], VList [VFloat fl_one, VFloat fl_one]])"
  by code_simp

text \<open>A list is read after the elements of the current one, which are those of the value when the default is read.\<close>

lemma default_list_after_value:
  "parse_oscquery_value (VList [VInt 1, VInt 2]) (JArr [JInt 3, JInt 4]) ''ii'' =
    Ok (True, VList [VInt 1, VInt 2, VInt 3, VInt 4])"
  by code_simp

text \<open>A Boolean in the document is read and refused.\<close>

lemma boolean_refused: "parse_oscquery_value (VBool False) (JBool True) ''b'' = Ok (False, VBool True)"
  by code_simp

text \<open>The bounds of a domain that has values are not read.\<close>

lemma values_hide_bounds:
  "res_bind (domain_to_json (DInt \<lparr>num_min = Some 0, num_max = Some 9, num_values = [3]\<rparr>))
     (\<lambda>j. read_domain T_INT (the j)) = Ok (Some (DInt \<lparr>num_min = None, num_max = None, num_values = [3]\<rparr>))"
  by code_simp

text \<open>The values of an array of numbers are not read.\<close>

lemma array_values_not_read:
  "res_bind (domain_to_json (DVec2f \<lparr>vf_min = [None, None], vf_max = [None, None], vf_values = [[fl_one], [fl_one]]\<rparr>))
     (\<lambda>j. read_domain T_VEC2F (the j)) = Ok (Some (DVec2f (empty_vecf 2)))"
  by code_simp

end
