(* ===== verification/Node_Attributes.thy ===== *)
theory Node_Attributes
  imports Node_Tree Parameter
begin

text \<open>
  What a node keeps beside its name and its children (\<open>network/base/node_attributes.cpp\<close>): its
  parameter and its attributes. The program keeps the attributes in a map from texts to values of any
  type; here there is a field for each text that the program uses, with the type it uses it with.
  Setting an attribute signals a change of it, as the setters of \<open>node_base\<close> do
  (\<open>network/base/device.hpp\<close>, \<open>node.cpp\<close>).
\<close>

section \<open>State\<close>

record attributes =
  a_tags :: "string list option"
  a_refresh_rate :: "i32 option"
  a_priority :: "fl option"
  a_step_size :: "fl option"
  a_instance_bounds :: "(i32 \<times> i32) option"
  a_description :: "string option"
  a_app_name :: "string option"
  a_app_creator :: "string option"
  a_app_version :: "string option"
  a_extended_type :: "string option"
  a_default_value :: "val option"
  a_hidden :: bool
  a_zombie :: bool
  a_recall_safe :: bool

definition no_attributes :: attributes where
  "no_attributes =
     \<lparr>a_tags = None, a_refresh_rate = None, a_priority = None, a_step_size = None, a_instance_bounds = None,
      a_description = None, a_app_name = None, a_app_creator = None, a_app_version = None,
      a_extended_type = None, a_default_value = None, a_hidden = False, a_zombie = False, a_recall_safe = False\<rparr>"

record node_data =
  d_parameter :: "parameter option"
  d_attributes :: attributes

definition blank :: node_data where
  "blank = \<lparr>d_parameter = None, d_attributes = no_attributes\<rparr>"

text \<open>A node of the tree that holds no data is one that was just created.\<close>

type_synonym entry = "node_data node"

definition data_of :: "entry \<Rightarrow> node_data" where
  "data_of n = (case node_param n of Some d \<Rightarrow> d | None \<Rightarrow> blank)"

definition with_data :: "node_data \<Rightarrow> entry \<Rightarrow> entry" where
  "with_data d n = Node (node_name n) (Some d) (node_children n)"

text \<open>The tree as its operations see it: the signals of a removal depend on the parameters.\<close>

fun parameters :: "entry \<Rightarrow> parameter node" where
  "parameters (Node s d cs) = Node s (case d of Some x \<Rightarrow> d_parameter x | None \<Rightarrow> None) (map parameters cs)"

lemma with_data_simps [simp]:
  "node_name (with_data d n) = node_name n" "node_children (with_data d n) = node_children n"
  "data_of (with_data d n) = d" "children_names (with_data d n) = children_names n"
  "find_child (with_data d n) = find_child n" "wf_tree (with_data d n) \<longleftrightarrow> wf_tree n"
  by (cases n; auto simp: with_data_def data_of_def children_names_def find_child_def fun_eq_iff)+

lemma data_of_leaf [simp]: "data_of (Node s None cs) = blank" "data_of (Node s (Some d) cs) = d"
  by (simp_all add: data_of_def)

lemma data_of_set_children [simp]: "data_of (set_children cs n) = data_of n"
  by (simp add: data_of_def set_children_def)

section \<open>Setting attributes\<close>

datatype change = Of_parameter effect | Attribute_set string

type_synonym data_step = "(node_data \<times> change list) outcome"

text \<open>\<open>node_base::set\<close> with an optional value: a text or a list that is empty removes the attribute.\<close>

definition set_optional ::
  "string \<Rightarrow> ('a \<Rightarrow> 'a \<Rightarrow> bool) \<Rightarrow> ('a \<Rightarrow> bool) \<Rightarrow> (attributes \<Rightarrow> 'a option) \<Rightarrow>
   (('a option \<Rightarrow> 'a option) \<Rightarrow> attributes \<Rightarrow> attributes) \<Rightarrow> 'a option \<Rightarrow> node_data \<Rightarrow> node_data \<times> change list" where
  "set_optional key eq is_empty get put v d =
     (if opt_eq eq (get (d_attributes d)) v then (d, [])
      else (d\<lparr>d_attributes := put (\<lambda>_. case v of Some x \<Rightarrow> if is_empty x then None else Some x | None \<Rightarrow> None)
              (d_attributes d)\<rparr>, [Attribute_set key]))"

text \<open>With a flag.\<close>

definition set_flag ::
  "string \<Rightarrow> (attributes \<Rightarrow> bool) \<Rightarrow> ((bool \<Rightarrow> bool) \<Rightarrow> attributes \<Rightarrow> attributes) \<Rightarrow> bool \<Rightarrow> node_data \<Rightarrow>
   node_data \<times> change list" where
  "set_flag key get put b d =
     (if get (d_attributes d) = b then (d, [])
      else (d\<lparr>d_attributes := put (\<lambda>_. b) (d_attributes d)\<rparr>, [Attribute_set key]))"

abbreviation never_empty :: "'a \<Rightarrow> bool" where
  "never_empty \<equiv> \<lambda>_. False"

abbreviation no_text :: "'a list \<Rightarrow> bool" where
  "no_text s \<equiv> s = []"

definition set_tags :: "string list option \<Rightarrow> node_data \<Rightarrow> node_data \<times> change list" where
  "set_tags = set_optional ''tags'' (=) no_text a_tags a_tags_update"

definition set_refresh_rate :: "i32 option \<Rightarrow> node_data \<Rightarrow> node_data \<times> change list" where
  "set_refresh_rate = set_optional ''refreshRate'' (=) never_empty a_refresh_rate a_refresh_rate_update"

definition set_priority :: "fl option \<Rightarrow> node_data \<Rightarrow> node_data \<times> change list" where
  "set_priority = set_optional ''priority'' fl_eq never_empty a_priority a_priority_update"

definition set_step_size :: "fl option \<Rightarrow> node_data \<Rightarrow> node_data \<times> change list" where
  "set_step_size = set_optional ''valueStepsize'' fl_eq never_empty a_step_size a_step_size_update"

definition set_instance_bounds :: "(i32 \<times> i32) option \<Rightarrow> node_data \<Rightarrow> node_data \<times> change list" where
  "set_instance_bounds =
     set_optional ''instanceBounds'' (=) never_empty a_instance_bounds a_instance_bounds_update"

definition set_description :: "string option \<Rightarrow> node_data \<Rightarrow> node_data \<times> change list" where
  "set_description = set_optional ''description'' (=) no_text a_description a_description_update"

definition set_app_name :: "string option \<Rightarrow> node_data \<Rightarrow> node_data \<times> change list" where
  "set_app_name = set_optional ''appName'' (=) no_text a_app_name a_app_name_update"

definition set_app_creator :: "string option \<Rightarrow> node_data \<Rightarrow> node_data \<times> change list" where
  "set_app_creator = set_optional ''appCreator'' (=) no_text a_app_creator a_app_creator_update"

definition set_app_version :: "string option \<Rightarrow> node_data \<Rightarrow> node_data \<times> change list" where
  "set_app_version = set_optional ''appVersion'' (=) no_text a_app_version a_app_version_update"

definition set_hidden :: "bool \<Rightarrow> node_data \<Rightarrow> node_data \<times> change list" where
  "set_hidden = set_flag ''hidden'' a_hidden a_hidden_update"

definition set_zombie :: "bool \<Rightarrow> node_data \<Rightarrow> node_data \<times> change list" where
  "set_zombie = set_flag ''zombie'' a_zombie a_zombie_update"

definition set_recall_safe :: "bool \<Rightarrow> node_data \<Rightarrow> node_data \<times> change list" where
  "set_recall_safe = set_flag ''recallSafe'' a_recall_safe a_recall_safe_update"

text \<open>The default value is set as a value, which is never empty.\<close>

definition set_default_value :: "val \<Rightarrow> node_data \<Rightarrow> node_data \<times> change list" where
  "set_default_value v d =
     (case a_default_value (d_attributes d) of
        Some w \<Rightarrow> if value_ne w v then (d\<lparr>d_attributes := (d_attributes d)\<lparr>a_default_value := Some v\<rparr>\<rparr>, [Attribute_set ''valueDefault''])
                  else (d, [])
      | None \<Rightarrow> (d\<lparr>d_attributes := (d_attributes d)\<lparr>a_default_value := Some v\<rparr>\<rparr>, [Attribute_set ''valueDefault'']))"

definition set_extended_attr :: "string option \<Rightarrow> node_data \<Rightarrow> node_data \<times> change list" where
  "set_extended_attr = set_optional ''extended_type'' (=) no_text a_extended_type a_extended_type_update"

section \<open>The parameter of a node\<close>

text \<open>What an operation on the parameter does, the extended type it sets on the node included.\<close>

fun report :: "effect list \<Rightarrow> node_data \<Rightarrow> node_data \<times> change list" where
  "report [] d = (d, [])"
| "report (Extended_type e # es) d =
     (let (d', cs) = set_extended_attr (Some e) d; (d'', cs') = report es d' in (d'', cs @ cs'))"
| "report (e # es) d = (let (d', cs) = report es d in (d', Of_parameter e # cs))"

fun store :: "(parameter \<times> effect list) outcome \<Rightarrow> node_data \<Rightarrow> data_step" where
  "store (Returned (x, es)) d = Returned (report es (d\<lparr>d_parameter := Some x\<rparr>))"
| "store (Thrown e (x, es)) d = Thrown e (report es (d\<lparr>d_parameter := Some x\<rparr>))"

text \<open>The setters of the attributes of a parameter do nothing when the node has none.\<close>

definition on_parameter :: "(parameter \<Rightarrow> (parameter \<times> effect list) outcome) \<Rightarrow> node_data \<Rightarrow> data_step" where
  "on_parameter f d = (case d_parameter d of None \<Rightarrow> Returned (d, []) | Some x \<Rightarrow> store (f x) d)"

definition set_node_domain :: "text_io \<Rightarrow> domain \<Rightarrow> node_data \<Rightarrow> data_step" where
  "set_node_domain io dm = on_parameter (\<lambda>x. set_domain io x dm)"

definition set_node_access :: "access_mode \<Rightarrow> node_data \<Rightarrow> data_step" where
  "set_node_access a = on_parameter (\<lambda>x. Returned (set_access x a))"

definition set_node_bounding :: "bounding_mode \<Rightarrow> node_data \<Rightarrow> data_step" where
  "set_node_bounding b = on_parameter (\<lambda>x. Returned (set_bounding x b))"

definition set_node_rep_filter :: "bool \<Rightarrow> node_data \<Rightarrow> data_step" where
  "set_node_rep_filter b = on_parameter (\<lambda>x. Returned (set_repetition_filter x b))"

definition set_node_critical :: "bool \<Rightarrow> node_data \<Rightarrow> data_step" where
  "set_node_critical b = on_parameter (\<lambda>x. Returned (set_critical x b))"

definition set_node_disabled :: "bool \<Rightarrow> node_data \<Rightarrow> data_step" where
  "set_node_disabled b = on_parameter (\<lambda>x. Returned (set_disabled x b))"

definition create_node_parameter :: "text_io \<Rightarrow> val_type \<Rightarrow> node_data \<Rightarrow> data_step" where
  "create_node_parameter io t d = store (create_parameter io (d_parameter d) t) d"

text \<open>The extended type of a node, which stands for its type of value when it has none.\<close>

definition get_extended_type :: "node_data \<Rightarrow> string option" where
  "get_extended_type d =
     (case a_extended_type (d_attributes d) of
        Some e \<Rightarrow> Some e
      | None \<Rightarrow>
          (case d_parameter d of
             Some x \<Rightarrow> (if p_value_type x \<in> {T_VEC2F, T_VEC3F, T_VEC4F} then Some ''vecf''
                        else if p_value_type x = T_LIST then Some ''list'' else None)
           | None \<Rightarrow> None))"

definition set_extended_type :: "text_io \<Rightarrow> string option \<Rightarrow> node_data \<Rightarrow> data_step" where
  "set_extended_type io e d =
     then_do (if d_parameter d = None then create_node_parameter io T_IMPULSE d else Returned (d, []))
       (\<lambda>d'. Returned (set_extended_attr e d'))"

section \<open>What a setter does\<close>

text \<open>
  The interface of an attribute: what is put is got, and the other attributes are the same after it. A
  setter then stores its value, or removes the attribute when it is empty, leaves the parameter alone,
  and signals the change of its own key once.
\<close>

locale stored_attribute =
  fixes get :: "attributes \<Rightarrow> 'a option" and put :: "('a option \<Rightarrow> 'a option) \<Rightarrow> attributes \<Rightarrow> attributes"
  assumes get_put: "get (put f a) = f (get a)"
    and put_same: "f (get a) = get a \<Longrightarrow> put f a = a"
begin

lemma set_get:
  "get (d_attributes (fst (set_optional key (=) is_empty get put v d))) = v \<or>
   (\<exists>x. v = Some x \<and> is_empty x \<and> get (d_attributes (fst (set_optional key (=) is_empty get put v d))) = None)"
  by (cases v) (auto simp: set_optional_def opt_eq_def get_put split: option.splits)

lemma set_parameter: "d_parameter (fst (set_optional key eq is_empty get put v d)) = d_parameter d"
  by (simp add: set_optional_def)

lemma set_signal:
  "snd (set_optional key eq is_empty get put v d) = (if opt_eq eq (get (d_attributes d)) v then [] else [Attribute_set key])"
  by (simp add: set_optional_def)

text \<open>Setting it again changes nothing more.\<close>

lemma set_twice:
  "fst (set_optional key (=) is_empty get put v (fst (set_optional key (=) is_empty get put v d))) =
   fst (set_optional key (=) is_empty get put v d)"
proof -
  have "put f (put f a) = put f a" if "\<And>x y. f x = f y" for f a
    using put_same [of f "put f a"] get_put [of f a] that [of "f (get a)" "get a"] by simp
  then show ?thesis
    by (cases "opt_eq (=) (get (d_attributes d)) v")
      (auto simp: set_optional_def get_put split: option.splits)
qed

end

interpretation tags_attr: stored_attribute a_tags a_tags_update by unfold_locales simp_all
interpretation refresh_rate_attr: stored_attribute a_refresh_rate a_refresh_rate_update by unfold_locales simp_all
interpretation priority_attr: stored_attribute a_priority a_priority_update by unfold_locales simp_all
interpretation step_size_attr: stored_attribute a_step_size a_step_size_update by unfold_locales simp_all
interpretation instance_bounds_attr: stored_attribute a_instance_bounds a_instance_bounds_update by unfold_locales simp_all
interpretation description_attr: stored_attribute a_description a_description_update by unfold_locales simp_all
interpretation app_name_attr: stored_attribute a_app_name a_app_name_update by unfold_locales simp_all
interpretation app_creator_attr: stored_attribute a_app_creator a_app_creator_update by unfold_locales simp_all
interpretation app_version_attr: stored_attribute a_app_version a_app_version_update by unfold_locales simp_all
interpretation extended_type_attr: stored_attribute a_extended_type a_extended_type_update by unfold_locales simp_all

end
