(* ===== verification/Oscquery_Nodes.thy ===== *)
theory Oscquery_Nodes
  imports Oscquery_Values Node_Attributes
begin

text \<open>
  Nodes as documents of OSCQuery: what \<open>json_writer_impl::writeNode\<close> writes of a node and the nodes
  below it (\<open>json_writer_detail.cpp\<close>), and what \<open>json_parser_impl::readObject\<close> and
  \<open>reloadObject\<close> make of it in the tree of a mirror (\<open>json_reader_detail.cpp\<close>). Reading is a step on
  the tree that can throw; a document that is not of the form the parser expects (a text read from a
  value that is none) is undefined behaviour.
\<close>

section \<open>Writing\<close>

definition optional_member :: "string \<Rightarrow> json option \<Rightarrow> (string \<times> json) list" where
  "optional_member key j = (case j of Some j \<Rightarrow> [(key, j)] | None \<Rightarrow> [])"

text \<open>A number that cannot be written is \<open>null\<close>.\<close>

definition float_json :: "fl \<Rightarrow> json" where
  "float_json x = (if fl_finite x then JDouble x else JNull)"

definition flag_member :: "string \<Rightarrow> bool \<Rightarrow> (string \<times> json) list" where
  "flag_member key b = (if b then [(key, JBool True)] else [])"

definition unit_members :: "unit_t \<Rightarrow> (string \<times> json) list" where
  "unit_members u =
     (case u of
        None \<Rightarrow> []
      | Some d \<Rightarrow> (case unit_writer d of Some (key, ss) \<Rightarrow> [(key, JArr (map JStr ss))] | None \<Rightarrow> []))"

text \<open>A key that no value follows makes the document malformed.\<close>

definition range_member :: "domain \<Rightarrow> (string \<times> json) list res" where
  "range_member dm =
     (if dm = DNone then Ok []
      else res_bind (domain_to_json dm) (\<lambda>j. case j of Some j \<Rightarrow> Ok [(''RANGE'', j)] | None \<Rightarrow> Err Undefined_behaviour))"

definition value_member :: "string \<Rightarrow> unit_t \<Rightarrow> val \<Rightarrow> (string \<times> json) list res" where
  "value_member key u v = res_map (\<lambda>j. [(key, j)]) (value_to_json u v)"

definition parameter_members :: "node_data \<Rightarrow> parameter \<Rightarrow> (string \<times> json) list res" where
  "parameter_members d x =
     res_bind (if valid (p_value x) then value_member ''VALUE'' (p_unit x) (p_value x) else Ok []) (\<lambda>vs.
       res_bind (range_member (p_domain x)) (\<lambda>rs.
         res_map (\<lambda>ds.
             [(''TYPE'', JStr (get_osc_typetag (p_unit x) (get_extended_type d) (p_value x)))] @ vs @ rs @
             [(''ACCESS'', JInt (access_number (p_access x))), (''CLIPMODE'', JStr (bounding_text (p_bounding x)))] @
             flag_member ''REPETITION_FILTER'' (p_rep_filter x) @ unit_members (p_unit x) @ ds)
           (case a_default_value (d_attributes d) of
              Some v \<Rightarrow> value_member ''DEFAULT_VALUE'' (p_unit x) v
            | None \<Rightarrow> Ok [])))"

definition bounds_json :: "i32 \<times> i32 \<Rightarrow> json" where
  "bounds_json b = JArr [JInt (sint (fst b)), JInt (sint (snd b))]"

definition attribute_members :: "node_data \<Rightarrow> (string \<times> json) list" where
  "attribute_members d =
     (let a = d_attributes d; x = d_parameter d
      in optional_member ''TAGS'' (map_option (\<lambda>ts. JArr (map JStr ts)) (a_tags a)) @
         optional_member ''REFRESH_RATE'' (map_option (\<lambda>n. JInt (sint n)) (a_refresh_rate a)) @
         optional_member ''PRIORITY'' (map_option float_json (a_priority a)) @
         optional_member ''STEP_SIZE'' (map_option float_json (a_step_size a)) @
         optional_member ''INSTANCE_BOUNDS'' (map_option bounds_json (a_instance_bounds a)) @
         flag_member ''CRITICAL'' (case x of Some x \<Rightarrow> p_critical x | None \<Rightarrow> False) @
         flag_member ''HIDDEN'' (a_hidden a) @
         flag_member ''DISABLED'' (case x of Some x \<Rightarrow> p_disabled x | None \<Rightarrow> False) @
         optional_member ''EXTENDED_TYPE'' (map_option JStr (get_extended_type d)) @
         optional_member ''DESCRIPTION'' (map_option JStr (a_description a)) @
         optional_member ''APP_NAME'' (map_option JStr (a_app_name a)) @
         optional_member ''APP_CREATOR'' (map_option JStr (a_app_creator a)) @
         optional_member ''APP_VERSION'' (map_option JStr (a_app_version a)))"

text \<open>\<open>osc_address\<close> of the node that the names lead to.\<close>

definition address_of :: "string list \<Rightarrow> string" where
  "address_of ss = (if ss = [] then ''/'' else slash_names ss)"

definition node_members :: "string list \<Rightarrow> node_data \<Rightarrow> (string \<times> json) list res" where
  "node_members ss d =
     res_map (\<lambda>ps. (''FULL_PATH'', JStr (address_of ss)) # ps @ attribute_members d)
       (case d_parameter d of Some x \<Rightarrow> parameter_members d x | None \<Rightarrow> Ok [])"

fun write_node :: "string list \<Rightarrow> entry \<Rightarrow> json res" where
  "write_node ss (Node s d cs) =
     res_bind (node_members ss (case d of Some x \<Rightarrow> x | None \<Rightarrow> blank)) (\<lambda>ms.
       res_map (\<lambda>js. JObj (ms @ (if cs = [] then [] else [(''CONTENTS'', JObj (zip (map node_name cs) js))])))
         (map_res (\<lambda>c. write_node (ss @ [node_name c]) c) cs))"

section \<open>Reading a parameter\<close>

definition text_of :: "json \<Rightarrow> string res" where
  "text_of j = (case j of JStr s \<Rightarrow> Ok s | _ \<Rightarrow> Err Undefined_behaviour)"

definition try_res :: "'a res \<Rightarrow> ('a \<Rightarrow> 's \<Rightarrow> ('s \<times> 'e list) outcome) \<Rightarrow> 's \<Rightarrow> ('s \<times> 'e list) outcome" where
  "try_res r f s = (case r of Ok x \<Rightarrow> f x s | Err e \<Rightarrow> Thrown e (s, []))"

definition read_vec_tag :: "string \<Rightarrow> val_type" where
  "read_vec_tag tag =
     (if tag \<in> {''ff'', ''[ff]''} then T_VEC2F
      else if tag \<in> {''fff'', ''[fff]''} then T_VEC3F
      else if tag \<in> {''ffff'', ''[ffff]''} then T_VEC4F
      else T_LIST)"

definition is_float_json :: "json \<Rightarrow> bool" where
  "is_float_json j \<longleftrightarrow> read_float_bound (Some j) \<noteq> None"

definition read_vec_value :: "json \<Rightarrow> val_type" where
  "read_vec_value j =
     (case j of
        JArr js \<Rightarrow>
          (if list_all is_float_json js then
             (if length js = 2 then T_VEC2F else if length js = 3 then T_VEC3F
              else if length js = 4 then T_VEC4F else T_LIST)
           else T_LIST)
      | _ \<Rightarrow> T_LIST)"

text \<open>The type of value for an extended type, found by the tags, or by the value when the tags do not tell.\<close>

definition ext_type_by_tag :: "string \<Rightarrow> string \<Rightarrow> val_type" where
  "ext_type_by_tag e tag =
     (if e \<in> {''buffer'', ''filepath'', ''url''} then T_STRING
      else if e = ''list'' then T_LIST
      else if e = ''vecf'' then read_vec_tag tag
      else T_LIST)"

definition ext_type_by_value :: "string \<Rightarrow> string \<Rightarrow> (string \<times> json) list \<Rightarrow> val_type" where
  "ext_type_by_value e tag ms =
     (let t = ext_type_by_tag e tag
      in if e = ''vecf'' \<and> t = T_LIST then
           (case map_of ms ''VALUE'' of
              Some j \<Rightarrow> read_vec_value j
            | None \<Rightarrow> (case map_of ms ''DEFAULT_VALUE'' of Some j \<Rightarrow> read_vec_value j | None \<Rightarrow> T_LIST))
         else t)"

text \<open>The unit and the extended type. The key of the extended type can give a unit, which then has none.\<close>

definition read_extended :: "unit_t \<Rightarrow> json \<Rightarrow> (unit_t \<times> string option) res" where
  "read_extended u j =
     (if j = JNull then Ok (u, None)
      else case read_unit j of
        Some d \<Rightarrow> Ok (Some d, None)
      | None \<Rightarrow>
          (case j of
             JArr [] \<Rightarrow> Ok (u, None)
           | JArr (e # _) \<Rightarrow> res_map (\<lambda>s. (u, Some s)) (text_of e)
           | _ \<Rightarrow> res_map (\<lambda>s. (u, Some s)) (text_of j)))"

definition read_types :: "(string \<times> json) list \<Rightarrow> (unit_t \<times> string option) res" where
  "read_types ms =
     (let u = (case map_of ms ''UNIT'' of Some j \<Rightarrow> read_unit j | None \<Rightarrow> None)
      in case map_of ms ''EXTENDED_TYPE'' of None \<Rightarrow> Ok (u, None) | Some j \<Rightarrow> read_extended u j)"

definition with_unit :: "text_io \<Rightarrow> unit_t \<Rightarrow> string option \<Rightarrow> node_data \<Rightarrow> data_step" where
  "with_unit io u ext d =
     then_do (then_do (create_node_parameter io (matching_type u) d) (on_parameter (\<lambda>x. set_unit io x u)))
       (set_extended_type io ext)"

definition with_extended :: "text_io \<Rightarrow> val_type \<Rightarrow> string option \<Rightarrow> node_data \<Rightarrow> data_step" where
  "with_extended io t ext d = then_do (create_node_parameter io t d) (set_extended_type io ext)"

definition set_up :: "text_io \<Rightarrow> complex_type \<Rightarrow> node_data \<Rightarrow> data_step option" where
  "set_up io t d = map_option (\<lambda>r. store r d) (setup_parameter io t (d_parameter d))"

definition create_typed ::
  "text_io \<Rightarrow> string option \<Rightarrow> unit_t \<Rightarrow> string option \<Rightarrow> (string \<times> json) list \<Rightarrow> node_data \<Rightarrow> data_step" where
  "create_typed io tag u ext ms d =
     (if u \<noteq> None then with_unit io u ext d
      else case (case tag of Some t \<Rightarrow> set_up io (get_type_from_osc_typetag t) d | None \<Rightarrow> None) of
        Some r \<Rightarrow> r
      | None \<Rightarrow>
          (case ext of
             Some e \<Rightarrow> with_extended io (ext_type_by_value e (case tag of Some t \<Rightarrow> t | None \<Rightarrow> []) ms) ext d
           | None \<Rightarrow> Returned (d, [])))"

text \<open>The value in a document, read over the one of the parameter, which has to be there.\<close>

definition parse_for ::
  "string \<Rightarrow> json \<Rightarrow> (val \<Rightarrow> node_data \<Rightarrow> data_step) \<Rightarrow> node_data \<Rightarrow> data_step" where
  "parse_for tag j f d =
     (case d_parameter d of
        None \<Rightarrow> Thrown Undefined_behaviour (d, [])
      | Some x \<Rightarrow> try_res (parse_oscquery_value (p_value x) j tag) (\<lambda>(ok, v) d. if ok then f v d else Returned (d, [])) d)"

definition set_node_value :: "text_io \<Rightarrow> val \<Rightarrow> node_data \<Rightarrow> data_step" where
  "set_node_value io v = on_parameter (\<lambda>x. set_value io x v)"

definition read_typed_values :: "text_io \<Rightarrow> string \<Rightarrow> json option \<Rightarrow> json option \<Rightarrow> node_data \<Rightarrow> data_step" where
  "read_typed_values io tag vj dj d =
     then_do (case vj of Some j \<Rightarrow> parse_for tag j (set_node_value io) d | None \<Rightarrow> Returned (d, []))
       (\<lambda>d. case dj of
          None \<Rightarrow> Returned (d, [])
        | Some j \<Rightarrow> parse_for tag j (\<lambda>v d. then_do (if vj = None then set_node_value io v d else Returned (d, []))
            (\<lambda>d. Returned (set_default_value v d))) d)"

text \<open>With nothing that gives a type, the value does, or else the default value.\<close>

definition create_by_value :: "text_io \<Rightarrow> val \<Rightarrow> node_data \<Rightarrow> data_step" where
  "create_by_value io v d = then_do (create_node_parameter io (get_type v) d) (set_node_value io v)"

definition read_untyped_values :: "text_io \<Rightarrow> json option \<Rightarrow> json option \<Rightarrow> node_data \<Rightarrow> data_step" where
  "read_untyped_values io vj dj d =
     then_do (case vj of Some j \<Rightarrow> create_by_value io (read_value j) d | None \<Rightarrow> Returned (d, []))
       (\<lambda>d. case dj of
          None \<Rightarrow> Returned (d, [])
        | Some j \<Rightarrow> then_do (if d_parameter d = None then create_by_value io (read_value j) d else Returned (d, []))
            (\<lambda>d. Returned (set_default_value (read_value j) d)))"

section \<open>Reading attributes\<close>

definition read_range :: "json \<Rightarrow> node_data \<Rightarrow> domain option res" where
  "read_range j d =
     (case d_parameter d of
        Some x \<Rightarrow> read_domain (p_value_type x) j
      | None \<Rightarrow> (case j of JArr _ \<Rightarrow> Err Undefined_behaviour | _ \<Rightarrow> read_domain T_IMPULSE j))"

definition read_tags :: "json list \<Rightarrow> string list" where
  "read_tags js = List.map_filter (\<lambda>j. case j of JStr s \<Rightarrow> Some s | _ \<Rightarrow> None) js"

fun read_bool :: "json \<Rightarrow> bool option" where
  "read_bool (JBool b) = Some b"
| "read_bool _ = None"

fun read_int32 :: "json \<Rightarrow> i32 option" where
  "read_int32 (JInt n) = (if in_i32 n then Some (word_of_int n) else None)"
| "read_int32 _ = None"

fun read_string :: "json \<Rightarrow> string option" where
  "read_string (JStr s) = Some s"
| "read_string _ = None"

definition read_double :: "json \<Rightarrow> fl option" where
  "read_double j = (case get_double j of Ok x \<Rightarrow> Some x | Err _ \<Rightarrow> None)"

definition read_instance_bounds :: "json \<Rightarrow> (i32 \<times> i32) option" where
  "read_instance_bounds j =
     (case j of
        JArr [a, b] \<Rightarrow> (case (read_int32 a, read_int32 b) of (Some x, Some y) \<Rightarrow> Some (x, y) | _ \<Rightarrow> None)
      | _ \<Rightarrow> None)"

text \<open>An attribute that is read is set; one that is not is left.\<close>

definition when_read :: "'a option \<Rightarrow> ('a \<Rightarrow> node_data \<Rightarrow> data_step) \<Rightarrow> node_data \<Rightarrow> data_step" where
  "when_read r f d = (case r of Some x \<Rightarrow> f x d | None \<Rightarrow> Returned (d, []))"

definition read_member :: "text_io \<Rightarrow> string \<times> json \<Rightarrow> node_data \<Rightarrow> data_step" where
  "read_member io = (\<lambda>(key, j) d.
     if key = ''RANGE'' then try_res (read_range j d) (\<lambda>r. when_read r (set_node_domain io)) d
     else if key = ''ACCESS'' then try_res (read_access j) (\<lambda>r. when_read r set_node_access) d
     else if key = ''CLIPMODE'' then when_read (read_bounding j) set_node_bounding d
     else if key = ''REPETITION_FILTER'' then when_read (read_bool j) set_node_rep_filter d
     else if key = ''TAGS'' then
       when_read (case j of JArr js \<Rightarrow> Some (read_tags js) | _ \<Rightarrow> None) (\<lambda>ts d. Returned (set_tags (Some ts) d)) d
     else if key = ''REFRESH_RATE'' then when_read (read_int32 j) (\<lambda>n d. Returned (set_refresh_rate (Some n) d)) d
     else if key = ''PRIORITY'' then
       when_read (read_float_bound (Some j)) (\<lambda>x d. Returned (set_priority (Some x) d)) d
     else if key = ''STEP_SIZE'' then when_read (read_double j) (\<lambda>x d. Returned (set_step_size (Some x) d)) d
     else if key = ''INSTANCE_BOUNDS'' then
       when_read (read_instance_bounds j) (\<lambda>b d. Returned (set_instance_bounds (Some b) d)) d
     else if key = ''CRITICAL'' then when_read (read_bool j) set_node_critical d
     else if key = ''HIDDEN'' then when_read (read_bool j) (\<lambda>b d. Returned (set_hidden b d)) d
     else if key = ''DISABLED'' then when_read (read_bool j) set_node_disabled d
     else if key = ''DESCRIPTION'' then when_read (read_string j) (\<lambda>s d. Returned (set_description (Some s) d)) d
     else if key = ''APP_NAME'' then when_read (read_string j) (\<lambda>s d. Returned (set_app_name (Some s) d)) d
     else if key = ''APP_CREATOR'' then when_read (read_string j) (\<lambda>s d. Returned (set_app_creator (Some s) d)) d
     else if key = ''APP_VERSION'' then when_read (read_string j) (\<lambda>s d. Returned (set_app_version (Some s) d)) d
     else Returned (d, []))"

definition read_parameter :: "text_io \<Rightarrow> (string \<times> json) list \<Rightarrow> node_data \<Rightarrow> data_step" where
  "read_parameter io ms d =
     (let vj = map_of ms ''VALUE''; dj = map_of ms ''DEFAULT_VALUE'';
          tag = (case map_of ms ''TYPE'' of Some j \<Rightarrow> res_map Some (text_of j) | None \<Rightarrow> Ok None)
      in try_res (res_bind tag (\<lambda>t. res_map (Pair t) (read_types ms))) (\<lambda>(tag, u, ext) d.
           then_do
             (if tag \<noteq> None \<or> u \<noteq> None \<or> ext \<noteq> None then
                then_do (create_typed io tag u ext ms d)
                  (read_typed_values io (case tag of Some t \<Rightarrow> t | None \<Rightarrow> []) vj dj)
              else read_untyped_values io vj dj d)
             (do_all (read_member io) ms)) d)"

section \<open>Reading a tree\<close>

datatype node_event = Changed "string list" change | Tree_changed event

type_synonym entry_step = "(entry \<times> node_event list) outcome"

fun in_node :: "string \<Rightarrow> node_event \<Rightarrow> node_event" where
  "in_node s (Changed ss c) = Changed (s # ss) c"
| "in_node s (Tree_changed e) = Tree_changed (below s e)"

definition on_data :: "(node_data \<Rightarrow> data_step) \<Rightarrow> entry \<Rightarrow> entry_step" where
  "on_data f n =
     (case f (data_of n) of
        Returned (d, cs) \<Rightarrow> Returned (with_data d n, map (Changed []) cs)
      | Thrown e (d, cs) \<Rightarrow> Thrown e (with_data d n, map (Changed []) cs))"

text \<open>A step of the child at a position, seen from its parent, and of the node at a place.\<close>

definition on_child :: "nat \<Rightarrow> (entry \<Rightarrow> entry_step) \<Rightarrow> entry \<Rightarrow> entry_step" where
  "on_child i f n =
     (let put = (\<lambda>(c, evs). (set_children ((node_children n)[i := c]) n, map (in_node (node_name (node_children n ! i))) evs))
      in case f (node_children n ! i) of Returned s \<Rightarrow> Returned (put s) | Thrown e s \<Rightarrow> Thrown e (put s))"

fun on_place :: "nat list \<Rightarrow> (entry \<Rightarrow> entry_step) \<Rightarrow> entry \<Rightarrow> entry_step" where
  "on_place [] f n = f n"
| "on_place (i # p) f n = on_child i (on_place p f) n"

lemma on_child_cong [fundef_cong]:
  "i = j \<Longrightarrow> n = m \<Longrightarrow> (\<And>c. f c = g c) \<Longrightarrow> on_child i f n = on_child j g m"
  by (simp add: on_child_def)

definition create_then :: "bool \<Rightarrow> string \<Rightarrow> (entry \<Rightarrow> entry_step) \<Rightarrow> entry \<Rightarrow> entry_step" where
  "create_then ct s f n =
     (case create_child ct n s of
        Err e \<Rightarrow> Thrown e (n, [])
      | Ok (m, evs, None) \<Rightarrow> Thrown Undefined_behaviour (m, map Tree_changed evs)
      | Ok (m, evs, Some i) \<Rightarrow> then_do (Returned (m, map Tree_changed evs)) (on_child i f))"

lemma create_then_cong [fundef_cong]:
  "ct = ct' \<Longrightarrow> s = t \<Longrightarrow> n = m \<Longrightarrow> (\<And>c. f c = g c) \<Longrightarrow> create_then ct s f n = create_then ct' t g m"
proof -
  assume "ct = ct'" "s = t" "n = m" "\<And>c. f c = g c"
  then have "f = g" by (intro ext) simp
  then show ?thesis using \<open>ct = ct'\<close> \<open>s = t\<close> \<open>n = m\<close> by simp
qed

definition read_own :: "text_io \<Rightarrow> (string \<times> json) list \<Rightarrow> entry \<Rightarrow> entry_step" where
  "read_own io ms n = (if map_of ms ''FULL_PATH'' \<noteq> None then on_data (read_parameter io ms) n else Returned (n, []))"

definition contents :: "(string \<times> json) list \<Rightarrow> (string \<times> json) list" where
  "contents ms = (case map_of ms ''CONTENTS'' of Some (JObj cs) \<Rightarrow> cs | _ \<Rightarrow> [])"

lemma size_contents: "(s, j) \<in> set (contents ms) \<Longrightarrow> size j < size (JObj ms)"
proof -
  assume *: "(s, j) \<in> set (contents ms)"
  then obtain cs where cs: "map_of ms ''CONTENTS'' = Some (JObj cs)"
    by (cases "map_of ms ''CONTENTS''") (auto simp: contents_def split: json.splits)
  then have "(''CONTENTS'', JObj cs) \<in> set ms" by (rule map_of_SomeD)
  then have "size (JObj cs) < size (JObj ms)" using size_member by force
  moreover have "size j < size (JObj cs)" using * cs size_member [of s j cs] by (simp add: contents_def)
  ultimately show ?thesis by simp
qed

function read_object :: "bool \<Rightarrow> text_io \<Rightarrow> json \<Rightarrow> entry \<Rightarrow> entry_step" where
  "read_object ct io j n =
     (case j of
        JObj ms \<Rightarrow>
          then_do (read_own io ms n)
            (do_all (\<lambda>(s, c) m. create_then ct s (\<lambda>k. read_object ct io c k) m) (contents ms))
      | _ \<Rightarrow> Thrown Undefined_behaviour (n, []))"
  by pat_completeness auto
termination
  by (relation "measure (\<lambda>(_, _, j, _). size j)") (auto dest: size_contents)

declare read_object.simps [simp del]

section \<open>Attributes that are read back\<close>

text \<open>Reading members that ends with a state.\<close>

definition reads :: "text_io \<Rightarrow> (string \<times> json) list \<Rightarrow> node_data \<Rightarrow> node_data \<Rightarrow> bool" where
  "reads io ms d d' \<longleftrightarrow> (\<exists>cs. do_all (read_member io) ms d = Returned (d', cs))"

lemma reads_Nil: "reads io [] d d"
  by (simp add: reads_def)

lemma reads_append: "reads io xs d d1 \<Longrightarrow> reads io ys d1 d2 \<Longrightarrow> reads io (xs @ ys) d d2"
  by (auto simp: reads_def do_all_append)

lemma reads_Cons: "read_member io m d = Returned (d1, cs) \<Longrightarrow> reads io ms d1 d2 \<Longrightarrow> reads io (m # ms) d d2"
  by (auto simp: reads_def)

lemma reads_one: "read_member io m d = Returned (d', cs) \<Longrightarrow> reads io [m] d d'"
  by (simp add: reads_def)

lemmas member_defs = read_member_def when_read_def try_res_def

text \<open>The keys that are read before the others are passed over.\<close>

lemma reads_passed:
  "key \<in> {''FULL_PATH'', ''TYPE'', ''VALUE'', ''UNIT'', ''EXTENDED_TYPE'', ''DEFAULT_VALUE'', ''CONTENTS''} \<Longrightarrow>
   read_member io (key, j) d = Returned (d, [])"
  by (elim insertE emptyE; simp add: read_member_def)

text \<open>
  The interface of an attribute and its form in a document: the value that is written is read, and the
  member sets it. An attribute that a node does not have yet then gets the value that was written.
\<close>

locale document_attribute = stored_attribute get put
  for get :: "attributes \<Rightarrow> 'a option" and put :: "('a option \<Rightarrow> 'a option) \<Rightarrow> attributes \<Rightarrow> attributes" +
  fixes key :: string and attr :: string and eq :: "'a \<Rightarrow> 'a \<Rightarrow> bool" and is_empty :: "'a \<Rightarrow> bool"
    and written :: "'a \<Rightarrow> json" and read_back :: "json \<Rightarrow> 'a option" and ok :: "'a \<Rightarrow> bool"
  assumes read_written: "ok x \<Longrightarrow> read_back (written x) = Some x"
    and not_empty: "ok x \<Longrightarrow> \<not> is_empty x"
    and member: "read_member io (key, j) d =
      when_read (read_back j) (\<lambda>x d. Returned (set_optional attr eq is_empty get put (Some x) d)) d"
begin

lemma reads_attribute:
  assumes "get (d_attributes d) = None" "pred_option ok v"
  shows "reads io (optional_member key (map_option written v)) d (d\<lparr>d_attributes := put (\<lambda>_. v) (d_attributes d)\<rparr>)"
proof (cases v)
  case None
  then have "put (\<lambda>_. v) (d_attributes d) = d_attributes d" using put_same assms(1) by simp
  then show ?thesis using None by (simp add: optional_member_def reads_Nil)
next
  case (Some x)
  then have "read_member io (key, written x) d =
      Returned (d\<lparr>d_attributes := put (\<lambda>_. v) (d_attributes d)\<rparr>, [Attribute_set attr])"
    using assms not_empty read_written by (auto simp: member when_read_def set_optional_def opt_eq_def)
  then show ?thesis using Some by (auto simp: optional_member_def intro: reads_one)
qed

end

definition finite_float :: "fl \<Rightarrow> bool" where
  "finite_float x \<longleftrightarrow> float_bound_ok (Some x) \<and> fl_finite x"

lemma read_tags_texts: "read_tags (map JStr ts) = ts"
  by (induction ts) (simp_all add: read_tags_def List.map_filter_simps)

lemma read_int32_written: "read_int32 (JInt (sint (n :: i32))) = Some n"
  using sint_i32_range [of n] by simp

interpretation tags_doc: document_attribute a_tags a_tags_update "''TAGS''" "''tags''" "(=)" no_text
    "\<lambda>ts. JArr (map JStr ts)" "\<lambda>j. case j of JArr js \<Rightarrow> Some (read_tags js) | _ \<Rightarrow> None" "\<lambda>ts. ts \<noteq> []"
  by unfold_locales (auto simp: read_tags_texts read_member_def set_tags_def)

interpretation refresh_rate_doc: document_attribute a_refresh_rate a_refresh_rate_update "''REFRESH_RATE''" "''refreshRate''"
    "(=)" never_empty "\<lambda>n. JInt (sint n)" read_int32 "\<lambda>_. True"
  by unfold_locales (simp_all add: read_int32_written read_member_def set_refresh_rate_def del: read_int32.simps)

interpretation priority_doc: document_attribute a_priority a_priority_update "''PRIORITY''" "''priority''"
    fl_eq never_empty float_json "\<lambda>j. read_float_bound (Some j)" finite_float
proof unfold_locales
  show "read_float_bound (Some (float_json x)) = Some x" if "finite_float x" for x
    using that float_bound_read [of "Some x"] by (simp add: finite_float_def float_json_def)
qed (simp_all add: read_member_def set_priority_def)

interpretation step_size_doc: document_attribute a_step_size a_step_size_update "''STEP_SIZE''" "''valueStepsize''"
    fl_eq never_empty float_json read_double fl_finite
  by unfold_locales (simp_all add: read_member_def set_step_size_def read_double_def float_json_def)

interpretation instance_bounds_doc: document_attribute a_instance_bounds a_instance_bounds_update "''INSTANCE_BOUNDS''"
    "''instanceBounds''" "(=)" never_empty bounds_json read_instance_bounds "\<lambda>_. True"
  by unfold_locales
    (simp_all add: read_member_def set_instance_bounds_def read_instance_bounds_def bounds_json_def read_int32_written
      del: read_int32.simps)

interpretation description_doc: document_attribute a_description a_description_update "''DESCRIPTION''" "''description''"
    "(=)" no_text JStr read_string "\<lambda>s. s \<noteq> []"
  by unfold_locales (simp_all add: read_member_def set_description_def)

interpretation app_name_doc: document_attribute a_app_name a_app_name_update "''APP_NAME''" "''appName''"
    "(=)" no_text JStr read_string "\<lambda>s. s \<noteq> []"
  by unfold_locales (simp_all add: read_member_def set_app_name_def)

interpretation app_creator_doc: document_attribute a_app_creator a_app_creator_update "''APP_CREATOR''" "''appCreator''"
    "(=)" no_text JStr read_string "\<lambda>s. s \<noteq> []"
  by unfold_locales (simp_all add: read_member_def set_app_creator_def)

interpretation app_version_doc: document_attribute a_app_version a_app_version_update "''APP_VERSION''" "''appVersion''"
    "(=)" no_text JStr read_string "\<lambda>s. s \<noteq> []"
  by unfold_locales (simp_all add: read_member_def set_app_version_def)

lemma reads_hidden:
  "a_hidden (d_attributes d) = False \<Longrightarrow>
   reads io (flag_member ''HIDDEN'' b) d (d\<lparr>d_attributes := a_hidden_update (\<lambda>_. b) (d_attributes d)\<rparr>)"
  by (cases b; cases d; cases "d_attributes d")
    (auto simp: flag_member_def member_defs set_hidden_def set_flag_def intro!: reads_one reads_Nil)

section \<open>Parameters that are read back\<close>

fun no_extended :: "effect \<Rightarrow> bool" where
  "no_extended (Extended_type _) = False"
| "no_extended _ = True"

lemma report_state: "list_all no_extended es \<Longrightarrow> fst (report es d) = d"
  by (induction es d rule: report.induct) (auto simp: split_beta)

lemma reads_parameter:
  assumes "d_parameter d = Some y" "list_all no_extended (snd (f y))"
    and "read_member io m d = on_parameter (\<lambda>x. Returned (f x)) d"
  shows "reads io [m] d (d\<lparr>d_parameter := Some (fst (f y))\<rparr>)"
proof -
  let ?d = "d\<lparr>d_parameter := Some (fst (f y))\<rparr>"
  have "report (snd (f y)) ?d = (?d, snd (report (snd (f y)) ?d))"
    using report_state [OF assms(2), of ?d] by (simp add: prod_eq_iff)
  then have "read_member io m d = Returned (?d, snd (report (snd (f y)) ?d))"
    using assms(1,3) by (cases "f y") (simp add: on_parameter_def)
  then show ?thesis by (rule reads_one)
qed

lemma set_access_fst: "fst (set_access y a) = y\<lparr>p_access := a\<rparr>"
  by (simp add: set_access_def)

lemma set_bounding_fst: "p_value_type y \<noteq> T_BOOL \<or> p_bounding y = b \<Longrightarrow> fst (set_bounding y b) = y\<lparr>p_bounding := b\<rparr>"
  by (cases y) (auto simp: set_bounding_def)

lemma set_flags_fst:
  "fst (set_repetition_filter y b) = y\<lparr>p_rep_filter := b\<rparr>"
  "fst (set_critical y b) = y\<lparr>p_critical := b\<rparr>"
  "fst (set_disabled y b) = y\<lparr>p_disabled := b\<rparr>"
  by (simp_all add: set_repetition_filter_def set_critical_def set_disabled_def)

lemma reads_access:
  "d_parameter d = Some y \<Longrightarrow>
   reads io [(''ACCESS'', JInt (access_number a))] d (d\<lparr>d_parameter := Some (y\<lparr>p_access := a\<rparr>)\<rparr>)"
  using reads_parameter [of d y "\<lambda>x. set_access x a" io "(''ACCESS'', JInt (access_number a))"] access_read_back [of a]
  by (simp add: set_access_fst member_defs set_node_access_def) (simp add: set_access_def)

lemma reads_bounding:
  "d_parameter d = Some y \<Longrightarrow> p_value_type y \<noteq> T_BOOL \<or> p_bounding y = b \<Longrightarrow>
   reads io [(''CLIPMODE'', JStr (bounding_text b))] d (d\<lparr>d_parameter := Some (y\<lparr>p_bounding := b\<rparr>)\<rparr>)"
  using reads_parameter [of d y "\<lambda>x. set_bounding x b" io "(''CLIPMODE'', JStr (bounding_text b))"] bounding_read_back [of b]
  by (simp add: set_bounding_fst member_defs set_node_bounding_def) (simp add: set_bounding_def)

text \<open>A flag that is not written keeps its value, which is false.\<close>

lemma reads_flag:
  assumes "d_parameter d = Some y" "\<And>b. fst (setter y b) = put b y" "\<And>b. list_all no_extended (snd (setter y b))"
    and "put False y = y" "read_member io (key, JBool True) d = on_parameter (\<lambda>x. Returned (setter x True)) d"
  shows "reads io (flag_member key b) d (d\<lparr>d_parameter := Some (put b y)\<rparr>)"
proof (cases b)
  case True
  then show ?thesis using reads_parameter [of d y "\<lambda>x. setter x True" io "(key, JBool True)"] assms by (simp add: flag_member_def)
next
  case False
  have "d\<lparr>d_parameter := Some y\<rparr> = d" using assms(1) by (cases d) simp
  then show ?thesis using False assms(4) by (simp add: flag_member_def reads_Nil)
qed

lemma reads_rep_filter:
  "d_parameter d = Some y \<Longrightarrow> \<not> p_rep_filter y \<Longrightarrow>
   reads io (flag_member ''REPETITION_FILTER'' b) d (d\<lparr>d_parameter := Some (y\<lparr>p_rep_filter := b\<rparr>)\<rparr>)"
  by (rule reads_flag [where setter = set_repetition_filter and put = "\<lambda>b y. y\<lparr>p_rep_filter := b\<rparr>"])
    (auto simp: set_flags_fst member_defs set_node_rep_filter_def, simp_all add: set_repetition_filter_def)

lemma reads_critical:
  "d_parameter d = Some y \<Longrightarrow> \<not> p_critical y \<Longrightarrow>
   reads io (flag_member ''CRITICAL'' b) d (d\<lparr>d_parameter := Some (y\<lparr>p_critical := b\<rparr>)\<rparr>)"
  by (rule reads_flag [where setter = set_critical and put = "\<lambda>b y. y\<lparr>p_critical := b\<rparr>"])
    (auto simp: set_flags_fst member_defs set_node_critical_def, simp_all add: set_critical_def)

lemma reads_disabled:
  "d_parameter d = Some y \<Longrightarrow> \<not> p_disabled y \<Longrightarrow>
   reads io (flag_member ''DISABLED'' b) d (d\<lparr>d_parameter := Some (y\<lparr>p_disabled := b\<rparr>)\<rparr>)"
  by (rule reads_flag [where setter = set_disabled and put = "\<lambda>b y. y\<lparr>p_disabled := b\<rparr>"])
    (auto simp: set_flags_fst member_defs set_node_disabled_def, simp_all add: set_disabled_def)

text \<open>A domain that is written, or none, becomes the one of a parameter of its type that has none yet.\<close>

definition domain_kept :: "val_type \<Rightarrow> domain \<Rightarrow> bool" where
  "domain_kept t dm \<longleftrightarrow> dm = DNone \<or> readable_domain dm \<and> domain_type dm = t"

lemma reads_range:
  assumes "d_parameter d = Some y" "p_domain y = DNone" "p_value_type y = t" "t \<noteq> T_NONE" "domain_kept t dm"
  shows "\<exists>rs. range_member dm = Ok rs \<and> set (map fst rs) \<subseteq> {''RANGE''} \<and>
    reads io rs d (d\<lparr>d_parameter := Some (y\<lparr>p_domain := dm\<rparr>)\<rparr>)"
proof (cases "dm = DNone")
  case True
  then have "d\<lparr>d_parameter := Some (y\<lparr>p_domain := dm\<rparr>)\<rparr> = d" using assms(1,2) by (cases d; cases y) simp
  then show ?thesis using True by (simp add: range_member_def reads_Nil)
next
  case False
  then have dm: "readable_domain dm" "domain_type dm = t" using assms(5) by (auto simp: domain_kept_def)
  obtain j where j: "domain_to_json dm = Ok (Some j)" "read_domain t j = Ok (Some dm)"
    using domain_read_back [OF dm(1)] dm(2) by auto
  have "domain_ne (p_domain y) dm" using assms(2) dm(1) by (cases dm) (simp_all add: domain_ne_def)
  moreover have "convert_own_domain io (y\<lparr>p_domain := dm\<rparr>) = Returned (y\<lparr>p_domain := dm\<rparr>)"
    using convert_compatible_same [OF dm(2) assms(4), of io] assms(3) by (cases y) (simp add: convert_own_domain_def)
  ultimately have "set_domain io y dm = Returned (y\<lparr>p_domain := dm\<rparr>, [Modified Domain_attr])"
    by (simp add: set_domain_def)
  then have "read_member io (''RANGE'', j) d = Returned (d\<lparr>d_parameter := Some (y\<lparr>p_domain := dm\<rparr>)\<rparr>, [Of_parameter (Modified Domain_attr)])"
    using assms(1,3) j(2) by (simp add: member_defs read_range_def set_node_domain_def on_parameter_def)
  then show ?thesis using False j(1) by (auto simp: range_member_def intro: reads_one)
qed

section \<open>Values that are read back\<close>

lemma get_osc_typetag_without:
  "ext \<noteq> Some ''buffer'' \<Longrightarrow> u \<noteq> Some (Color (Some rgba8_u)) \<Longrightarrow> get_osc_typetag u ext v = get_osc_typetag None None v"
  by (simp add: get_osc_typetag_def)

lemma value_to_json_unit: "u \<noteq> Some (Color (Some rgba8_u)) \<Longrightarrow> value_to_json u v = value_to_json None v"
proof (induction v)
  case (VList vs)
  then have "map_res (value_to_json u) vs = map_res (value_to_json None) vs" by (intro map_res_cong) auto
  then show ?case by simp
qed simp_all

text \<open>A value that is no list is read over any value of its type.\<close>

definition read_over :: "val \<Rightarrow> bool" where
  "read_over v \<longleftrightarrow> oscquery_stable v \<and> get_type v \<noteq> T_LIST"

lemma reads_over:
  assumes "read_over v" "get_type cur = get_type v" "wf_val cur"
  shows "\<exists>j. value_to_json None v = Ok j \<and> parse_oscquery_value cur j (get_osc_typetag None None v) = Ok (True, v)"
proof (cases v)
  case (VInt n)
  then show ?thesis
    using assms sint_i32_range [of n] by (cases cur) (simp_all add: get_osc_typetag_def parse_oscquery_value_def)
next
  case (VChar c)
  obtain d s where "char_text c = d # s" using char_text_Cons by blast
  then show ?thesis
    using VChar assms first_char_text [of c] by (cases cur) (simp_all add: get_osc_typetag_def parse_oscquery_value_def)
next
  case (VFloat x)
  then show ?thesis
    using assms by (cases cur) (simp_all add: read_over_def get_osc_typetag_def parse_oscquery_value_def fl_narrow_wf)
next
  case (VVec2f xs)
  then show ?thesis
    using assms by (cases cur) (auto simp: read_over_def get_osc_typetag_def parse_oscquery_value_def wf_vec_def read_array_def
      read_doubles numeral_eq_Suc)
next
  case (VVec3f xs)
  then show ?thesis
    using assms by (cases cur) (auto simp: read_over_def get_osc_typetag_def parse_oscquery_value_def wf_vec_def read_array_def
      read_doubles numeral_eq_Suc)
next
  case (VVec4f xs)
  then show ?thesis
    using assms by (cases cur) (auto simp: read_over_def get_osc_typetag_def parse_oscquery_value_def wf_vec_def read_array_def
      read_doubles numeral_eq_Suc)
next
  case (VBool b)
  then show ?thesis using assms by (cases cur) (simp_all add: get_osc_typetag_def parse_oscquery_value_def)
next
  case (VString s)
  then show ?thesis using assms by (cases cur) (simp_all add: get_osc_typetag_def parse_oscquery_value_def)
next
  case VImpulse
  then show ?thesis using assms by (cases cur) (simp_all add: get_osc_typetag_def parse_oscquery_value_def)
qed (use assms in \<open>simp_all add: read_over_def\<close>)

text \<open>The tags of a value that is no list and no Boolean are those of its type.\<close>

lemma tag_of_type:
  assumes "get_type v = get_type w" "get_type v \<notin> {T_LIST, T_BOOL}" "wf_val v" "wf_val w"
  shows "get_osc_typetag u e v = get_osc_typetag u e w"
  using assms by (cases v; cases w) (auto simp: get_osc_typetag_def wf_vec_def)

section \<open>Parameters that are created again\<close>

definition is_rgba8 :: "unit_t \<Rightarrow> bool" where
  "is_rgba8 u \<longleftrightarrow> u = Some (Color (Some rgba8_u))"

definition color_value :: "val \<Rightarrow> bool" where
  "color_value v \<longleftrightarrow>
     (\<exists>ns. length ns = 4 \<and> list_all (\<lambda>n. n \<le> 255) ns \<and> v = VVec4f (map (\<lambda>n. fl_of_int F32 (int n)) ns))"

text \<open>
  The values that a mirror gets from the document of a node: with a unit, the type is the one of the
  unit; a list can be empty, as its extended type is written; a text can be a buffer.
\<close>

definition value_kept :: "string option \<Rightarrow> parameter \<Rightarrow> bool" where
  "value_kept ext x \<longleftrightarrow>
     (ext = None \<and> p_unit x = None \<and> (oscquery_stable (p_value x) \<or> p_value x = VList []) \<or>
      ext = None \<and> is_rgba8 (p_unit x) \<and> color_value (p_value x) \<or>
      ext = None \<and> (case p_unit x of Some d \<Rightarrow> concrete_unit d | None \<Rightarrow> False) \<and> \<not> is_rgba8 (p_unit x) \<and>
        p_value_type x = matching_type (p_unit x) \<and> oscquery_stable (p_value x) \<or>
      ext = Some ''buffer'' \<and> p_unit x = None \<and> p_value_type x = T_STRING)"

definition new_parameter :: "val_type \<Rightarrow> val \<Rightarrow> unit_t \<Rightarrow> parameter" where
  "new_parameter t v u = generic_parameter\<lparr>p_value_type := t, p_value := v, p_unit := u\<rparr>"

lemma new_parameter_fields [simp]:
  "p_value_type (new_parameter t v u) = t" "p_value (new_parameter t v u) = v" "p_unit (new_parameter t v u) = u"
  "p_domain (new_parameter t v u) = DNone" "p_bounding (new_parameter t v u) = FREE"
  "p_rep_filter (new_parameter t v u) = False" "p_critical (new_parameter t v u) = False"
  "p_disabled (new_parameter t v u) = False" "p_muted (new_parameter t v u) = False"
  by (simp_all add: new_parameter_def generic_parameter_def)

lemma create_new:
  "init_value t = Ok v \<Longrightarrow>
   create_parameter io None t = Returned (new_parameter t v None, [Modified Value_type_attr, Parameter_created])"
  by (simp add: create_parameter_def set_value_type_def new_parameter_def generic_parameter_def Let_def)

lemma set_unit_new:
  assumes "init_value t = Ok v" "matching_type u = t" "t \<noteq> T_IMPULSE"
  shows "set_unit io (new_parameter t v None) u = Returned (new_parameter t v u, [Modified Unit_attr])"
proof -
  have "u \<noteq> None" using assms(2,3) by (cases u) (auto simp: matching_type_def)
  moreover have "convert_to io t v = Ok v" using init_value_type [OF assms(1)] by (intro convert_to_same) auto
  ultimately show ?thesis
    using assms(2,3) by (simp add: set_unit_def Let_def) (simp add: new_parameter_def generic_parameter_def)
qed

lemma tag_type: "oscquery_stable v \<Longrightarrow> get_type_from_osc_typetag (get_osc_typetag None None v) = Of_type (get_type v)"
  by (cases v) (auto simp: get_osc_typetag_def get_type_from_osc_typetag_def wf_vec_def butlast_append numeral_eq_Suc)

text \<open>
  What the unit and the extended type of a node are written to, as the members that a reader finds: the
  unit comes first.
\<close>

definition types_written :: "node_data \<Rightarrow> unit_t \<Rightarrow> (string \<times> json) list \<Rightarrow> bool" where
  "types_written d u ms \<longleftrightarrow>
     map_of ms ''UNIT'' = map_of (unit_members u) ''UNIT'' \<and>
     map_of ms ''EXTENDED_TYPE'' =
       (case map_of (unit_members u) ''EXTENDED_TYPE'' of Some j \<Rightarrow> Some j | None \<Rightarrow> map_option JStr (get_extended_type d))"

lemma types_without_unit:
  "types_written d u ms \<Longrightarrow> unit_members u = [] \<Longrightarrow> read_types ms = Ok (None, get_extended_type d)"
  by (cases "get_extended_type d") (simp_all add: types_written_def read_types_def read_extended_def read_unit_def text_of_def)

lemma units_typed:
  "list_all (\<lambda>d. d = Color (Some rgba8_u) \<or>
     (case unit_writer d of
        Some (k, ss) \<Rightarrow> k = ''EXTENDED_TYPE'' \<or> k = ''UNIT'' \<and> matching_type (Some d) = T_FLOAT
      | None \<Rightarrow> False)) make_unit_array"
  by code_simp

lemma types_with_unit:
  assumes "types_written d (Some u) ms" "concrete_unit u" "u \<noteq> Color (Some rgba8_u)"
    and "matching_type (Some u) = T_FLOAT \<Longrightarrow> get_extended_type d = None"
  shows "read_types ms = Ok (Some u, None)"
proof -
  obtain k ss where k: "unit_writer u = Some (k, ss)" "k = ''EXTENDED_TYPE'' \<or> k = ''UNIT'' \<and> matching_type (Some u) = T_FLOAT"
    using units_typed concrete_in_array [OF assms(2)] assms(3) by (force simp: list_all_iff split: option.splits)
  have "read_unit (JArr (map JStr ss)) = Some u" using units_read_back [OF assms(2)] k(1) by (simp add: unit_read_back_def)
  then show ?thesis
    using k assms(1,4) by (auto simp: types_written_def read_types_def read_extended_def unit_members_def)
qed

lemma matching_concrete: "concrete_unit u \<Longrightarrow> matching_type (Some u) \<notin> {T_IMPULSE, T_LIST, T_BOOL, T_NONE}"
proof -
  have "list_all (\<lambda>u. matching_type (Some u) \<notin> {T_IMPULSE, T_LIST, T_BOOL, T_NONE}) make_unit_array" by code_simp
  then show "concrete_unit u \<Longrightarrow> matching_type (Some u) \<notin> {T_IMPULSE, T_LIST, T_BOOL, T_NONE}"
    using concrete_in_array by (simp add: list_all_iff)
qed

text \<open>
  A reader that has created the parameter has one with the type and the unit of the one that was
  written, and reads its value.
\<close>

definition created_as :: "text_io \<Rightarrow> node_data \<Rightarrow> parameter \<Rightarrow> (string \<times> json) list \<Rightarrow> bool" where
  "created_as io d x ms \<longleftrightarrow>
     (let tag = get_osc_typetag (p_unit x) (get_extended_type d) (p_value x)
      in \<exists>u ext cs cur e j. read_types ms = Ok (u, ext) \<and>
        create_typed io (Some tag) u ext ms blank =
          Returned (\<lparr>d_parameter = Some (new_parameter (p_value_type x) cur (p_unit x)),
            d_attributes = no_attributes\<lparr>a_extended_type := e\<rparr>\<rparr>, cs) \<and>
        init_value (p_value_type x) = Ok cur \<and>
        (case e of Some e \<Rightarrow> get_extended_type d = Some e | None \<Rightarrow> a_extended_type (d_attributes d) = None) \<and>
        value_to_json (p_unit x) (p_value x) = Ok j \<and> parse_oscquery_value cur j tag = Ok (True, p_value x))"

lemma created_asI:
  assumes "read_types ms = Ok (u, ext)"
    and "create_typed io (Some tag) u ext ms blank =
      Returned (\<lparr>d_parameter = Some (new_parameter (p_value_type x) cur (p_unit x)),
        d_attributes = no_attributes\<lparr>a_extended_type := e\<rparr>\<rparr>, cs)"
    and "get_osc_typetag (p_unit x) (get_extended_type d) (p_value x) = tag"
    and "init_value (p_value_type x) = Ok cur"
    and "case e of Some e \<Rightarrow> get_extended_type d = Some e | None \<Rightarrow> a_extended_type (d_attributes d) = None"
    and "value_to_json (p_unit x) (p_value x) = Ok j" "parse_oscquery_value cur j tag = Ok (True, p_value x)"
  shows "created_as io d x ms"
  unfolding created_as_def Let_def using assms by blast

lemma no_extended_attr: "no_attributes\<lparr>a_extended_type := None\<rparr> = no_attributes"
  by (simp add: no_attributes_def)

lemmas creation_defs = set_up_def create_node_parameter_def setup_parameter_def set_extended_type_def
  set_extended_attr_def set_optional_def opt_eq_def blank_def

lemma mirrored_parts:
  assumes "mirrored u v = Ok (True, v)" "underlying_type (get_type_from_osc_typetag (get_osc_typetag u None v)) = t"
  shows "\<exists>cur j. init_value t = Ok cur \<and> value_to_json u v = Ok j \<and>
    parse_oscquery_value cur j (get_osc_typetag u None v) = Ok (True, v)"
  using assms by (auto simp: mirrored_def Let_def res_bind_Ok_iff)

lemma not_buffer: "a_extended_type (d_attributes d) = None \<Longrightarrow> get_extended_type d \<noteq> Some ''buffer''"
  by (auto simp: get_extended_type_def split: option.splits)

lemma tag_without:
  "a_extended_type (d_attributes d) = None \<Longrightarrow> get_osc_typetag u (get_extended_type d) v = get_osc_typetag u None v"
  using not_buffer [of d] by (simp add: get_osc_typetag_def)

lemma created_plain:
  assumes x: "d_parameter d = Some x" "wf_parameter x" and ms: "types_written d (p_unit x) ms"
    and ext: "a_extended_type (d_attributes d) = None" and u: "p_unit x = None" and v: "oscquery_stable (p_value x)"
  shows "created_as io d x ms"
proof -
  let ?t = "p_value_type x"
  have t: "get_type (p_value x) = ?t" using x(2) by (simp add: wf_parameter_def)
  have tag: "get_type_from_osc_typetag (get_osc_typetag None None (p_value x)) = Of_type ?t"
    using tag_type [OF v] t by simp
  obtain cur j where cur: "init_value ?t = Ok cur" "value_to_json None (p_value x) = Ok j"
      "parse_oscquery_value cur j (get_osc_typetag None None (p_value x)) = Ok (True, p_value x)"
    using mirrored_parts [OF value_mirrored [OF v], of ?t] tag by auto
  have "read_types ms = Ok (None, get_extended_type d)"
    using types_without_unit [OF ms] by (simp add: u unit_members_def)
  moreover have "create_typed io (Some (get_osc_typetag None None (p_value x))) None e ms blank =
      Returned (\<lparr>d_parameter = Some (new_parameter ?t cur None), d_attributes = no_attributes\<rparr>,
        [Of_parameter (Modified Value_type_attr), Of_parameter Parameter_created])" for e
    using create_new [OF cur(1), of io] tag by (simp add: create_typed_def creation_defs)
  ultimately show ?thesis
    using cur ext u tag_without [OF ext]
    by (intro created_asI [where e = None]) (auto simp: no_extended_attr)
qed

lemma created_empty_list:
  assumes x: "d_parameter d = Some x" "wf_parameter x" and ms: "types_written d (p_unit x) ms"
    and ext: "a_extended_type (d_attributes d) = None" and u: "p_unit x = None" and v: "p_value x = VList []"
  shows "created_as io d x ms"
proof -
  have t: "p_value_type x = T_LIST" using x(2) v by (simp add: wf_parameter_def)
  then have e: "get_extended_type d = Some ''list''" using x(1) ext by (simp add: get_extended_type_def)
  have "read_types ms = Ok (None, Some ''list'')"
    using types_without_unit [OF ms] e by (simp add: u unit_members_def)
  moreover have "create_typed io (Some '''') None (Some ''list'') ms blank =
      Returned (\<lparr>d_parameter = Some (new_parameter T_LIST (VList []) None), d_attributes = no_attributes\<lparr>a_extended_type := Some ''list''\<rparr>\<rparr>,
        [Of_parameter (Modified Value_type_attr), Of_parameter Parameter_created, Attribute_set ''extended_type''])"
    using create_new [of T_LIST "VList []" io]
    by (simp add: create_typed_def with_extended_def creation_defs get_type_from_osc_typetag_def ext_type_by_value_def
        ext_type_by_tag_def no_attributes_def)
  moreover have "get_osc_typetag None (Some ''list'') (VList []) = ''''" by (simp add: get_osc_typetag_def)
  moreover have "parse_oscquery_value (VList []) (JArr []) '''' = Ok (True, VList [])" by (simp add: parse_oscquery_value_def)
  ultimately show ?thesis
    using u v t e by (intro created_asI [where e = "Some ''list''"]) simp_all
qed

lemma created_color:
  assumes x: "d_parameter d = Some x" "wf_parameter x" and ms: "types_written d (p_unit x) ms"
    and ext: "a_extended_type (d_attributes d) = None" and u: "is_rgba8 (p_unit x)" and v: "color_value (p_value x)"
  shows "created_as io d x ms"
proof -
  let ?u = "Some (Color (Some rgba8_u))" and ?t = T_VEC4F
  have t: "p_value_type x = T_VEC4F" using x(2) v by (auto simp: wf_parameter_def color_value_def)
  have m: "matching_type ?u = T_VEC4F" by (simp add: matching_type_def)
  have tag: "get_type_from_osc_typetag (get_osc_typetag ?u None (p_value x)) = Of_unit ?u"
    by (simp add: get_osc_typetag_def get_type_from_osc_typetag_def)
  have "mirrored ?u (p_value x) = Ok (True, p_value x)"
    using v color_mirrored by (auto simp: color_value_def)
  then obtain cur j where cur: "init_value ?t = Ok cur" "value_to_json ?u (p_value x) = Ok j"
      "parse_oscquery_value cur j (get_osc_typetag ?u None (p_value x)) = Ok (True, p_value x)"
    using mirrored_parts [of ?u "p_value x" ?t] tag m by auto
  have "read_types ms = Ok (None, get_extended_type d)"
    using types_without_unit [OF ms] u by (simp add: is_rgba8_def unit_members_def unit_writer_def)
  moreover have "create_typed io (Some (get_osc_typetag ?u None (p_value x))) None e ms blank =
      Returned (\<lparr>d_parameter = Some (new_parameter ?t cur ?u), d_attributes = no_attributes\<rparr>,
        [Of_parameter (Modified Value_type_attr), Of_parameter Parameter_created, Of_parameter (Modified Unit_attr)])" for e
    using create_new [OF cur(1), of io] set_unit_new [OF cur(1) m, of io] tag m by (simp add: create_typed_def creation_defs)
  ultimately show ?thesis
    using cur ext u t tag_without [OF ext]
    by (intro created_asI [where e = None]) (auto simp: no_extended_attr is_rgba8_def)
qed

lemma created_with_unit:
  assumes x: "d_parameter d = Some x" "wf_parameter x" and ms: "types_written d (p_unit x) ms"
    and ext: "a_extended_type (d_attributes d) = None"
    and u: "p_unit x = Some u" "concrete_unit u" "\<not> is_rgba8 (p_unit x)" "p_value_type x = matching_type (Some u)"
    and v: "oscquery_stable (p_value x)"
  shows "created_as io d x ms"
proof -
  let ?t = "p_value_type x"
  have t: "get_type (p_value x) = ?t" "?t \<noteq> T_IMPULSE"
    using x(2) matching_concrete [OF u(2)] u(4) by (simp_all add: wf_parameter_def)
  have rgba: "Some u \<noteq> Some (Color (Some rgba8_u))" "u \<noteq> Color (Some rgba8_u)" using u(1,3) by (simp_all add: is_rgba8_def)
  have tag: "get_osc_typetag (Some u) None (p_value x) = get_osc_typetag None None (p_value x)"
    using get_osc_typetag_without [of None "Some u"] rgba by simp
  obtain cur j where cur: "init_value ?t = Ok cur" "value_to_json None (p_value x) = Ok j"
      "parse_oscquery_value cur j (get_osc_typetag None None (p_value x)) = Ok (True, p_value x)"
    using mirrored_parts [OF value_mirrored [OF v], of ?t] tag_type [OF v] t by auto
  have "get_extended_type d = None" if "matching_type (Some u) = T_FLOAT"
    using that x(1) u(4) ext by (simp add: get_extended_type_def)
  then have "read_types ms = Ok (Some u, None)" using types_with_unit [of d u ms] ms u(1,2) rgba by simp
  moreover have "create_typed io s (Some u) None ms blank =
      Returned (\<lparr>d_parameter = Some (new_parameter ?t cur (Some u)), d_attributes = no_attributes\<rparr>,
        [Of_parameter (Modified Value_type_attr), Of_parameter Parameter_created, Of_parameter (Modified Unit_attr)])" for s
    using create_new [OF cur(1), of io] set_unit_new [OF cur(1) u(4) [symmetric] t(2), of io] u(4)
    by (simp add: create_typed_def with_unit_def on_parameter_def creation_defs no_attributes_def)
  ultimately show ?thesis
    using cur ext u(1) rgba value_to_json_unit [of "Some u" "p_value x"] tag tag_without [OF ext]
    by (intro created_asI [where e = None]) (auto simp: no_extended_attr)
qed

lemma created_buffer:
  assumes x: "d_parameter d = Some x" "wf_parameter x" and ms: "types_written d (p_unit x) ms"
    and ext: "a_extended_type (d_attributes d) = Some ''buffer''" and u: "p_unit x = None" and t: "p_value_type x = T_STRING"
  shows "created_as io d x ms"
proof -
  obtain s where s: "p_value x = VString s" using x(2) t by (cases "p_value x") (auto simp: wf_parameter_def)
  have e: "get_extended_type d = Some ''buffer''" using ext by (simp add: get_extended_type_def)
  have "read_types ms = Ok (None, Some ''buffer'')"
    using types_without_unit [OF ms] e by (simp add: u unit_members_def)
  moreover have "create_typed io (Some ''b'') None (Some ''buffer'') ms blank =
      Returned (\<lparr>d_parameter = Some (new_parameter T_STRING (VString []) None), d_attributes = no_attributes\<lparr>a_extended_type := Some ''buffer''\<rparr>\<rparr>,
        [Of_parameter (Modified Value_type_attr), Of_parameter Parameter_created, Attribute_set ''extended_type''])"
    using create_new [of T_STRING "VString []" io]
    by (simp add: create_typed_def creation_defs get_type_from_osc_typetag_def underlying_ext_def no_attributes_def)
  moreover have "parse_oscquery_value (VString []) (JStr s) ''b'' = Ok (True, VString s)" by (simp add: parse_oscquery_value_def)
  ultimately show ?thesis
    using u s t e by (intro created_asI [where e = "Some ''buffer''"]) (simp_all add: get_osc_typetag_def)
qed

lemma value_created:
  assumes "d_parameter d = Some x" "wf_parameter x" "types_written d (p_unit x) ms"
    and "value_kept (a_extended_type (d_attributes d)) x"
  shows "created_as io d x ms"
  using assms created_plain created_empty_list created_color created_with_unit created_buffer
  by (auto simp: value_kept_def split: option.splits)

section \<open>Nodes that are read back\<close>

definition default_kept :: "node_data \<Rightarrow> parameter \<Rightarrow> bool" where
  "default_kept d x \<longleftrightarrow>
     (case a_default_value (d_attributes d) of
        None \<Rightarrow> True
      | Some w \<Rightarrow> read_over w \<and> wf_val w \<and> get_type w = p_value_type x \<and> get_type w \<noteq> T_BOOL \<and>
          \<not> is_rgba8 (p_unit x) \<and> a_extended_type (d_attributes d) = None)"

definition attributes_kept :: "attributes \<Rightarrow> bool" where
  "attributes_kept a \<longleftrightarrow>
     a_tags a \<noteq> Some [] \<and> pred_option finite_float (a_priority a) \<and> pred_option fl_finite (a_step_size a) \<and>
     a_description a \<noteq> Some [] \<and> a_app_name a \<noteq> Some [] \<and> a_app_creator a \<noteq> Some [] \<and> a_app_version a \<noteq> Some []"

text \<open>What a mirror gets of a node: everything but three attributes, and that a parameter is muted.\<close>

definition data_kept :: "node_data \<Rightarrow> bool" where
  "data_kept d \<longleftrightarrow> attributes_kept (d_attributes d) \<and>
     (case d_parameter d of
        None \<Rightarrow> a_extended_type (d_attributes d) = None \<and> a_default_value (d_attributes d) = None
      | Some x \<Rightarrow> wf_parameter x \<and> value_kept (a_extended_type (d_attributes d)) x \<and> default_kept d x \<and>
          domain_kept (p_value_type x) (p_domain x) \<and> (p_value_type x = T_BOOL \<longrightarrow> p_bounding x = FREE))"

definition same_parameter :: "parameter \<Rightarrow> parameter \<Rightarrow> bool" where
  "same_parameter x y \<longleftrightarrow> y\<lparr>p_previous := p_previous x\<rparr> = x\<lparr>p_muted := False\<rparr>"

definition same_attributes :: "attributes \<Rightarrow> attributes \<Rightarrow> bool" where
  "same_attributes a b \<longleftrightarrow> b\<lparr>a_extended_type := None\<rparr> = a\<lparr>a_extended_type := None, a_zombie := False, a_recall_safe := False\<rparr>"

definition same_data :: "node_data \<Rightarrow> node_data \<Rightarrow> bool" where
  "same_data d d' \<longleftrightarrow> rel_option same_parameter (d_parameter d) (d_parameter d') \<and>
     same_attributes (d_attributes d) (d_attributes d') \<and> get_extended_type d' = get_extended_type d"

lemma reads_eq: "reads io ms d d1 \<Longrightarrow> d1 = d2 \<Longrightarrow> reads io ms d d2"
  by simp

text \<open>The attributes on top of those that the creation of the parameter and the default value left.\<close>

definition merged :: "attributes \<Rightarrow> attributes \<Rightarrow> attributes" where
  "merged a b =
     b\<lparr>a_tags := a_tags a, a_refresh_rate := a_refresh_rate a, a_priority := a_priority a, a_step_size := a_step_size a,
       a_instance_bounds := a_instance_bounds a, a_hidden := a_hidden a, a_description := a_description a,
       a_app_name := a_app_name a, a_app_creator := a_app_creator a, a_app_version := a_app_version a\<rparr>"

definition is_fresh :: "attributes \<Rightarrow> bool" where
  "is_fresh b \<longleftrightarrow> merged no_attributes b = b"

lemma fresh_fields:
  "is_fresh b \<Longrightarrow> a_tags b = None \<and> a_refresh_rate b = None \<and> a_priority b = None \<and> a_step_size b = None \<and>
   a_instance_bounds b = None \<and> \<not> a_hidden b \<and> a_description b = None \<and> a_app_name b = None \<and>
   a_app_creator b = None \<and> a_app_version b = None"
  by (cases b) (simp add: is_fresh_def merged_def no_attributes_def)

lemma kept_options:
  "attributes_kept a \<Longrightarrow> pred_option (\<lambda>ts. ts \<noteq> []) (a_tags a) \<and> pred_option finite_float (a_priority a) \<and>
   pred_option fl_finite (a_step_size a) \<and> pred_option (\<lambda>s. s \<noteq> []) (a_description a) \<and>
   pred_option (\<lambda>s. s \<noteq> []) (a_app_name a) \<and> pred_option (\<lambda>s. s \<noteq> []) (a_app_creator a) \<and>
   pred_option (\<lambda>s. s \<noteq> []) (a_app_version a) \<and> pred_option (\<lambda>_. True) (a_refresh_rate a) \<and>
   pred_option (\<lambda>_. True) (a_instance_bounds a)"
  by (auto simp: attributes_kept_def pred_option_def)

lemma reads_extended: "reads io (optional_member ''EXTENDED_TYPE'' j) d d"
  by (cases j) (auto simp: optional_member_def member_defs intro: reads_one reads_Nil)

lemma reads_attribute_members:
  assumes "is_fresh (d_attributes d0)" "attributes_kept (d_attributes d)"
    and y: "\<And>d0'. d_parameter d0' = d_parameter d0 \<Longrightarrow>
      reads io (flag_member ''CRITICAL'' (case d_parameter d of Some x \<Rightarrow> p_critical x | None \<Rightarrow> False)) d0' (d0'\<lparr>d_parameter := p1\<rparr>)"
    and z: "\<And>d0'. d_parameter d0' = p1 \<Longrightarrow>
      reads io (flag_member ''DISABLED'' (case d_parameter d of Some x \<Rightarrow> p_disabled x | None \<Rightarrow> False)) d0' (d0'\<lparr>d_parameter := p2\<rparr>)"
  shows "reads io (attribute_members d) d0 (d0\<lparr>d_parameter := p2, d_attributes := merged (d_attributes d) (d_attributes d0)\<rparr>)"
proof -
  note fresh = fresh_fields [OF assms(1)] and kept = kept_options [OF assms(2)]
  show ?thesis
    unfolding attribute_members_def Let_def
    apply (rule reads_eq)
     apply (rule reads_append, rule tags_doc.reads_attribute, use fresh kept in simp, use kept in simp)
     apply (rule reads_append, rule refresh_rate_doc.reads_attribute, use fresh kept in simp, use kept in simp)
     apply (rule reads_append, rule priority_doc.reads_attribute, use fresh kept in simp, use kept in simp)
     apply (rule reads_append, rule step_size_doc.reads_attribute, use fresh kept in simp, use kept in simp)
     apply (rule reads_append, rule instance_bounds_doc.reads_attribute, use fresh kept in simp, use kept in simp)
     apply (rule reads_append, rule y, simp)
     apply (rule reads_append, rule reads_hidden, use fresh in simp)
     apply (rule reads_append, rule z, simp)
     apply (rule reads_append, rule reads_extended)
     apply (rule reads_append, rule description_doc.reads_attribute, use fresh kept in simp, use kept in simp)
     apply (rule reads_append, rule app_name_doc.reads_attribute, use fresh kept in simp, use kept in simp)
     apply (rule reads_append, rule app_creator_doc.reads_attribute, use fresh kept in simp, use kept in simp)
     apply (rule app_version_doc.reads_attribute, use fresh kept in simp, use kept in simp)
    apply (simp add: merged_def)
    done
qed

text \<open>Looking a key up among what was written.\<close>

lemma lookup_written:
  "map_of (optional_member k j @ ms) key = (if key = k \<and> j \<noteq> None then j else map_of ms key)"
  "map_of (flag_member k b @ ms) key = (if key = k \<and> b then Some (JBool True) else map_of ms key)"
  "map_of (unit_members u @ ms) key = (case map_of (unit_members u) key of Some j \<Rightarrow> Some j | None \<Rightarrow> map_of ms key)"
  by (auto simp: optional_member_def flag_member_def map_add_def split: option.splits)

lemma lookup_unit:
  "key \<noteq> ''UNIT'' \<Longrightarrow> key \<noteq> ''EXTENDED_TYPE'' \<Longrightarrow> map_of (unit_members u) key = None"
  by (auto simp: unit_members_def unit_writer_def split: option.splits unit_variant.splits position_u.splits if_splits)

lemma lookup_attributes:
  "map_of (attribute_members d @ extra) ''TYPE'' = map_of extra ''TYPE''"
  "map_of (attribute_members d @ extra) ''VALUE'' = map_of extra ''VALUE''"
  "map_of (attribute_members d @ extra) ''DEFAULT_VALUE'' = map_of extra ''DEFAULT_VALUE''"
  "map_of (attribute_members d @ extra) ''UNIT'' = map_of extra ''UNIT''"
  "map_of (attribute_members d @ extra) ''CONTENTS'' = map_of extra ''CONTENTS''"
  "map_of (attribute_members d @ extra) ''EXTENDED_TYPE'' =
     (case get_extended_type d of Some e \<Rightarrow> Some (JStr e) | None \<Rightarrow> map_of extra ''EXTENDED_TYPE'')"
  unfolding attribute_members_def Let_def append_assoc
  by (simp_all add: lookup_written del: map_of_append split: option.splits)

lemma lookup_range: "set (map fst rs) \<subseteq> {''RANGE''} \<Longrightarrow> key \<noteq> ''RANGE'' \<Longrightarrow> map_of (rs @ ms) key = map_of ms key"
proof -
  assume "set (map fst rs) \<subseteq> {''RANGE''}" "key \<noteq> ''RANGE''"
  then have "map_of rs key = None" by (auto simp: map_of_eq_None_iff)
  then show ?thesis by (simp add: map_add_def)
qed

text \<open>The members of a node with a parameter.\<close>

definition typed_members ::
  "node_data \<Rightarrow> parameter \<Rightarrow> json \<Rightarrow> (string \<times> json) list \<Rightarrow> json option \<Rightarrow> (string \<times> json) list" where
  "typed_members d x vj rs dj =
     [(''TYPE'', JStr (get_osc_typetag (p_unit x) (get_extended_type d) (p_value x))), (''VALUE'', vj)] @ rs @
     [(''ACCESS'', JInt (access_number (p_access x)))] @ [(''CLIPMODE'', JStr (bounding_text (p_bounding x)))] @
     flag_member ''REPETITION_FILTER'' (p_rep_filter x) @ unit_members (p_unit x) @ optional_member ''DEFAULT_VALUE'' dj"

lemma default_written:
  assumes "default_kept d x"
  shows "\<exists>dj. (case a_default_value (d_attributes d) of Some w \<Rightarrow> value_member ''DEFAULT_VALUE'' (p_unit x) w | None \<Rightarrow> Ok []) =
      Ok (optional_member ''DEFAULT_VALUE'' dj) \<and>
    (case a_default_value (d_attributes d) of None \<Rightarrow> dj = None
     | Some w \<Rightarrow> \<exists>j. dj = Some j \<and> value_to_json None w = Ok j)"
proof (cases "a_default_value (d_attributes d)")
  case None
  then show ?thesis by (auto simp: optional_member_def)
next
  case (Some w)
  then have *: "read_over w" "wf_val w" "p_unit x \<noteq> Some (Color (Some rgba8_u))" using assms by (auto simp: default_kept_def is_rgba8_def)
  then obtain j where j: "value_to_json None w = Ok j" using reads_over [of w w] by blast
  have "value_to_json (p_unit x) w = Ok j" using value_to_json_unit [of "p_unit x" w] * j by simp
  then show ?thesis using Some j by (intro exI [of _ "Some j"]) (simp add: value_member_def optional_member_def)
qed

lemma members_written:
  assumes d: "data_kept d" and x: "d_parameter d = Some x"
  shows "\<exists>vj rs dj. parameter_members d x = Ok (typed_members d x vj rs dj) \<and>
    value_to_json (p_unit x) (p_value x) = Ok vj \<and> range_member (p_domain x) = Ok rs \<and> set (map fst rs) \<subseteq> {''RANGE''} \<and>
    (case a_default_value (d_attributes d) of None \<Rightarrow> dj = None | Some w \<Rightarrow> \<exists>j. dj = Some j \<and> value_to_json None w = Ok j)"
proof -
  have k: "wf_parameter x" "value_kept (a_extended_type (d_attributes d)) x" "default_kept d x"
      "domain_kept (p_value_type x) (p_domain x)"
    using d x by (auto simp: data_kept_def)
  let ?ms = "unit_members (p_unit x) @ optional_member ''EXTENDED_TYPE'' (map_option JStr (get_extended_type d)) @ []"
  have "types_written d (p_unit x) ?ms"
    unfolding types_written_def lookup_written by (auto split: option.splits)
  from value_created [OF x k(1) this k(2), of undefined]
  obtain vj where vj: "value_to_json (p_unit x) (p_value x) = Ok vj" by (auto simp: created_as_def Let_def)
  let ?y = "new_parameter (p_value_type x) VUnset None"
  have "p_value_type x \<noteq> T_NONE" using k(1) by (simp add: wf_parameter_def)
  then obtain rs where rs: "range_member (p_domain x) = Ok rs" "set (map fst rs) \<subseteq> {''RANGE''}"
    using reads_range [of "blank\<lparr>d_parameter := Some ?y\<rparr>" ?y "p_value_type x" "p_domain x" undefined] k(4) by auto
  obtain dj where dj: "(case a_default_value (d_attributes d) of Some w \<Rightarrow> value_member ''DEFAULT_VALUE'' (p_unit x) w | None \<Rightarrow> Ok []) =
      Ok (optional_member ''DEFAULT_VALUE'' dj)"
    "case a_default_value (d_attributes d) of None \<Rightarrow> dj = None | Some w \<Rightarrow> \<exists>j. dj = Some j \<and> value_to_json None w = Ok j"
    using default_written [OF k(3)] by blast
  have "valid (p_value x)" using k(1) by (cases "p_value x") (auto simp: wf_parameter_def)
  then have "parameter_members d x = Ok (typed_members d x vj rs dj)"
    using vj rs(1) dj(1) by (simp add: parameter_members_def typed_members_def value_member_def)
  then show ?thesis using vj rs dj(2) by blast
qed

lemma typed_lookup:
  assumes "set (map fst rs) \<subseteq> {''RANGE''}"
    and ms: "ms = (''FULL_PATH'', p) # typed_members d x vj rs dj @ attribute_members d @ extra"
    and extra: "map_of extra ''DEFAULT_VALUE'' = None" "map_of extra ''UNIT'' = None" "map_of extra ''EXTENDED_TYPE'' = None"
  shows "map_of ms ''TYPE'' = Some (JStr (get_osc_typetag (p_unit x) (get_extended_type d) (p_value x)))"
    and "map_of ms ''VALUE'' = Some vj" and "map_of ms ''DEFAULT_VALUE'' = dj" and "types_written d (p_unit x) ms"
proof -
  note look = lookup_written lookup_attributes lookup_range [OF assms(1)] lookup_unit extra
  show "map_of ms ''TYPE'' = Some (JStr (get_osc_typetag (p_unit x) (get_extended_type d) (p_value x)))"
    "map_of ms ''VALUE'' = Some vj"
    by (simp_all add: ms typed_members_def)
  show "map_of ms ''DEFAULT_VALUE'' = dj"
    by (simp add: ms typed_members_def look del: map_of_append)
  have "map_of ms ''UNIT'' = map_of (unit_members (p_unit x)) ''UNIT''"
    by (simp add: ms typed_members_def look del: map_of_append split: option.splits)
  moreover have "map_of ms ''EXTENDED_TYPE'' =
      (case map_of (unit_members (p_unit x)) ''EXTENDED_TYPE'' of Some j \<Rightarrow> Some j | None \<Rightarrow> map_option JStr (get_extended_type d))"
    by (simp add: ms typed_members_def look del: map_of_append split: option.splits)
  ultimately show "types_written d (p_unit x) ms" by (simp add: types_written_def)
qed

text \<open>The value and the default value, read by a parameter that was created.\<close>

lemma values_read:
  assumes d1: "d_parameter d1 = Some (new_parameter (p_value_type x) cur u)" "d_attributes d1 = b" "a_default_value b = None"
    and x: "wf_parameter x" "u = p_unit x" and cur: "init_value (p_value_type x) = Ok cur"
    and tag: "tag = get_osc_typetag (p_unit x) (get_extended_type d) (p_value x)"
    and v: "parse_oscquery_value cur vj tag = Ok (True, p_value x)"
    and dj: "default_kept d x"
      "case a_default_value (d_attributes d) of None \<Rightarrow> dj = None | Some w \<Rightarrow> \<exists>j. dj = Some j \<and> value_to_json None w = Ok j"
  shows "\<exists>cs. read_typed_values io tag (Some vj) dj d1 =
    Returned (\<lparr>d_parameter = Some ((new_parameter (p_value_type x) (p_value x) u)\<lparr>p_previous := cur\<rparr>),
      d_attributes = b\<lparr>a_default_value := a_default_value (d_attributes d)\<rparr>\<rparr>, cs)"
proof -
  let ?y = "(new_parameter (p_value_type x) (p_value x) u)\<lparr>p_previous := cur\<rparr>"
  let ?d2 = "\<lparr>d_parameter = Some ?y, d_attributes = b\<rparr>"
  have t: "get_type (p_value x) = p_value_type x" "wf_val (p_value x)" "p_value_type x \<noteq> T_NONE" using x(1) by (simp_all add: wf_parameter_def)
  then have valid: "valid (p_value x)" by (cases "p_value x") auto
  have "get_type cur = p_value_type x" using init_value_type [OF cur] by simp
  then have "set_value io (new_parameter (p_value_type x) cur u) (p_value x) = Returned (?y, [Sent (p_value x)])"
    using t valid by (simp add: set_value_def) (simp add: new_parameter_def)
  then have value_step: "parse_for tag vj (set_node_value io) d1 = Returned (?d2, [Of_parameter (Sent (p_value x))])"
    using d1 v by (cases d1) (simp add: parse_for_def try_res_def set_node_value_def on_parameter_def)
  show ?thesis
  proof (cases "a_default_value (d_attributes d)")
    case None
    then have "b\<lparr>a_default_value := a_default_value (d_attributes d)\<rparr> = b" using d1(3) by (cases b) simp
    then show ?thesis using None dj(2) value_step by (simp add: read_typed_values_def)
  next
    case (Some w)
    then have w: "read_over w" "wf_val w" "get_type w = p_value_type x" "get_type w \<noteq> T_BOOL" "\<not> is_rgba8 (p_unit x)"
        "a_extended_type (d_attributes d) = None"
      using dj(1) by (auto simp: default_kept_def)
    obtain j where j: "dj = Some j" "value_to_json None w = Ok j" using Some dj(2) by auto
    have "get_osc_typetag None None (p_value x) = get_osc_typetag None None w"
      using w t by (intro tag_of_type) (auto simp: read_over_def)
    then have "tag = get_osc_typetag None None w"
      using tag tag_without [OF w(6)] get_osc_typetag_without [of None "p_unit x" "p_value x"] w(5) by (simp add: is_rgba8_def)
    then have "parse_oscquery_value (p_value x) j tag = Ok (True, w)"
      using reads_over [OF w(1) _ t(2)] t(1) w(3) j(2) by auto
    then have "parse_for tag j (\<lambda>v d. then_do (Returned (d, [])) (\<lambda>d. Returned (set_default_value v d))) ?d2 =
        Returned (?d2\<lparr>d_attributes := b\<lparr>a_default_value := Some w\<rparr>\<rparr>, [Attribute_set ''valueDefault''])"
      using d1(3) by (simp add: parse_for_def try_res_def set_default_value_def)
    then show ?thesis using Some j(1) value_step by (simp add: read_typed_values_def)
  qed
qed

text \<open>The members after the value.\<close>

lemma typed_reads:
  assumes d: "data_kept d" "d_parameter d = Some x" and d2: "d_parameter d2 = Some y" "is_fresh (d_attributes d2)"
    and y: "p_domain y = DNone" "p_value_type y = p_value_type x" "p_bounding y = FREE" "\<not> p_rep_filter y" "\<not> p_critical y" "\<not> p_disabled y"
    and rs: "range_member (p_domain x) = Ok rs"
    and extra: "set (map fst extra) \<subseteq> {''CONTENTS''}"
  shows "reads io ((''FULL_PATH'', p) # typed_members d x vj rs dj @ attribute_members d @ extra) d2
    \<lparr>d_parameter = Some (y\<lparr>p_domain := p_domain x, p_access := p_access x, p_bounding := p_bounding x,
       p_rep_filter := p_rep_filter x, p_critical := p_critical x, p_disabled := p_disabled x\<rparr>),
     d_attributes = merged (d_attributes d) (d_attributes d2)\<rparr>"
proof -
  have k: "wf_parameter x" "domain_kept (p_value_type x) (p_domain x)" "p_value_type x = T_BOOL \<longrightarrow> p_bounding x = FREE"
      "attributes_kept (d_attributes d)"
    using d by (auto simp: data_kept_def)
  have none: "p_value_type x \<noteq> T_NONE" using k(1) by (simp add: wf_parameter_def)
  have range: "reads io rs d2 (d2\<lparr>d_parameter := Some (y\<lparr>p_domain := p_domain x\<rparr>)\<rparr>)"
    using reads_range [of d2 y "p_value_type x" "p_domain x" io] d2 y none k(2) rs by auto
  have passed: "reads io [(key, j)] d d"
    if "key \<in> {''FULL_PATH'', ''TYPE'', ''VALUE'', ''UNIT'', ''EXTENDED_TYPE'', ''DEFAULT_VALUE'', ''CONTENTS''}" for key j d
    using reads_passed [OF that] by (rule reads_one)
  have units: "reads io (unit_members u) d d" for u d
  proof (cases "unit_members u")
    case (Cons m ms)
    then have "ms = []" "fst m = ''UNIT'' \<or> fst m = ''EXTENDED_TYPE''"
      using lookup_unit [of "fst m" u] by (auto simp: unit_members_def split: option.splits)
    then show ?thesis using Cons passed [of "fst m" "snd m"] by auto
  qed (simp add: reads_Nil)
  have default: "reads io (optional_member ''DEFAULT_VALUE'' dj) d d" for d
    using passed [of "''DEFAULT_VALUE''"] by (cases dj) (simp_all add: optional_member_def reads_Nil)
  have extra': "reads io extra d d" for d
    using extra
  proof (induction extra)
    case (Cons m ms)
    then have "read_member io m d = Returned (d, [])" using reads_passed [of "fst m" io "snd m" d] by (cases m) simp
    then show ?case using Cons by (auto intro: reads_Cons)
  qed (simp add: reads_Nil)
  let ?y = "y\<lparr>p_domain := p_domain x, p_access := p_access x, p_bounding := p_bounding x, p_rep_filter := p_rep_filter x\<rparr>"
  have attrs: "reads io (attribute_members d) d3 (d3\<lparr>d_parameter := Some (?y\<lparr>p_critical := p_critical x, p_disabled := p_disabled x\<rparr>),
      d_attributes := merged (d_attributes d) (d_attributes d3)\<rparr>)"
    if "d_parameter d3 = Some ?y" "d_attributes d3 = d_attributes d2" for d3
    using reads_attribute_members [of d3 d io "Some (?y\<lparr>p_critical := p_critical x\<rparr>)" "Some (?y\<lparr>p_critical := p_critical x, p_disabled := p_disabled x\<rparr>)"]
      reads_critical [of _ ?y io "p_critical x"] reads_disabled [of _ "?y\<lparr>p_critical := p_critical x\<rparr>" io "p_disabled x"]
      that d(2) d2(2) k(4) y
    by simp
  show ?thesis
    unfolding typed_members_def append_assoc
    apply (rule reads_eq)
     apply (rule reads_Cons, rule reads_passed, simp)
     apply (rule reads_append, rule reads_Cons, rule reads_passed, simp, rule passed, simp)
     apply (rule reads_append, rule range)
     apply (rule reads_append, rule reads_access, simp)
     apply (rule reads_append, rule reads_bounding, simp, use y k(3) in simp)
     apply (rule reads_append, rule reads_rep_filter, simp, use y in simp)
     apply (rule reads_append, rule units)
     apply (rule reads_append, rule default)
     apply (rule reads_append, rule attrs, simp, simp)
     apply (rule extra')
    apply simp
    done
qed

text \<open>A node that is written is read back by a node that was just created.\<close>

lemma typed_node_read:
  assumes d: "data_kept d" "d_parameter d = Some x" and extra: "set (map fst extra) \<subseteq> {''CONTENTS''}"
    and ps: "value_to_json (p_unit x) (p_value x) = Ok vj" "range_member (p_domain x) = Ok rs" "set (map fst rs) \<subseteq> {''RANGE''}"
      "case a_default_value (d_attributes d) of None \<Rightarrow> dj = None | Some w \<Rightarrow> \<exists>j. dj = Some j \<and> value_to_json None w = Ok j"
  shows "\<exists>d' cs. read_parameter io ((''FULL_PATH'', p) # typed_members d x vj rs dj @ attribute_members d @ extra) blank =
      Returned (d', cs) \<and> same_data d d'"
proof -
  let ?ms = "(''FULL_PATH'', p) # typed_members d x vj rs dj @ attribute_members d @ extra"
  let ?tag = "get_osc_typetag (p_unit x) (get_extended_type d) (p_value x)"
  have k: "wf_parameter x" "value_kept (a_extended_type (d_attributes d)) x" "default_kept d x"
    using d by (auto simp: data_kept_def)
  have no_extra: "map_of extra ''DEFAULT_VALUE'' = None" "map_of extra ''UNIT'' = None" "map_of extra ''EXTENDED_TYPE'' = None"
    using extra by (auto simp: map_of_eq_None_iff)
  note look = typed_lookup [OF ps(3) refl no_extra, where p = p and d = d and x = x and vj = vj and dj = dj]
  obtain u ext cs1 cur e j where c: "read_types ?ms = Ok (u, ext)"
      "create_typed io (Some ?tag) u ext ?ms blank =
        Returned (\<lparr>d_parameter = Some (new_parameter (p_value_type x) cur (p_unit x)),
          d_attributes = no_attributes\<lparr>a_extended_type := e\<rparr>\<rparr>, cs1)"
      "init_value (p_value_type x) = Ok cur"
      "case e of Some e \<Rightarrow> get_extended_type d = Some e | None \<Rightarrow> a_extended_type (d_attributes d) = None"
      "value_to_json (p_unit x) (p_value x) = Ok j" "parse_oscquery_value cur j ?tag = Ok (True, p_value x)"
    using value_created [OF d(2) k(1) look(4) k(2), of io] by (auto simp: created_as_def Let_def)
  let ?d1 = "\<lparr>d_parameter = Some (new_parameter (p_value_type x) cur (p_unit x)), d_attributes = no_attributes\<lparr>a_extended_type := e\<rparr>\<rparr>"
  let ?b = "no_attributes\<lparr>a_extended_type := e, a_default_value := a_default_value (d_attributes d)\<rparr>"
  let ?y = "(new_parameter (p_value_type x) (p_value x) (p_unit x))\<lparr>p_previous := cur\<rparr>"
  obtain cs2 where v: "read_typed_values io ?tag (Some vj) dj ?d1 = Returned (\<lparr>d_parameter = Some ?y, d_attributes = ?b\<rparr>, cs2)"
    using values_read [of ?d1 x cur "p_unit x" "no_attributes\<lparr>a_extended_type := e\<rparr>" ?tag d vj dj io] k(1,3) c(3,5,6) ps(1,4)
    by (auto simp: no_attributes_def)
  have "is_fresh ?b" by (simp add: is_fresh_def merged_def no_attributes_def)
  then obtain cs3 where r: "do_all (read_member io) ?ms \<lparr>d_parameter = Some ?y, d_attributes = ?b\<rparr> =
      Returned (\<lparr>d_parameter = Some (?y\<lparr>p_domain := p_domain x, p_access := p_access x, p_bounding := p_bounding x,
         p_rep_filter := p_rep_filter x, p_critical := p_critical x, p_disabled := p_disabled x\<rparr>),
       d_attributes = merged (d_attributes d) ?b\<rparr>, cs3)" (is "_ = Returned (?d3, cs3)")
    using typed_reads [OF d, of "\<lparr>d_parameter = Some ?y, d_attributes = ?b\<rparr>" ?y rs extra io p vj dj] ps(2) extra
    by (auto simp: reads_def)
  have "read_parameter io ?ms blank = Returned (?d3, cs1 @ cs2 @ cs3)"
    unfolding read_parameter_def Let_def look(1-3) using c(1,2) v r by (simp add: text_of_def try_res_def)
  moreover have "same_data d ?d3"
  proof -
    have "same_parameter x (?y\<lparr>p_domain := p_domain x, p_access := p_access x, p_bounding := p_bounding x,
         p_rep_filter := p_rep_filter x, p_critical := p_critical x, p_disabled := p_disabled x\<rparr>)"
      by (cases x) (simp add: same_parameter_def new_parameter_def generic_parameter_def)
    moreover have "same_attributes (d_attributes d) (merged (d_attributes d) ?b)"
      by (cases "d_attributes d") (simp add: same_attributes_def merged_def no_attributes_def)
    moreover have "get_extended_type ?d3 = get_extended_type d"
      using c(4) d(2) by (cases e) (simp_all add: get_extended_type_def merged_def)
    ultimately show ?thesis using d(2) by (simp add: same_data_def)
  qed
  ultimately show ?thesis by blast
qed

lemma untyped_node_read:
  assumes d: "data_kept d" "d_parameter d = None" and extra: "set (map fst extra) \<subseteq> {''CONTENTS''}"
  shows "\<exists>d' cs. read_parameter io ((''FULL_PATH'', p) # attribute_members d @ extra) blank = Returned (d', cs) \<and> same_data d d'"
proof -
  let ?ms = "(''FULL_PATH'', p) # attribute_members d @ extra"
  have k: "attributes_kept (d_attributes d)" "a_extended_type (d_attributes d) = None" "a_default_value (d_attributes d) = None"
    using d by (auto simp: data_kept_def)
  have e: "get_extended_type d = None" using d(2) k(2) by (simp add: get_extended_type_def)
  have "map_of extra ''DEFAULT_VALUE'' = None" "map_of extra ''UNIT'' = None" "map_of extra ''EXTENDED_TYPE'' = None"
      "map_of extra ''TYPE'' = None" "map_of extra ''VALUE'' = None"
    using extra by (auto simp: map_of_eq_None_iff)
  then have look: "map_of ?ms ''DEFAULT_VALUE'' = None" "map_of ?ms ''UNIT'' = None" "map_of ?ms ''EXTENDED_TYPE'' = None"
      "map_of ?ms ''TYPE'' = None" "map_of ?ms ''VALUE'' = None"
    using e by (simp_all add: lookup_attributes del: map_of_append)
  have types: "read_types ?ms = Ok (None, None)" unfolding read_types_def look Let_def by simp
  have fresh: "is_fresh (d_attributes blank)" by (simp add: is_fresh_def merged_def blank_def no_attributes_def)
  have none: "reads io (flag_member key False) d0 (d0\<lparr>d_parameter := None\<rparr>)" if "d_parameter d0 = None" for key d0
    using that by (cases d0) (simp add: flag_member_def reads_Nil)
  have attrs: "reads io (attribute_members d) blank (blank\<lparr>d_parameter := None, d_attributes := merged (d_attributes d) (d_attributes blank)\<rparr>)"
    using none d(2) by (intro reads_attribute_members fresh k(1)) (auto simp: blank_def)
  have "reads io extra d' d'" for d'
    using extra
  proof (induction extra)
    case (Cons m ms)
    then have "read_member io m d' = Returned (d', [])" using reads_passed [of "fst m" io "snd m" d'] by (cases m) simp
    then show ?case using Cons by (auto intro: reads_Cons)
  qed (simp add: reads_Nil)
  then have "reads io ?ms blank (blank\<lparr>d_parameter := None, d_attributes := merged (d_attributes d) (d_attributes blank)\<rparr>)"
    using reads_Cons [OF reads_passed [of "''FULL_PATH''"] reads_append [OF attrs]] by simp
  then obtain cs where "do_all (read_member io) ?ms blank =
      Returned (blank\<lparr>d_parameter := None, d_attributes := merged (d_attributes d) (d_attributes blank)\<rparr>, cs)"
    by (auto simp: reads_def)
  then have "read_parameter io ?ms blank =
      Returned (blank\<lparr>d_parameter := None, d_attributes := merged (d_attributes d) (d_attributes blank)\<rparr>, cs)"
    unfolding read_parameter_def Let_def look types by (simp add: try_res_def read_untyped_values_def del: do_all.simps)
  moreover have "same_data d (blank\<lparr>d_parameter := None, d_attributes := merged (d_attributes d) (d_attributes blank)\<rparr>)"
    using d(2) k e by (cases "d_attributes d")
      (simp add: same_data_def same_attributes_def merged_def blank_def no_attributes_def get_extended_type_def)
  ultimately show ?thesis by blast
qed

lemma node_read_back:
  assumes "data_kept d"
  shows "\<exists>ps. node_members ss d = Ok ps \<and> map_of ps ''FULL_PATH'' = Some (JStr (address_of ss)) \<and>
    (\<forall>j. map_of (ps @ [(''CONTENTS'', j)]) ''CONTENTS'' = Some j) \<and> map_of ps ''CONTENTS'' = None \<and>
    (\<forall>extra. set (map fst extra) \<subseteq> {''CONTENTS''} \<longrightarrow>
      (\<exists>d' cs. read_parameter io (ps @ extra) blank = Returned (d', cs) \<and> same_data d d'))"
proof (cases "d_parameter d")
  case None
  then show ?thesis
    using untyped_node_read [OF assms None] lookup_attributes(5) [of d "[]"] lookup_attributes(5) [of d "[(''CONTENTS'', _)]"]
    by (auto simp: node_members_def simp del: map_of_append)
next
  case (Some x)
  obtain vj rs dj where ps: "parameter_members d x = Ok (typed_members d x vj rs dj)"
      "value_to_json (p_unit x) (p_value x) = Ok vj" "range_member (p_domain x) = Ok rs" "set (map fst rs) \<subseteq> {''RANGE''}"
      "case a_default_value (d_attributes d) of None \<Rightarrow> dj = None | Some w \<Rightarrow> \<exists>j. dj = Some j \<and> value_to_json None w = Ok j"
    using members_written [OF assms Some] by blast
  have "map_of (typed_members d x vj rs dj @ attribute_members d @ extra) ''CONTENTS'' = map_of extra ''CONTENTS''" for extra
    by (simp add: typed_members_def lookup_written lookup_attributes lookup_range [OF ps(4)] lookup_unit del: map_of_append)
  note contents = this [of "[]"] this [of "[(''CONTENTS'', _)]"]
  then show ?thesis
    using typed_node_read [OF assms Some _ ps(2-5)] Some ps(1) by (auto simp: node_members_def simp del: map_of_append)
qed

section \<open>Trees that are read back\<close>

text \<open>The same tree, as far as documents carry it.\<close>

fun mirrors :: "entry \<Rightarrow> entry \<Rightarrow> bool" where
  "mirrors (Node s d cs) m \<longleftrightarrow>
     node_name m = s \<and> same_data (case d of Some x \<Rightarrow> x | None \<Rightarrow> blank) (data_of m) \<and> list_all2 mirrors cs (node_children m)"

fun tree_kept :: "entry \<Rightarrow> bool" where
  "tree_kept (Node s d cs) \<longleftrightarrow> data_kept (case d of Some x \<Rightarrow> x | None \<Rightarrow> blank) \<and> list_all tree_kept cs"

lemma create_then_new:
  assumes "valid_name s" "s \<notin> set (children_names m)" "f (Node s None []) = Returned (c, evs)"
  shows "\<exists>evs. create_then True s f m = Returned (set_children (node_children m @ [c]) m, evs)"
proof -
  have "find_child m s = None" using assms(2) by (simp add: find_child_def find_name_None)
  then show ?thesis
    using assms(1,3) by (simp add: create_then_def create_child_new on_child_def)
qed

lemma read_children:
  assumes "list_all2 (\<lambda>c j. \<exists>k evs. read_object True io j (Node (node_name c) None []) = Returned (k, evs) \<and> mirrors c k) cs js"
    and "distinct (children_names m @ map node_name cs)" "list_all valid_name (map node_name cs)"
  shows "\<exists>ks evs. do_all (\<lambda>(s, c) m. create_then True s (\<lambda>k. read_object True io c k) m) (zip (map node_name cs) js) m =
      Returned (set_children (node_children m @ ks) m, evs) \<and> list_all2 mirrors cs ks"
  using assms
proof (induction cs js arbitrary: m rule: list_all2_induct)
  case Nil
  then show ?case by (auto intro!: exI [of _ "[]"])
next
  case (Cons c cs j js)
  obtain k evs where k: "read_object True io j (Node (node_name c) None []) = Returned (k, evs)" "mirrors c k"
    using Cons.hyps by blast
  then have name: "node_name k = node_name c" by (cases c) auto
  obtain evs1 where new: "create_then True (node_name c) (\<lambda>k. read_object True io j k) m =
      Returned (set_children (node_children m @ [k]) m, evs1)"
    using create_then_new [of "node_name c" m "\<lambda>k. read_object True io j k" k evs] Cons.prems k(1) by auto
  have "distinct (children_names (set_children (node_children m @ [k]) m) @ map node_name cs)"
    using Cons.prems(1) name by (auto simp: children_names_def)
  then obtain ks evs2 where "do_all (\<lambda>(s, c) m. create_then True s (\<lambda>k. read_object True io c k) m) (zip (map node_name cs) js)
      (set_children (node_children m @ [k]) m) = Returned (set_children (node_children m @ k # ks) m, evs2)" "list_all2 mirrors cs ks"
    using Cons.IH [of "set_children (node_children m @ [k]) m"] Cons.prems(2) by auto
  then show ?case using new k(2) by (intro exI [of _ "k # ks"]) simp
qed

lemma write_read:
  "wf_tree n \<Longrightarrow> tree_kept n \<Longrightarrow>
   \<exists>ms. write_node ss n = Ok (JObj ms) \<and> map_of ms ''FULL_PATH'' = Some (JStr (address_of ss)) \<and>
     (\<forall>m. data_of m = blank \<longrightarrow> node_children m = [] \<longrightarrow>
       (\<exists>m' evs. read_object True io (JObj ms) m = Returned (m', evs) \<and> node_name m' = node_name m \<and>
         same_data (data_of n) (data_of m') \<and> list_all2 mirrors (node_children n) (node_children m')))"
proof (induction n arbitrary: ss)
  case (Node s d cs)
  let ?d = "case d of Some x \<Rightarrow> x | None \<Rightarrow> blank"
  have kept: "data_kept ?d" "\<And>c. c \<in> set cs \<Longrightarrow> tree_kept c" "\<And>c. c \<in> set cs \<Longrightarrow> wf_tree c"
      "distinct (map node_name cs)" "list_all valid_name (map node_name cs)"
    using Node.prems by (auto simp: list_all_iff)
  obtain ps where ps: "node_members ss ?d = Ok ps" "map_of ps ''FULL_PATH'' = Some (JStr (address_of ss))"
      "\<And>j. map_of (ps @ [(''CONTENTS'', j)]) ''CONTENTS'' = Some j" "map_of ps ''CONTENTS'' = None"
      "\<And>extra. set (map fst extra) \<subseteq> {''CONTENTS''} \<Longrightarrow>
        \<exists>d' cs. read_parameter io (ps @ extra) blank = Returned (d', cs) \<and> same_data ?d d'"
    using node_read_back [OF kept(1), of ss io] by blast
  have "\<forall>c \<in> set cs. \<exists>j. write_node (ss @ [node_name c]) c = Ok j \<and>
      (\<exists>k evs. read_object True io j (Node (node_name c) None []) = Returned (k, evs) \<and> mirrors c k)"
  proof
    fix c assume c: "c \<in> set cs"
    obtain ms where ms: "write_node (ss @ [node_name c]) c = Ok (JObj ms)"
      "\<And>m. data_of m = blank \<Longrightarrow> node_children m = [] \<Longrightarrow>
        \<exists>m' evs. read_object True io (JObj ms) m = Returned (m', evs) \<and> node_name m' = node_name m \<and>
         same_data (data_of c) (data_of m') \<and> list_all2 mirrors (node_children c) (node_children m')"
      using Node.IH [OF c kept(3) [OF c] kept(2) [OF c], of "ss @ [node_name c]"] by blast
    from ms(2) [of "Node (node_name c) None []"] obtain k evs where
      "read_object True io (JObj ms) (Node (node_name c) None []) = Returned (k, evs)" "node_name k = node_name c"
      "same_data (data_of c) (data_of k)" "list_all2 mirrors (node_children c) (node_children k)"
      by auto
    then show "\<exists>j. write_node (ss @ [node_name c]) c = Ok j \<and>
      (\<exists>k evs. read_object True io j (Node (node_name c) None []) = Returned (k, evs) \<and> mirrors c k)"
      using ms(1) by (cases c) (auto simp: data_of_def)
  qed
  then obtain js where js: "list_all2 (\<lambda>c j. write_node (ss @ [node_name c]) c = Ok j \<and>
      (\<exists>k evs. read_object True io j (Node (node_name c) None []) = Returned (k, evs) \<and> mirrors c k)) cs js"
    using list_all2_choose [of cs "\<lambda>c j. write_node (ss @ [node_name c]) c = Ok j \<and>
      (\<exists>k evs. read_object True io j (Node (node_name c) None []) = Returned (k, evs) \<and> mirrors c k)"] by blast
  then have js': "map_res (\<lambda>c. write_node (ss @ [node_name c]) c) cs = Ok js"
      "list_all2 (\<lambda>c j. \<exists>k evs. read_object True io j (Node (node_name c) None []) = Returned (k, evs) \<and> mirrors c k) cs js"
    by (auto simp: map_res_Ok_iff elim: list_all2_mono)
  define extra where "extra = (if cs = [] then [] else [(''CONTENTS'', JObj (zip (map node_name cs) js))])"
  have "contents (ps @ extra) = zip (map node_name cs) js"
    using ps(3,4) js'(2) by (auto simp: contents_def extra_def)
  note contents = this
  have read: "\<exists>m' evs. read_object True io (JObj (ps @ extra)) m = Returned (m', evs) \<and> node_name m' = node_name m \<and>
         same_data ?d (data_of m') \<and> list_all2 mirrors cs (node_children m')"
    if m: "data_of m = blank" "node_children m = []" for m
  proof -
    have "set (map fst extra) \<subseteq> {''CONTENTS''}" by (simp add: extra_def)
    then obtain d' ch where own: "read_parameter io (ps @ extra) blank = Returned (d', ch)" "same_data ?d d'" using ps(5) by blast
    have "map_of (ps @ extra) ''FULL_PATH'' \<noteq> None" using ps(2) by (auto simp: map_add_Some_iff)
    then have "read_own io (ps @ extra) m = Returned (with_data d' m, map (Changed []) ch)"
      using own(1) m(1) by (simp add: read_own_def on_data_def)
    moreover obtain ks evs where "do_all (\<lambda>(s, c) m. create_then True s (\<lambda>k. read_object True io c k) m) (contents (ps @ extra)) (with_data d' m) =
        Returned (set_children (node_children (with_data d' m) @ ks) (with_data d' m), evs)" "list_all2 mirrors cs ks"
      using read_children [OF js'(2), of "with_data d' m"] kept(4,5) m(2) contents by (auto simp: children_names_def)
    ultimately show ?thesis
      using own(2) m(2) by (subst read_object.simps) simp
  qed
  moreover have "map_of (ps @ extra) ''FULL_PATH'' = Some (JStr (address_of ss))"
    using ps(2) by (auto simp: extra_def map_add_Some_iff)
  moreover have "write_node ss (Node s d cs) = Ok (JObj (ps @ extra))" using ps(1) js'(1) by (simp add: extra_def)
  ultimately show ?case by (auto simp: data_of_def)
qed

section \<open>Documents over a tree that is there\<close>

text \<open>
  \<open>reloadObject\<close>: the children that the document does not name are marked as zombies, those it names
  no longer are.
\<close>

definition set_node_zombie :: "bool \<Rightarrow> entry \<Rightarrow> entry_step" where
  "set_node_zombie b = on_data (\<lambda>d. Returned (set_zombie b d))"

definition mark_missing :: "string list \<Rightarrow> entry \<Rightarrow> entry_step" where
  "mark_missing names n =
     do_all (\<lambda>i m. if i < length (node_children m) \<and> node_name (node_children m ! i) \<notin> set names
         then on_child i (set_node_zombie True) m else Returned (m, [])) [0..<length (node_children n)] n"

function reload_object :: "bool \<Rightarrow> text_io \<Rightarrow> json \<Rightarrow> entry \<Rightarrow> entry_step" where
  "reload_object ct io j n =
     (case j of
        JObj ms \<Rightarrow>
          then_do (then_do (read_own io ms n)
            (do_all (\<lambda>(s, c) m.
               case find_child m s of
                 None \<Rightarrow> create_then ct s (\<lambda>k. reload_object ct io c k) m
               | Some i \<Rightarrow> then_do (on_child i (set_node_zombie False) m) (on_child i (\<lambda>k. reload_object ct io c k)))
              (contents ms)))
            (mark_missing (map fst (contents ms)))
      | _ \<Rightarrow> Thrown Undefined_behaviour (n, []))"
  by pat_completeness auto
termination
  by (relation "measure (\<lambda>(_, _, j, _). size j)") (auto dest: size_contents)

declare reload_object.simps [simp del]

text \<open>\<open>clear_children\<close> and \<open>remove_parameter\<close> of a node, with the signals of the tree of parameters.\<close>

definition clear_entry :: "bool \<Rightarrow> entry \<Rightarrow> entry_step" where
  "clear_entry ct n = Returned (fst (clear_children ct n), map Tree_changed (snd (clear_children ct (parameters n))))"

definition remove_entry_parameter :: "entry \<Rightarrow> entry_step" where
  "remove_entry_parameter n =
     Returned (with_data ((data_of n)\<lparr>d_parameter := None\<rparr>) n, map Tree_changed (remove_parameter_events (parameters n)))"

definition replace_object :: "bool \<Rightarrow> text_io \<Rightarrow> json \<Rightarrow> entry \<Rightarrow> entry_step" where
  "replace_object ct io j n = then_do (then_do (clear_entry ct n) remove_entry_parameter) (read_object ct io j)"

text \<open>\<open>parse_namespace\<close>, which \<open>load_oscquery_device\<close> calls with a document that could be parsed.\<close>

definition parse_namespace :: "bool \<Rightarrow> text_io \<Rightarrow> json \<Rightarrow> entry \<Rightarrow> entry_step" where
  "parse_namespace ct io j device =
     (case j of
        JObj ms \<Rightarrow>
          (case map_of ms ''FULL_PATH'' of
             Some a \<Rightarrow> try_res (text_of a) (\<lambda>a n. case find_node n a of
                 Some q \<Rightarrow> on_place q (replace_object ct io j) n
               | None \<Rightarrow> Thrown Node_not_found (n, [])) device
           | None \<Rightarrow> replace_object ct io j device)
      | _ \<Rightarrow> Thrown Undefined_behaviour (device, []))"

text \<open>
  A device that is written and read by another one gives it the same tree, whatever was there; the
  attributes of the device itself are only replaced, so it must not have any.
\<close>

lemma namespace_mirrored:
  assumes "wf_tree n" "tree_kept n" "d_attributes (data_of m) = no_attributes"
  shows "\<exists>doc m' evs. write_node [] n = Ok doc \<and> parse_namespace True io doc m = Returned (m', evs) \<and>
    same_data (data_of n) (data_of m') \<and> list_all2 mirrors (node_children n) (node_children m')"
proof -
  obtain ms where ms: "write_node [] n = Ok (JObj ms)" "map_of ms ''FULL_PATH'' = Some (JStr ''/'')"
    "\<And>m. data_of m = blank \<Longrightarrow> node_children m = [] \<Longrightarrow>
      \<exists>m' evs. read_object True io (JObj ms) m = Returned (m', evs) \<and> node_name m' = node_name m \<and>
        same_data (data_of n) (data_of m') \<and> list_all2 mirrors (node_children n) (node_children m')"
    using write_read [OF assms(1,2), of "[]" io] by (auto simp: address_of_def)
  let ?m1 = "set_children [] m"
  let ?m2 = "with_data ((data_of m)\<lparr>d_parameter := None\<rparr>) ?m1"
  have "(data_of m)\<lparr>d_parameter := None\<rparr> = blank" using assms(3) by (cases "data_of m") (simp add: blank_def)
  then have "data_of ?m2 = blank" "node_children ?m2 = []" by simp_all
  then obtain m' evs where "read_object True io (JObj ms) ?m2 = Returned (m', evs)"
    "same_data (data_of n) (data_of m')" "list_all2 mirrors (node_children n) (node_children m')"
    using ms(3) by blast
  moreover have "find_node m ''/'' = Some []" by (simp add: find_node_def sanitize_address_def)
  ultimately show ?thesis
    using ms(1,2) by (simp add: parse_namespace_def text_of_def try_res_def replace_object_def clear_entry_def
        clear_children_def remove_entry_parameter_def)
qed

end
