(* ===== verification/Tree_Replay.thy ===== *)
theory Tree_Replay
  imports Node_Tree
begin

text \<open>
  What the signals of a tree say of it. The shape of a tree is the names of its nodes in their order;
  \<open>replay\<close> applies a signal to a shape, as an observer that only sees the signals would, and has no
  result when the signal does not fit. The signals of every operation of \<open>Node_Tree\<close> turn the shape of
  the tree before it into the one after it.
\<close>

section \<open>Shapes\<close>

fun shape :: "'p node \<Rightarrow> unit node" where
  "shape (Node s p cs) = Node s None (map shape cs)"

lemma shape_simps [simp]:
  "node_name (shape n) = node_name n" "node_param (shape n) = None"
  "node_children (shape n) = map shape (node_children n)"
  by (cases n; simp)+

lemma shape_names [simp]: "children_names (shape n) = children_names n" "find_child (shape n) = find_child n"
  by (simp_all add: children_names_def find_child_def fun_eq_iff comp_def)

lemma shape_set_children [simp]: "shape (set_children cs n) = set_children (map shape cs) (shape n)"
  by (cases n) (simp add: set_children_def)

lemma set_shape_children: "set_children (map shape (node_children n)) (shape n) = shape n"
  by (cases n) (simp add: set_children_def)

text \<open>Two trees have the same shape below their roots.\<close>

definition same_tree_shape :: "'p node \<Rightarrow> 'q node \<Rightarrow> bool" where
  "same_tree_shape n m \<longleftrightarrow> map shape (node_children n) = map shape (node_children m)"

lemma wf_shape [simp]: "wf_tree (shape n) \<longleftrightarrow> wf_tree n"
proof (induction n)
  case (Node s p cs)
  then have "list_all wf_tree (map shape cs) \<longleftrightarrow> list_all wf_tree cs" by (auto simp: list_all_iff)
  then show ?case by (simp add: comp_def)
qed

text \<open>The nodes below the root have names that are not empty, which the program does not ensure.\<close>

fun named :: "'p node \<Rightarrow> bool" where
  "named (Node s p cs) \<longleftrightarrow> [] \<notin> set (map node_name cs) \<and> list_all named cs"

lemma named_shape [simp]: "named (shape n) \<longleftrightarrow> named n"
proof (induction n)
  case (Node s p cs)
  then have "list_all named (map shape cs) \<longleftrightarrow> list_all named cs" by (auto simp: list_all_iff)
  then show ?case by (simp add: comp_def)
qed

lemma named_iff: "named n \<longleftrightarrow> [] \<notin> set (children_names n) \<and> list_all named (node_children n)"
  by (cases n) (simp add: children_names_def)

lemma named_child: "named n \<Longrightarrow> i < length (node_children n) \<Longrightarrow> named (node_children n ! i)"
  by (simp add: named_iff [of n] list_all_length)

section \<open>Replaying signals\<close>

text \<open>A change of the node that names lead to, which can fail.\<close>

fun alter :: "string list \<Rightarrow> (unit node \<Rightarrow> unit node option) \<Rightarrow> unit node \<Rightarrow> unit node option" where
  "alter [] f n = f n"
| "alter (s # ss) f n =
     (case find_child n s of
        None \<Rightarrow> None
      | Some i \<Rightarrow> map_option (\<lambda>c. set_children ((node_children n)[i := c]) n) (alter ss f (node_children n ! i)))"

definition add_named :: "string \<Rightarrow> unit node \<Rightarrow> unit node option" where
  "add_named t n =
     (if t \<noteq> [] \<and> valid_name t \<and> t \<notin> set (children_names n)
      then Some (set_children (node_children n @ [Node t None []]) n) else None)"

definition drop_named :: "string \<Rightarrow> unit node \<Rightarrow> unit node option" where
  "drop_named t n =
     (case find_child n t of
        Some i \<Rightarrow> Some (set_children (take i (node_children n) @ drop (i + 1) (node_children n)) n)
      | None \<Rightarrow> None)"

definition rename_named :: "string \<Rightarrow> string \<Rightarrow> unit node \<Rightarrow> unit node option" where
  "rename_named old t n =
     (case find_child n old of
        Some i \<Rightarrow>
          if t \<noteq> [] \<and> valid_name t \<and> t \<notin> set ((children_names n)[i := []]) then
            Some (set_children ((node_children n)[i := Node t None (node_children (node_children n ! i))]) n)
          else None
      | None \<Rightarrow> None)"

text \<open>The names of the node that a signal is about; the signal of the root itself is not about its shape.\<close>

fun replay :: "event \<Rightarrow> unit node \<Rightarrow> unit node option" where
  "replay (Created ss) n = (if ss = [] then Some n else alter (butlast ss) (add_named (last ss)) n)"
| "replay (Removing ss) n = (if ss = [] then Some n else alter (butlast ss) (drop_named (last ss)) n)"
| "replay (Parameter_removing ss) n = Some n"
| "replay (Renamed ss old) n = (if ss = [] then Some n else alter (butlast ss) (rename_named old (last ss)) n)"

fun replay_all :: "event list \<Rightarrow> unit node \<Rightarrow> unit node option" where
  "replay_all [] n = Some n"
| "replay_all (e # es) n = Option.bind (replay e n) (replay_all es)"

lemma replay_all_append: "replay_all (es @ fs) n = Option.bind (replay_all es n) (replay_all fs)"
  by (induction es arbitrary: n) (auto split: bind_splits)

section \<open>A good tree stays good\<close>

definition good_tree :: "'p node \<Rightarrow> bool" where
  "good_tree n \<longleftrightarrow> wf_tree n \<and> named n"

lemma good_shape [simp]: "good_tree (shape n) \<longleftrightarrow> good_tree n"
  by (simp add: good_tree_def)

lemma good_iff:
  "good_tree n \<longleftrightarrow> distinct (children_names n) \<and>
     (\<forall>s\<in>set (children_names n). valid_name s \<and> s \<noteq> []) \<and> list_all good_tree (node_children n)"
proof (cases n)
  case (Node s p cs)
  have "[] \<notin> node_name ` set cs \<longleftrightarrow> (\<forall>c\<in>set cs. node_name c \<noteq> [])" by (auto simp: image_iff)
  then show ?thesis by (auto simp: Node good_tree_def children_names_def list_all_iff)
qed

lemma good_child: "good_tree n \<Longrightarrow> i < length (node_children n) \<Longrightarrow> good_tree (node_children n ! i)"
  by (simp add: good_tree_def wf_child named_child)

lemma good_leaf [simp]: "good_tree (Node s p [])"
  by (simp add: good_tree_def)

lemma good_tree_update:
  assumes "good_tree n" "good_tree c" "node_name c = node_name (node_children n ! i)"
  shows "good_tree (set_children ((node_children n)[i := c]) n)"
proof -
  have "list_all good_tree ((node_children n)[i := c])"
    using assms(1,2) good_iff [of n] by (auto simp: list_all_iff dest: set_update_subset_insert [THEN subsetD])
  then show ?thesis
    using assms(1) by (simp add: good_iff [of n] good_iff [of "set_children _ _"] names_update [OF assms(3)])
qed

lemma add_named_good: "add_named t n = Some m \<Longrightarrow> good_tree n \<Longrightarrow> good_tree m"
  by (auto simp: add_named_def good_iff [of n] good_iff [of "set_children _ _"] children_names_def split: if_splits)

lemma drop_named_good:
  assumes "drop_named t n = Some m" "good_tree n"
  shows "good_tree m"
proof -
  obtain i where m: "m = set_children (take i (node_children n) @ drop (i + 1) (node_children n)) n"
    using assms(1) by (auto simp: drop_named_def split: option.splits if_splits)
  have names: "children_names m = take i (children_names n) @ drop (i + 1) (children_names n)"
    by (simp add: m children_names_def take_map drop_map)
  have "set (children_names m) \<subseteq> set (children_names n)" "set (node_children m) \<subseteq> set (node_children n)"
    unfolding names by (auto simp: m dest: in_set_takeD in_set_dropD)
  moreover have "distinct (children_names m)"
    using assms(2) by (simp add: names good_iff [of n] set_take_disj_set_drop_if_distinct)
  ultimately show ?thesis using assms(2) by (auto simp: good_iff [of n] good_iff [of m] list_all_iff)
qed

lemma rename_named_good:
  assumes "rename_named old t n = Some m" "good_tree n"
  shows "good_tree m"
proof -
  obtain i where i: "find_child n old = Some i" "t \<noteq> []" "valid_name t" "t \<notin> set ((children_names n)[i := []])"
    and m: "m = set_children ((node_children n)[i := Node t None (node_children (node_children n ! i))]) n"
    using assms(1) by (auto simp: rename_named_def split: option.splits if_splits)
  have bound: "i < length (node_children n)" using find_child_Some [OF i(1)] by simp
  have other: "children_names n ! j \<noteq> t" if "j < length (node_children n)" "j \<noteq> i" for j
    using i(4) that by (auto simp: in_set_conv_nth children_names_def nth_list_update)
  have names: "map node_name ((node_children n)[i := Node t None (node_children (node_children n ! i))]) =
      (children_names n)[i := t]"
    by (simp add: map_update children_names_def)
  have "distinct ((children_names n)[i := t])"
    using assms(2) other other [symmetric] bound
    by (auto simp: good_iff [of n] distinct_conv_nth nth_list_update children_names_def)
  moreover have "\<forall>s\<in>set ((children_names n)[i := t]). valid_name s \<and> s \<noteq> []"
    using assms(2) i(2,3) by (auto simp: good_iff [of n] dest: set_update_subset_insert [THEN subsetD])
  moreover have "good_tree (Node t None (node_children (node_children n ! i)))"
    using good_child [OF assms(2) bound] by (cases "node_children n ! i") (simp add: good_tree_def)
  then have "list_all good_tree ((node_children n)[i := Node t None (node_children (node_children n ! i))])"
    using assms(2) by (auto simp: good_iff [of n] list_all_iff dest: set_update_subset_insert [THEN subsetD])
  ultimately show ?thesis by (simp add: m good_iff [of "set_children _ _"] names)
qed

lemma alter_keeps_name:
  "alter ss f n = Some m \<Longrightarrow> (\<And>k l. f k = Some l \<Longrightarrow> node_name l = node_name k) \<Longrightarrow> node_name m = node_name n"
  by (cases ss) (auto split: option.splits)

lemma changes_keep_name:
  "add_named t n = Some m \<Longrightarrow> node_name m = node_name n"
  "drop_named t n = Some m \<Longrightarrow> node_name m = node_name n"
  "rename_named old t n = Some m \<Longrightarrow> node_name m = node_name n"
  by (auto simp: add_named_def drop_named_def rename_named_def split: if_splits option.splits)

lemma alter_good:
  assumes "\<And>k l. f k = Some l \<Longrightarrow> node_name l = node_name k" "\<And>k l. f k = Some l \<Longrightarrow> good_tree k \<Longrightarrow> good_tree l"
  shows "alter ss f n = Some m \<Longrightarrow> good_tree n \<Longrightarrow> good_tree m"
proof (induction ss arbitrary: n m)
  case Nil
  then show ?case using assms(2) by simp
next
  case (Cons s ss)
  then obtain i c where i: "find_child n s = Some i" "alter ss f (node_children n ! i) = Some c"
    "m = set_children ((node_children n)[i := c]) n"
    by (auto split: option.splits)
  note bound = find_child_Some [OF i(1)]
  show ?case
    unfolding i(3) using Cons.IH [OF i(2)] Cons.prems(2) good_child bound alter_keeps_name [OF i(2) assms(1)]
    by (intro good_tree_update) auto
qed

lemma replay_good: "replay e n = Some m \<Longrightarrow> good_tree n \<Longrightarrow> good_tree m"
  by (cases e) (auto split: if_splits intro: alter_good
      add_named_good drop_named_good rename_named_good changes_keep_name)

lemma replay_keeps_name: "replay e n = Some m \<Longrightarrow> node_name m = node_name n"
  by (cases e) (auto split: if_splits intro: alter_keeps_name changes_keep_name)

lemma replay_all_keeps_name: "replay_all es n = Some m \<Longrightarrow> node_name m = node_name n"
  by (induction es arbitrary: n) (auto split: bind_splits dest: replay_keeps_name)


section \<open>Signals seen from a parent\<close>

fun about :: "event \<Rightarrow> string list" where
  "about (Created ss) = ss"
| "about (Removing ss) = ss"
| "about (Parameter_removing ss) = ss"
| "about (Renamed ss old) = ss"

lemma alter_alter:
  assumes "alter ss f n = Some m" "\<And>k l. f k = Some l \<Longrightarrow> node_name l = node_name k"
  shows "alter ss g m = alter ss (\<lambda>k. Option.bind (f k) g) n"
  using assms(1)
proof (induction ss arbitrary: n m)
  case (Cons s ss)
  then obtain i c where i: "find_child n s = Some i" "alter ss f (node_children n ! i) = Some c"
    "m = set_children ((node_children n)[i := c]) n"
    by (auto split: option.splits)
  have "find_child m s = Some i"
    unfolding i(3) using i(1) alter_keeps_name [OF i(2) assms(2)] by (simp add: find_child_update)
  then show ?case
    using i Cons.IH [OF i(2)] find_child_Some [OF i(1)] by (simp add: option.map_comp comp_def)
qed simp

lemma alter_None: "alter ss f n = None \<Longrightarrow> alter ss (\<lambda>k. Option.bind (f k) g) n = None"
  by (induction ss arbitrary: n) (auto split: option.splits)

lemma alter_some: "alter [s] Some n = Some n \<longleftrightarrow> find_child n s \<noteq> None"
  by (auto split: option.splits dest: find_child_Some)

lemma alter_append: "alter (ss @ ts) f = alter ss (alter ts f)"
  by (induction ss) (auto simp: fun_eq_iff split: option.splits)

lemma replay_below:
  "about e \<noteq> [] \<Longrightarrow> (\<And>ss. e \<noteq> Parameter_removing ss) \<Longrightarrow> replay (below s e) n = alter [s] (replay e) n"
proof -
  assume *: "about e \<noteq> []" "\<And>ss. e \<noteq> Parameter_removing ss"
  have app: "alter (s # butlast ss) f n = alter [s] (alter (butlast ss) f) n" for ss f
    using alter_append [of "[s]" "butlast ss" f] by simp
  show ?thesis using * app by (cases e) (auto split: option.splits)
qed

lemma replay_below_found:
  assumes "about e \<noteq> [] \<or> (\<exists>ss. e = Parameter_removing ss)" "find_child n s \<noteq> None"
  shows "replay (below s e) n = alter [s] (replay e) n"
proof (cases "\<exists>ss. e = Parameter_removing ss")
  case True
  then show ?thesis using alter_some [of s n] assms(2) by auto
next
  case False
  then show ?thesis using replay_below assms(1) by blast
qed

lemma alter_found: "alter [s] f n = Some m \<Longrightarrow> find_child n s \<noteq> None"
  by (auto split: option.splits)

lemma alter_still_found:
  "alter [s] f n = Some m \<Longrightarrow> (\<And>k l. f k = Some l \<Longrightarrow> node_name l = node_name k) \<Longrightarrow> find_child m s = find_child n s"
  by (auto simp: find_child_update split: option.splits)

definition inner :: "event \<Rightarrow> bool" where
  "inner e \<longleftrightarrow> about e \<noteq> [] \<or> (\<exists>ss. e = Parameter_removing ss)"

lemma about_below [simp]: "about (below s e) = s # about e"
  by (cases e) simp_all

lemma inner_below [simp]: "inner (below s e)"
  by (simp add: inner_def)

lemma replay_all_below:
  "list_all inner es \<Longrightarrow> find_child n s \<noteq> None \<Longrightarrow> replay_all (map (below s) es) n = alter [s] (replay_all es) n"
proof (induction es arbitrary: n)
  case Nil
  have "replay_all [] = Some" by (simp add: fun_eq_iff)
  then show ?case using Nil alter_some [of s n] by (simp del: alter.simps)
next
  case (Cons e es)
  then have e: "replay (below s e) n = alter [s] (replay e) n"
    by (intro replay_below_found) (auto simp: inner_def)
  show ?case
  proof (cases "alter [s] (replay e) n")
    case None
    then show ?thesis using alter_None [OF None, of "replay_all es"] e by simp
  next
    case (Some m)
    have "find_child m s \<noteq> None"
      using alter_still_found [OF Some replay_keeps_name] alter_found [OF Some] by simp
    then have "replay_all (map (below s) es) m = alter [s] (replay_all es) m" using Cons by simp
    also have "\<dots> = alter [s] (\<lambda>k. Option.bind (replay e k) (replay_all es)) n"
      by (rule alter_alter [OF Some]) (rule replay_keeps_name)
    finally show ?thesis using e Some by simp
  qed
qed

section \<open>The signals of an operation\<close>

text \<open>An operation whose signals, replayed, give the shape it leaves.\<close>

definition replayed :: "'p node \<Rightarrow> event list \<Rightarrow> 'q node \<Rightarrow> bool" where
  "replayed n evs m \<longleftrightarrow> list_all inner evs \<and> replay_all evs (shape n) = Some (shape m)"

lemma replayed_refl: "replayed n [] n"
  by (simp add: replayed_def)

lemma replayed_trans: "replayed n es m \<Longrightarrow> replayed m fs k \<Longrightarrow> replayed n (es @ fs) k"
  by (simp add: replayed_def replay_all_append)

lemma replayed_child:
  assumes "replayed (node_children n ! i) evs c" "find_child n (node_name (node_children n ! i)) = Some i"
  shows "replayed n (map (below (node_name (node_children n ! i))) evs) (set_children ((node_children n)[i := c]) n)"
proof -
  let ?s = "node_name (node_children n ! i)"
  have found: "find_child (shape n) ?s = Some i" and bound: "i < length (node_children n)"
    using assms(2) find_child_Some [OF assms(2)] by simp_all
  have "replay_all (map (below ?s) evs) (shape n) = alter [?s] (replay_all evs) (shape n)"
    using assms(1) found by (intro replay_all_below) (simp_all add: replayed_def)
  also have "\<dots> = Some (set_children ((map shape (node_children n))[i := shape c]) (shape n))"
    using assms(1) found bound by (simp add: replayed_def)
  finally show ?thesis by (simp add: replayed_def list_all_iff map_update)
qed

lemma clear_replayed: "list_all inner (clear_events n) \<and> replay_all (clear_events n) (shape n) = Some (set_children [] (shape n))"
proof (induction n)
  case (Node s p cs)
  let ?out = "\<lambda>c. map (below (node_name c)) (clear_events c @ remove_parameter_events c @ [Removing []])"
  have "replay_all (concat (map ?out ds)) (Node s None (map shape ds)) = Some (Node s None [])" if "set ds \<subseteq> set cs" for ds
    using that
  proof (induction ds)
    case (Cons c ds)
    let ?n = "Node s None (map shape (c # ds))" and ?t = "node_name c"
    have found: "find_child ?n ?t = Some 0" by (simp add: find_child_def children_names_def)
    have c: "list_all inner (clear_events c)" "replay_all (clear_events c) (shape c) = Some (set_children [] (shape c))"
      using Node Cons.prems by auto
    let ?m = "Node s None (set_children [] (shape c) # map shape ds)"
    have 1: "replay_all (map (below ?t) (clear_events c)) ?n = Some ?m"
      using replay_all_below [OF c(1), of ?n ?t] found c(2) by (simp add: set_children_def)
    have 2: "replay_all (map (below ?t) (remove_parameter_events c)) ?m = Some ?m"
      by (simp add: remove_parameter_events_def split: option.splits)
    have "find_child ?m ?t = Some 0" by (simp add: find_child_def children_names_def)
    then have 3: "replay (Removing [?t]) ?m = Some (Node s None (map shape ds))"
      by (simp add: drop_named_def set_children_def)
    have "replay_all (?out c) ?n = Some (Node s None (map shape ds))"
      using 1 2 3 by (simp add: replay_all_append)
    then have "replay_all (?out c @ concat (map ?out ds)) ?n = Some (Node s None [])"
      using Cons by (simp only: replay_all_append [of "?out c"] Option.bind.bind_lunit) simp
    then show ?case by simp
  qed simp
  moreover have "list_all inner (clear_events (Node s p cs))" by (auto simp: list_all_iff inner_def)
  ultimately show ?case by (simp add: set_children_def)
qed

lemma take_out_replayed:
  assumes "wf_tree n" "i < length (node_children n)"
  shows "replayed n (fst (snd (take_out n i))) (fst (take_out n i))"
proof -
  let ?c = "node_children n ! i" and ?m = "set_children ((node_children n)[i := set_children [] (node_children n ! i)]) n"
  have found: "find_child n (node_name ?c) = Some i" by (rule find_child_unique [OF assms])
  have 1: "replayed n (map (below (node_name ?c)) (clear_events ?c)) ?m"
    using replayed_child [OF _ found, of "clear_events ?c" "set_children [] ?c"] clear_replayed [of ?c]
    by (simp add: replayed_def)
  have "find_child (shape ?m) (node_name ?c) = Some i"
    using found by (simp only: shape_names) (simp add: find_child_update)
  then have 2: "replayed ?m (map (below (node_name ?c)) [Removing []]) (fst (take_out n i))"
    using assms(2) by (simp add: replayed_def inner_def drop_named_def take_out_def Let_def take_map drop_map)
  have 3: "replayed (fst (take_out n i)) (map (below (node_name ?c)) (remove_parameter_events ?c)) (fst (take_out n i))"
    by (simp add: replayed_def inner_def remove_parameter_events_def split: option.splits)
  show ?thesis
    using replayed_trans [OF replayed_trans [OF 1 2] 3] by (simp add: take_out_def Let_def)
qed

lemma remove_child_replayed:
  "wf_tree n \<Longrightarrow> replayed n (fst (snd (remove_child ct n s))) (fst (remove_child ct n s))"
  by (auto simp: remove_child_def find_name_Some children_names_def replayed_refl intro: take_out_replayed
      split: option.splits)

lemma remove_child_at_replayed:
  "wf_tree n \<Longrightarrow> replayed n (fst (snd (remove_child_at ct n i))) (fst (remove_child_at ct n i))"
  by (simp add: remove_child_at_def replayed_refl take_out_replayed)

lemma clear_children_replayed: "replayed n (snd (clear_children ct n)) (fst (clear_children ct n))"
  using clear_replayed [of n] by (simp add: clear_children_def replayed_refl) (simp add: replayed_def)

text \<open>A name that is not empty does not become empty.\<close>

lemma sanitize_among_nonempty: "sanitize_name_among s ss = Ok t \<Longrightarrow> s \<noteq> [] \<Longrightarrow> t \<noteq> []"
  using sanitize_name_length [of s]
  by (auto simp: sanitize_name_among_def instance_name_def Let_def split: if_splits)

lemma create_child_replayed:
  assumes "create_child ct n s = Ok (m, evs, r)" "s \<noteq> []"
  shows "replayed n evs m"
proof (cases r)
  case None
  then show ?thesis using assms(1) by (simp add: create_child_None replayed_refl)
next
  case (Some i)
  then obtain t where t: "sanitize_name_among s (children_names n) = Ok t" "evs = [Created [t]]"
    "m = set_children (node_children n @ [Node t None []]) n"
    using assms(1) by (auto elim: create_child_Ok)
  then show ?thesis
    using sanitize_among_nonempty [OF t(1) assms(2)] sanitize_name_among_valid [OF t(1)]
      sanitize_name_among_fresh [OF t(1)]
    by (simp add: replayed_def inner_def add_named_def)
qed

lemma set_child_name_replayed:
  assumes "set_child_name n i s = Ok (m, evs)" "s \<noteq> []" "wf_tree n" "i < length (node_children n)"
  shows "replayed n evs m"
proof -
  let ?c = "node_children n ! i"
  obtain t where t: "sanitize_name_among s ((children_names n)[i := []]) = Ok t" "evs = [Renamed [t] (node_name ?c)]"
    "m = set_children ((node_children n)[i := Node t (node_param ?c) (node_children ?c)]) n"
    using assms(1) by (auto simp: set_child_name_def sanitize_child_name_def children_names_def map_update Let_def)
  have "find_child (shape n) (node_name ?c) = Some i"
    using find_child_unique [OF assms(3,4)] by simp
  then have "replay (Renamed [t] (node_name ?c)) (shape n) = Some (shape m)"
    using sanitize_among_nonempty [OF t(1) assms(2)] sanitize_name_among_valid [OF t(1)]
      sanitize_name_among_fresh [OF t(1)] assms(4)
    by (simp add: rename_named_def t(3) map_update)
  then show ?thesis by (simp add: replayed_def t(2) inner_def)
qed

lemma replayed_good: "replayed n evs m \<Longrightarrow> good_tree n \<Longrightarrow> good_tree m"
proof -
  have "replay_all evs k = Some l \<Longrightarrow> good_tree k \<Longrightarrow> good_tree l" for k l
    by (induction evs arbitrary: k) (auto split: bind_splits dest: replay_good)
  then show "replayed n evs m \<Longrightarrow> good_tree n \<Longrightarrow> good_tree m" unfolding replayed_def by fastforce
qed

end
