(* ===== verification/Oscquery_Mirror.thy ===== *)
theory Oscquery_Mirror
  imports Oscquery_Nodes Tree_Replay Preset
begin

text \<open>
  The messages by which a server of OSCQuery tells its mirrors what changes in its tree
  (\<open>json_writer_detail.cpp\<close>, \<open>oscquery_server.cpp\<close>), and what a mirror does with them
  (\<open>json_reader_detail.cpp\<close>, \<open>oscquery_mirror.cpp\<close>): some are handled at once, the changes of the tree
  are queued until the application calls \<open>run_commands\<close>. A message is the document it is parsed to,
  \<open>null\<close> for one that is malformed. What the mirror sends (requests over HTTP, messages of the
  websocket) and the signals of its device are the events of a step; the callback that tells the
  application that there are commands is not modelled, nor are the sockets.
\<close>

section \<open>Messages\<close>

definition command_message :: "string \<Rightarrow> json \<Rightarrow> json" where
  "command_message c dat = JObj [(''COMMAND'', JStr c), (''DATA'', dat)]"

definition path_added :: "string \<Rightarrow> json" where
  "path_added a = command_message ''PATH_ADDED'' (JStr a)"

definition path_changed :: "string \<Rightarrow> json" where
  "path_changed a = command_message ''PATH_CHANGED'' (JStr a)"

definition path_removed :: "string \<Rightarrow> json" where
  "path_removed a = command_message ''PATH_REMOVED'' (JStr a)"

definition path_renamed :: "string \<Rightarrow> string \<Rightarrow> json" where
  "path_renamed old a = command_message ''PATH_RENAMED'' (JObj [(''OLD'', JStr old), (''NEW'', JStr a)])"

definition listen_message :: "string \<Rightarrow> json" where
  "listen_message a = command_message ''LISTEN'' (JStr a)"

definition ignore_message :: "string \<Rightarrow> json" where
  "ignore_message a = command_message ''IGNORE'' (JStr a)"

definition start_osc_streaming :: "int \<Rightarrow> int \<Rightarrow> json" where
  "start_osc_streaming server_port sender_port =
     command_message ''START_OSC_STREAMING''
       (JObj [(''LOCAL_SERVER_PORT'', JInt server_port), (''LOCAL_SENDER_PORT'', JInt sender_port)])"

definition device_info :: "int \<Rightarrow> json" where
  "device_info port = JObj [(''OSC_PORT'', JInt port)]"

definition extensions :: "(string \<times> bool) list" where
  "extensions =
     map (\<lambda>k. (k, True)) [''TYPE'', ''ACCESS'', ''VALUE'', ''RANGE'', ''TAGS'', ''CLIPMODE'', ''UNIT'', ''CRITICAL'',
       ''DESCRIPTION'', ''HTML'', ''OSC_STREAMING'', ''LISTEN'', ''ECHO''] @
     [(''PATH_CHANGED'', False), (''PATH_RENAMED'', True), (''PATH_ADDED'', True), (''PATH_REMOVED'', True)]"

definition query_host_info :: "string \<Rightarrow> int \<Rightarrow> json" where
  "query_host_info device_name port =
     JObj [(''NAME'', JStr device_name), (''OSC_PORT'', JInt port), (''OSC_TRANSPORT'', JStr ''UDP''),
       (''EXTENSIONS'', JObj (map (\<lambda>(k, b). (k, JBool b)) extensions))]"

text \<open>The key that stands for an attribute in the documents, by the text that the device signals it with.\<close>

definition osc_keys :: "(string \<times> string) list" where
  "osc_keys =
     [(''type'', ''TYPE''), (''value'', ''VALUE''), (''domain'', ''RANGE''), (''access'', ''ACCESS''),
      (''bounding'', ''CLIPMODE''), (''repetition_filter'', ''REPETITION_FILTER''), (''unit'', ''UNIT''),
      (''valueDefault'', ''DEFAULT_VALUE''), (''tags'', ''TAGS''), (''refreshRate'', ''REFRESH_RATE''),
      (''priority'', ''PRIORITY''), (''valueStepsize'', ''STEP_SIZE''), (''instanceBounds'', ''INSTANCE_BOUNDS''),
      (''critical'', ''CRITICAL''), (''hidden'', ''HIDDEN''), (''disabled'', ''DISABLED''),
      (''extended_type'', ''EXTENDED_TYPE''), (''description'', ''DESCRIPTION''), (''appName'', ''APP_NAME''),
      (''appCreator'', ''APP_CREATOR''), (''appVersion'', ''APP_VERSION'')]"

definition ossia_to_oscquery_key :: "string \<Rightarrow> string option" where
  "ossia_to_oscquery_key s = map_of osc_keys s"

definition oscquery_to_ossia_key :: "string \<Rightarrow> string option" where
  "oscquery_to_ossia_key s = map_of (map (\<lambda>(a, b). (b, a)) osc_keys) s"

lemma keys_inverse: "ossia_to_oscquery_key s = Some k \<Longrightarrow> oscquery_to_ossia_key k = Some s"
proof -
  have "list_all (\<lambda>(a, b). oscquery_to_ossia_key b = Some a) osc_keys" by code_simp
  then show "ossia_to_oscquery_key s = Some k \<Longrightarrow> oscquery_to_ossia_key k = Some s"
    by (auto simp: ossia_to_oscquery_key_def list_all_iff dest!: map_of_SomeD)
qed

fun attribute_text :: "attribute \<Rightarrow> string" where
  "attribute_text Value_type_attr = ''type''"
| "attribute_text Access_mode_attr = ''access''"
| "attribute_text Domain_attr = ''domain''"
| "attribute_text Bounding_mode_attr = ''bounding''"
| "attribute_text Unit_attr = ''unit''"
| "attribute_text Repetition_filter_attr = ''repetition_filter''"
| "attribute_text Disabled_attr = ''disabled''"
| "attribute_text Muted_attr = ''muted''"
| "attribute_text Critical_attr = ''critical''"

definition optional_json :: "('a \<Rightarrow> json) \<Rightarrow> 'a option \<Rightarrow> json" where
  "optional_json f x = (case x of Some y \<Rightarrow> f y | None \<Rightarrow> JNull)"

text \<open>
  \<open>writeAttribute\<close>: the getter of the attribute applied to the node. The unit is written as a truth
  value, to which it converts.
\<close>

definition write_attribute :: "string list \<Rightarrow> node_data \<Rightarrow> string \<Rightarrow> json res" where
  "write_attribute ss d key =
     (let x = d_parameter d; a = d_attributes d; u = (case x of Some p \<Rightarrow> p_unit p | None \<Rightarrow> None)
      in if key = ''FULL_PATH'' then Ok (JStr (address_of ss))
      else if key = ''TYPE'' then
        Ok (optional_json (\<lambda>p. JStr (get_osc_typetag (p_unit p) (get_extended_type d) (p_value p))) x)
      else if key = ''VALUE'' then value_to_json u (case x of Some p \<Rightarrow> p_value p | None \<Rightarrow> VUnset)
      else if key = ''RANGE'' then
        res_bind (domain_to_json (case x of Some p \<Rightarrow> p_domain p | None \<Rightarrow> DNone))
          (\<lambda>j. case j of Some j \<Rightarrow> Ok j | None \<Rightarrow> Err Undefined_behaviour)
      else if key = ''ACCESS'' then Ok (optional_json (\<lambda>p. JInt (access_number (p_access p))) x)
      else if key = ''CLIPMODE'' then Ok (optional_json (\<lambda>p. JStr (bounding_text (p_bounding p))) x)
      else if key = ''REPETITION_FILTER'' then Ok (JBool (case x of Some p \<Rightarrow> p_rep_filter p | None \<Rightarrow> False))
      else if key = ''UNIT'' then Ok (JBool (u \<noteq> None))
      else if key = ''DEFAULT_VALUE'' then
        (case a_default_value a of Some v \<Rightarrow> value_to_json u v | None \<Rightarrow> Ok JNull)
      else if key = ''TAGS'' then Ok (optional_json (\<lambda>ts. JArr (map JStr ts)) (a_tags a))
      else if key = ''REFRESH_RATE'' then Ok (optional_json (\<lambda>n. JInt (sint n)) (a_refresh_rate a))
      else if key = ''PRIORITY'' then Ok (optional_json float_json (a_priority a))
      else if key = ''STEP_SIZE'' then Ok (optional_json float_json (a_step_size a))
      else if key = ''INSTANCE_BOUNDS'' then Ok (optional_json bounds_json (a_instance_bounds a))
      else if key = ''CRITICAL'' then Ok (JBool (case x of Some p \<Rightarrow> p_critical p | None \<Rightarrow> False))
      else if key = ''HIDDEN'' then Ok (JBool (a_hidden a))
      else if key = ''DISABLED'' then Ok (JBool (case x of Some p \<Rightarrow> p_disabled p | None \<Rightarrow> False))
      else if key = ''EXTENDED_TYPE'' then Ok (optional_json JStr (get_extended_type d))
      else if key = ''DESCRIPTION'' then Ok (optional_json JStr (a_description a))
      else if key = ''APP_NAME'' then Ok (optional_json JStr (a_app_name a))
      else if key = ''APP_CREATOR'' then Ok (optional_json JStr (a_app_creator a))
      else if key = ''APP_VERSION'' then Ok (optional_json JStr (a_app_version a))
      else Err Bad_request)"

text \<open>An attribute that has no key gives a message with only the address; the type comes with the extended type.\<close>

definition attribute_members_of :: "string list \<Rightarrow> node_data \<Rightarrow> string \<Rightarrow> (string \<times> json) list res" where
  "attribute_members_of ss d attr =
     (case ossia_to_oscquery_key attr of
        None \<Rightarrow> Ok []
      | Some k \<Rightarrow>
          map_res (\<lambda>k. res_map (Pair k) (write_attribute ss d k)) (if k = ''TYPE'' then [k, ''EXTENDED_TYPE''] else [k]))"

definition attribute_changed :: "string list \<Rightarrow> node_data \<Rightarrow> string \<Rightarrow> json res" where
  "attribute_changed ss d attr =
     res_map (\<lambda>ms. command_message ''ATTRIBUTES_CHANGED'' (JObj ((''FULL_PATH'', JStr (address_of ss)) # ms)))
       (attribute_members_of ss d attr)"

text \<open>The message of several attributes, which leaves out the extended type.\<close>

definition attributes_changed :: "string list \<Rightarrow> node_data \<Rightarrow> string list \<Rightarrow> json res" where
  "attributes_changed ss d attrs =
     res_map (\<lambda>ms. command_message ''ATTRIBUTES_CHANGED'' (JObj ((''FULL_PATH'', JStr (address_of ss)) # ms)))
       (map_res (\<lambda>k. res_map (Pair k) (write_attribute ss d k)) (List.map_filter ossia_to_oscquery_key attrs))"

lemma one_attribute_changed:
  "ossia_to_oscquery_key attr \<noteq> Some ''TYPE'' \<Longrightarrow> attributes_changed ss d [attr] = attribute_changed ss d attr"
  by (cases "ossia_to_oscquery_key attr")
    (auto simp: attributes_changed_def attribute_changed_def attribute_members_of_def map_filter_simps)

section \<open>What the server sends\<close>

text \<open>
  The messages for a signal of its device, each to all its clients; \<open>look\<close> gives the data of the node
  that the signal is about when it is emitted. What cannot be written is logged and not sent. The
  address before a renaming is made from the one after it.
\<close>

definition old_address :: "string \<Rightarrow> string \<Rightarrow> string" where
  "old_address a old = rev (dropWhile (\<lambda>c. c \<noteq> CHR ''/'') (rev a)) @ old"

definition on_attribute_changed :: "string list \<Rightarrow> node_data \<Rightarrow> string \<Rightarrow> json list res" where
  "on_attribute_changed ss d attr =
     (case attribute_changed ss d attr of
        Ok j \<Rightarrow> Ok [j]
      | Err e \<Rightarrow> if e = Undefined_behaviour then Err e else Ok [])"

fun on_signal :: "(string list \<Rightarrow> node_data) \<Rightarrow> node_event \<Rightarrow> json list res" where
  "on_signal look (Tree_changed (Created ss)) = Ok [path_added (address_of ss)]"
| "on_signal look (Tree_changed (Removing ss)) = Ok [path_removed (address_of ss)]"
| "on_signal look (Tree_changed (Renamed ss old)) =
     Ok [path_renamed (old_address (address_of ss) old) (address_of ss)]"
| "on_signal look (Tree_changed (Parameter_removing ss)) = on_attribute_changed ss (look ss) ''type''"
| "on_signal look (Changed ss (Attribute_set key)) = on_attribute_changed ss (look ss) key"
| "on_signal look (Changed ss (Of_parameter (Modified a))) = on_attribute_changed ss (look ss) (attribute_text a)"
| "on_signal look (Changed ss (Of_parameter Parameter_created)) = on_attribute_changed ss (look ss) ''type''"
| "on_signal look (Changed ss (Of_parameter (Sent v))) = Ok []"
| "on_signal look (Changed ss (Of_parameter (Pushed v))) = Ok []"
| "on_signal look (Changed ss (Of_parameter (Extended_type e))) = Ok []"

section \<open>Changes of the tree of a mirror\<close>

text \<open>A child of a node removed and renamed, and a node of the tree wherever it is.\<close>

definition remove_entry_child :: "bool \<Rightarrow> nat \<Rightarrow> entry \<Rightarrow> entry_step" where
  "remove_entry_child ct i n =
     Returned (fst (remove_child_at ct n i), map Tree_changed (fst (snd (remove_child_at ct (parameters n) i))))"

definition rename_entry_child :: "nat \<Rightarrow> string \<Rightarrow> entry \<Rightarrow> entry_step" where
  "rename_entry_child i s n =
     (case set_child_name n i s of
        Ok (m, evs) \<Rightarrow> Returned (m, map Tree_changed evs)
      | Err e \<Rightarrow> Thrown e (n, []))"

definition remove_entry :: "bool \<Rightarrow> nat list \<Rightarrow> entry \<Rightarrow> entry_step" where
  "remove_entry ct q n =
     (if q = [] then Thrown Undefined_behaviour (n, [])
      else on_place (butlast q) (remove_entry_child ct (last q)) n)"

definition rename_entry :: "nat list \<Rightarrow> string \<Rightarrow> entry \<Rightarrow> entry_step" where
  "rename_entry q s n =
     (if q = [] then Returned (fst (set_root_name n s), map Tree_changed (snd (set_root_name n s)))
      else on_place (butlast q) (rename_entry_child (last q) s) n)"

definition split_parent_child :: "string \<Rightarrow> (string \<times> string) option" where
  "split_parent_child s =
     (case dropWhile (\<lambda>c. c \<noteq> CHR ''/'') (rev s) of
        [] \<Rightarrow> None
      | _ # r \<Rightarrow> Some (rev r, rev (takeWhile (\<lambda>c. c \<noteq> CHR ''/'') (rev s))))"

definition parse_path_added :: "bool \<Rightarrow> text_io \<Rightarrow> string \<Rightarrow> json \<Rightarrow> entry \<Rightarrow> entry_step" where
  "parse_path_added ct io full_path j device =
     (case split_parent_child full_path of
        None \<Rightarrow> Thrown Undefined_behaviour (device, [])
      | Some (a, s) \<Rightarrow>
          (case find_node device a of
             Some q \<Rightarrow>
               on_place q (\<lambda>n.
                 case find_child n s of
                   None \<Rightarrow> create_then ct s (read_object ct io j) n
                 | Some i \<Rightarrow> then_do (on_child i (set_node_zombie False) n) (on_child i (reload_object ct io j))) device
           | None \<Rightarrow>
               (case create_node ct device full_path of
                  Ok (m, evs, q) \<Rightarrow> then_do (Returned (m, map Tree_changed evs)) (on_place q (read_object ct io j))
                | Err e \<Rightarrow> Thrown e (device, []))))"

definition parse_path_removed :: "bool \<Rightarrow> bool \<Rightarrow> (string \<times> json) list \<Rightarrow> entry \<Rightarrow> entry_step" where
  "parse_path_removed ct zombie_on_remove ms device =
     (case map_of ms ''DATA'' of
        None \<Rightarrow> Returned (device, [])
      | Some j \<Rightarrow> try_res (text_of j) (\<lambda>a n.
          case find_node n a of
            None \<Rightarrow> Returned (n, [])
          | Some q \<Rightarrow> if zombie_on_remove then on_place q (set_node_zombie True) n else remove_entry ct q n) device)"

definition last_part :: "string \<Rightarrow> string option" where
  "last_part s = map_option snd (split_parent_child s)"

definition parse_path_renamed :: "(string \<times> json) list \<Rightarrow> entry \<Rightarrow> entry_step" where
  "parse_path_renamed ms device =
     (case map_of ms ''DATA'' of
        Some (JObj ds) \<Rightarrow>
          (case (map_of ds ''OLD'', map_of ds ''NEW'') of
             (Some (JStr old), Some (JStr new)) \<Rightarrow>
               (case find_node device (c_str old) of
                  Some q \<Rightarrow> (case last_part new of Some s \<Rightarrow> rename_entry q s device | None \<Rightarrow> Returned (device, []))
                | None \<Rightarrow> Returned (device, []))
           | _ \<Rightarrow> Returned (device, []))
      | _ \<Rightarrow> Returned (device, []))"

text \<open>
  \<open>create_or_update_parameter_type\<close>: the parameter is created, or its type changed, by what the
  document says of it; whether it says anything, so that the value is asked for.
\<close>

definition type_text :: "(string \<times> json) list \<Rightarrow> string option" where
  "type_text ms = (case map_of ms ''TYPE'' of Some (JStr s) \<Rightarrow> Some s | _ \<Rightarrow> None)"

definition type_of_tag :: "(string \<times> json) list \<Rightarrow> complex_type" where
  "type_of_tag ms = (case type_text ms of Some s \<Rightarrow> get_type_from_osc_typetag s | None \<Rightarrow> No_type)"

definition gives_type :: "(string \<times> json) list \<Rightarrow> bool" where
  "gives_type ms \<longleftrightarrow>
     (case read_types ms of Ok (u, ext) \<Rightarrow> type_of_tag ms \<noteq> No_type \<or> u \<noteq> None \<or> ext \<noteq> None | Err _ \<Rightarrow> False)"

definition update_type :: "text_io \<Rightarrow> (string \<times> json) list \<Rightarrow> node_data \<Rightarrow> data_step" where
  "update_type io ms d =
     (let tag = (case type_text ms of Some s \<Rightarrow> s | None \<Rightarrow> []);
          setup = (\<lambda>d. case set_up io (type_of_tag ms) d of Some r \<Rightarrow> r | None \<Rightarrow> Returned (d, []))
      in try_res (read_types ms) (\<lambda>(u, ext) d.
           case d_parameter d of
             None \<Rightarrow>
               (if u \<noteq> None then with_unit io u ext d
                else case ext of Some e \<Rightarrow> with_extended io (ext_type_by_tag e tag) ext d | None \<Rightarrow> setup d)
           | Some x \<Rightarrow>
               (if u \<noteq> None then then_do (on_parameter (\<lambda>x. set_unit io x u) d) (set_extended_type io ext)
                else case ext of
                  Some e \<Rightarrow>
                    (let t = ext_type_by_tag e tag
                     in then_do (if t \<noteq> p_value_type x then on_parameter (\<lambda>x. set_value_type io x t) d else Returned (d, []))
                          (set_extended_type io ext))
                | None \<Rightarrow> setup d)) d)"

section \<open>The mirror\<close>

datatype command =
    Path_added string json
  | Path_renamed "(string \<times> json) list"
  | Path_changed
  | Path_removed "(string \<times> json) list"
  | Attributes_changed "(string \<times> json) list"

datatype transport = TCP | UDP

record host_info =
  h_osc_ip :: "string option"
  h_osc_port :: "int option"
  h_transport :: "transport option"
  h_ws_ip :: "string option"
  h_ws_port :: "int option"
  h_extensions :: "(string \<times> bool) list"

text \<open>
  What does not change while the mirror is connected: the device and its address, the ports of its
  sockets, and whether removed nodes are kept as zombies.
\<close>

record settings =
  s_change_tree :: bool
  s_io :: text_io
  s_query_host :: string
  s_query_port :: string
  s_has_ws :: bool
  s_receiver_port :: int
  s_sender_port :: int
  s_zombie_on_remove :: bool

record osc_mirror =
  mi_tree :: entry
  mi_queue :: "command list"
  mi_pulls :: "string list"
  mi_host :: host_info
  mi_namespace_done :: bool

datatype mirror_event =
    In_tree node_event
  | Mirror_message string
  | Mirror_unhandled string val
  | Http_sent string
  | Ws_sent json
  | Sender_created string int

type_synonym mirror_step = "(osc_mirror \<times> mirror_event list) outcome"

definition in_tree :: "(entry \<Rightarrow> entry_step) \<Rightarrow> osc_mirror \<Rightarrow> mirror_step" where
  "in_tree f mi =
     (case f (mi_tree mi) of
        Returned (n, evs) \<Rightarrow> Returned (mi\<lparr>mi_tree := n\<rparr>, map In_tree evs)
      | Thrown e (n, evs) \<Rightarrow> Thrown e (mi\<lparr>mi_tree := n\<rparr>, map In_tree evs))"

definition data_in :: "nat list \<Rightarrow> osc_mirror \<Rightarrow> node_data" where
  "data_in q mi = (case node_at (mi_tree mi) q of Some n \<Rightarrow> data_of n | None \<Rightarrow> blank)"

text \<open>Requests of the mirror.\<close>

definition pull_async :: "string \<Rightarrow> osc_mirror \<Rightarrow> mirror_step" where
  "pull_async a mi = Returned (mi\<lparr>mi_pulls := mi_pulls mi @ [a]\<rparr>, [Http_sent (a @ ''?VALUE'')])"

definition request :: "string \<Rightarrow> osc_mirror \<Rightarrow> mirror_step" where
  "request a mi = Returned (mi, [Http_sent (a @ ''?VALUE'')])"

definition update_async :: "string \<Rightarrow> osc_mirror \<Rightarrow> mirror_step" where
  "update_async a mi = Returned (mi\<lparr>mi_namespace_done := False\<rparr>, [Http_sent a])"

definition observe_messages :: "settings \<Rightarrow> string \<Rightarrow> bool \<Rightarrow> mirror_event list" where
  "observe_messages st a enable =
     (if s_has_ws st then [Ws_sent (if enable then listen_message a else ignore_message a)] else [])"

definition request_add_node :: "string \<Rightarrow> string \<Rightarrow> string" where
  "request_add_node parent s = parent @ ''?ADD_NODE='' @ s"

definition request_remove_node :: "string \<Rightarrow> string \<Rightarrow> string" where
  "request_remove_node parent s = parent @ ''?REMOVE_NODE='' @ s"

definition request_rename_node :: "string \<Rightarrow> string \<Rightarrow> string" where
  "request_rename_node a s = a @ ''?RENAME_NODE='' @ s"

section \<open>Commands\<close>

definition parse_attributes_changed :: "text_io \<Rightarrow> (string \<times> json) list \<Rightarrow> osc_mirror \<Rightarrow> mirror_step" where
  "parse_attributes_changed io ms mi =
     (case map_of ms ''DATA'' of
        None \<Rightarrow> Returned (mi, [])
      | Some (JObj ds) \<Rightarrow>
          (case map_of ds ''FULL_PATH'' of
             None \<Rightarrow> Returned (mi, [])
           | Some a \<Rightarrow> try_res (text_of a) (\<lambda>a mi.
               case find_node (mi_tree mi) a of
                 None \<Rightarrow> Returned (mi, [])
               | Some q \<Rightarrow>
                   then_do (in_tree (on_place q (on_data (\<lambda>d. then_do (update_type io ds d) (do_all (read_member io) ds)))) mi)
                     (\<lambda>mi. if gives_type ds \<and> d_parameter (data_in q mi) \<noteq> None
                        then pull_async (osc_parameter_string (mi_tree mi) q) mi else Returned (mi, []))) mi)
      | Some _ \<Rightarrow> Thrown Undefined_behaviour (mi, []))"

text \<open>A command that is run when it is taken from the queue; it is not there any more if it throws.\<close>

fun run_command :: "settings \<Rightarrow> command \<Rightarrow> osc_mirror \<Rightarrow> mirror_step" where
  "run_command st (Path_added a j) mi = in_tree (parse_path_added (s_change_tree st) (s_io st) a j) mi"
| "run_command st (Path_renamed ms) mi = in_tree (parse_path_renamed ms) mi"
| "run_command st Path_changed mi = Returned (mi, [])"
| "run_command st (Path_removed ms) mi =
     in_tree (parse_path_removed (s_change_tree st) (s_zombie_on_remove st) ms) mi"
| "run_command st (Attributes_changed ms) mi = parse_attributes_changed (s_io st) ms mi"

fun run_queue :: "settings \<Rightarrow> command list \<Rightarrow> osc_mirror \<Rightarrow> mirror_step" where
  "run_queue st [] mi = Returned (mi, [])"
| "run_queue st (c # cs) mi = then_do (run_command st c (mi\<lparr>mi_queue := cs\<rparr>)) (run_queue st cs)"

definition run_commands :: "settings \<Rightarrow> osc_mirror \<Rightarrow> mirror_step" where
  "run_commands st mi = run_queue st (mi_queue mi) mi"

section \<open>Messages that are received\<close>

datatype message_type =
    Device_message | Namespace_message | Value_message | Path_changed_message | Path_added_message
  | Path_removed_message | Path_renamed_message | Attributes_changed_message | Host_info_message
  | Start_osc_streaming_message | Listen_message | Ignore_message

definition command_types :: "(string \<times> message_type) list" where
  "command_types =
     [(''PATH_ADDED'', Path_added_message), (''PATH_CHANGED'', Path_changed_message),
      (''PATH_REMOVED'', Path_removed_message), (''PATH_RENAMED'', Path_renamed_message),
      (''ATTRIBUTES_CHANGED'', Attributes_changed_message), (''START_OSC_STREAMING'', Start_osc_streaming_message),
      (''LISTEN'', Listen_message), (''IGNORE'', Ignore_message)]"

definition message_type_of :: "(string \<times> json) list \<Rightarrow> message_type res" where
  "message_type_of ms =
     res_map (\<lambda>t. case t of
         Some t \<Rightarrow> t
       | None \<Rightarrow>
           if map_of ms ''FULL_PATH'' \<noteq> None then Namespace_message
           else if map_of ms ''NAME'' \<noteq> None then Host_info_message
           else if map_of ms ''OSC_PORT'' \<noteq> None then Device_message
           else Value_message)
       (case map_of ms ''COMMAND'' of
          Some j \<Rightarrow> res_map (map_of command_types) (text_of j)
        | None \<Rightarrow> Ok None)"

definition read_int_member :: "json option \<Rightarrow> int option" where
  "read_int_member j = (case j of Some (JInt n) \<Rightarrow> if in_i32 n then Some n else None | _ \<Rightarrow> None)"

definition read_text_member :: "json option \<Rightarrow> string option" where
  "read_text_member j = (case j of Some (JStr s) \<Rightarrow> Some (c_str s) | _ \<Rightarrow> None)"

definition read_transport :: "json option \<Rightarrow> transport option" where
  "read_transport j =
     (case read_text_member j of
        Some s \<Rightarrow> if s = ''TCP'' then Some TCP else if s = ''UDP'' then Some UDP else None
      | None \<Rightarrow> None)"

definition read_extensions :: "json option \<Rightarrow> (string \<times> bool) list" where
  "read_extensions j =
     (case j of
        Some (JObj es) \<Rightarrow> List.map_filter (\<lambda>(k, e). map_option (Pair (c_str k)) (read_bool e)) es
      | _ \<Rightarrow> [])"

definition parse_host_info :: "(string \<times> json) list \<Rightarrow> host_info" where
  "parse_host_info ms =
     \<lparr>h_osc_ip = read_text_member (map_of ms ''OSC_IP''), h_osc_port = read_int_member (map_of ms ''OSC_PORT''),
      h_transport = read_transport (map_of ms ''OSC_TRANSPORT''), h_ws_ip = read_text_member (map_of ms ''WS_IP''),
      h_ws_port = read_int_member (map_of ms ''WS_PORT''), h_extensions = read_extensions (map_of ms ''EXTENSIONS'')\<rparr>"

text \<open>The address of a host without its scheme, of which the first occurrence is erased, and its port.\<close>

definition upper :: "char \<Rightarrow> char" where
  "upper c = (if char_between CHR ''a'' c CHR ''z'' then char_of (of_char c - 32 :: nat) else c)"

fun erase_first :: "string \<Rightarrow> string \<Rightarrow> string" where
  "erase_first p [] = []"
| "erase_first p (c # s) =
     (if map upper (take (length p) (c # s)) = map upper p then drop (length p) (c # s) else c # erase_first p s)"

definition to_ip :: "string \<Rightarrow> string" where
  "to_ip uri =
     (let s = erase_first ''wss://'' (erase_first ''ws://'' (erase_first ''https://'' (erase_first ''http://'' uri)))
      in case dropWhile (\<lambda>c. c \<noteq> CHR '':'') (rev s) of [] \<Rightarrow> s | _ # r \<Rightarrow> rev r)"

definition connect_host :: "settings \<Rightarrow> string \<Rightarrow> int \<Rightarrow> osc_mirror \<Rightarrow> mirror_step" where
  "connect_host st ip port mi =
     (let h = (mi_host mi)\<lparr>h_osc_ip := Some ip, h_osc_port := Some port\<rparr>; mi' = mi\<lparr>mi_host := h\<rparr>
      in Returned (mi',
           if h_transport h = Some UDP then
             [Sender_created (to_ip ip) port] @
             (if s_has_ws st \<and> map_of (h_extensions h) ''OSC_STREAMING'' = Some True
              then [Ws_sent (start_osc_streaming (s_receiver_port st) (s_sender_port st))] else [])
           else []))"

definition on_host_info :: "settings \<Rightarrow> (string \<times> json) list \<Rightarrow> osc_mirror \<Rightarrow> mirror_step" where
  "on_host_info st ms mi =
     (let h = parse_host_info ms; ip = (case h_osc_ip h of Some ip \<Rightarrow> ip | None \<Rightarrow> s_query_host st)
      in case (case h_osc_port h of Some p \<Rightarrow> Some p | None \<Rightarrow> lexical_to_int (s_query_port st)) of
           Some port \<Rightarrow> connect_host st ip port (mi\<lparr>mi_host := h\<rparr>)
         | None \<Rightarrow> Thrown Bad_lexical_cast (mi\<lparr>mi_host := h\<lparr>h_osc_ip := Some ip\<rparr>\<rparr>, []))"

definition on_namespace :: "settings \<Rightarrow> json \<Rightarrow> osc_mirror \<Rightarrow> mirror_step" where
  "on_namespace st j mi =
     then_do (in_tree (parse_namespace (s_change_tree st) (s_io st) j) mi)
       (\<lambda>mi. if mi_namespace_done mi then Thrown Promise_already_satisfied (mi, [])
          else Returned (mi\<lparr>mi_namespace_done := True\<rparr>, []))"

definition parse_value :: "text_io \<Rightarrow> json \<Rightarrow> node_data \<Rightarrow> data_step" where
  "parse_value io j d =
     (case d_parameter d of
        None \<Rightarrow> Thrown Undefined_behaviour (d, [])
      | Some x \<Rightarrow> try_res (json_to_value_unchecked j (p_value x)) (set_node_value io) d)"

definition value_for :: "settings \<Rightarrow> string \<Rightarrow> json \<Rightarrow> osc_mirror \<Rightarrow> mirror_step" where
  "value_for st a j mi =
     (case find_node (mi_tree mi) a of
        Some q \<Rightarrow>
          (if d_parameter (data_in q mi) \<noteq> None then
             then_do (in_tree (on_place q (on_data (parse_value (s_io st) j))) mi)
               (\<lambda>mi. Returned (mi, [Mirror_message (osc_parameter_string (mi_tree mi) q)]))
           else Returned (mi, [Mirror_unhandled a (read_value j)]))
      | None \<Rightarrow> Returned (mi, [Mirror_unhandled a (read_value j)]))"

definition on_value :: "settings \<Rightarrow> (string \<times> json) list \<Rightarrow> osc_mirror \<Rightarrow> mirror_step" where
  "on_value st ms mi =
     (case mi_pulls mi of
        a # as \<Rightarrow> value_for st a (case map_of ms ''VALUE'' of Some j \<Rightarrow> j | None \<Rightarrow> JObj ms) (mi\<lparr>mi_pulls := as\<rparr>)
      | [] \<Rightarrow>
          do_all (\<lambda>(a, j) mi.
            if a \<noteq> [] \<and> hd a = CHR ''/'' then value_for st a j mi
            else Returned (mi, [Mirror_unhandled a (read_value j)])) ms mi)"

definition enqueue :: "command \<Rightarrow> osc_mirror \<Rightarrow> osc_mirror" where
  "enqueue c mi = mi\<lparr>mi_queue := mi_queue mi @ [c]\<rparr>"

definition handle_message :: "settings \<Rightarrow> (string \<times> json) list \<Rightarrow> osc_mirror \<Rightarrow> message_type \<Rightarrow> mirror_step" where
  "handle_message st ms mi t =
     (case t of
        Host_info_message \<Rightarrow> on_host_info st ms mi
      | Namespace_message \<Rightarrow> on_namespace st (JObj ms) mi
      | Value_message \<Rightarrow> on_value st ms mi
      | Path_added_message \<Rightarrow>
          Returned (case map_of ms ''DATA'' of Some (JStr a) \<Rightarrow> enqueue (Path_added a (JObj ms)) mi | _ \<Rightarrow> mi, [])
      | Path_renamed_message \<Rightarrow> Returned (enqueue (Path_renamed ms) mi, [])
      | Path_changed_message \<Rightarrow> Returned (enqueue Path_changed mi, [])
      | Path_removed_message \<Rightarrow> Returned (enqueue (Path_removed ms) mi, [])
      | Attributes_changed_message \<Rightarrow> Returned (enqueue (Attributes_changed ms) mi, [])
      | _ \<Rightarrow> Returned (mi, []))"

text \<open>Every exception is caught: the message then counts as not handled.\<close>

definition on_ws_message :: "settings \<Rightarrow> json \<Rightarrow> osc_mirror \<Rightarrow> (osc_mirror \<times> mirror_event list \<times> bool) res" where
  "on_ws_message st j mi =
     (case j of
        JNull \<Rightarrow> Ok (mi, [], False)
      | JArr _ \<Rightarrow> Ok (mi, [], True)
      | JObj ms \<Rightarrow>
          (case try_res (message_type_of ms) (\<lambda>t mi. handle_message st ms mi t) mi of
             Returned (mi', evs) \<Rightarrow> Ok (mi', evs, True)
           | Thrown e (mi', evs) \<Rightarrow> if e = Undefined_behaviour then Err e else Ok (mi', evs, False))
      | _ \<Rightarrow> Err Undefined_behaviour)"

section \<open>Trees at a place\<close>

fun put_at :: "nat list \<Rightarrow> 'p node \<Rightarrow> 'p node \<Rightarrow> 'p node" where
  "put_at [] k n = k"
| "put_at (i # q) k n = set_children ((node_children n)[i := put_at q k (node_children n ! i)]) n"

lemma node_at_shape: "node_at (shape n) q = map_option shape (node_at n q)"
  by (induction q arbitrary: n) auto

lemma find_parts_shape [simp]: "find_parts (shape n) ss = find_parts n ss"
  by (induction ss arbitrary: n) (auto dest: find_child_Some split: option.splits)

lemma put_at_shape: "node_at n q \<noteq> None \<Longrightarrow> shape (put_at q k n) = put_at q (shape k) (shape n)"
  by (induction q arbitrary: n) (auto simp: map_update split: if_splits)

lemma put_at_same: "node_at n q = Some k \<Longrightarrow> put_at q k n = n"
  by (induction q arbitrary: n) (auto split: if_splits)

lemma shape_with_data [simp]: "shape (with_data d n) = shape n"
  by (cases n) (simp add: with_data_def)

lemma on_place_Returned:
  "node_at n q = Some k \<Longrightarrow> f k = Returned (k', evs) \<Longrightarrow> \<exists>evs'. on_place q f n = Returned (put_at q k' n, evs')"
proof (induction q arbitrary: n)
  case (Cons i q)
  then have "node_at (node_children n ! i) q = Some k" by (simp split: if_splits)
  from Cons.IH [OF this Cons.prems(2)] show ?case by (auto simp: on_child_def)
qed simp

lemma alter_Some:
  assumes "alter ss f (shape n) = Some u"
  obtains q k k' where "find_parts n ss = Some q" "node_at n q = Some k" "f (shape k) = Some k'"
    "u = put_at q k' (shape n)"
proof -
  have "\<exists>q k k'. find_parts n ss = Some q \<and> node_at n q = Some k \<and> f (shape k) = Some k' \<and> u = put_at q k' (shape n)"
    using assms
  proof (induction ss arbitrary: n u)
    case (Cons s ss)
    then obtain i c where i: "find_child n s = Some i" "alter ss f (shape (node_children n ! i)) = Some c"
      "u = set_children ((node_children (shape n))[i := c]) (shape n)"
      by (auto dest: find_child_Some split: option.splits)
    note bound = find_child_Some [OF i(1)]
    obtain q k k' where "find_parts (node_children n ! i) ss = Some q" "node_at (node_children n ! i) q = Some k"
      "f (shape k) = Some k'" "c = put_at q k' (shape (node_children n ! i))"
      using Cons.IH [OF i(2)] by blast
    then show ?case using i(1,3) bound by (intro exI [of _ "i # q"] exI [of _ k] exI [of _ k']) simp
  qed auto
  then show thesis using that by blast
qed

lemma find_parts_append:
  "find_parts n ss = Some q \<Longrightarrow> node_at n q = Some k \<Longrightarrow> find_child k t = Some i \<Longrightarrow> find_parts n (ss @ [t]) = Some (q @ [i])"
  by (induction ss arbitrary: n q) (auto split: option.splits if_splits)

lemma good_path: "good_tree n \<Longrightarrow> node_at n q = Some k \<Longrightarrow> [] \<notin> set (path_names n q) \<and> list_all valid_name (path_names n q) \<and> good_tree k"
proof (induction q arbitrary: n)
  case (Cons i q)
  then have i: "i < length (node_children n)" "node_at (node_children n ! i) q = Some k" by (auto split: if_splits)
  then have "node_name (node_children n ! i) \<in> set (children_names n)" by (simp add: children_names_def)
  then have "valid_name (node_name (node_children n ! i)) \<and> node_name (node_children n ! i) \<noteq> []"
    using Cons.prems(1) by (simp add: good_iff [of n])
  then show ?case using Cons.IH [OF good_child [OF Cons.prems(1) i(1)] i(2)] by auto
qed simp

lemma find_node_root [simp]: "find_node n ''/'' = Some []" "find_node n [] = Some []"
  by (simp_all add: find_node_def sanitize_address_def)

text \<open>In a good tree the names that lead to a node make the address that finds it.\<close>

lemma find_node_names:
  assumes "good_tree n" "find_parts n ss = Some q"
  shows "find_node n (address_of ss) = Some q \<and> find_node n (slash_names ss) = Some q"
proof -
  obtain k where k: "path_names n q = ss" "node_at n q = Some k" using find_parts_path [OF assms(2)] by auto
  have "find_node n (osc_parameter_string n q) = Some q"
    using assms(1) k(2) good_path [OF assms(1) k(2)] by (intro find_node_osc_string) (simp_all add: good_tree_def)
  moreover have "q = [] \<longleftrightarrow> ss = []" using k(1) by (cases q) auto
  ultimately show ?thesis using k(1) by (auto simp: osc_parameter_string_def address_of_def slash_names_def)
qed

section \<open>Addresses in messages\<close>

lemma address_snoc: "address_of (ss @ [t]) = slash_names ss @ CHR ''/'' # t"
  by (simp add: address_of_def slash_names_def)

lemma no_slash:
  "CHR ''/'' \<notin> set t \<Longrightarrow> dropWhile (\<lambda>c. c \<noteq> CHR ''/'') (rev t @ CHR ''/'' # r) = CHR ''/'' # r \<and>
    takeWhile (\<lambda>c. c \<noteq> CHR ''/'') (rev t @ CHR ''/'' # r) = rev t"
  by (simp add: takeWhile_append_neq dropWhile_append_neq)

lemma split_address: "CHR ''/'' \<notin> set t \<Longrightarrow> split_parent_child (address_of (ss @ [t])) = Some (slash_names ss, t)"
  using no_slash [of t "rev (slash_names ss)"] by (simp add: split_parent_child_def address_snoc)

lemma old_address_snoc: "CHR ''/'' \<notin> set t \<Longrightarrow> old_address (address_of (ss @ [t])) old = address_of (ss @ [old])"
  using no_slash [of t "rev (slash_names ss)"] by (simp add: old_address_def address_snoc)

lemma c_str_address:
  assumes "list_all valid_name ss"
  shows "c_str (address_of ss) = address_of ss"
proof -
  have "c_str (slash_names ss) = slash_names ss"
    using assms
  proof (induction ss)
    case (Cons s ss)
    then have "c_str s = s" "c_str (slash_names ss) = slash_names ss" by (simp_all add: valid_c_str)
    then show ?case by (auto simp: c_str_def slash_names_def takeWhile_eq_all_conv)
  qed (simp add: c_str_def slash_names_def)
  then show ?thesis by (simp add: address_of_def c_str_def)
qed

section \<open>The messages of the changes of a tree\<close>

text \<open>The message for each signal, where the node of a removed parameter has no extended type of its own.\<close>

definition unset_message :: "string \<Rightarrow> json" where
  "unset_message a =
     command_message ''ATTRIBUTES_CHANGED'' (JObj [(''FULL_PATH'', JStr a), (''TYPE'', JNull), (''EXTENDED_TYPE'', JNull)])"

fun message_of :: "event \<Rightarrow> json" where
  "message_of (Created ss) = path_added (address_of ss)"
| "message_of (Removing ss) = path_removed (address_of ss)"
| "message_of (Renamed ss old) = path_renamed (old_address (address_of ss) old) (address_of ss)"
| "message_of (Parameter_removing ss) = unset_message (address_of ss)"

definition members_of :: "json \<Rightarrow> (string \<times> json) list" where
  "members_of j = (case j of JObj ms \<Rightarrow> ms | _ \<Rightarrow> [])"

fun command_of :: "event \<Rightarrow> command" where
  "command_of (Created ss) = Path_added (address_of ss) (message_of (Created ss))"
| "command_of (Removing ss) = Path_removed (members_of (message_of (Removing ss)))"
| "command_of (Renamed ss old) = Path_renamed (members_of (message_of (Renamed ss old)))"
| "command_of (Parameter_removing ss) = Attributes_changed (members_of (message_of (Parameter_removing ss)))"

lemma signal_message:
  assumes "\<And>ss. e = Parameter_removing ss \<Longrightarrow> d_parameter (look ss) = None \<and> a_extended_type (d_attributes (look ss)) = None"
  shows "on_signal look (Tree_changed e) = Ok [message_of e]"
  using assms
  by (cases e) (simp_all add: on_attribute_changed_def attribute_changed_def attribute_members_of_def
      ossia_to_oscquery_key_def osc_keys_def write_attribute_def optional_json_def get_extended_type_def unset_message_def)

lemma message_enqueued: "on_ws_message st (message_of e) mi = Ok (enqueue (command_of e) mi, [], True)"
  by (cases e) (simp_all add: on_ws_message_def path_added_def path_removed_def path_renamed_def unset_message_def
      command_message_def members_of_def message_type_of_def text_of_def command_types_def try_res_def handle_message_def)

lemma nothing_to_read: "read_object ct io (path_added a) n = Returned (n, [])"
  by (subst read_object.simps) (simp add: path_added_def command_message_def read_own_def contents_def)

section \<open>What a command makes of the shape\<close>

lemma in_tree_Returned: "f (mi_tree mi) = Returned (n, evs) \<Longrightarrow> in_tree f mi = Returned (mi\<lparr>mi_tree := n\<rparr>, map In_tree evs)"
  by (simp add: in_tree_def)

lemma in_place:
  assumes "node_at n q = Some k" "f k = Returned (k', evs)"
  shows "\<exists>m evs'. on_place q f n = Returned (m, evs') \<and> shape m = put_at q (shape k') (shape n)"
  using on_place_Returned [where f = f, OF assms] put_at_shape [of n q k'] assms(1) by auto

lemma added_child:
  assumes "add_named t (shape k) = Some u"
  shows "\<exists>evs. (case find_child k t of
      None \<Rightarrow> create_then True t (read_object True io (path_added a)) k
    | Some i \<Rightarrow> then_do (on_child i (set_node_zombie False) k) (on_child i (reload_object True io (path_added a)))) =
      Returned (set_children (node_children k @ [Node t None []]) k, evs) \<and>
    shape (set_children (node_children k @ [Node t None []]) k) = u"
proof -
  have t: "valid_name t" "t \<notin> set (children_names k)"
    "u = set_children (map shape (node_children k) @ [Node t None []]) (shape k)"
    using assms by (auto simp: add_named_def split: if_splits)
  have "find_child k t = None" using t(2) by (simp add: find_child_def find_name_None)
  then show ?thesis
    using create_then_new [where f = "read_object True io (path_added a)", OF t(1,2) nothing_to_read] t(3) by simp
qed

lemma created_replayed:
  assumes "good_tree n" "replay (Created ss) (shape n) = Some u" "ss \<noteq> []"
  shows "\<exists>m evs. parse_path_added True io (address_of ss) (path_added a) n = Returned (m, evs) \<and> shape m = u"
proof -
  obtain rs t where ss: "ss = rs @ [t]" using assms(3) by (cases ss rule: rev_cases) auto
  from assms(2) have "alter rs (add_named t) (shape n) = Some u" by (simp add: ss)
  then obtain q k k' where q: "find_parts n rs = Some q" "node_at n q = Some k" "add_named t (shape k) = Some k'"
    "u = put_at q k' (shape n)"
    by (rule alter_Some)
  let ?step = "\<lambda>k. case find_child k t of
      None \<Rightarrow> create_then True t (read_object True io (path_added a)) k
    | Some i \<Rightarrow> then_do (on_child i (set_node_zombie False) k) (on_child i (reload_object True io (path_added a)))"
  obtain evs where step: "?step k = Returned (set_children (node_children k @ [Node t None []]) k, evs)"
    "shape (set_children (node_children k @ [Node t None []]) k) = k'"
    using added_child [OF q(3)] by blast
  have "valid_name t" using q(3) by (simp add: add_named_def split: if_splits)
  then have "split_parent_child (address_of ss) = Some (slash_names rs, t)"
    using split_address slash_not_valid by (simp add: ss)
  then have "parse_path_added True io (address_of ss) (path_added a) n = on_place q ?step n"
    using find_node_names [OF assms(1) q(1)] by (simp add: parse_path_added_def)
  then show ?thesis using in_place [where f = ?step, OF q(2) step(1)] step(2) q(4) by auto
qed

lemma removed_replayed:
  assumes "good_tree n" "replay (Removing ss) (shape n) = Some u" "ss \<noteq> []"
  shows "\<exists>m evs. parse_path_removed True False (members_of (message_of (Removing ss))) n = Returned (m, evs) \<and> shape m = u"
proof -
  obtain rs t where ss: "ss = rs @ [t]" using assms(3) by (cases ss rule: rev_cases) auto
  from assms(2) have "alter rs (drop_named t) (shape n) = Some u" by (simp add: ss)
  then obtain q k k' where q: "find_parts n rs = Some q" "node_at n q = Some k" "drop_named t (shape k) = Some k'"
    "u = put_at q k' (shape n)"
    by (rule alter_Some)
  obtain i where i: "find_child k t = Some i" "k' = set_children (take i (map shape (node_children k)) @ drop (i + 1) (map shape (node_children k))) (shape k)"
    using q(3) by (auto simp: drop_named_def split: option.splits)
  have bound: "i < length (node_children k)" using find_child_Some [OF i(1)] by simp
  have "find_node n (address_of ss) = Some (q @ [i])"
    using find_node_names [OF assms(1) find_parts_append [OF q(1,2) i(1)]] by (simp add: ss)
  then have "parse_path_removed True False (members_of (message_of (Removing ss))) n = on_place q (remove_entry_child True i) n"
    by (simp add: parse_path_removed_def members_of_def path_removed_def command_message_def text_of_def try_res_def remove_entry_def)
  moreover have "remove_entry_child True i k = Returned (fst (remove_child_at True k i), map Tree_changed (fst (snd (remove_child_at True (parameters k) i))))"
    by (simp add: remove_entry_child_def)
  moreover have "shape (fst (remove_child_at True k i)) = k'"
    using bound i(2) by (simp add: remove_child_at_def take_out_def Let_def take_map drop_map)
  ultimately show ?thesis using in_place [OF q(2), of "remove_entry_child True i"] q(4) by auto
qed

lemma renamed_replayed:
  assumes "good_tree n" "replay (Renamed ss old) (shape n) = Some u" "ss \<noteq> []"
  shows "\<exists>m evs. parse_path_renamed (members_of (message_of (Renamed ss old))) n = Returned (m, evs) \<and> shape m = u"
proof -
  obtain rs t where ss: "ss = rs @ [t]" using assms(3) by (cases ss rule: rev_cases) auto
  from assms(2) have "alter rs (rename_named old t) (shape n) = Some u" by (simp add: ss)
  then obtain q k k' where q: "find_parts n rs = Some q" "node_at n q = Some k" "rename_named old t (shape k) = Some k'"
    "u = put_at q k' (shape n)"
    by (rule alter_Some)
  obtain i where i: "find_child k old = Some i" "valid_name t" "t \<notin> set ((children_names k)[i := []])"
    "k' = set_children ((map shape (node_children k))[i := Node t None (map shape (node_children (node_children k ! i)))]) (shape k)"
    using q(3) by (auto simp: rename_named_def dest: find_child_Some split: option.splits if_splits)
  have bound: "i < length (node_children k)" using find_child_Some [OF i(1)] by simp
  have found: "find_parts n (rs @ [old]) = Some (q @ [i])" by (rule find_parts_append [OF q(1,2) i(1)])
  then have "path_names n (q @ [i]) = rs @ [old]" "node_at n (q @ [i]) \<noteq> None" using find_parts_path by blast+
  then have names: "list_all valid_name (rs @ [old])" using good_path [OF assms(1), of "q @ [i]"] by auto
  have t: "CHR ''/'' \<notin> set t" using slash_not_valid [OF i(2)] .
  have "sanitize_child_name t ((node_children k)[i := Node [] d cs]) = Ok t" for d cs
    using sanitize_among_new [OF i(2,3)] by (simp add: sanitize_child_name_def map_update children_names_def)
  then have "rename_entry_child i t k = Returned (set_children ((node_children k)[i := Node t (node_param (node_children k ! i))
      (node_children (node_children k ! i))]) k, [Tree_changed (Renamed [t] (node_name (node_children k ! i)))])"
    by (simp add: rename_entry_child_def set_child_name_def Let_def)
  note step = in_place [where f = "rename_entry_child i t", OF q(2) this]
  have "find_node n (c_str (address_of (rs @ [old]))) = Some (q @ [i])"
    using find_node_names [OF assms(1) found] by (simp add: c_str_address [OF names])
  moreover have "last_part (address_of (rs @ [t])) = Some t"
    by (simp add: last_part_def split_address [OF t])
  ultimately have "parse_path_renamed (members_of (message_of (Renamed ss old))) n = on_place q (rename_entry_child i t) n"
    by (simp add: parse_path_renamed_def members_of_def path_renamed_def command_message_def ss old_address_snoc [OF t] rename_entry_def)
  then show ?thesis using step q(4) i(4) by (auto simp: map_update)
qed

text \<open>The message of a parameter that is removed gives no type, so that nothing is done with it.\<close>

lemma unset_kept:
  "\<exists>mi' evs. parse_attributes_changed io (members_of (unset_message a)) mi = Returned (mi', evs) \<and>
     shape (mi_tree mi') = shape (mi_tree mi) \<and> mi_queue mi' = mi_queue mi"
proof -
  let ?ds = "[(''FULL_PATH'', JStr a), (''TYPE'', JNull), (''EXTENDED_TYPE'', JNull)]"
  have "read_member io (k, j) d = Returned (d, [])" if "k \<in> {''FULL_PATH'', ''TYPE'', ''EXTENDED_TYPE''}" for k j d
    using that by (elim insertE emptyE; simp add: read_member_def)
  then have members: "do_all (read_member io) ?ds d = Returned (d, [])" for d by simp
  have types: "type_of_tag ?ds = No_type" "read_types ?ds = Ok (None, None)"
    by (simp_all add: type_of_tag_def type_text_def read_types_def read_extended_def)
  then have "update_type io ?ds d = Returned (d, [])" for d
    by (simp add: update_type_def try_res_def set_up_def setup_parameter_def split: option.splits)
  with members have step: "on_data (\<lambda>d. then_do (update_type io ?ds d) (do_all (read_member io) ?ds)) k =
      Returned (with_data (data_of k) k, [])" for k
    by (simp add: on_data_def)
  have none: "\<not> gives_type ?ds" using types by (simp add: gives_type_def)
  show ?thesis
  proof (cases "find_node (mi_tree mi) a")
    case None
    then show ?thesis
      by (simp add: parse_attributes_changed_def members_of_def unset_message_def command_message_def text_of_def try_res_def)
  next
    case (Some q)
    then obtain k where k: "node_at (mi_tree mi) q = Some k"
      using find_parts_path [of "mi_tree mi" _ q] by (auto simp: find_node_parts split: if_splits)
    obtain m evs where m: "on_place q (on_data (\<lambda>d. then_do (update_type io ?ds d) (do_all (read_member io) ?ds))) (mi_tree mi) = Returned (m, evs)"
      "shape m = put_at q (shape (with_data (data_of k) k)) (shape (mi_tree mi))"
      using in_place [where f = "on_data (\<lambda>d. then_do (update_type io ?ds d) (do_all (read_member io) ?ds))", OF k step] by blast
    have "shape m = shape (mi_tree mi)"
      using m(2) put_at_same [of "shape (mi_tree mi)" q "shape k"] k by (simp add: node_at_shape)
    then show ?thesis
      using Some m(1) none
      by (simp add: parse_attributes_changed_def members_of_def unset_message_def command_message_def text_of_def
          try_res_def in_tree_Returned)
  qed
qed

definition following :: "settings \<Rightarrow> bool" where
  "following st \<longleftrightarrow> s_change_tree st \<and> \<not> s_zombie_on_remove st"

lemma command_replayed:
  assumes "following st" "good_tree (mi_tree mi)" "replay e (shape (mi_tree mi)) = Some u" "inner e"
  shows "\<exists>mi' evs. run_command st (command_of e) mi = Returned (mi', evs) \<and> shape (mi_tree mi') = u \<and>
    mi_queue mi' = mi_queue mi"
proof (cases e)
  case (Created ss)
  then obtain m evs where "parse_path_added True (s_io st) (address_of ss) (path_added (address_of ss)) (mi_tree mi) =
      Returned (m, evs)" "shape m = u"
    using created_replayed [OF assms(2), of ss u "s_io st" "address_of ss"] assms(3,4) by (auto simp: inner_def)
  then show ?thesis using assms(1) Created by (simp add: following_def in_tree_Returned)
next
  case (Removing ss)
  then obtain m evs where "parse_path_removed True False (members_of (message_of e)) (mi_tree mi) = Returned (m, evs)" "shape m = u"
    using removed_replayed [OF assms(2), of ss u] assms(3,4) by (auto simp: inner_def)
  then show ?thesis using assms(1) Removing by (simp add: following_def in_tree_Returned)
next
  case (Parameter_removing ss)
  then show ?thesis using unset_kept [of "s_io st" "address_of ss" mi] assms(3) by auto
next
  case (Renamed ss old)
  then obtain m evs where "parse_path_renamed (members_of (message_of e)) (mi_tree mi) = Returned (m, evs)" "shape m = u"
    using renamed_replayed [OF assms(2), of ss old u] assms(3,4) by (auto simp: inner_def)
  then show ?thesis using Renamed by (simp add: in_tree_Returned)
qed

lemma then_do_Returned: "r = Returned (n, evs) \<Longrightarrow> f n = Returned (m, fs) \<Longrightarrow> then_do r f = Returned (m, evs @ fs)"
  by simp

lemma queue_replayed:
  assumes "following st"
  shows "good_tree (mi_tree mi) \<Longrightarrow> replay_all es (shape (mi_tree mi)) = Some u \<Longrightarrow> list_all inner es \<Longrightarrow>
    (es = [] \<Longrightarrow> mi_queue mi = []) \<Longrightarrow>
    \<exists>mi' evs. run_queue st (map command_of es) mi = Returned (mi', evs) \<and> shape (mi_tree mi') = u \<and> mi_queue mi' = []"
proof (induction es arbitrary: mi)
  case (Cons e es)
  let ?mi = "mi\<lparr>mi_queue := map command_of es\<rparr>"
  obtain v where v: "replay e (shape (mi_tree ?mi)) = Some v" "replay_all es v = Some u"
    using Cons.prems(2) by (auto split: bind_splits)
  obtain mi1 evs1 where mi1: "run_command st (command_of e) ?mi = Returned (mi1, evs1)" "shape (mi_tree mi1) = v"
    "mi_queue mi1 = map command_of es"
    using command_replayed [OF assms, of ?mi e v] Cons.prems(1,3) v(1) by auto
  have "good_tree (mi_tree mi1)"
    using replay_good [OF v(1)] Cons.prems(1) by (simp flip: mi1(2))
  then obtain mi2 evs2 where "run_queue st (map command_of es) mi1 = Returned (mi2, evs2)" "shape (mi_tree mi2) = u" "mi_queue mi2 = []"
    using Cons.IH [of mi1] Cons.prems(3) v(2) mi1(2,3) by auto
  then show ?case using then_do_Returned [OF mi1(1), of "run_queue st (map command_of es)"] by simp
qed simp

text \<open>Below the root only: the devices can have other names.\<close>

lemma alter_children:
  assumes "\<And>k l. node_children k = node_children l \<Longrightarrow> rel_option (\<lambda>a b. node_children a = node_children b) (f k) (f l)"
  shows "node_children n = node_children m \<Longrightarrow> rel_option (\<lambda>a b. node_children a = node_children b) (alter ss f n) (alter ss f m)"
proof (cases ss)
  case (Cons s rs)
  assume eq: "node_children n = node_children m"
  then have "find_child n s = find_child m s" by (simp add: find_child_def children_names_def)
  then show ?thesis using eq Cons by (auto simp: option.rel_map intro!: option.rel_refl split: option.splits)
qed (use assms in simp)

lemma changes_children:
  assumes "node_children k = node_children l"
  shows "rel_option (\<lambda>a b. node_children a = node_children b) (add_named t k) (add_named t l)"
    "rel_option (\<lambda>a b. node_children a = node_children b) (drop_named t k) (drop_named t l)"
    "rel_option (\<lambda>a b. node_children a = node_children b) (rename_named old t k) (rename_named old t l)"
proof -
  have "children_names k = children_names l" "find_child k = find_child l"
    using assms by (simp_all add: children_names_def find_child_def fun_eq_iff)
  then show "rel_option (\<lambda>a b. node_children a = node_children b) (add_named t k) (add_named t l)"
    "rel_option (\<lambda>a b. node_children a = node_children b) (drop_named t k) (drop_named t l)"
    "rel_option (\<lambda>a b. node_children a = node_children b) (rename_named old t k) (rename_named old t l)"
    using assms by (auto simp: add_named_def drop_named_def rename_named_def split: option.splits)
qed

lemma replay_children:
  "node_children n = node_children m \<Longrightarrow> rel_option (\<lambda>a b. node_children a = node_children b) (replay e n) (replay e m)"
  by (cases e) (auto intro!: alter_children changes_children)

lemma replay_all_children:
  "node_children n = node_children m \<Longrightarrow>
   rel_option (\<lambda>a b. node_children a = node_children b) (replay_all es n) (replay_all es m)"
proof (induction es arbitrary: n m)
  case (Cons e es)
  from replay_children [OF Cons.prems, of e] Cons.IH show ?case
    by (auto elim!: option.rel_cases split: bind_splits)
qed simp

section \<open>A server and its mirror\<close>

text \<open>Changes of the tree of the server, at a place that exists and with a name that is not empty.\<close>

datatype tree_change = Create_child "nat list" string | Remove_child "nat list" string | Rename_node "nat list" string

definition create_entry_child :: "string \<Rightarrow> entry \<Rightarrow> entry_step" where
  "create_entry_child s n =
     (case create_child True n s of
        Ok (m, evs, _) \<Rightarrow> Returned (m, map Tree_changed evs)
      | Err e \<Rightarrow> Thrown e (n, []))"

definition remove_named_child :: "string \<Rightarrow> entry \<Rightarrow> entry_step" where
  "remove_named_child s n =
     Returned (fst (remove_child True n s), map Tree_changed (fst (snd (remove_child True (parameters n) s))))"

fun change_server :: "tree_change \<Rightarrow> entry \<Rightarrow> entry_step" where
  "change_server (Create_child q s) n = on_place q (create_entry_child s) n"
| "change_server (Remove_child q s) n = on_place q (remove_named_child s) n"
| "change_server (Rename_node q s) n = rename_entry q s n"

fun allowed :: "tree_change \<Rightarrow> entry \<Rightarrow> bool" where
  "allowed (Create_child q s) n \<longleftrightarrow> node_at n q \<noteq> None \<and> s \<noteq> []"
| "allowed (Remove_child q s) n \<longleftrightarrow> node_at n q \<noteq> None"
| "allowed (Rename_node q s) n \<longleftrightarrow> node_at n q \<noteq> None \<and> q \<noteq> [] \<and> s \<noteq> []"

lemma on_place_replayed:
  assumes "wf_tree n" "node_at n q = Some k" "f k = Returned (k', map Tree_changed es)" "replayed k es k'"
  shows "\<exists>fs. on_place q f n = Returned (put_at q k' n, map Tree_changed fs) \<and> replayed n fs (put_at q k' n)"
  using assms(1,2)
proof (induction q arbitrary: n)
  case Nil
  then show ?case using assms(3,4) by auto
next
  case (Cons i q)
  then have i: "i < length (node_children n)" "node_at (node_children n ! i) q = Some k" by (auto split: if_splits)
  obtain fs where fs: "on_place q f (node_children n ! i) = Returned (put_at q k' (node_children n ! i), map Tree_changed fs)"
    "replayed (node_children n ! i) fs (put_at q k' (node_children n ! i))"
    using Cons.IH [OF wf_child [OF Cons.prems(1) i(1)] i(2)] by blast
  have "replayed n (map (below (node_name (node_children n ! i))) fs) (put_at (i # q) k' n)"
    using replayed_child [OF fs(2) find_child_unique [OF Cons.prems(1) i(1)]] by simp
  then show ?case
    using fs(1) by (intro exI [of _ "map (below (node_name (node_children n ! i))) fs"]) (simp add: on_child_def comp_def)
qed

lemma on_place_elim:
  "on_place q f n = Returned (m, evs) \<Longrightarrow> node_at n q = Some k \<Longrightarrow> \<exists>k' es. f k = Returned (k', es)"
proof (induction q arbitrary: n m evs)
  case (Cons i q)
  then have "node_at (node_children n ! i) q = Some k" by (simp split: if_splits)
  moreover obtain c es where "on_place q f (node_children n ! i) = Returned (c, es)"
    using Cons.prems(1) by (cases "on_place q f (node_children n ! i)") (auto simp: on_child_def Let_def)
  ultimately show ?case using Cons.IH by blast
qed simp

lemma shape_parameters [simp]: "shape (parameters n) = shape n"
  by (induction n) (simp add: comp_def)

lemma remove_child_shape: "shape (fst (remove_child ct n s)) = fst (remove_child ct (shape n) s)"
  by (auto simp: remove_child_def take_out_def Let_def take_map drop_map split: option.splits)

lemma removal_replayed:
  assumes "wf_tree k"
  shows "replayed k (fst (snd (remove_child True (parameters k) s))) (fst (remove_child True k s))"
proof -
  have "wf_tree (parameters k)" using assms by (metis shape_parameters wf_shape)
  from remove_child_replayed [OF this, of True s] show ?thesis
    by (simp add: replayed_def remove_child_shape)
qed

lemma node_at_parent: "node_at n (q @ [i]) = Some c \<Longrightarrow> \<exists>k. node_at n q = Some k \<and> i < length (node_children k)"
  by (induction q arbitrary: n) (auto split: if_splits)

lemma list_all_put: "list_all P xs \<Longrightarrow> P x \<Longrightarrow> list_all P (xs[i := x])"
  by (auto simp: list_all_iff dest: set_update_subset_insert [THEN subsetD])

lemma list_all_cut: "list_all P xs \<Longrightarrow> list_all P (take i xs @ drop j xs)"
  by (auto simp: list_all_iff dest: in_set_takeD in_set_dropD)

text \<open>A tree none of whose nodes has an extended type of its own.\<close>

fun plain_types :: "entry \<Rightarrow> bool" where
  "plain_types (Node s d cs) \<longleftrightarrow>
     a_extended_type (d_attributes (case d of Some x \<Rightarrow> x | None \<Rightarrow> blank)) = None \<and> list_all plain_types cs"

lemma plain_iff:
  "plain_types n \<longleftrightarrow> a_extended_type (d_attributes (data_of n)) = None \<and> list_all plain_types (node_children n)"
  by (cases n) (simp add: data_of_def)

lemma plain_at: "plain_types n \<Longrightarrow> node_at n q = Some k \<Longrightarrow> plain_types k"
proof (induction q arbitrary: n)
  case (Cons i q)
  then show ?case by (auto simp: plain_iff [of n] list_all_length split: if_splits)
qed simp

lemma plain_set_children: "plain_types n \<Longrightarrow> list_all plain_types cs \<Longrightarrow> plain_types (set_children cs n)"
  by (simp add: plain_iff [of n] plain_iff [of "set_children _ _"])

lemma plain_put_at: "plain_types n \<Longrightarrow> plain_types k \<Longrightarrow> node_at n q \<noteq> None \<Longrightarrow> plain_types (put_at q k n)"
proof (induction q arbitrary: n)
  case (Cons i q)
  then have "plain_types (put_at q k (node_children n ! i))"
    by (auto simp: plain_iff [of n] list_all_length split: if_splits)
  then show ?case
    using Cons.prems(1) plain_set_children [OF Cons.prems(1) list_all_put] by (simp add: plain_iff [of n])
qed simp

definition signalled :: "entry \<Rightarrow> entry \<Rightarrow> node_event list \<Rightarrow> bool" where
  "signalled n m evs \<longleftrightarrow> (\<exists>es. evs = map Tree_changed es \<and> replayed n es m) \<and> (plain_types n \<longrightarrow> plain_types m)"

lemma place_signalled:
  assumes "good_tree n" "node_at n q = Some k" "on_place q f n = Returned (m, evs)"
    and step: "\<And>k' es. f k = Returned (k', es) \<Longrightarrow> signalled k k' es"
  shows "signalled n m evs"
proof -
  obtain k' es where k': "f k = Returned (k', es)" using on_place_elim [OF assms(3,2)] by blast
  obtain fs where fs: "es = map Tree_changed fs" "replayed k fs k'" "plain_types k \<longrightarrow> plain_types k'"
    using step [OF k'] by (auto simp: signalled_def)
  obtain gs where gs: "on_place q f n = Returned (put_at q k' n, map Tree_changed gs)" "replayed n gs (put_at q k' n)"
    using on_place_replayed [where f = f, of n q k k' fs] assms(1,2) k' fs(1,2) by (auto simp: good_tree_def)
  then show ?thesis
    using assms(2,3) fs(3) plain_put_at [of n k' q] plain_at [of n q k] by (auto simp: signalled_def)
qed

lemma created_signalled: "s \<noteq> [] \<Longrightarrow> create_entry_child s k = Returned (k', es) \<Longrightarrow> signalled k k' es"
proof -
  assume s: "s \<noteq> []" and run: "create_entry_child s k = Returned (k', es)"
  then obtain evs r where r: "create_child True k s = Ok (k', evs, r)" "es = map Tree_changed evs"
    by (auto simp: create_entry_child_def split: res.splits)
  have "plain_types k'" if "plain_types k"
    using r(1) that by (auto simp: create_child_def plain_iff [of k] blank_def no_attributes_def intro!: plain_set_children)
  then show ?thesis using create_child_replayed [OF r(1) s] r(2) by (auto simp: signalled_def)
qed

lemma removed_signalled: "good_tree k \<Longrightarrow> remove_named_child s k = Returned (k', es) \<Longrightarrow> signalled k k' es"
proof -
  assume good: "good_tree k" and run: "remove_named_child s k = Returned (k', es)"
  have "plain_types (fst (remove_child True k s))" if "plain_types k"
    using plain_set_children [OF that list_all_cut] that
    by (auto simp: remove_child_def take_out_def Let_def plain_iff [of k] split: option.splits)
  then show ?thesis
    using removal_replayed [of k s] good run by (auto simp: signalled_def remove_named_child_def good_tree_def)
qed

lemma renamed_signalled:
  assumes "good_tree k" "i < length (node_children k)" "s \<noteq> []" "rename_entry_child i s k = Returned (k', es)"
  shows "signalled k k' es"
proof -
  obtain evs where r: "set_child_name k i s = Ok (k', evs)" "es = map Tree_changed evs"
    using assms(4) by (auto simp: rename_entry_child_def split: res.splits)
  have "plain_types k'" if "plain_types k"
  proof -
    let ?c = "node_children k ! i"
    obtain t where k': "k' = set_children ((node_children k)[i := Node t (node_param ?c) (node_children ?c)]) k"
      using r(1) by (auto simp: set_child_name_def Let_def)
    have "plain_types (Node t (node_param ?c) (node_children ?c))"
      using that assms(2) by (cases ?c) (auto simp: plain_iff [of k] list_all_length)
    then show ?thesis
      unfolding k' using that by (intro plain_set_children list_all_put) (simp_all add: plain_iff [of k])
  qed
  then show ?thesis
    using set_child_name_replayed [OF r(1) assms(3) _ assms(2)] assms(1) r(2) by (auto simp: signalled_def good_tree_def)
qed

lemma change_signalled:
  assumes "good_tree n" "allowed c n" "change_server c n = Returned (m, evs)"
  shows "signalled n m evs"
proof (cases c)
  case (Create_child q s)
  then show ?thesis
    using assms created_signalled by (auto intro: place_signalled [where f = "create_entry_child s"])
next
  case (Remove_child q s)
  then obtain k where k: "node_at n q = Some k" using assms(2) by auto
  with Remove_child show ?thesis
    using assms good_path [OF assms(1) k] removed_signalled by (auto intro: place_signalled [where f = "remove_named_child s"])
next
  case (Rename_node q s)
  then have s: "q \<noteq> []" "s \<noteq> []" "node_at n (butlast q @ [last q]) \<noteq> None" using assms(2) by auto
  then obtain k where k: "node_at n (butlast q) = Some k" "last q < length (node_children k)"
    using node_at_parent by blast
  have run: "on_place (butlast q) (rename_entry_child (last q) s) n = Returned (m, evs)"
    using assms(3) s(1) Rename_node by (simp add: rename_entry_def)
  show ?thesis
    by (rule place_signalled [OF assms(1) k(1) run]) (use renamed_signalled good_path [OF assms(1) k(1)] k(2) s(2) in blast)
qed

text \<open>
  A server, the messages on their way, and a mirror. The steps are a change of the tree of the server,
  whose signals put their messages on the way, a message that arrives, and the application of the
  mirror running its commands; the last also when it ends by an exception. The data of a node whose
  parameter is removed no longer has it when the signal is emitted.
\<close>

record link =
  l_server :: entry
  l_wire :: "json list"
  l_mirror :: osc_mirror

definition look_at :: "entry \<Rightarrow> string list \<Rightarrow> node_data" where
  "look_at n ss =
     (case find_parts n ss of
        Some q \<Rightarrow> (case node_at n q of Some k \<Rightarrow> (data_of k)\<lparr>d_parameter := None\<rparr> | None \<Rightarrow> blank)
      | None \<Rightarrow> blank)"

inductive link_step :: "settings \<Rightarrow> link \<Rightarrow> link \<Rightarrow> bool" for st where
  server_changes:
    "allowed c (l_server l) \<Longrightarrow> change_server c (l_server l) = Returned (s, evs) \<Longrightarrow>
     map_res (on_signal (look_at (l_server l))) evs = Ok jss \<Longrightarrow>
     link_step st l (l\<lparr>l_server := s, l_wire := l_wire l @ concat jss\<rparr>)"
| message_arrives:
    "l_wire l = j # js \<Longrightarrow> on_ws_message st j (l_mirror l) = Ok (mi, evs, b) \<Longrightarrow>
     link_step st l (l\<lparr>l_wire := js, l_mirror := mi\<rparr>)"
| commands_run:
    "link_step st l (l\<lparr>l_mirror := fst (state_of (run_commands st (l_mirror l)))\<rparr>)"

text \<open>What is queued and what is on its way, replayed, turns the shape of the mirror into the server's.\<close>

definition pending :: "event list \<Rightarrow> event list \<Rightarrow> link \<Rightarrow> bool" where
  "pending es fs l \<longleftrightarrow>
     mi_queue (l_mirror l) = map command_of es \<and> l_wire l = map message_of fs \<and> list_all inner (es @ fs) \<and>
     (\<exists>u. replay_all (es @ fs) (shape (mi_tree (l_mirror l))) = Some u \<and> node_children u = node_children (shape (l_server l)))"

definition link_inv :: "link \<Rightarrow> bool" where
  "link_inv l \<longleftrightarrow>
     good_tree (l_server l) \<and> plain_types (l_server l) \<and> good_tree (mi_tree (l_mirror l)) \<and> (\<exists>es fs. pending es fs l)"

lemma link_invI:
  "good_tree (l_server l) \<Longrightarrow> plain_types (l_server l) \<Longrightarrow> good_tree (mi_tree (l_mirror l)) \<Longrightarrow> pending es fs l \<Longrightarrow> link_inv l"
  by (auto simp: link_inv_def)

lemma pendingE:
  assumes "pending es fs l"
  obtains u where "mi_queue (l_mirror l) = map command_of es" "l_wire l = map message_of fs"
    "list_all inner es" "list_all inner fs" "replay_all (es @ fs) (shape (mi_tree (l_mirror l))) = Some u"
    "node_children u = node_children (shape (l_server l))"
  using assms by (auto simp: pending_def)

definition synchronized :: "link \<Rightarrow> bool" where
  "synchronized l \<longleftrightarrow>
     good_tree (l_server l) \<and> plain_types (l_server l) \<and> mi_queue (l_mirror l) = [] \<and> l_wire l = [] \<and>
     same_tree_shape (l_server l) (mi_tree (l_mirror l))"

lemma good_same_shape: "same_tree_shape n m \<Longrightarrow> good_tree n \<Longrightarrow> good_tree m"
proof -
  assume "same_tree_shape n m" and good: "good_tree n"
  then have same: "node_children (shape n) = node_children (shape m)" by (simp add: same_tree_shape_def)
  then have "children_names (shape n) = children_names (shape m)" unfolding children_names_def by (rule arg_cong)
  then have "good_tree (shape n) \<longleftrightarrow> good_tree (shape m)" using same good_iff [of "shape n"] good_iff [of "shape m"] by presburger
  then show ?thesis using good by simp
qed

lemma synchronized_inv: "synchronized l \<Longrightarrow> link_inv l"
proof -
  assume l: "synchronized l"
  then have "pending [] [] l" by (simp add: synchronized_def pending_def same_tree_shape_def)
  moreover have "good_tree (mi_tree (l_mirror l))"
    using l good_same_shape [of "l_server l" "mi_tree (l_mirror l)"] by (simp add: synchronized_def)
  ultimately show ?thesis using l by (intro link_invI) (simp_all add: synchronized_def)
qed

lemma look_at_plain:
  assumes "plain_types n"
  shows "d_parameter (look_at n ss) = None \<and> a_extended_type (d_attributes (look_at n ss)) = None"
proof -
  have "a_extended_type (d_attributes (data_of k)) = None" if "node_at n q = Some k" for q k
    using plain_at [OF assms that] by (simp add: plain_iff)
  then show ?thesis by (auto simp: look_at_def blank_def no_attributes_def split: option.splits)
qed

lemma signals_sent: "plain_types n \<Longrightarrow> map_res (on_signal (look_at n)) (map Tree_changed es) = Ok (map (\<lambda>e. [message_of e]) es)"
  by (induction es) (simp_all add: signal_message look_at_plain)

lemma change_keeps_inv:
  assumes inv: "link_inv l" and c: "allowed c (l_server l)" "change_server c (l_server l) = Returned (s, evs)"
    and sent: "map_res (on_signal (look_at (l_server l))) evs = Ok jss"
  shows "link_inv (l\<lparr>l_server := s, l_wire := l_wire l @ concat jss\<rparr>)"
proof -
  obtain es fs where good: "good_tree (l_server l)" "plain_types (l_server l)" "good_tree (mi_tree (l_mirror l))"
    and p: "pending es fs l"
    using inv by (auto simp: link_inv_def)
  from p obtain u where u: "mi_queue (l_mirror l) = map command_of es" "l_wire l = map message_of fs"
    "list_all inner es" "list_all inner fs" "replay_all (es @ fs) (shape (mi_tree (l_mirror l))) = Some u"
    "node_children u = node_children (shape (l_server l))"
    by (rule pendingE)
  obtain gs where gs: "evs = map Tree_changed gs" "replayed (l_server l) gs s" "plain_types s"
    using change_signalled [OF good(1) c] good(2) by (auto simp: signalled_def)
  have "jss = map (\<lambda>e. [message_of e]) gs"
    using sent signals_sent [OF good(2), of gs] by (simp add: gs(1))
  then have msgs: "concat jss = map message_of gs" by (simp add: concat_map_singleton)
  obtain v where v: "replay_all gs u = Some v" "node_children v = node_children (shape s)"
    using replay_all_children [OF u(6), of gs] gs(2) by (auto simp: replayed_def elim: option.rel_cases)
  have "replay_all (es @ fs @ gs) (shape (mi_tree (l_mirror l))) = Some v"
    using replay_all_append [of "es @ fs" gs] u(5) v(1) by simp
  then have "pending es (fs @ gs) (l\<lparr>l_server := s, l_wire := l_wire l @ concat jss\<rparr>)"
    using u(1-4) gs(2) v(2) msgs by (simp add: pending_def replayed_def)
  then show ?thesis
    using good(3) gs(3) replayed_good [OF gs(2) good(1)] by (intro link_invI) simp_all
qed

lemma arrival_keeps_inv:
  assumes inv: "link_inv l" and wire: "l_wire l = j # js" and run: "on_ws_message st j (l_mirror l) = Ok (mi, evs, b)"
  shows "link_inv (l\<lparr>l_wire := js, l_mirror := mi\<rparr>)"
proof -
  obtain es fs where good: "good_tree (l_server l)" "plain_types (l_server l)" "good_tree (mi_tree (l_mirror l))"
    and p: "pending es fs l"
    using inv by (auto simp: link_inv_def)
  from p obtain f gs where f: "fs = f # gs" "j = message_of f" "js = map message_of gs"
    using wire by (cases fs) (auto simp: pending_def)
  then have "mi = enqueue (command_of f) (l_mirror l)" using run message_enqueued [of st f "l_mirror l"] by simp
  then have mi: "mi_queue mi = mi_queue (l_mirror l) @ [command_of f]" "mi_tree mi = mi_tree (l_mirror l)"
    by (simp_all add: enqueue_def)
  have "pending (es @ [f]) gs (l\<lparr>l_wire := js, l_mirror := mi\<rparr>)" using p f mi by (simp add: pending_def)
  then show ?thesis using good mi(2) by (intro link_invI) simp_all
qed

lemma commands_replayed:
  assumes "following st" "link_inv l"
  shows "\<exists>mi evs. run_commands st (l_mirror l) = Returned (mi, evs) \<and> link_inv (l\<lparr>l_mirror := mi\<rparr>)"
proof -
  obtain es fs where good: "good_tree (l_server l)" "plain_types (l_server l)" "good_tree (mi_tree (l_mirror l))"
    and p: "pending es fs l"
    using assms(2) by (auto simp: link_inv_def)
  from p obtain u where u: "mi_queue (l_mirror l) = map command_of es" "l_wire l = map message_of fs"
    "list_all inner es" "list_all inner fs" "replay_all (es @ fs) (shape (mi_tree (l_mirror l))) = Some u"
    "node_children u = node_children (shape (l_server l))"
    by (rule pendingE)
  obtain v where v: "replay_all es (shape (mi_tree (l_mirror l))) = Some v" "replay_all fs v = Some u"
    using u(5) by (auto simp: replay_all_append split: bind_splits)
  obtain mi evs where mi: "run_queue st (map command_of es) (l_mirror l) = Returned (mi, evs)" "shape (mi_tree mi) = v" "mi_queue mi = []"
    using queue_replayed [OF assms(1) good(3) v(1) u(3)] u(1) by auto
  have "replayed (mi_tree (l_mirror l)) es (mi_tree mi)" using v(1) mi(2) u(3) by (simp add: replayed_def)
  then have "good_tree (mi_tree mi)" using good(3) by (rule replayed_good)
  moreover have "pending [] fs (l\<lparr>l_mirror := mi\<rparr>)" using u(2,4,6) mi(2,3) v(2) by (simp add: pending_def)
  ultimately have "link_inv (l\<lparr>l_mirror := mi\<rparr>)" using good by (intro link_invI) simp_all
  then show ?thesis using mi(1) u(1) by (simp add: run_commands_def)
qed

lemma step_keeps_inv: "link_step st l l' \<Longrightarrow> following st \<Longrightarrow> link_inv l \<Longrightarrow> link_inv l'"
proof (induction rule: link_step.induct)
  case (commands_run l)
  then show ?case using commands_replayed [of st l] by auto
qed (auto intro: change_keeps_inv arrival_keeps_inv)

lemma steps_keep_inv: "(link_step st)\<^sup>*\<^sup>* l l' \<Longrightarrow> following st \<Longrightarrow> link_inv l \<Longrightarrow> link_inv l'"
  by (induction rule: rtranclp_induct) (auto intro: step_keeps_inv)

text \<open>All messages that are on their way arrive.\<close>

fun deliver_all :: "settings \<Rightarrow> json list \<Rightarrow> osc_mirror \<Rightarrow> osc_mirror res" where
  "deliver_all st [] mi = Ok mi"
| "deliver_all st (j # js) mi = res_bind (on_ws_message st j mi) (\<lambda>(mi', _, _). deliver_all st js mi')"

lemma deliver_messages: "deliver_all st (map message_of fs) mi = Ok (mi\<lparr>mi_queue := mi_queue mi @ map command_of fs\<rparr>)"
  by (induction fs arbitrary: mi) (simp_all add: message_enqueued enqueue_def)

lemma mirror_catches_up:
  assumes "following st" "link_inv l"
  shows "\<exists>mi mi' evs. deliver_all st (l_wire l) (l_mirror l) = Ok mi \<and> run_commands st mi = Returned (mi', evs) \<and>
    same_tree_shape (l_server l) (mi_tree mi')"
proof -
  obtain es fs where good: "good_tree (mi_tree (l_mirror l))" and p: "pending es fs l"
    using assms(2) by (auto simp: link_inv_def)
  from p obtain u where u: "mi_queue (l_mirror l) = map command_of es" "l_wire l = map message_of fs"
    "list_all inner es" "list_all inner fs" "replay_all (es @ fs) (shape (mi_tree (l_mirror l))) = Some u"
    "node_children u = node_children (shape (l_server l))"
    by (rule pendingE)
  let ?mi = "(l_mirror l)\<lparr>mi_queue := map command_of (es @ fs)\<rparr>"
  have 1: "deliver_all st (l_wire l) (l_mirror l) = Ok ?mi"
    using deliver_messages [of st fs "l_mirror l"] u(1,2) by simp
  obtain mi' evs where mi': "run_queue st (map command_of (es @ fs)) ?mi = Returned (mi', evs)" "shape (mi_tree mi') = u"
    using queue_replayed [OF assms(1), of ?mi "es @ fs" u] good u(3-5) by auto
  have "same_tree_shape (l_server l) (mi_tree mi')"
    using mi'(2) u(6) by (auto simp: same_tree_shape_def)
  then show ?thesis using 1 mi'(1) by (intro exI [of _ ?mi] exI [of _ mi'] exI [of _ evs]) (simp add: run_commands_def)
qed

section \<open>A parameter whose attributes change\<close>

text \<open>What the mirror of a parameter has of an attribute: the unit and the mute are not carried.\<close>

fun carried :: "attribute \<Rightarrow> parameter \<Rightarrow> parameter \<Rightarrow> parameter" where
  "carried Access_mode_attr x y = y\<lparr>p_access := p_access x\<rparr>"
| "carried Domain_attr x y = y\<lparr>p_domain := p_domain x\<rparr>"
| "carried Bounding_mode_attr x y = y\<lparr>p_bounding := p_bounding x\<rparr>"
| "carried Repetition_filter_attr x y = y\<lparr>p_rep_filter := p_rep_filter x\<rparr>"
| "carried Disabled_attr x y = y\<lparr>p_disabled := p_disabled x\<rparr>"
| "carried Critical_attr x y = y\<lparr>p_critical := p_critical x\<rparr>"
| "carried _ x y = y"

text \<open>A domain has to be readable and other than the one of the mirror; a Boolean is not bounded.\<close>

definition carriable :: "attribute \<Rightarrow> parameter \<Rightarrow> parameter \<Rightarrow> bool" where
  "carriable a x y \<longleftrightarrow> a \<noteq> Value_type_attr \<and> p_value_type y = p_value_type x \<and> p_value_type x \<noteq> T_NONE \<and>
     (a = Domain_attr \<longrightarrow> readable_domain (p_domain x) \<and> domain_type (p_domain x) = p_value_type x \<and>
        domain_ne (p_domain y) (p_domain x)) \<and>
     (a = Bounding_mode_attr \<longrightarrow> p_value_type x \<noteq> T_BOOL)"

lemma stored_silently:
  "d_parameter e = Some y \<Longrightarrow> f y = Returned (z, es) \<Longrightarrow> list_all no_extended es \<Longrightarrow>
   \<exists>cs. on_parameter f e = Returned (e\<lparr>d_parameter := Some z\<rparr>, cs)"
  using report_state [of es "e\<lparr>d_parameter := Some z\<rparr>"]
  by (cases "report es (e\<lparr>d_parameter := Some z\<rparr>)") (simp add: on_parameter_def)

text \<open>The key of the attribute and what reading its member does; there is no member for the mute.\<close>

definition member_for :: "attribute \<Rightarrow> parameter \<Rightarrow> (string \<times> json) list \<Rightarrow> bool" where
  "member_for a x ms \<longleftrightarrow>
     (\<exists>k j. ms = [(k, j)] \<and>
        k \<in> {''ACCESS'', ''RANGE'', ''CLIPMODE'', ''REPETITION_FILTER'', ''CRITICAL'', ''DISABLED''}) \<or>
     (\<exists>b. ms = [(''UNIT'', JBool b)]) \<or> ms = []"

lemma attribute_written:
  assumes x: "d_parameter d = Some x" and y: "d_parameter e = Some y" and a: "carriable a x y"
  shows "\<exists>ms cs. attribute_members_of ss d (attribute_text a) = Ok ms \<and> member_for a x ms \<and>
    do_all (read_member io) ms e = Returned (e\<lparr>d_parameter := Some (carried a x y)\<rparr>, cs)"
proof -
  have same: "e\<lparr>d_parameter := Some y\<rparr> = e" using y by (cases e) simp
  note keys = attribute_members_of_def ossia_to_oscquery_key_def osc_keys_def write_attribute_def optional_json_def member_for_def
  have one: ?thesis
    if "attribute_members_of ss d (attribute_text a) = Ok [(k, j)]"
      "k \<in> {''ACCESS'', ''RANGE'', ''CLIPMODE'', ''REPETITION_FILTER'', ''CRITICAL'', ''DISABLED''}"
      "read_member io (k, j) e = on_parameter f e" "f y = Returned (carried a x y, es)" "list_all no_extended es" for k j f es
  proof -
    have "\<exists>cs. on_parameter f e = Returned (e\<lparr>d_parameter := Some (carried a x y)\<rparr>, cs)"
      using stored_silently [where f = f, OF y that(4,5)] .
    then obtain cs where "on_parameter f e = Returned (e\<lparr>d_parameter := Some (carried a x y)\<rparr>, cs)" by blast
    then show ?thesis using that(1-3) by (intro exI [of _ "[(k, j)]"]) (simp add: member_for_def)
  qed
  show ?thesis
  proof (cases a)
    case Value_type_attr
    then show ?thesis using a by (simp add: carriable_def)
  next
    case Access_mode_attr
    then show ?thesis using x access_read_back [of "p_access x"]
      by (intro one [of "''ACCESS''" "JInt (access_number (p_access x))" "\<lambda>z. Returned (set_access z (p_access x))" "snd (set_access y (p_access x))"])
        (auto simp: keys member_defs set_node_access_def set_access_def)
  next
    case Domain_attr
    then have dm: "readable_domain (p_domain x)" "domain_type (p_domain x) = p_value_type y" "domain_ne (p_domain y) (p_domain x)"
      "p_value_type y \<noteq> T_NONE"
      using a by (simp_all add: carriable_def)
    obtain j where j: "domain_to_json (p_domain x) = Ok (Some j)" "read_domain (p_value_type y) j = Ok (Some (p_domain x))"
      using domain_read_back [OF dm(1)] dm(2) by auto
    have "convert_own_domain io (y\<lparr>p_domain := p_domain x\<rparr>) = Returned (y\<lparr>p_domain := p_domain x\<rparr>)"
      using convert_compatible_same [OF dm(2,4), of io] by (cases y) (simp add: convert_own_domain_def)
    then have "set_domain io y (p_domain x) = Returned (y\<lparr>p_domain := p_domain x\<rparr>, [Modified Domain_attr])"
      using dm(3) by (simp add: set_domain_def)
    then show ?thesis using x y j Domain_attr
      by (intro one [of "''RANGE''" j "\<lambda>z. set_domain io z (p_domain x)" "[Modified Domain_attr]"])
        (simp_all add: keys member_defs read_range_def set_node_domain_def)
  next
    case Bounding_mode_attr
    then show ?thesis using x a bounding_read_back [of "p_bounding x"]
      by (intro one [of "''CLIPMODE''" "JStr (bounding_text (p_bounding x))" "\<lambda>z. Returned (set_bounding z (p_bounding x))" "snd (set_bounding y (p_bounding x))"])
        (auto simp: keys member_defs set_node_bounding_def set_bounding_def carriable_def)
  next
    case Unit_attr
    let ?ms = "[(''UNIT'', JBool (p_unit x \<noteq> None))]"
    have "attribute_members_of ss d (attribute_text a) = Ok ?ms" using x Unit_attr by (simp add: keys)
    moreover have "member_for a x ?ms" unfolding member_for_def by blast
    moreover have "do_all (read_member io) ?ms e = Returned (e, [])" by (simp add: reads_passed)
    moreover have "e\<lparr>d_parameter := Some (carried a x y)\<rparr> = e" using Unit_attr same by simp
    ultimately show ?thesis by (intro exI [of _ ?ms] exI [of _ "[]"] conjI) simp_all
  next
    case Repetition_filter_attr
    then show ?thesis using x
      by (intro one [of "''REPETITION_FILTER''" "JBool (p_rep_filter x)" "\<lambda>z. Returned (set_repetition_filter z (p_rep_filter x))" "snd (set_repetition_filter y (p_rep_filter x))"])
        (auto simp: keys member_defs set_node_rep_filter_def set_repetition_filter_def)
  next
    case Disabled_attr
    then show ?thesis using x
      by (intro one [of "''DISABLED''" "JBool (p_disabled x)" "\<lambda>z. Returned (set_disabled z (p_disabled x))" "snd (set_disabled y (p_disabled x))"])
        (auto simp: keys member_defs set_node_disabled_def set_disabled_def)
  next
    case Muted_attr
    then have "attribute_members_of ss d (attribute_text a) = Ok []" by (simp add: keys)
    moreover have "member_for a x []" by (simp add: member_for_def)
    moreover have "do_all (read_member io) [] e = Returned (e\<lparr>d_parameter := Some (carried a x y)\<rparr>, [])"
      using Muted_attr same by simp
    ultimately show ?thesis by blast
  next
    case Critical_attr
    then show ?thesis using x
      by (intro one [of "''CRITICAL''" "JBool (p_critical x)" "\<lambda>z. Returned (set_critical z (p_critical x))" "snd (set_critical y (p_critical x))"])
        (auto simp: keys member_defs set_node_critical_def set_critical_def)
  qed
qed

lemma node_at_put: "node_at n q \<noteq> None \<Longrightarrow> node_at (put_at q k n) q = Some k"
  by (induction q arbitrary: n) (auto split: if_splits)

lemma data_of_with_data [simp]: "data_of (with_data d n) = d"
  by (simp add: with_data_def data_of_def)

lemma member_gives_no_type:
  assumes "member_for a x ms"
  shows "\<not> gives_type ((''FULL_PATH'', JStr t) # ms) \<and> update_type io ((''FULL_PATH'', JStr t) # ms) d = Returned (d, [])"
proof -
  let ?ds = "(''FULL_PATH'', JStr t) # ms"
  have "map_of ?ds ''TYPE'' = None" "map_of ?ds ''EXTENDED_TYPE'' = None"
    "map_of ?ds ''UNIT'' = None \<or> (\<exists>b. map_of ?ds ''UNIT'' = Some (JBool b))"
    using assms by (auto simp: member_for_def)
  then have types: "type_of_tag ?ds = No_type" "read_types ?ds = Ok (None, None)"
    by (auto simp: type_of_tag_def type_text_def read_types_def read_unit_def simp del: map_of.simps)
  then have "update_type io ?ds d = Returned (d, [])"
    by (simp add: update_type_def try_res_def set_up_def setup_parameter_def split: option.splits)
  then show ?thesis using types by (simp add: gives_type_def)
qed

text \<open>A change of an attribute of the parameter of the server, from its signal to the tree of the mirror.\<close>

lemma attribute_followed:
  assumes d: "d_parameter (look ss) = Some x" and q: "find_node (mi_tree mi) (address_of ss) = Some q"
    and y: "d_parameter (data_in q mi) = Some y" and a: "carriable a x y" and queue: "mi_queue mi = []"
  shows "\<exists>js mi1 mi2 evs. on_signal look (Changed ss (Of_parameter (Modified a))) = Ok js \<and>
    deliver_all st js mi = Ok mi1 \<and> run_commands st mi1 = Returned (mi2, evs) \<and>
    data_in q mi2 = (data_in q mi)\<lparr>d_parameter := Some (carried a x y)\<rparr> \<and> shape (mi_tree mi2) = shape (mi_tree mi)"
proof -
  obtain ms cs where ms: "attribute_members_of ss (look ss) (attribute_text a) = Ok ms" "member_for a x ms"
    "do_all (read_member (s_io st)) ms (data_in q mi) = Returned ((data_in q mi)\<lparr>d_parameter := Some (carried a x y)\<rparr>, cs)"
    using attribute_written [OF d y a, of ss "s_io st"] by blast
  let ?ds = "(''FULL_PATH'', JStr (address_of ss)) # ms" and ?e = "(data_in q mi)\<lparr>d_parameter := Some (carried a x y)\<rparr>"
  let ?j = "command_message ''ATTRIBUTES_CHANGED'' (JObj ?ds)"
  let ?c = "Attributes_changed [(''COMMAND'', JStr ''ATTRIBUTES_CHANGED''), (''DATA'', JObj ?ds)]"
  have sent: "on_signal look (Changed ss (Of_parameter (Modified a))) = Ok [?j]"
    using ms(1) by (simp add: on_attribute_changed_def attribute_changed_def)
  have arrived: "deliver_all st [?j] mi = Ok (enqueue ?c mi)"
    by (simp add: on_ws_message_def command_message_def message_type_of_def text_of_def command_types_def try_res_def handle_message_def)
  obtain k where k: "node_at (mi_tree mi) q = Some k" "data_of k = data_in q mi"
    using q find_parts_path [of "mi_tree mi" _ q] by (auto simp: find_node_parts data_in_def split: if_splits)
  let ?step = "on_data (\<lambda>d. then_do (update_type (s_io st) ?ds d) (do_all (read_member (s_io st)) ?ds))"
  note none = member_gives_no_type [OF ms(2), of "address_of ss"]
  have "read_member (s_io st) (''FULL_PATH'', JStr (address_of ss)) d = Returned (d, [])" for d
    by (simp add: read_member_def)
  then have "\<exists>evs. ?step k = Returned (with_data ?e k, evs)"
    using none ms(3) k(2) by (simp add: on_data_def)
  then obtain evs where "?step k = Returned (with_data ?e k, evs)" ..
  from on_place_Returned [where f = ?step, OF k(1) this] obtain evs'
    where "on_place q ?step (mi_tree mi) = Returned (put_at q (with_data ?e k) (mi_tree mi), evs')" by blast
  then have "run_commands st (enqueue ?c mi) =
      Returned (mi\<lparr>mi_tree := put_at q (with_data ?e k) (mi_tree mi)\<rparr>, map In_tree evs')"
    using queue q none
    by (simp add: run_commands_def enqueue_def parse_attributes_changed_def text_of_def try_res_def in_tree_def)
  moreover have "shape (mi_tree (mi\<lparr>mi_tree := put_at q (with_data ?e k) (mi_tree mi)\<rparr>)) = shape (mi_tree mi)"
    using put_at_shape [of "mi_tree mi" q "with_data ?e k"] put_at_same [of "shape (mi_tree mi)" q "shape k"] k(1)
    by (simp add: node_at_shape)
  moreover have "data_in q (mi\<lparr>mi_tree := put_at q (with_data ?e k) (mi_tree mi)\<rparr>) = ?e"
    using k(1) by (simp add: data_in_def node_at_put)
  ultimately show ?thesis
    using sent arrived by (intro exI conjI)
qed

end
