(* ===== verification/Oscquery_Server.thy ===== *)
theory Oscquery_Server
  imports Oscquery_Mirror Osc_Protocol
begin

text \<open>
  The server of OSCQuery (\<open>oscquery_server.cpp\<close>) and its answers to the requests of clients: the parser
  of requests (\<open>query_parser.hpp\<close>, \<open>http_query_parser.hpp\<close>), the queries (\<open>get_query_parser.hpp\<close>), the
  documents that clients send (\<open>json_query_parser.hpp\<close>) and the clients themselves
  (\<open>oscquery_client.hpp\<close>). What is sent, answered and signalled are the events of a step. Connections
  are numbers; the sockets and the pages in HTML are not modelled. The order in which the elements of
  a hash map are visited and the parser of documents are arguments.
\<close>

section \<open>Requests\<close>

text \<open>The path in the request line that a client sends over HTTP.\<close>

definition http_path :: "string \<Rightarrow> string" where
  "http_path s = concat (map (\<lambda>c. if c = CHR '' '' then ''%20'' else [c]) s)"

definition hex_value :: "char \<Rightarrow> int option" where
  "hex_value c =
     (if char_between CHR ''0'' c CHR ''9'' then Some (of_char c - 48)
      else if char_between CHR ''a'' c CHR ''f'' then Some (of_char c - 87)
      else if char_between CHR ''A'' c CHR ''F'' then Some (of_char c - 55)
      else None)"

text \<open>A stream read with \<open>std::hex\<close>: it skips spaces and takes a sign; a prefix \<open>0x\<close> needs a digit.\<close>

definition read_hex :: "string \<Rightarrow> int option" where
  "read_hex s =
     (let t = dropWhile is_space s;
          u = (if t \<noteq> [] \<and> (hd t = CHR ''-'' \<or> hd t = CHR ''+'') then tl t else t);
          ds = List.map_filter hex_value (takeWhile (\<lambda>c. hex_value c \<noteq> None) u);
          v = foldl (\<lambda>n d. 16 * n + d) 0 ds
      in if ds = [] \<or> u = ''0x'' \<or> u = ''0X'' then None else Some (if hd t = CHR ''-'' then - v else v))"

text \<open>The text decoded up to its end, to a null character or to an escape that is malformed.\<close>

fun url_decode :: "string \<Rightarrow> string" where
  "url_decode [] = []"
| "url_decode (c # s) =
     (if c = CHR ''%'' then
        (if length s < 2 then []
         else case read_hex (take 2 s) of
           Some v \<Rightarrow> char_of (nat (v mod 256)) # url_decode (drop 2 s)
         | None \<Rightarrow> [])
      else if c = CHR ''+'' then CHR '' '' # url_decode s
      else if c = CHR 0x00 then []
      else c # url_decode s)"

type_synonym methods = "(string \<times> string) list"

definition insert_new :: "string \<Rightarrow> string \<Rightarrow> methods \<Rightarrow> methods" where
  "insert_new k v m = (if map_of m k = None then m @ [(k, v)] else m)"

text \<open>A key, and its value after an equals sign; what is left of the text.\<close>

definition parse_pair :: "string \<Rightarrow> ((string \<times> string) \<times> string) option" where
  "parse_pair s =
     (let k = takeWhile (\<lambda>c. c \<noteq> CHR ''&'' \<and> c \<noteq> CHR ''='') s; r = drop (length k) s
      in if k = [] then None
         else if r \<noteq> [] \<and> hd r = CHR ''='' then
           Some ((k, takeWhile (\<lambda>c. c \<noteq> CHR ''&'') (tl r)), dropWhile (\<lambda>c. c \<noteq> CHR ''&'') (tl r))
         else Some ((k, []), r))"

lemma parse_pair_shorter: "parse_pair s = Some (p, r) \<Longrightarrow> length r < length s"
  using length_dropWhile_le [of "\<lambda>c. c \<noteq> CHR ''&''" "tl (drop (length (takeWhile (\<lambda>c. c \<noteq> CHR ''&'' \<and> c \<noteq> CHR ''='') s)) s)"]
  by (cases s) (auto simp: parse_pair_def Let_def split: if_splits)

function parse_pairs :: "string \<Rightarrow> methods \<Rightarrow> methods" where
  "parse_pairs s m =
     (case parse_pair s of
        None \<Rightarrow> m
      | Some ((k, v), r) \<Rightarrow>
          (if r \<noteq> [] \<and> hd r = CHR ''&'' then parse_pairs (tl r) (insert_new k v m) else insert_new k v m))"
  by pat_completeness auto
termination
  by (relation "measure (\<lambda>(s, _). length s)") (auto dest: parse_pair_shorter)

declare parse_pairs.simps [simp del]

type_synonym visit_order = "methods \<Rightarrow> methods"

definition parse_http_methods :: "visit_order \<Rightarrow> string \<Rightarrow> methods" where
  "parse_http_methods ord s = foldl (\<lambda>m (k, v). insert_new (url_decode k) (url_decode v) m) [] (ord (parse_pairs s []))"

text \<open>The part after the question mark is taken with the null character that ends the text.\<close>

definition parse_http_request :: "visit_order \<Rightarrow> string \<Rightarrow> string \<times> methods" where
  "parse_http_request ord s =
     (url_decode (takeWhile (\<lambda>c. c \<noteq> CHR ''?'') s),
      parse_http_methods ord (case dropWhile (\<lambda>c. c \<noteq> CHR ''?'') s of [] \<Rightarrow> [] | _ # r \<Rightarrow> r @ [CHR 0x00]))"

section \<open>The data of a node that is asked for\<close>

text \<open>The fields that no query sets (the value, the domain and the mute) are left out.\<close>

record parameter_data =
  pd_name :: string
  pd_type :: complex_type
  pd_unit :: unit_t
  pd_access :: "access_mode option"
  pd_bounding :: "bounding_mode option"
  pd_rep_filter :: "bool option"
  pd_disabled :: "bool option"
  pd_critical :: "bool option"
  pd_extended :: attributes

definition no_data :: parameter_data where
  "no_data = \<lparr>pd_name = [], pd_type = No_type, pd_unit = None, pd_access = None, pd_bounding = None,
     pd_rep_filter = None, pd_disabled = None, pd_critical = None, pd_extended = no_attributes\<rparr>"

record number_io =
  lex_single :: "string \<Rightarrow> fl option"
  lex_double :: "string \<Rightarrow> fl option"

definition parse_access :: "string \<Rightarrow> parameter_data \<Rightarrow> parameter_data" where
  "parse_access s d =
     (case lexical_to_int s of
        Some n \<Rightarrow>
          (if n = 1 then d\<lparr>pd_access := Some GET\<rparr> else if n = 2 then d\<lparr>pd_access := Some SET\<rparr>
           else if n = 3 then d\<lparr>pd_access := Some BI\<rparr> else d)
      | None \<Rightarrow> d)"

text \<open>By the first letter that distinguishes them.\<close>

definition parse_bounding :: "string \<Rightarrow> parameter_data \<Rightarrow> parameter_data" where
  "parse_bounding s d =
     (if length s \<le> 2 then d
      else case map_of [(CHR ''n'', FREE), (CHR ''t'', CLIP), (CHR ''w'', LOW), (CHR ''g'', HIGH), (CHR ''a'', WRAP),
          (CHR ''l'', FOLD)] (s ! 2) of
        Some b \<Rightarrow> d\<lparr>pd_bounding := Some b\<rparr>
      | None \<Rightarrow> d)"

definition parse_bool :: "string \<Rightarrow> bool option" where
  "parse_bool s =
     (if s = [] then None
      else if hd s = CHR ''t'' \<or> hd s = CHR ''T'' then Some True
      else if hd s = CHR ''f'' \<or> hd s = CHR ''F'' then Some False
      else None)"

definition in_extended :: "(attributes \<Rightarrow> attributes) \<Rightarrow> parameter_data \<Rightarrow> parameter_data" where
  "in_extended f d = d\<lparr>pd_extended := f (pd_extended d)\<rparr>"

definition if_read :: "('a \<Rightarrow> 's \<Rightarrow> 's) \<Rightarrow> 'a option \<Rightarrow> 's \<Rightarrow> 's" where
  "if_read f x s = (case x of Some y \<Rightarrow> f y s | None \<Rightarrow> s)"

definition some_text :: "string \<Rightarrow> string option" where
  "some_text s = (if s = [] then None else Some s)"

text \<open>The setter for a key of the query; those for values, domains, tags and bounds do nothing.\<close>

definition parse_query :: "number_io \<Rightarrow> string \<Rightarrow> string \<Rightarrow> parameter_data \<Rightarrow> parameter_data" where
  "parse_query nio k s =
     (if k = ''TYPE'' then pd_type_update (\<lambda>_. get_type_from_osc_typetag s)
      else if k = ''UNIT'' then pd_unit_update (\<lambda>_. parse_pretty_unit s)
      else if k = ''EXTENDED_TYPE'' then in_extended (a_extended_type_update (\<lambda>_. some_text s))
      else if k = ''DEFAULT_VALUE'' then in_extended (a_default_value_update (\<lambda>_. Some (VString s)))
      else if k = ''ACCESS'' then parse_access s
      else if k = ''CLIPMODE'' then parse_bounding s
      else if k = ''REPETITION_FILTER'' then if_read (\<lambda>b. pd_rep_filter_update (\<lambda>_. Some b)) (parse_bool s)
      else if k = ''REFRESH_RATE'' then
        if_read (\<lambda>n. in_extended (a_refresh_rate_update (\<lambda>_. Some (word_of_int n)))) (lexical_to_int s)
      else if k = ''PRIORITY'' then if_read (\<lambda>x. in_extended (a_priority_update (\<lambda>_. Some x))) (lex_single nio s)
      else if k = ''STEP_SIZE'' then if_read (\<lambda>x. in_extended (a_step_size_update (\<lambda>_. Some x))) (lex_double nio s)
      else if k = ''CRITICAL'' then if_read (\<lambda>b. pd_critical_update (\<lambda>_. Some b)) (parse_bool s)
      else if k = ''HIDDEN'' then if_read (\<lambda>b. in_extended (a_hidden_update (\<lambda>_. b))) (parse_bool s)
      else if k = ''DISABLED'' then if_read (\<lambda>b. pd_disabled_update (\<lambda>_. Some b)) (parse_bool s)
      else if k = ''DESCRIPTION'' then in_extended (a_description_update (\<lambda>_. some_text s))
      else if k = ''APP_NAME'' then in_extended (a_app_name_update (\<lambda>_. some_text s))
      else if k = ''APP_CREATOR'' then in_extended (a_app_creator_update (\<lambda>_. some_text s))
      else if k = ''APP_VERSION'' then in_extended (a_app_version_update (\<lambda>_. some_text s))
      else (\<lambda>d. d))"

section \<open>The state of a server\<close>

text \<open>A client: the addresses it listens to, and its sender, an address and a port.\<close>

record client =
  c_handle :: nat
  c_listening :: "string list"
  c_ip :: string
  c_sender :: "(string \<times> nat) option"
  c_remote_port :: int

datatype server_command =
    Add_requested string parameter_data
  | Remove_requested string string
  | Rename_requested string string

record 'rx osc_server =
  sv_tree :: entry
  sv_osc_port :: int
  sv_listening :: "nat list listened"
  sv_clients :: "client list"
  sv_queue :: "server_command list"
  sv_cache :: "'rx cache"

text \<open>
  Messages and binary messages go to a client over its websocket, OSC messages by its sender; an
  answer goes to who asked.
\<close>

datatype server_event =
    In_server_tree node_event
  | Server_message string
  | Server_unhandled string val
  | To_client nat json
  | Binary_to nat message
  | Osc_to "string \<times> nat" message
  | Reply json
  | Reply_page "nat list"
  | To_application server_command

type_synonym 'rx server_step = "('rx osc_server \<times> server_event list) outcome"

section \<open>Clients\<close>

definition find_client :: "nat \<Rightarrow> 'rx osc_server \<Rightarrow> client option" where
  "find_client h sv = List.find (\<lambda>c. c_handle c = h) (sv_clients sv)"

text \<open>The first client with a handle changed.\<close>

fun update_client :: "nat \<Rightarrow> (client \<Rightarrow> client) \<Rightarrow> client list \<Rightarrow> client list" where
  "update_client h f [] = []"
| "update_client h f (c # cs) = (if c_handle c = h then f c # cs else c # update_client h f cs)"

text \<open>
  The clients are elements of a vector. Their move constructor and move assignment leave out the
  remote port: it is zero in one that is moved to a larger vector, and stays where it is when the
  elements behind an erased one are moved down.
\<close>

fun move_down :: "int \<Rightarrow> client list \<Rightarrow> client list" where
  "move_down port [] = []"
| "move_down port (c # cs) = c\<lparr>c_remote_port := port\<rparr> # move_down (c_remote_port c) cs"

fun erase_client :: "nat \<Rightarrow> client list \<Rightarrow> client list" where
  "erase_client h [] = []"
| "erase_client h (c # cs) = (if c_handle c = h then move_down (c_remote_port c) cs else c # erase_client h cs)"

definition moved :: "client \<Rightarrow> client" where
  "moved c = c\<lparr>c_remote_port := 0\<rparr>"

definition with_client :: "nat \<Rightarrow> (client \<Rightarrow> client) \<Rightarrow> 'rx osc_server \<Rightarrow> 'rx server_step" where
  "with_client h f sv =
     (if find_client h sv = None then Thrown Bad_request (sv, [])
      else Returned (sv\<lparr>sv_clients := update_client h f (sv_clients sv)\<rparr>, []))"

text \<open>\<open>grows\<close> tells whether the vector of clients has to be moved to make room.\<close>

definition on_connection_open :: "bool \<Rightarrow> nat \<Rightarrow> string \<Rightarrow> 'rx osc_server \<Rightarrow> 'rx osc_server" where
  "on_connection_open grows h ip sv =
     sv\<lparr>sv_clients := (if grows then map moved (sv_clients sv) else sv_clients sv) @ [\<lparr>c_handle = h, c_listening = [],
          c_ip = (if take 7 ip = ''::ffff:'' then drop 7 ip else ip), c_sender = None, c_remote_port = 0\<rparr>]\<rparr>"

definition on_connection_closed :: "nat \<Rightarrow> 'rx osc_server \<Rightarrow> 'rx osc_server" where
  "on_connection_closed h sv = sv\<lparr>sv_clients := erase_client h (sv_clients sv)\<rparr>"

text \<open>A node without parameter is not listened to; nothing reads the pointer that is kept with the address.\<close>

definition start_listen :: "string \<Rightarrow> bool \<Rightarrow> client \<Rightarrow> client" where
  "start_listen a has_parameter c = (if has_parameter then c\<lparr>c_listening := List.insert a (c_listening c)\<rparr> else c)"

definition stop_listen :: "string \<Rightarrow> client \<Rightarrow> client" where
  "stop_listen a c = c\<lparr>c_listening := removeAll a (c_listening c)\<rparr>"

definition has_parameter_at :: "'rx osc_server \<Rightarrow> nat list \<Rightarrow> bool" where
  "has_parameter_at sv q \<longleftrightarrow> (case node_at (sv_tree sv) q of Some n \<Rightarrow> d_parameter (data_of n) \<noteq> None | None \<Rightarrow> False)"

text \<open>The sender of a client is opened on a port of 16 bits.\<close>

definition open_osc_sender :: "int \<Rightarrow> int \<Rightarrow> client \<Rightarrow> client" where
  "open_osc_sender port remote_port c =
     (if port = 0 then c
      else (let c' = c\<lparr>c_sender := Some (c_ip c, nat (port mod 65536))\<rparr>
            in if remote_port = 0 then c' else c'\<lparr>c_remote_port := remote_port\<rparr>))"

section \<open>What the server sends to its clients\<close>

definition send_all :: "json list \<Rightarrow> 'rx osc_server \<Rightarrow> server_event list" where
  "send_all js sv = concat (map (\<lambda>j. map (\<lambda>c. To_client (c_handle c) j) (sv_clients sv)) js)"

text \<open>The signals of the device, with the maps of addresses that a renaming changes.\<close>

definition rename_listening :: "string \<Rightarrow> string \<Rightarrow> client \<Rightarrow> client" where
  "rename_listening old a c =
     (if old \<in> set (c_listening c) then c\<lparr>c_listening := List.insert a (removeAll old (c_listening c))\<rparr> else c)"

definition on_renamed :: "string \<Rightarrow> string \<Rightarrow> 'rx osc_server \<Rightarrow> 'rx osc_server" where
  "on_renamed old a sv =
     sv\<lparr>sv_listening := listened_rename (sv_listening sv) old a,
        sv_clients := map (rename_listening old a) (sv_clients sv)\<rparr>"

definition on_device_signal :: "(string list \<Rightarrow> node_data) \<Rightarrow> node_event \<Rightarrow> 'rx osc_server \<Rightarrow> 'rx server_step" where
  "on_device_signal look ev sv =
     (let sv' = (case ev of
          Tree_changed (Renamed ss old) \<Rightarrow> on_renamed (old_address (address_of ss) old) (address_of ss) sv
        | _ \<Rightarrow> sv)
      in case on_signal look ev of
        Ok js \<Rightarrow> Returned (sv', send_all js sv')
      | Err e \<Rightarrow> Thrown e (sv', []))"

definition server_push :: "text_io \<Rightarrow> string \<Rightarrow> parameter \<Rightarrow> val \<Rightarrow> 'rx osc_server \<Rightarrow> (server_event list \<times> bool) res" where
  "server_push io a p v sv =
     res_map (\<lambda>w.
       if valid w then
         (map (\<lambda>c. case (if p_critical p then None else c_sender c) of
            Some s \<Rightarrow> Osc_to s (a, osc_outbound w)
          | None \<Rightarrow> Binary_to (c_handle c) (a, osc_outbound w)) (sv_clients sv), True)
       else ([], False))
     (outbound_value io p v)"

text \<open>A message that was received goes to the other clients.\<close>

definition echo_message :: "bool \<Rightarrow> int \<Rightarrow> message \<Rightarrow> 'rx osc_server \<Rightarrow> server_event list" where
  "echo_message enabled port m sv =
     (if \<not> enabled then []
      else concat (map (\<lambda>c. case c_sender c of
          Some s \<Rightarrow> if port \<noteq> c_remote_port c then [Osc_to s m] else []
        | None \<Rightarrow> [Binary_to (c_handle c) m]) (sv_clients sv)))"

definition server_observe :: "'rx osc_server \<Rightarrow> nat list \<Rightarrow> bool \<Rightarrow> 'rx osc_server" where
  "server_observe sv q enable =
     (let a = osc_parameter_string (sv_tree sv) q
      in sv\<lparr>sv_listening := (if enable then listened_insert (sv_listening sv) a q else listened_erase (sv_listening sv) a)\<rparr>)"

section \<open>Commands\<close>

definition enqueue_command :: "server_command \<Rightarrow> 'rx osc_server \<Rightarrow> 'rx server_step" where
  "enqueue_command c sv = Returned (sv\<lparr>sv_queue := sv_queue sv @ [c]\<rparr>, [])"

definition server_run_commands :: "'rx osc_server \<Rightarrow> 'rx server_step" where
  "server_run_commands sv = Returned (sv\<lparr>sv_queue := []\<rparr>, map To_application (sv_queue sv))"

definition added_data :: "number_io \<Rightarrow> visit_order \<Rightarrow> methods \<Rightarrow> parameter_data" where
  "added_data nio ord ps =
     fold (\<lambda>(k, v). parse_query nio k v) (ord ps)
       (no_data\<lparr>pd_name := (case map_of ps ''ADD_NODE'' of Some s \<Rightarrow> s | None \<Rightarrow> [])\<rparr>)"

section \<open>Queries\<close>

definition handle_listen :: "nat \<Rightarrow> nat list \<Rightarrow> string \<Rightarrow> string \<Rightarrow> 'rx osc_server \<Rightarrow> 'rx server_step" where
  "handle_listen h q a text sv =
     (if find_client h sv = None then Thrown Bad_request (sv, [])
      else if text = ''TRUE'' then with_client h (start_listen a (has_parameter_at sv q)) sv
      else if text = ''FALSE'' then with_client h (stop_listen a) sv
      else Thrown Bad_request (sv, []))"

definition reply :: "json res \<Rightarrow> 'rx osc_server \<Rightarrow> 'rx server_step" where
  "reply r = try_res r (\<lambda>j sv. Returned (sv, [Reply j]))"

definition query_namespace :: "nat list \<Rightarrow> entry \<Rightarrow> json res" where
  "query_namespace q n =
     (case node_at n q of Some k \<Rightarrow> write_node (path_names n q) k | None \<Rightarrow> Err Node_not_found)"

definition query_attributes :: "nat list \<Rightarrow> entry \<Rightarrow> string list \<Rightarrow> json res" where
  "query_attributes q n ks =
     (case node_at n q of
        Some k \<Rightarrow> res_map JObj (map_res (\<lambda>m. res_map (Pair m) (write_attribute (path_names n q) (data_of k) m)) ks)
      | None \<Rightarrow> Err Node_not_found)"

definition answer_at :: "number_io \<Rightarrow> visit_order \<Rightarrow> nat \<Rightarrow> string \<Rightarrow> methods \<Rightarrow> nat list \<Rightarrow> 'rx osc_server \<Rightarrow> 'rx server_step" where
  "answer_at nio ord h a ps q sv =
     (case map_of ps ''LISTEN'' of
        Some t \<Rightarrow> handle_listen h q a t sv
      | None \<Rightarrow>
          if map_of ps ''HTML'' \<noteq> None then Returned (sv, [Reply_page q])
          else if map_of ps ''ADD_NODE'' \<noteq> None then enqueue_command (Add_requested a (added_data nio ord ps)) sv
          else case map_of ps ''REMOVE_NODE'' of
            Some s \<Rightarrow> enqueue_command (Remove_requested a s) sv
          | None \<Rightarrow>
              (case map_of ps ''RENAME_NODE'' of
                 Some s \<Rightarrow> enqueue_command (Rename_requested a s) sv
               | None \<Rightarrow>
                   (let ks = map fst (filter (\<lambda>(k, v). v = []) (ord ps))
                    in if ks = [] then Returned (sv, []) else reply (query_attributes q (sv_tree sv) ks) sv)))"

definition answer_query :: "number_io \<Rightarrow> visit_order \<Rightarrow> nat \<Rightarrow> string \<Rightarrow> methods \<Rightarrow> 'rx osc_server \<Rightarrow> 'rx server_step" where
  "answer_query nio ord h a ps sv =
     (if ps = [] then
        (case (if a = ''/'' then Some [] else find_node (sv_tree sv) a) of
           Some q \<Rightarrow> reply (query_namespace q (sv_tree sv)) sv
         | None \<Rightarrow> Thrown Node_not_found (sv, []))
      else if map_of ps ''HOST_INFO'' = None then
        (case find_node (sv_tree sv) a of
           Some q \<Rightarrow> answer_at nio ord h a ps q sv
         | None \<Rightarrow> Thrown Node_not_found (sv, []))
      else Returned (sv, [Reply (query_host_info (node_name (sv_tree sv)) (sv_osc_port sv))]))"

section \<open>Documents that clients send\<close>

definition in_server_tree :: "(entry \<Rightarrow> entry_step) \<Rightarrow> 'rx osc_server \<Rightarrow> 'rx server_step" where
  "in_server_tree f sv =
     (case f (sv_tree sv) of
        Returned (n, evs) \<Rightarrow> Returned (sv\<lparr>sv_tree := n\<rparr>, map In_server_tree evs)
      | Thrown e (n, evs) \<Rightarrow> Thrown e (sv\<lparr>sv_tree := n\<rparr>, map In_server_tree evs))"

definition parameter_in :: "'rx osc_server \<Rightarrow> nat list \<Rightarrow> parameter option" where
  "parameter_in sv q = (case node_at (sv_tree sv) q of Some n \<Rightarrow> d_parameter (data_of n) | None \<Rightarrow> None)"

text \<open>A value that is set is pushed to the clients, with the parameter as it is then.\<close>

definition push_in_server :: "text_io \<Rightarrow> nat list \<Rightarrow> val \<Rightarrow> 'rx osc_server \<Rightarrow> 'rx server_step" where
  "push_in_server io q v sv =
     then_do (in_server_tree (on_place q (on_data (on_parameter (\<lambda>x. push_value io x v)))) sv)
       (\<lambda>sv. case parameter_in sv q of
          Some x \<Rightarrow>
            try_res (server_push io (osc_parameter_string (sv_tree sv) q) x (p_value x) sv) (\<lambda>(evs, b) sv. Returned (sv, evs)) sv
        | None \<Rightarrow> Returned (sv, []))"

definition parse_parameter_value :: "text_io \<Rightarrow> (string \<times> json) list \<Rightarrow> 'rx osc_server \<Rightarrow> 'rx server_step" where
  "parse_parameter_value io ms =
     do_all (\<lambda>(a, j) sv.
       let unhandled = Returned (sv, [Server_unhandled a (read_value j)])
       in if a \<noteq> [] \<and> hd a = CHR ''/'' then
            (case find_node (sv_tree sv) a of
               Some q \<Rightarrow>
                 (case parameter_in sv q of
                    Some x \<Rightarrow>
                      try_res (json_to_value_unchecked j (p_value x)) (\<lambda>v sv.
                        then_do (push_in_server io q v sv)
                          (\<lambda>sv. Returned (sv, [Server_message (osc_parameter_string (sv_tree sv) q)]))) sv
                  | None \<Rightarrow> unhandled)
             | None \<Rightarrow> unhandled)
          else unhandled) ms"

definition start_streaming :: "nat \<Rightarrow> (string \<times> json) list \<Rightarrow> 'rx osc_server \<Rightarrow> 'rx server_step" where
  "start_streaming h ms sv =
     (case map_of ms ''DATA'' of
        Some (JObj ds) \<Rightarrow>
          (case read_int_member (map_of ds ''LOCAL_SERVER_PORT'') of
             Some port \<Rightarrow>
               with_client h (open_osc_sender port
                 (case read_int_member (map_of ds ''LOCAL_SENDER_PORT'') of Some r \<Rightarrow> r | None \<Rightarrow> 0)) sv
           | None \<Rightarrow> Returned (sv, []))
      | _ \<Rightarrow> Returned (sv, []))"

text \<open>\<open>LISTEN\<close> and \<open>IGNORE\<close> name nodes by a pattern; \<open>None\<close> when the construction of its path does not end.\<close>

definition listen_to ::
  "(string \<Rightarrow> 'rx option) \<Rightarrow> ('rx \<Rightarrow> string \<Rightarrow> bool) \<Rightarrow> nat \<Rightarrow> bool \<Rightarrow> (string \<times> json) list \<Rightarrow> 'rx osc_server \<Rightarrow>
   'rx server_step option" where
  "listen_to compile matches h enable ms sv =
     (if find_client h sv = None then Some (Thrown Bad_request (sv, []))
      else case map_of ms ''DATA'' of
        None \<Rightarrow> Some (Returned (sv, []))
      | Some (JStr a) \<Rightarrow>
          map_option (\<lambda>(cache, qs).
              do_all (\<lambda>q sv. let address = osc_parameter_string (sv_tree sv) q in
                with_client h (if enable then start_listen address (has_parameter_at sv q) else stop_listen address) sv)
              qs (sv\<lparr>sv_cache := cache\<rparr>))
            (find_nodes compile matches (sv_cache sv) (sv_tree sv) [] (c_str a))
      | Some _ \<Rightarrow> Some (Thrown Undefined_behaviour (sv, [])))"

definition answer_document ::
  "text_io \<Rightarrow> (string \<Rightarrow> 'rx option) \<Rightarrow> ('rx \<Rightarrow> string \<Rightarrow> bool) \<Rightarrow> nat \<Rightarrow> json \<Rightarrow> 'rx osc_server \<Rightarrow>
   'rx server_step option" where
  "answer_document io compile matches h j sv =
     (case j of
        JArr js \<Rightarrow>
          Some (do_all (\<lambda>j sv. case j of
              JObj ms \<Rightarrow> parse_parameter_value io ms sv
            | _ \<Rightarrow> Thrown Undefined_behaviour (sv, [])) js sv)
      | JObj ms \<Rightarrow>
          (case message_type_of ms of
             Ok Start_osc_streaming_message \<Rightarrow> Some (start_streaming h ms sv)
           | Ok Listen_message \<Rightarrow> listen_to compile matches h True ms sv
           | Ok Ignore_message \<Rightarrow> listen_to compile matches h False ms sv
           | Ok _ \<Rightarrow> Some (parse_parameter_value io ms sv)
           | Err e \<Rightarrow> Some (Thrown e (sv, [])))
      | _ \<Rightarrow> Some (Thrown Undefined_behaviour (sv, [])))"

section \<open>Requests over a connection\<close>

text \<open>What a server is given: the readers of numbers, the order of maps, the parser of documents and the regular expressions.\<close>

record 'rx server_io =
  sv_io :: text_io
  sv_numbers :: number_io
  sv_order :: visit_order
  sv_parse :: "string \<Rightarrow> json option"
  sv_compile :: "string \<Rightarrow> 'rx option"
  sv_matches :: "'rx \<Rightarrow> string \<Rightarrow> bool"

definition on_ws_request :: "'rx server_io \<Rightarrow> nat \<Rightarrow> string \<Rightarrow> 'rx osc_server \<Rightarrow> 'rx server_step option" where
  "on_ws_request sio h s sv =
     (if s = [] then Some (Returned (sv, []))
      else if hd s = CHR ''/'' then
        (let (a, ps) = parse_http_request (sv_order sio) s
         in Some (answer_query (sv_numbers sio) (sv_order sio) h a ps sv))
      else case sv_parse sio s of
        Some j \<Rightarrow> answer_document (sv_io sio) (sv_compile sio) (sv_matches sio) h j sv
      | None \<Rightarrow> Some (Returned (sv, [])))"

text \<open>Every exception is caught. Over HTTP it gives the status, which only two of them set.\<close>

datatype http_status = Ok_status | Not_found_status | Bad_request_status | Unset_status

definition on_message :: "'rx server_io \<Rightarrow> nat \<Rightarrow> string \<Rightarrow> 'rx osc_server \<Rightarrow> ('rx osc_server \<times> server_event list) res option" where
  "on_message sio h s sv =
     map_option (\<lambda>r. case r of
         Returned t \<Rightarrow> Ok t
       | Thrown e t \<Rightarrow> if e = Undefined_behaviour then Err e else Ok t)
     (on_ws_request sio h s sv)"

definition on_http :: "'rx server_io \<Rightarrow> nat \<Rightarrow> string \<Rightarrow> 'rx osc_server \<Rightarrow>
   ('rx osc_server \<times> server_event list \<times> http_status) res option" where
  "on_http sio h s sv =
     map_option (\<lambda>r. case r of
         Returned (sv, evs) \<Rightarrow> Ok (sv, evs, Ok_status)
       | Thrown e (sv, evs) \<Rightarrow>
           if e = Undefined_behaviour then Err e
           else Ok (sv, evs, if e = Node_not_found then Not_found_status
             else if e = Bad_request then Bad_request_status else Unset_status))
     (on_ws_request sio h s sv)"

section \<open>The clients of a server\<close>

definition handles :: "'rx osc_server \<Rightarrow> nat list" where
  "handles sv = map c_handle (sv_clients sv)"

lemma move_down_handles [simp]: "map c_handle (move_down port cs) = map c_handle cs"
  by (induction port cs rule: move_down.induct) auto

lemma erase_handles: "map c_handle (erase_client h cs) = remove1 h (map c_handle cs)"
  by (induction cs) auto

lemma update_handles: "(\<And>c. c_handle (f c) = c_handle c) \<Longrightarrow> map c_handle (update_client h f cs) = map c_handle cs"
  by (induction cs) auto

lemma found_handle: "find_client h sv = None \<longleftrightarrow> h \<notin> set (handles sv)"
  by (auto simp: find_client_def handles_def find_None_iff)

lemma opened_handles: "handles (on_connection_open grows h ip sv) = handles sv @ [h]"
  by (simp add: handles_def on_connection_open_def moved_def comp_def)

lemma closed_handles: "handles (on_connection_closed h sv) = remove1 h (handles sv)"
  by (simp add: handles_def on_connection_closed_def erase_handles)

lemma renamed_handles: "handles (on_renamed old a sv) = handles sv"
  by (simp add: handles_def on_renamed_def rename_listening_def comp_def)

lemma listening_handle [simp]:
  "c_handle (start_listen a b c) = c_handle c" "c_handle (stop_listen a c) = c_handle c"
  "c_handle (open_osc_sender port remote c) = c_handle c"
  by (simp_all add: start_listen_def stop_listen_def open_osc_sender_def Let_def)

lemma with_client_handles:
  "(\<And>c. c_handle (f c) = c_handle c) \<Longrightarrow> handles (fst (state_of (with_client h f sv))) = handles sv"
  by (simp add: with_client_def handles_def update_handles)

lemma client_comes_and_goes:
  assumes "distinct (handles sv)" "h \<notin> set (handles sv)"
  shows "find_client h (on_connection_open grows h ip sv) \<noteq> None"
    "find_client h (on_connection_closed h (on_connection_open grows h ip sv)) = None"
    "handles (on_connection_closed h (on_connection_open grows h ip sv)) = handles sv"
  using assms by (simp_all add: found_handle opened_handles closed_handles remove1_append)

text \<open>What a client listens to makes no difference to what it is sent.\<close>

lemma listening_is_not_read:
  "server_push io a p v (sv\<lparr>sv_clients := map (\<lambda>c. c\<lparr>c_listening := f c\<rparr>) (sv_clients sv)\<rparr>) = server_push io a p v sv"
  by (simp add: server_push_def comp_def cong: if_cong option.case_cong)

text \<open>When a client leaves, the ones behind it get the remote ports of those before them.\<close>

lemma echo_after_close:
  assumes "sv_clients sv = [c, d]" "c_handle c = h" "c_sender d = Some s" "c_sender c \<noteq> c_sender d"
    "c_remote_port c \<noteq> c_remote_port d"
  shows "Osc_to s m \<notin> set (echo_message True (c_remote_port d) m sv)"
    "echo_message True (c_remote_port d) m (on_connection_closed h sv) = [Osc_to s m]"
  using assms by (auto simp: echo_message_def on_connection_closed_def split: option.splits if_splits)

lemma echo_after_open:
  assumes "sv_clients sv = [d]" "c_sender d = Some s" "c_remote_port d \<noteq> 0"
  shows "Osc_to s m \<in> set (echo_message True (c_remote_port d) m (on_connection_open True h ip sv))"
    "Osc_to s m \<notin> set (echo_message True (c_remote_port d) m (on_connection_open False h ip sv))"
  using assms by (simp_all add: echo_message_def on_connection_open_def moved_def)

section \<open>Requests that a mirror sends\<close>

text \<open>The characters that the parser of requests takes as they are.\<close>

definition sent_char :: "char \<Rightarrow> bool" where
  "sent_char c \<longleftrightarrow> c \<notin> {CHR ''%'', CHR ''+'', CHR ''?'', CHR ''&'', CHR ''='', CHR 0x00}"

lemma name_char_sent: "is_valid_character_for_name c \<Longrightarrow> sent_char c"
  by (auto simp: is_valid_character_for_name_def sent_char_def char_between_def char_code_def)

lemma valid_name_plain: "valid_name s \<Longrightarrow> list_all sent_char s"
  using name_char_sent by (auto simp: valid_name_def list_all_iff)

lemma slash_names_plain: "list_all valid_name ss \<Longrightarrow> list_all sent_char (slash_names ss)"
  by (induction ss) (simp_all add: slash_names_def valid_name_plain sent_char_def)

lemma address_plain: "list_all valid_name ss \<Longrightarrow> list_all sent_char (address_of ss)"
  by (simp add: address_of_def slash_names_plain) (simp add: sent_char_def)

lemma escaped_space: "read_hex ''20'' = Some 32" "char_of (32 :: nat) = CHR '' ''"
  by code_simp+

lemma decoded_as_sent: "list_all sent_char s \<Longrightarrow> url_decode (http_path s) = s"
  by (induction s) (auto simp: http_path_def sent_char_def escaped_space simp del: char_of_eq_iff)

lemma http_path_append: "http_path (s @ t) = http_path s @ http_path t"
  by (simp add: http_path_def)

lemma http_path_mark: "list_all sent_char s \<Longrightarrow> CHR ''?'' \<notin> set (http_path s)"
  by (induction s) (auto simp: http_path_def sent_char_def)

text \<open>A map that is visited in any order.\<close>

definition visits :: "visit_order \<Rightarrow> bool" where
  "visits ord \<longleftrightarrow> (\<forall>m. mset (ord m) = mset m)"

lemma visits_few: "visits ord \<Longrightarrow> ord [] = []" "visits ord \<Longrightarrow> ord [x] = [x]"
proof -
  assume "visits ord"
  then have "mset (ord []) = mset []" "mset (ord [x]) = mset [x]" by (simp_all only: visits_def)
  then show "ord [] = []" "ord [x] = [x]" by (simp_all add: mset_single_iff)
qed

lemma path_request:
  assumes "visits ord" "list_all sent_char a"
  shows "parse_http_request ord (http_path a) = (a, [])"
proof -
  have "takeWhile (\<lambda>c. c \<noteq> CHR ''?'') (http_path a) = http_path a" "dropWhile (\<lambda>c. c \<noteq> CHR ''?'') (http_path a) = []"
    using http_path_mark [OF assms(2)] by (auto simp: takeWhile_eq_all_conv dropWhile_eq_Nil_conv)
  moreover have "parse_pairs [] [] = []" by (simp add: parse_pairs.simps parse_pair_def)
  ultimately show ?thesis
    unfolding parse_http_request_def parse_http_methods_def
    by (simp only: list.case visits_few(1) [OF assms(1)] decoded_as_sent [OF assms(2)] foldl_Nil)
qed

lemma value_key: "parse_pairs (''VALUE'' @ [CHR 0x00]) [] = [(''VALUE'' @ [CHR 0x00], [])]"
  by (simp add: parse_pairs.simps parse_pair_def insert_new_def)

lemma value_request:
  assumes "visits ord" "list_all sent_char a"
  shows "parse_http_request ord (http_path (a @ ''?VALUE'')) = (a, [(''VALUE'', [])])"
proof -
  have q: "CHR ''?'' \<notin> set (http_path a)" using http_path_mark [OF assms(2)] .
  have "http_path (a @ ''?VALUE'') = http_path a @ CHR ''?'' # ''VALUE''" by (simp add: http_path_def)
  moreover have "takeWhile (\<lambda>c. c \<noteq> CHR ''?'') (http_path a @ CHR ''?'' # r) = http_path a"
    "dropWhile (\<lambda>c. c \<noteq> CHR ''?'') (http_path a @ CHR ''?'' # r) = CHR ''?'' # r" for r
    using q by (simp_all add: takeWhile_append_neq dropWhile_append_neq)
  ultimately show ?thesis
    using value_key visits_few(2) [OF assms(1)] decoded_as_sent [OF assms(2)]
    by (simp add: parse_http_request_def parse_http_methods_def insert_new_def)
qed

section \<open>A tree that a mirror asks for\<close>

lemma one_member:
  "map_of (optional_member k j) key = (if key = k then j else None)"
  "map_of (flag_member k b) key = (if key = k \<and> b then Some (JBool True) else None)"
  by (auto simp: optional_member_def flag_member_def split: option.splits)

lemma attributes_no_command: "map_of (attribute_members d) ''COMMAND'' = None"
  by (simp add: attribute_members_def Let_def one_member)

lemma value_no_command: "value_member k u v = Ok ms \<Longrightarrow> k \<noteq> ''COMMAND'' \<Longrightarrow> map_of ms ''COMMAND'' = None"
  by (auto simp: value_member_def res_map_Ok_iff)

lemma range_no_command:
  assumes "range_member dm = Ok ms"
  shows "map_of ms ''COMMAND'' = None"
proof (cases "dm = DNone")
  case True
  then show ?thesis using assms by (simp add: range_member_def)
next
  case False
  then obtain j where "(case j of Some j \<Rightarrow> Ok [(''RANGE'', j)] | None \<Rightarrow> Err Undefined_behaviour) = Ok ms"
    using assms unfolding range_member_def if_not_P [OF False] res_bind_Ok_iff by blast
  then show ?thesis by (cases j) auto
qed

lemma parameter_no_command:
  assumes "parameter_members d x = Ok ms"
  shows "map_of ms ''COMMAND'' = None"
proof -
  obtain vs rs ds where parts: "(if valid (p_value x) then value_member ''VALUE'' (p_unit x) (p_value x) else Ok []) = Ok vs"
      "range_member (p_domain x) = Ok rs"
      "(case a_default_value (d_attributes d) of Some v \<Rightarrow> value_member ''DEFAULT_VALUE'' (p_unit x) v | None \<Rightarrow> Ok []) = Ok ds"
    and ms: "ms = [(''TYPE'', JStr (get_osc_typetag (p_unit x) (get_extended_type d) (p_value x)))] @ vs @ rs @
      [(''ACCESS'', JInt (access_number (p_access x))), (''CLIPMODE'', JStr (bounding_text (p_bounding x)))] @
      flag_member ''REPETITION_FILTER'' (p_rep_filter x) @ unit_members (p_unit x) @ ds"
    using assms unfolding parameter_members_def res_bind_Ok_iff res_map_Ok_iff by blast
  have "map_of vs ''COMMAND'' = None" using parts(1) value_no_command [of "''VALUE''"] by (auto split: if_splits)
  moreover have "map_of ds ''COMMAND'' = None"
    using parts(3) value_no_command [of "''DEFAULT_VALUE''"] by (auto split: option.splits)
  ultimately show ?thesis using range_no_command [OF parts(2)] by (simp add: ms one_member lookup_unit)
qed

lemma members_no_command: "node_members ss d = Ok ms \<Longrightarrow> map_of ms ''COMMAND'' = None"
  using attributes_no_command parameter_no_command
  by (auto simp: node_members_def res_map_Ok_iff map_add_def split: option.splits)

lemma written_message:
  "write_node ss n = Ok (JObj ms) \<Longrightarrow> map_of ms ''COMMAND'' = None"
  by (cases n) (auto simp: res_bind_Ok_iff res_map_Ok_iff map_add_def dest!: members_no_command split: if_splits)

lemma tree_fetched:
  assumes ord: "visits (sv_order sio)" and kept: "wf_tree (sv_tree sv)" "tree_kept (sv_tree sv)"
    and mirror: "d_attributes (data_of (mi_tree mi)) = no_attributes" "s_change_tree st"
  shows "\<exists>mi1 doc mi2 evs. update_async ''/'' mi = Returned (mi1, [Http_sent ''/'']) \<and>
    on_http sio h (http_path ''/'') sv = Some (Ok (sv, [Reply doc], Ok_status)) \<and>
    on_ws_message st doc mi1 = Ok (mi2, evs, True) \<and> mi_namespace_done mi2 \<and>
    same_data (data_of (sv_tree sv)) (data_of (mi_tree mi2)) \<and>
    list_all2 mirrors (node_children (sv_tree sv)) (node_children (mi_tree mi2))"
proof -
  obtain doc m' evs where doc: "write_node [] (sv_tree sv) = Ok doc" "parse_namespace True (s_io st) doc (mi_tree mi) = Returned (m', evs)"
    "same_data (data_of (sv_tree sv)) (data_of m')" "list_all2 mirrors (node_children (sv_tree sv)) (node_children m')"
    using namespace_mirrored [OF kept mirror(1), of "s_io st"] by blast
  obtain ms where ms: "doc = JObj ms" "map_of ms ''FULL_PATH'' = Some (JStr ''/'')"
    using write_read [OF kept, of "[]" "s_io st"] doc(1) by (auto simp: address_of_def)
  have "parse_http_request (sv_order sio) (http_path ''/'') = (''/'', [])"
    using path_request [OF ord, of "''/''"] by (simp add: sent_char_def)
  then have answered: "on_http sio h (http_path ''/'') sv = Some (Ok (sv, [Reply doc], Ok_status))"
    using doc(1) by (simp add: on_http_def on_ws_request_def answer_query_def reply_def query_namespace_def try_res_def) (simp add: http_path_def)
  let ?mi1 = "mi\<lparr>mi_namespace_done := False\<rparr>"
  have "message_type_of ms = Ok Namespace_message"
    using written_message doc(1) ms by (simp add: message_type_of_def)
  then have "on_ws_message st doc ?mi1 = Ok (mi\<lparr>mi_tree := m', mi_namespace_done := True\<rparr>, map In_tree evs, True)"
    using doc(2) mirror(2) ms(1) by (simp add: on_ws_message_def try_res_def handle_message_def on_namespace_def in_tree_def)
  then show ?thesis using answered doc(3,4)
    by (intro exI [of _ ?mi1] exI [of _ doc] exI [of _ "mi\<lparr>mi_tree := m', mi_namespace_done := True\<rparr>"] exI [of _ "map In_tree evs"])
      (simp add: update_async_def)
qed

section \<open>A value that a mirror asks for\<close>

text \<open>
  The values that an answer carries: a Boolean is written as \<open>null\<close>; in a list, a character would
  become a text and an array a list.
\<close>

fun answer_element :: "val \<Rightarrow> bool" where
  "answer_element VImpulse = True"
| "answer_element (VInt n) = True"
| "answer_element (VFloat x) = (wf_fl F32 x \<and> fl_finite x)"
| "answer_element (VString s) = True"
| "answer_element (VList vs) = list_all answer_element vs"
| "answer_element v = False"

fun answer_kept :: "unit_t \<Rightarrow> val \<Rightarrow> bool" where
  "answer_kept u (VChar c) = True"
| "answer_kept u (VVec2f xs) = (wf_vec 2 xs \<and> list_all fl_finite xs)"
| "answer_kept u (VVec3f xs) = (wf_vec 3 xs \<and> list_all fl_finite xs)"
| "answer_kept u (VVec4f xs) = (wf_vec 4 xs \<and> list_all fl_finite xs \<and> u \<noteq> Some (Color (Some rgba8_u)))"
| "answer_kept u v = answer_element v"

lemma element_answered: "answer_element v \<Longrightarrow> \<exists>j. value_to_json u v = Ok j \<and> read_value j = v"
proof (induction v)
  case (VInt n)
  then show ?case using sint_i32_range [of n] by (simp add: int_read_value del: read_value.simps)
next
  case (VList vs)
  then have "\<exists>js. list_all2 (\<lambda>w j. value_to_json u w = Ok j \<and> read_value j = w) vs js"
    by (intro list_all2_choose) (auto simp: list_all_iff)
  then obtain js where js: "list_all2 (\<lambda>w j. value_to_json u w = Ok j \<and> read_value j = w) vs js" ..
  then have "map_res (value_to_json u) vs = Ok js" by (auto simp: map_res_Ok_iff elim: list_all2_mono)
  moreover have "map read_value js = vs" using js by (induction rule: list_all2_induct) auto
  ultimately show ?case by simp
qed (simp_all add: fl_narrow_wf)

lemma array_answered:
  "list_all (wf_fl F32) xs \<Longrightarrow> length ys = length xs \<Longrightarrow> read_unchecked_array (JArr (map JDouble xs)) ys = Ok xs"
proof -
  assume "list_all (wf_fl F32) xs" "length ys = length xs"
  moreover have "map_res (\<lambda>j. res_map fl_narrow (get_double j)) (map JDouble xs) = Ok xs" if "list_all (wf_fl F32) xs"
    using that by (induction xs) (simp_all add: fl_narrow_wf)
  ultimately show ?thesis by (simp add: read_unchecked_array_def)
qed

lemma value_answered:
  assumes "answer_kept u v" "get_type y = get_type v" "wf_val y"
  shows "\<exists>j. value_to_json u v = Ok j \<and> json_to_value_unchecked j y = Ok v"
proof (cases v)
  case (VList vs)
  then have "answer_element v" using assms(1) by simp
  from element_answered [OF this, of u] VList obtain js where "value_to_json u v = Ok (JArr js)" "map read_value js = vs"
    by (auto simp: res_map_Ok_iff)
  then show ?thesis using assms(2) VList by (cases y) auto
next
  case (VChar c)
  then show ?thesis using assms(2) char_text_Cons [of c] first_char_text [of c] by (cases y) auto
next
  case (VInt n)
  then show ?thesis using assms(2) sint_i32_range [of n] by (cases y) auto
qed (use assms array_answered in \<open>cases y; auto simp: wf_vec_def fl_narrow_wf\<close>)+

lemma value_asked:
  assumes ord: "visits (sv_order sio)" and tree: "good_tree (sv_tree sv)" "node_at (sv_tree sv) q = Some k"
    and x: "d_parameter (data_of k) = Some x" "value_to_json (p_unit x) (p_value x) = Ok j"
  shows "on_http sio h (http_path (osc_parameter_string (sv_tree sv) q @ ''?VALUE'')) sv =
    Some (Ok (sv, [Reply (JObj [(''VALUE'', j)])], Ok_status))"
proof -
  let ?a = "osc_parameter_string (sv_tree sv) q"
  note names = good_path [OF tree]
  have "find_node (sv_tree sv) ?a = Some q"
    using tree names by (intro find_node_osc_string) (simp_all add: good_tree_def)
  moreover have a: "?a = address_of (path_names (sv_tree sv) q)"
    using tree(2) by (cases q) (auto simp: osc_parameter_string_def address_of_def split: if_splits)
  then have "list_all sent_char ?a" using address_plain names by simp
  from value_request [OF ord this]
  have "parse_http_request (sv_order sio) (http_path (?a @ ''?VALUE'')) = (?a, [(''VALUE'', [])])" .
  moreover have "\<exists>r. ?a = CHR ''/'' # r"
    unfolding a by (cases "path_names (sv_tree sv) q") (simp_all add: address_of_def slash_names_def)
  then have "http_path (?a @ ''?VALUE'') \<noteq> []" "hd (http_path (?a @ ''?VALUE'')) = CHR ''/''"
    by (auto simp: http_path_def)
  ultimately show ?thesis
    using tree(2) x visits_few(2) [OF ord]
    by (simp add: on_http_def on_ws_request_def answer_query_def answer_at_def reply_def query_attributes_def write_attribute_def try_res_def)
qed

text \<open>The answer is the value of the first pull that waits; without one, it is that of a node called \<open>VALUE\<close>.\<close>

lemma answer_type: "message_type_of [(''VALUE'', j)] = Ok Value_message"
  by (simp add: message_type_of_def)

lemma value_pulled:
  assumes q: "find_node (mi_tree mi) a = Some q" and y: "d_parameter (data_in q mi) = Some y"
    and pulls: "mi_pulls mi = a # as" and j: "json_to_value_unchecked j (p_value y) = Ok v" and v: "valid v" "get_type (p_value y) = get_type v"
  shows "\<exists>mi2 evs. on_ws_message st (JObj [(''VALUE'', j)]) mi = Ok (mi2, evs, True) \<and> mi_pulls mi2 = as \<and>
    data_in q mi2 = (data_in q mi)\<lparr>d_parameter := Some (y\<lparr>p_previous := p_value y, p_value := v\<rparr>)\<rparr> \<and>
    shape (mi_tree mi2) = shape (mi_tree mi)"
proof -
  obtain k where k: "node_at (mi_tree mi) q = Some k" "data_of k = data_in q mi"
    using q find_parts_path [of "mi_tree mi" _ q] by (auto simp: find_node_parts data_in_def split: if_splits)
  let ?e = "(data_in q mi)\<lparr>d_parameter := Some (y\<lparr>p_previous := p_value y, p_value := v\<rparr>)\<rparr>"
  have "on_data (parse_value (s_io st) j) k = Returned (with_data ?e k, [Changed [] (Of_parameter (Sent v))])"
    using y j v k(2) by (simp add: on_data_def parse_value_def try_res_def set_node_value_def on_parameter_def set_value_def)
  from on_place_Returned [where f = "on_data (parse_value (s_io st) j)", OF k(1) this] obtain evs where
    place: "on_place q (on_data (parse_value (s_io st) j)) (mi_tree mi) = Returned (put_at q (with_data ?e k) (mi_tree mi), evs)"
    by blast
  let ?mi2 = "mi\<lparr>mi_pulls := as, mi_tree := put_at q (with_data ?e k) (mi_tree mi)\<rparr>"
  have "d_parameter (data_in q (mi\<lparr>mi_pulls := as\<rparr>)) \<noteq> None" using y by (simp add: data_in_def)
  then have "\<exists>evs. on_ws_message st (JObj [(''VALUE'', j)]) mi = Ok (?mi2, evs, True)"
    using pulls q place answer_type [of j]
    by (simp add: on_ws_message_def try_res_def handle_message_def on_value_def value_for_def in_tree_def)
  moreover have "data_in q ?mi2 = ?e" using k(1) by (simp add: data_in_def node_at_put)
  moreover have "shape (mi_tree ?mi2) = shape (mi_tree mi)"
    using put_at_shape [of "mi_tree mi" q "with_data ?e k"] put_at_same [of "shape (mi_tree mi)" q "shape k"] k(1)
    by (simp add: node_at_shape)
  moreover have "mi_pulls ?mi2 = as" by simp
  ultimately show ?thesis by blast
qed

lemma value_not_pulled:
  "mi_pulls mi = [] \<Longrightarrow>
   on_ws_message st (JObj [(''VALUE'', j)]) mi = Ok (mi, [Mirror_unhandled ''VALUE'' (read_value j)], True)"
  by (simp add: on_ws_message_def try_res_def answer_type handle_message_def on_value_def)

lemma answer_valid: "answer_kept u v \<Longrightarrow> valid v"
  by (cases v) auto

text \<open>A value that is pulled: the request, its answer and what the mirror makes of it.\<close>

lemma value_fetched:
  assumes ord: "visits (sv_order sio)" and tree: "good_tree (sv_tree sv)" "node_at (sv_tree sv) q = Some k"
    and x: "d_parameter (data_of k) = Some x" "answer_kept (p_unit x) (p_value x)"
    and mirror: "find_node (mi_tree mi) (osc_parameter_string (sv_tree sv) q) = Some q'" "d_parameter (data_in q' mi) = Some y"
      "get_type (p_value y) = get_type (p_value x)" "wf_val (p_value y)" "mi_pulls mi = []"
  shows "\<exists>mi1 t reply mi2 evs. pull_async (osc_parameter_string (sv_tree sv) q) mi = Returned (mi1, [Http_sent t]) \<and>
    on_http sio h (http_path t) sv = Some (Ok (sv, [Reply reply], Ok_status)) \<and>
    on_ws_message st reply mi1 = Ok (mi2, evs, True) \<and> mi_pulls mi2 = [] \<and>
    data_in q' mi2 = (data_in q' mi)\<lparr>d_parameter := Some (y\<lparr>p_previous := p_value y, p_value := p_value x\<rparr>)\<rparr> \<and>
    shape (mi_tree mi2) = shape (mi_tree mi)"
proof -
  let ?a = "osc_parameter_string (sv_tree sv) q"
  let ?mi1 = "mi\<lparr>mi_pulls := [?a]\<rparr>"
  obtain j where j: "value_to_json (p_unit x) (p_value x) = Ok j" "json_to_value_unchecked j (p_value y) = Ok (p_value x)"
    using value_answered [OF x(2) mirror(3,4)] by blast
  have same: "data_in q' ?mi1 = data_in q' mi" by (simp add: data_in_def)
  obtain mi2 evs where "on_ws_message st (JObj [(''VALUE'', j)]) ?mi1 = Ok (mi2, evs, True)" "mi_pulls mi2 = []"
    "data_in q' mi2 = (data_in q' mi)\<lparr>d_parameter := Some (y\<lparr>p_previous := p_value y, p_value := p_value x\<rparr>)\<rparr>"
    "shape (mi_tree mi2) = shape (mi_tree mi)"
    using value_pulled [of ?mi1 ?a q' y "[]" j "p_value x" st] mirror(1-3) j(2) answer_valid [OF x(2)] same by auto
  moreover have "pull_async ?a mi = Returned (?mi1, [Http_sent (?a @ ''?VALUE'')])"
    using mirror(5) by (simp add: pull_async_def)
  ultimately show ?thesis using value_asked [OF ord tree x(1) j(1), of h] by blast
qed

text \<open>A value that is requested: the answer comes to a mirror that does not wait for it.\<close>

lemma request_unanswered:
  assumes ord: "visits (sv_order sio)" and tree: "good_tree (sv_tree sv)" "node_at (sv_tree sv) q = Some k"
    and x: "d_parameter (data_of k) = Some x" "value_to_json (p_unit x) (p_value x) = Ok j" and pulls: "mi_pulls mi = []"
  shows "\<exists>t. request (osc_parameter_string (sv_tree sv) q) mi = Returned (mi, [Http_sent t]) \<and>
    on_http sio h (http_path t) sv = Some (Ok (sv, [Reply (JObj [(''VALUE'', j)])], Ok_status)) \<and>
    on_ws_message st (JObj [(''VALUE'', j)]) mi = Ok (mi, [Mirror_unhandled ''VALUE'' (read_value j)], True)"
  using value_asked [OF ord tree x, of h] value_not_pulled [OF pulls] by (simp add: request_def)

end
