(* ===== verification/Forwarding.thy ===== *)
theory Forwarding
  imports Osc_Protocol Flat_Set Node_Tree Callbacks "HOL-Library.Sublist"
begin

text \<open>
  Protocols that forward to others: \<open>rate_limiting_protocol\<close> (\<open>network/rate_limiting_protocol.cpp\<close>), which
  keeps the newest value of each parameter until its thread sends them, and \<open>multiplex_protocol\<close>
  (\<open>network/local/local.cpp\<close>). A parameter is the number of its address. The thread of the rate limiter
  is a state machine: the only step that excludes the threads that push is the exchange of two maps,
  so that its other steps are interleaved with pushes. The times are not modelled but for the length of
  a sleep.
\<close>

section \<open>Maps\<close>

text \<open>\<open>ossia::flat_map\<close>, a vector sorted by its keys: the assignment of \<open>operator[]\<close>.\<close>

definition key_less :: "nat \<times> val \<Rightarrow> nat \<times> val \<Rightarrow> bool" where
  "key_less p q \<longleftrightarrow> fst p < fst q"

interpretation by_key: strict_weak_order key_less "\<lambda>_. True"
  by unfold_locales (auto simp: key_less_def)

type_synonym value_map = "(nat \<times> val) list"

definition flat_put :: "value_map \<Rightarrow> nat \<Rightarrow> val \<Rightarrow> value_map" where
  "flat_put m k v =
     (case flat_find key_less m (k, v) of Some i \<Rightarrow> m[i := (k, v)] | None \<Rightarrow> flat_insert key_less m (k, v))"

abbreviation sorted_map :: "value_map \<Rightarrow> bool" where
  "sorted_map \<equiv> flat_inv key_less (\<lambda>_. True)"

lemma sorted_map_keys: "sorted_map m \<longleftrightarrow> sorted_wrt (<) (map fst m)"
  by (simp add: flat_inv_def sorted_wrt_map key_less_def [abs_def] list_all_iff)

lemma sorted_map_distinct: "sorted_map m \<Longrightarrow> distinct (map fst m)"
  by (simp add: sorted_map_keys strict_sorted_iff)

lemma found_key: "sorted_map m \<Longrightarrow> flat_find key_less m (k, v) = Some i \<longleftrightarrow> i < length m \<and> fst (m ! i) = k"
  by (subst by_key.flat_find_Some) (auto simp: equivalent_def key_less_def)

lemma flat_put_sorted: "sorted_map m \<Longrightarrow> sorted_map (flat_put m k v)"
proof (cases "flat_find key_less m (k, v)")
  case None
  assume "sorted_map m"
  then show ?thesis using None by_key.flat_insert_inv [of m "(k, v)"] by (simp add: flat_put_def)
next
  case (Some i)
  assume m: "sorted_map m"
  then have "map fst (m[i := (k, v)]) = map fst m"
    using Some found_key [OF m] by (simp add: map_update list_update_same_conv)
  then show ?thesis using m Some by (simp add: flat_put_def sorted_map_keys)
qed

lemma flat_put_set:
  assumes "sorted_map m"
  shows "set (flat_put m k v) = insert (k, v) {p \<in> set m. fst p \<noteq> k}"
proof (cases "flat_find key_less m (k, v)")
  case None
  then have new: "\<forall>p \<in> set m. fst p \<noteq> k"
    using found_key [OF assms, of k v] by (metis in_set_conv_nth option.distinct(1))
  have "set (flat_insert key_less m (k, v)) = insert (k, v) (set m)"
    using by_key.flat_insert_set [OF assms, of "(k, v)"] new by (auto simp: equivalent_def key_less_def split: if_splits)
  then show ?thesis using None new by (auto simp: flat_put_def)
next
  case (Some i)
  then have i: "i < length m" "fst (m ! i) = k" using found_key [OF assms] by auto
  have "set (m[i := (k, v)]) = insert (k, v) {p \<in> set m. fst p \<noteq> k}"
  proof -
    have "p \<in> set (m[i := (k, v)]) \<longleftrightarrow> p = (k, v) \<or> p \<in> set m \<and> fst p \<noteq> k" for p
    proof -
      have "fst (m ! j) = k \<longleftrightarrow> j = i" if "j < length m" for j
        using sorted_map_distinct [OF assms] i that nth_eq_iff_index_eq [of "map fst m" i j] by auto
      then show ?thesis using i by (auto simp: in_set_conv_nth nth_list_update split: if_splits) metis+
    qed
    then show ?thesis by blast
  qed
  then show ?thesis using Some by (simp add: flat_put_def)
qed

lemma flat_put_get:
  assumes "sorted_map m"
  shows "map_of (flat_put m k v) = (map_of m)(k \<mapsto> v)"
proof
  fix j
  note get = map_of_eq_Some_iff [OF sorted_map_distinct [OF assms]]
    map_of_eq_Some_iff [OF sorted_map_distinct [OF flat_put_sorted [OF assms]]]
  have "map_of (flat_put m k v) j = Some w \<longleftrightarrow> ((map_of m)(k \<mapsto> v)) j = Some w" for w
    by (simp add: get flat_put_set [OF assms]) auto
  then show "map_of (flat_put m k v) j = ((map_of m)(k \<mapsto> v)) j" by (metis not_Some_eq)
qed

section \<open>The rate limiter\<close>

text \<open>
  What the thread does next: sleep and exchange the maps, copy the newest values, send the rest of its
  map, after which both maps are cleared.
\<close>

datatype phase = Asleep | Swapped | Sending value_map

record limiter =
  rl_user :: value_map
  rl_buffer :: value_map
  rl_thread :: value_map
  rl_phase :: phase

definition new_limiter :: limiter where
  "new_limiter = \<lparr>rl_user = [], rl_buffer = [], rl_thread = [], rl_phase = Asleep\<rparr>"

definition limiter_push :: "nat \<Rightarrow> val \<Rightarrow> limiter \<Rightarrow> limiter" where
  "limiter_push k v l = l\<lparr>rl_user := flat_put (rl_user l) k v\<rparr>"

definition swap_maps :: "limiter \<Rightarrow> limiter" where
  "swap_maps l = l\<lparr>rl_user := rl_buffer l, rl_buffer := rl_user l, rl_phase := Swapped\<rparr>"

text \<open>A map whose values are unset; its keys are kept.\<close>

definition unset_values :: "value_map \<Rightarrow> value_map" where
  "unset_values m = map (\<lambda>(k, v). (k, VUnset)) m"

definition copy_newest :: "limiter \<Rightarrow> limiter" where
  "copy_newest l =
     (let t = fold (\<lambda>(k, v) t. if valid v then flat_put t k v else t) (rl_buffer l) (rl_thread l)
      in l\<lparr>rl_buffer := unset_values (rl_buffer l), rl_thread := t, rl_phase := Sending t\<rparr>)"

definition clear_maps :: "limiter \<Rightarrow> limiter" where
  "clear_maps l = l\<lparr>rl_buffer := unset_values (rl_buffer l), rl_thread := unset_values (rl_thread l), rl_phase := Asleep\<rparr>"

datatype limiter_event = Value_pushed nat val | Value_sent nat val | Send_failed nat val

text \<open>An exception of the protocol ends the iteration; the maps are not cleared.\<close>

inductive limiter_step :: "limiter \<Rightarrow> limiter_event list \<Rightarrow> limiter \<Rightarrow> bool" where
  user_pushes: "limiter_step l [Value_pushed k v] (limiter_push k v l)"
| thread_swaps: "rl_phase l = Asleep \<Longrightarrow> limiter_step l [] (swap_maps l)"
| thread_copies: "rl_phase l = Swapped \<Longrightarrow> limiter_step l [] (copy_newest l)"
| thread_sends: "rl_phase l = Sending ((k, v) # r) \<Longrightarrow> valid v \<Longrightarrow> limiter_step l [Value_sent k v] (l\<lparr>rl_phase := Sending r\<rparr>)"
| thread_skips: "rl_phase l = Sending ((k, v) # r) \<Longrightarrow> \<not> valid v \<Longrightarrow> limiter_step l [] (l\<lparr>rl_phase := Sending r\<rparr>)"
| thread_fails: "rl_phase l = Sending ((k, v) # r) \<Longrightarrow> valid v \<Longrightarrow> limiter_step l [Send_failed k v] (l\<lparr>rl_phase := Asleep\<rparr>)"
| thread_clears: "rl_phase l = Sending [] \<Longrightarrow> limiter_step l [] (clear_maps l)"

inductive limiter_run :: "limiter \<Rightarrow> limiter_event list \<Rightarrow> limiter \<Rightarrow> bool" where
  run_nothing: "limiter_run l [] l"
| run_step: "limiter_run l tr l' \<Longrightarrow> limiter_step l' es l'' \<Longrightarrow> limiter_run l (tr @ es) l''"

text \<open>How long the thread sleeps next, in the unit of both times.\<close>

definition next_sleep :: "int \<Rightarrow> int \<Rightarrow> int" where
  "next_sleep duration observed =
     (if observed > duration then (if observed \<ge> 2 * duration then 0 else 2 * duration - observed) else duration)"

lemma next_sleep_bounds: "0 \<le> d \<Longrightarrow> 0 \<le> next_sleep d t \<and> next_sleep d t \<le> d"
  by (simp add: next_sleep_def)

section \<open>What the rate limiter sends\<close>

fun pushed_to :: "nat \<Rightarrow> limiter_event list \<Rightarrow> val list" where
  "pushed_to k [] = []"
| "pushed_to k (Value_pushed j v # es) = (if j = k then v # pushed_to k es else pushed_to k es)"
| "pushed_to k (_ # es) = pushed_to k es"

fun sent_to :: "nat \<Rightarrow> limiter_event list \<Rightarrow> val list" where
  "sent_to k [] = []"
| "sent_to k (Value_sent j v # es) = (if j = k then v # sent_to k es else sent_to k es)"
| "sent_to k (_ # es) = sent_to k es"

fun no_failure :: "limiter_event list \<Rightarrow> bool" where
  "no_failure [] = True"
| "no_failure (Send_failed k v # es) = False"
| "no_failure (_ # es) = no_failure es"

lemma pushed_append [simp]: "pushed_to k (xs @ ys) = pushed_to k xs @ pushed_to k ys"
  by (induction k xs rule: pushed_to.induct) auto

lemma sent_append [simp]: "sent_to k (xs @ ys) = sent_to k xs @ sent_to k ys"
  by (induction k xs rule: sent_to.induct) auto

lemma no_failure_append [simp]: "no_failure (xs @ ys) \<longleftrightarrow> no_failure xs \<and> no_failure ys"
  by (induction xs rule: no_failure.induct) auto

text \<open>The value that a map holds for a parameter, if it is set, and those that are still to be sent.\<close>

definition held :: "value_map \<Rightarrow> nat \<Rightarrow> val list" where
  "held m k = (case map_of m k of Some v \<Rightarrow> if valid v then [v] else [] | None \<Rightarrow> [])"

definition in_flight :: "limiter \<Rightarrow> nat \<Rightarrow> val list" where
  "in_flight l k =
     (case rl_phase l of
        Asleep \<Rightarrow> held (rl_thread l) k
      | Swapped \<Rightarrow> if held (rl_buffer l) k = [] then held (rl_thread l) k else held (rl_buffer l) k
      | Sending r \<Rightarrow> held r k) @ held (rl_user l) k"

definition maps_ok :: "limiter \<Rightarrow> bool" where
  "maps_ok l \<longleftrightarrow> sorted_map (rl_user l) \<and> sorted_map (rl_buffer l) \<and> sorted_map (rl_thread l) \<and>
     (case rl_phase l of
        Asleep \<Rightarrow> held (rl_buffer l) = (\<lambda>_. [])
      | Swapped \<Rightarrow> True
      | Sending r \<Rightarrow> sorted_map r \<and> held (rl_buffer l) = (\<lambda>_. []))"

text \<open>The map of the thread is unset unless it is being sent or a protocol failed.\<close>

definition cleared :: "limiter \<Rightarrow> bool" where
  "cleared l \<longleftrightarrow> (case rl_phase l of Sending r \<Rightarrow> True | _ \<Rightarrow> held (rl_thread l) = (\<lambda>_. []))"

definition newest_last :: "val list \<Rightarrow> val list \<Rightarrow> bool" where
  "newest_last xs ps \<longleftrightarrow> (ps \<noteq> [] \<and> valid (last ps) \<longrightarrow> xs \<noteq> [] \<and> last xs = last ps)"

text \<open>
  What was sent and what is held are among what was pushed, in its order, as long as no protocol failed;
  the value pushed last is never lost.
\<close>

definition accounted :: "limiter_event list \<Rightarrow> limiter \<Rightarrow> bool" where
  "accounted tr l \<longleftrightarrow> cleared l \<and> (\<forall>k. subseq (sent_to k tr @ in_flight l k) (pushed_to k tr))"

definition kept :: "limiter_event list \<Rightarrow> limiter \<Rightarrow> bool" where
  "kept tr l \<longleftrightarrow> maps_ok l \<and>
     (\<forall>k. newest_last (sent_to k tr @ in_flight l k) (pushed_to k tr)) \<and>
     (\<forall>r k. rl_phase l = Sending r \<longrightarrow>
        held r k = held (rl_thread l) k \<or>
        held r k = [] \<and> sent_to k tr \<noteq> [] \<and> held (rl_thread l) k = [last (sent_to k tr)])"

lemma held_put: "sorted_map m \<Longrightarrow> held (flat_put m k v) = (held m)(k := if valid v then [v] else [])"
  by (auto simp: held_def flat_put_get fun_eq_iff)

lemma unset_sorted [simp]: "sorted_map (unset_values m) \<longleftrightarrow> sorted_map m"
  by (simp add: sorted_map_keys unset_values_def comp_def case_prod_unfold)

lemma held_unset [simp]: "held (unset_values m) = (\<lambda>_. [])"
proof
  fix k
  have "map_of (unset_values m) k = None \<or> map_of (unset_values m) k = Some VUnset"
    by (induction m) (auto simp: unset_values_def)
  then show "held (unset_values m) k = []" by (auto simp: held_def)
qed

lemma held_Nil [simp]: "held [] k = []"
  by (simp add: held_def)

lemma copied_map:
  "sorted_map b \<Longrightarrow> sorted_map t \<Longrightarrow>
   sorted_map (fold (\<lambda>(k, v) t. if valid v then flat_put t k v else t) b t) \<and>
   held (fold (\<lambda>(k, v) t. if valid v then flat_put t k v else t) b t) k = (if held b k = [] then held t k else held b k)"
proof (induction b arbitrary: t)
  case (Cons p b)
  obtain j v where p: "p = (j, v)" by fastforce
  have b: "sorted_map b" "j \<notin> fst ` set b" using Cons.prems(1) by (auto simp: sorted_map_keys p)
  then have "held b j = []" by (auto simp: held_def dest: map_of_SomeD intro: rev_image_eqI split: option.splits)
  then show ?case
    using Cons.IH [OF b(1), of "flat_put t j v"] Cons.IH [OF b(1), of t] Cons.prems(2) flat_put_sorted [of t j v]
    by (auto simp: p held_put) (auto simp: held_def)
qed simp

lemma subseq_drop_last: "subseq (xs @ ys) ps \<Longrightarrow> subseq xs ps"
  by (rule subseq_order.order_trans [of xs "xs @ ys"]) (simp_all add: prefix_imp_subseq)

lemma newest_append: "newest_last (xs @ [v]) (ps @ [v])" "\<not> valid v \<Longrightarrow> newest_last xs (ps @ [v])"
  by (simp_all add: newest_last_def)

lemma newest_same: "newest_last xs ps \<Longrightarrow> (xs \<noteq> [] \<Longrightarrow> ys \<noteq> [] \<and> last ys = last xs) \<Longrightarrow> newest_last ys ps"
  by (auto simp: newest_last_def)

text \<open>What is held once a value is pushed: all but what the users' map had.\<close>

definition taken :: "limiter \<Rightarrow> nat \<Rightarrow> val list" where
  "taken l k = in_flight (l\<lparr>rl_user := []\<rparr>) k"

lemma in_flight_taken: "in_flight l k = taken l k @ held (rl_user l) k"
  by (simp add: in_flight_def taken_def split: phase.split)

lemma in_flight_push:
  "sorted_map (rl_user l) \<Longrightarrow>
   in_flight (limiter_push j v l) k = taken l k @ (if j = k then if valid v then [v] else [] else held (rl_user l) k)"
  by (simp add: in_flight_def taken_def limiter_push_def held_put split: phase.split)

lemma push_accounted:
  assumes "accounted tr l" "sorted_map (rl_user l)"
  shows "accounted (tr @ [Value_pushed j v]) (limiter_push j v l)"
proof -
  have "subseq (sent_to k (tr @ [Value_pushed j v]) @ in_flight (limiter_push j v l) k) (pushed_to k (tr @ [Value_pushed j v]))" for k
  proof -
    have old: "subseq ((sent_to k tr @ taken l k) @ held (rl_user l) k) (pushed_to k tr)"
      using assms(1) by (simp add: accounted_def in_flight_taken)
    have seq: "subseq (sent_to k tr @ taken l k) (pushed_to k tr)" using old by (rule subseq_drop_last)
    have "subseq ((sent_to k tr @ taken l k) @ [v]) (pushed_to k tr @ [v])" using seq by (intro list_emb_append_mono) simp_all
    moreover have "subseq (sent_to k tr @ taken l k) (pushed_to k tr @ [v])"
      by (rule subseq_order.order_trans [OF seq]) (simp add: prefix_imp_subseq)
    ultimately show ?thesis using old by (cases "v = VUnset") (simp_all add: in_flight_push [OF assms(2)])
  qed
  then show ?thesis using assms(1) by (simp add: accounted_def cleared_def limiter_push_def split: phase.splits)
qed

lemma push_kept:
  assumes "kept tr l"
  shows "kept (tr @ [Value_pushed j v]) (limiter_push j v l)"
proof -
  have m: "maps_ok l" "sorted_map (rl_user l)" using assms by (auto simp: kept_def maps_ok_def)
  then have "maps_ok (limiter_push j v l)"
    by (auto simp: maps_ok_def limiter_push_def flat_put_sorted split: phase.splits)
  moreover have "newest_last (sent_to k (tr @ [Value_pushed j v]) @ in_flight (limiter_push j v l) k) (pushed_to k (tr @ [Value_pushed j v]))" for k
  proof -
    have "newest_last (sent_to k tr @ taken l k @ held (rl_user l) k) (pushed_to k tr)"
      using assms by (simp add: kept_def in_flight_taken)
    then show ?thesis
      using newest_append(1) [of "sent_to k tr @ taken l k" v] newest_append(2) [of v "sent_to k tr @ taken l k"]
      by (cases "v = VUnset") (simp_all add: in_flight_push [OF m(2)])
  qed
  ultimately show ?thesis using assms by (simp add: kept_def limiter_push_def)
qed

lemma first_sorted:
  assumes "sorted_map ((k, v) # r)"
  shows "sorted_map r" "held r k = []"
  using assms by (auto simp: sorted_map_keys held_def dest!: map_of_SomeD split: option.splits)

lemma held_Cons: "held ((k, v) # r) j = (if j = k then if valid v then [v] else [] else held r j)"
  by (simp add: held_def)

lemma copied_flight:
  assumes "maps_ok l" "rl_phase l = Swapped"
  shows "in_flight (copy_newest l) = in_flight l" "maps_ok (copy_newest l)"
    "\<exists>t. rl_phase (copy_newest l) = Sending t \<and> rl_thread (copy_newest l) = t"
  using assms copied_map [of "rl_buffer l" "rl_thread l"]
  by (auto simp: maps_ok_def copy_newest_def in_flight_def Let_def fun_eq_iff)

lemma swap_kept:
  assumes "rl_phase l = Asleep" "kept tr l"
  shows "kept (tr @ []) (swap_maps l)"
proof -
  have "newest_last (sent_to k tr @ in_flight (swap_maps l) k) (pushed_to k tr)" for k
  proof -
    have "in_flight (swap_maps l) k = (if held (rl_user l) k = [] then held (rl_thread l) k else held (rl_user l) k)"
      "newest_last (sent_to k tr @ held (rl_thread l) k @ held (rl_user l) k) (pushed_to k tr)"
      using assms by (simp_all add: kept_def maps_ok_def in_flight_def swap_maps_def)
    then show ?thesis by (auto simp: newest_last_def)
  qed
  then show ?thesis using assms by (simp add: kept_def maps_ok_def swap_maps_def)
qed

lemma copy_kept:
  assumes "rl_phase l = Swapped" "kept tr l"
  shows "kept (tr @ []) (copy_newest l)"
proof -
  from assms have m: "maps_ok l" by (simp add: kept_def)
  note c = copied_flight [OF m assms(1)]
  show ?thesis using assms(2) c(2,3) by (auto simp: kept_def c(1))
qed

lemma sent_kept:
  assumes "rl_phase l = Sending ((k, v) # r)" "valid v" "kept tr l"
  shows "kept (tr @ [Value_sent k v]) (l\<lparr>rl_phase := Sending r\<rparr>)"
proof -
  from assms have "sorted_map ((k, v) # r)" by (simp add: kept_def maps_ok_def)
  then have r: "sorted_map r" "held r k = []" by (rule first_sorted)+
  have "newest_last (sent_to j (tr @ [Value_sent k v]) @ in_flight (l\<lparr>rl_phase := Sending r\<rparr>) j) (pushed_to j tr)" for j
  proof -
    have "newest_last (sent_to j tr @ in_flight l j) (pushed_to j tr)" using assms(3) by (simp add: kept_def)
    then show ?thesis using assms(1,2) r(2) by (cases "j = k") (simp_all add: in_flight_def held_Cons)
  qed
  moreover have "maps_ok (l\<lparr>rl_phase := Sending r\<rparr>)" using assms(1,3) r(1) by (auto simp: kept_def maps_ok_def)
  moreover have "held r j = held (rl_thread l) j \<or> held r j = [] \<and> sent_to j (tr @ [Value_sent k v]) \<noteq> [] \<and>
      held (rl_thread l) j = [last (sent_to j (tr @ [Value_sent k v]))]" for j
  proof -
    have "held ((k, v) # r) j = held (rl_thread l) j \<or>
        held ((k, v) # r) j = [] \<and> sent_to j tr \<noteq> [] \<and> held (rl_thread l) j = [last (sent_to j tr)]"
      using assms(1,3) by (simp add: kept_def)
    then show ?thesis using assms(2) r(2) by (cases "j = k") (auto simp: held_Cons dest: sym)
  qed
  ultimately show ?thesis by (simp add: kept_def)
qed

lemma skip_kept:
  assumes "rl_phase l = Sending ((k, v) # r)" "\<not> valid v" "kept tr l"
  shows "kept (tr @ []) (l\<lparr>rl_phase := Sending r\<rparr>)"
proof -
  from assms have "sorted_map ((k, v) # r)" by (simp add: kept_def maps_ok_def)
  note r = first_sorted [OF this]
  have "held ((k, v) # r) = held r" using assms(2) r(2) by (simp add: held_Cons fun_eq_iff)
  then show ?thesis using assms(1,3) r(1) by (simp add: kept_def maps_ok_def in_flight_def)
qed

lemma fail_kept:
  assumes "rl_phase l = Sending ((k, v) # r)" "valid v" "kept tr l"
  shows "kept (tr @ [Send_failed k v]) (l\<lparr>rl_phase := Asleep\<rparr>)"
proof -
  have "newest_last (sent_to j tr @ held (rl_thread l) j @ held (rl_user l) j) (pushed_to j tr)" for j
  proof -
    have "newest_last (sent_to j tr @ held ((k, v) # r) j @ held (rl_user l) j) (pushed_to j tr)"
      "held ((k, v) # r) j = held (rl_thread l) j \<or>
       held ((k, v) # r) j = [] \<and> sent_to j tr \<noteq> [] \<and> held (rl_thread l) j = [last (sent_to j tr)]"
      using assms(1,3) by (simp_all add: kept_def in_flight_def)
    then show ?thesis by (cases "held (rl_user l) j = []") (auto simp: newest_last_def)
  qed
  then show ?thesis using assms(1,3) by (simp add: kept_def maps_ok_def in_flight_def)
qed

lemma clear_kept:
  assumes "rl_phase l = Sending []" "kept tr l"
  shows "kept (tr @ []) (clear_maps l)"
proof -
  from assms have "newest_last (sent_to k tr @ in_flight (clear_maps l) k) (pushed_to k tr)" for k
    by (simp add: kept_def in_flight_def clear_maps_def)
  then show ?thesis using assms by (simp add: kept_def maps_ok_def clear_maps_def)
qed

lemma step_kept: "limiter_step l es l' \<Longrightarrow> kept tr l \<Longrightarrow> kept (tr @ es) l'"
  by (induction rule: limiter_step.induct)
    (rule push_kept swap_kept copy_kept sent_kept skip_kept fail_kept clear_kept; assumption)+

lemma step_accounted:
  "limiter_step l es l' \<Longrightarrow> accounted tr l \<Longrightarrow> maps_ok l \<Longrightarrow> no_failure es \<Longrightarrow> accounted (tr @ es) l'"
proof (induction rule: limiter_step.induct)
  case (user_pushes l k v)
  then show ?case by (simp add: push_accounted maps_ok_def)
next
  case (thread_swaps l)
  then have "in_flight (swap_maps l) k = in_flight l k" for k
    by (auto simp: accounted_def cleared_def maps_ok_def swap_maps_def in_flight_def)
  then show ?case using thread_swaps by (simp add: accounted_def cleared_def swap_maps_def)
next
  case (thread_copies l)
  then show ?case using copied_flight [of l] by (auto simp: accounted_def cleared_def)
next
  case (thread_sends l k v r)
  then have "sorted_map ((k, v) # r)" by (simp add: maps_ok_def)
  then have r: "held r k = []" by (rule first_sorted)
  have "sent_to j (tr @ [Value_sent k v]) @ in_flight (l\<lparr>rl_phase := Sending r\<rparr>) j = sent_to j tr @ in_flight l j" for j
    using thread_sends(1,2) r by (simp add: in_flight_def held_Cons)
  then show ?case using thread_sends(3) by (simp add: accounted_def cleared_def)
next
  case (thread_skips l k v r)
  then have "sorted_map ((k, v) # r)" by (simp add: maps_ok_def)
  then have "held ((k, v) # r) = held r" using thread_skips(2) first_sorted(2) [of k v r] by (simp add: held_Cons fun_eq_iff)
  then show ?case using thread_skips(1,3) by (simp add: accounted_def cleared_def in_flight_def)
next
  case (thread_fails l k v r)
  then show ?case by simp
next
  case (thread_clears l)
  then show ?case by (simp add: accounted_def cleared_def clear_maps_def in_flight_def)
qed

lemma run_kept: "limiter_run l es l' \<Longrightarrow> kept tr l \<Longrightarrow> kept (tr @ es) l'"
proof (induction rule: limiter_run.induct)
  case (run_step l es l' fs l'')
  then show ?case using step_kept [of l' fs l'' "tr @ es"] by simp
qed simp

lemma run_accounted:
  "limiter_run l es l' \<Longrightarrow> kept tr l \<Longrightarrow> accounted tr l \<Longrightarrow> no_failure es \<Longrightarrow> accounted (tr @ es) l'"
proof (induction rule: limiter_run.induct)
  case (run_step l es l' fs l'')
  then show ?case using step_accounted [of l' fs l'' "tr @ es"] run_kept [of l es l' tr] by (simp add: kept_def)
qed simp

lemma new_limiter_inv: "kept [] new_limiter" "accounted [] new_limiter"
  by (simp_all add: kept_def accounted_def cleared_def maps_ok_def new_limiter_def in_flight_def newest_last_def
      sorted_map_keys fun_eq_iff)

section \<open>Everything pushed last is sent in the end\<close>

fun is_sent :: "limiter_event \<Rightarrow> bool" where
  "is_sent (Value_sent k v) = True"
| "is_sent _ = False"

lemma sent_only:
  "\<forall>e \<in> set es. is_sent e \<Longrightarrow> pushed_to k es = [] \<and> no_failure es"
proof (induction es)
  case (Cons e es)
  then show ?case by (cases e) auto
qed simp

lemma run_append: "limiter_run l' es l'' \<Longrightarrow> limiter_run l tr l' \<Longrightarrow> limiter_run l (tr @ es) l''"
proof (induction rule: limiter_run.induct)
  case (run_step l1 es l2 fs l3)
  then show ?case using limiter_run.run_step [of l "tr @ es" l2 fs l3] by simp
qed simp

lemma run_first:
  assumes "limiter_step l es l'" "limiter_run l' fs l''"
  shows "limiter_run l (es @ fs) l''"
  using run_append [OF assms(2) limiter_run.run_step [OF run_nothing assms(1)]] by simp

definition settles :: "limiter \<Rightarrow> limiter \<Rightarrow> bool" where
  "settles l l' \<longleftrightarrow> (\<exists>es. limiter_run l es l' \<and> list_all is_sent es)"

lemma settles_refl: "settles l l"
  unfolding settles_def by (rule exI [of _ "[]"]) (simp add: run_nothing)

lemma settles_step: "limiter_step l es l' \<Longrightarrow> list_all is_sent es \<Longrightarrow> settles l' l'' \<Longrightarrow> settles l l''"
proof -
  assume st: "limiter_step l es l'" "list_all is_sent es" "settles l' l''"
  then obtain fs where "limiter_run l' fs l''" "list_all is_sent fs" by (auto simp: settles_def)
  then show ?thesis using st run_first [of l es l' fs l''] unfolding settles_def
    by (intro exI [of _ "es @ fs"]) simp
qed

lemma settles_trans: "settles l l' \<Longrightarrow> settles l' l'' \<Longrightarrow> settles l l''"
proof -
  assume "settles l l'" "settles l' l''"
  then obtain es fs where "limiter_run l es l'" "list_all is_sent es" "limiter_run l' fs l''" "list_all is_sent fs"
    by (auto simp: settles_def)
  then show ?thesis using run_append [of l' fs l'' l es] unfolding settles_def
    by (intro exI [of _ "es @ fs"]) simp
qed

lemma sends_the_rest:
  "rl_phase l = Sending r \<Longrightarrow> settles l (clear_maps l)"
proof (induction r arbitrary: l)
  case Nil
  then show ?case using settles_step [OF thread_clears [OF Nil] _ settles_refl] by simp
next
  case (Cons p r)
  obtain k v where p: "p = (k, v)" by fastforce
  have rest: "settles (l\<lparr>rl_phase := Sending r\<rparr>) (clear_maps l)"
    using Cons.IH [of "l\<lparr>rl_phase := Sending r\<rparr>"] by (simp add: clear_maps_def)
  show ?case
  proof (cases "valid v")
    case True
    then show ?thesis using settles_step [OF thread_sends _ rest] Cons.prems by (simp add: p)
  next
    case False
    then show ?thesis using settles_step [OF thread_skips _ rest] Cons.prems by (simp add: p)
  qed
qed

lemma settles_asleep:
  "\<exists>l'. settles l l' \<and> rl_phase l' = Asleep \<and> rl_user l' = rl_user l \<and>
     (rl_phase l \<noteq> Asleep \<longrightarrow> held (rl_thread l') = (\<lambda>_. []))"
proof (cases "rl_phase l")
  case Asleep
  then show ?thesis by (intro exI [of _ l]) (simp add: settles_refl)
next
  case Swapped
  define c where "c = copy_newest l"
  have "settles l (clear_maps c)"
    using settles_step [OF thread_copies [OF Swapped] _ sends_the_rest] by (simp add: c_def copy_newest_def Let_def)
  then show ?thesis by (intro exI [of _ "clear_maps c"]) (simp add: clear_maps_def c_def copy_newest_def Let_def)
next
  case (Sending r)
  then show ?thesis using sends_the_rest by (intro exI [of _ "clear_maps l"]) (simp add: clear_maps_def)
qed

text \<open>Nothing is left: the thread sleeps and no value of its map or of the map of the users is set.\<close>

definition all_sent :: "limiter \<Rightarrow> bool" where
  "all_sent l \<longleftrightarrow> rl_phase l = Asleep \<and> held (rl_user l) = (\<lambda>_. []) \<and> held (rl_thread l) = (\<lambda>_. [])"

lemma settles_sent:
  assumes "kept tr l"
  shows "\<exists>l'. settles l l' \<and> all_sent l'"
proof -
  obtain a where a: "settles l a" "rl_phase a = Asleep" using settles_asleep by blast
  then obtain es where "limiter_run l es a" by (auto simp: settles_def)
  then have "kept (tr @ es) a" using run_kept assms by blast
  then have b: "held (rl_buffer a) = (\<lambda>_. [])" using a(2) by (simp add: kept_def maps_ok_def)
  obtain c where c: "settles (swap_maps a) c" "rl_phase c = Asleep" "rl_user c = rl_user (swap_maps a)"
      "rl_phase (swap_maps a) \<noteq> Asleep \<longrightarrow> held (rl_thread c) = (\<lambda>_. [])"
    using settles_asleep by blast
  have "settles l c"
    using settles_trans [OF a(1) settles_step [OF thread_swaps [OF a(2)] _ c(1)]] by simp
  then show ?thesis using c b by (intro exI [of _ c]) (simp add: all_sent_def swap_maps_def)
qed

lemma run_settles:
  assumes "limiter_run new_limiter tr l"
  obtains es l' where "limiter_run l es l'" "list_all is_sent es" "all_sent l'"
    "\<And>k. newest_last (sent_to k (tr @ es)) (pushed_to k tr)"
    "\<And>k. no_failure tr \<Longrightarrow> subseq (sent_to k (tr @ es)) (pushed_to k tr)"
proof -
  have tr: "kept tr l" using run_kept [OF assms new_limiter_inv(1)] by simp
  obtain l' es where l': "all_sent l'" "limiter_run l es l'" "list_all is_sent es"
    using settles_sent [OF tr] by (auto simp: settles_def)
  have q: "pushed_to k es = []" "no_failure es" for k using sent_only [of es k] l'(3) by (auto simp: list_all_iff)
  have f: "in_flight l' k = []" for k using l'(1) by (simp add: all_sent_def in_flight_def)
  have "newest_last (sent_to k (tr @ es)) (pushed_to k tr)" for k
    using run_kept [OF l'(2) tr] q(1) f by (simp add: kept_def)
  moreover have "subseq (sent_to k (tr @ es)) (pushed_to k tr)" if "no_failure tr" for k
  proof -
    have "accounted tr l" using run_accounted [OF assms new_limiter_inv] that by simp
    then have "accounted (tr @ es) l'" using run_accounted [OF l'(2) tr] q(2) by simp
    then show ?thesis using q(1) f by (simp add: accounted_def)
  qed
  ultimately show ?thesis using l' that by blast
qed

lemma run_cons: "limiter_step l [e] l' \<Longrightarrow> limiter_run l' fs l'' \<Longrightarrow> limiter_run l (e # fs) l''"
  using run_first [of l "[e]" l' fs l''] by simp

lemma run_silent: "limiter_step l [] l' \<Longrightarrow> limiter_run l' fs l'' \<Longrightarrow> limiter_run l fs l''"
  using run_first [of l "[]" l' fs l''] by simp

text \<open>A failure keeps the maps, so that what was sent before it is sent again.\<close>

lemma failure_sends_twice:
  "\<exists>l. limiter_run new_limiter
    [Value_pushed 3 (VInt 5), Value_pushed 7 (VInt 6), Value_sent 3 (VInt 5), Send_failed 7 (VInt 6),
     Value_sent 3 (VInt 5), Value_sent 7 (VInt 6)] l"
proof -
  define u where "u = [(3::nat, VInt 5), (7, VInt 6)]"
  define st where "st m b t ph = \<lparr>rl_user = m, rl_buffer = b, rl_thread = t, rl_phase = ph\<rparr>" for m b t ph
  let ?x = "unset_values u"
  have "limiter_push 7 (VInt 6) (limiter_push 3 (VInt 5) new_limiter) = st u [] [] Asleep"
    unfolding st_def u_def by code_simp
  then have pushed: "limiter_step (limiter_push 3 (VInt 5) new_limiter) [Value_pushed 7 (VInt 6)] (st u [] [] Asleep)"
    using user_pushes [of "limiter_push 3 (VInt 5) new_limiter" 7 "VInt 6"] by simp
  have swaps: "limiter_step (st m b t Asleep) [] (st b m t Swapped)" for m b t
    using thread_swaps [of "st m b t Asleep"] by (simp add: st_def swap_maps_def)
  have copied: "copy_newest (st [] u [] Swapped) = st [] ?x u (Sending u)"
    "copy_newest (st ?x [] u Swapped) = st ?x [] u (Sending u)"
    unfolding st_def u_def by code_simp+
  have copies: "limiter_step (st [] u [] Swapped) [] (st [] ?x u (Sending u))"
    "limiter_step (st ?x [] u Swapped) [] (st ?x [] u (Sending u))"
    using thread_copies [of "st [] u [] Swapped"] thread_copies [of "st ?x [] u Swapped"]
    unfolding copied by (simp_all add: st_def)
  have sends: "limiter_step (st m b t (Sending ((k, VInt v) # r))) [Value_sent k (VInt v)] (st m b t (Sending r))" for m b t k v r
    using thread_sends [of "st m b t (Sending ((k, VInt v) # r))" k "VInt v" r] by (simp add: st_def)
  have fails: "limiter_step (st m b t (Sending ((k, VInt v) # r))) [Send_failed k (VInt v)] (st m b t Asleep)" for m b t k v r
    using thread_fails [of "st m b t (Sending ((k, VInt v) # r))" k "VInt v" r] by (simp add: st_def)
  have u: "Sending u = Sending ((3, VInt 5) # [(7, VInt 6)])" by (simp add: u_def)
  have "limiter_run (st [] ?x u (Sending u))
      [Value_sent 3 (VInt 5), Send_failed 7 (VInt 6), Value_sent 3 (VInt 5), Value_sent 7 (VInt 6)] (st ?x [] u (Sending []))"
    unfolding u
    by (intro run_cons [OF sends] run_cons [OF fails] run_silent [OF swaps] run_silent [OF copies(2) [unfolded u]] run_nothing)
  then show ?thesis
    by (intro exI [of _ "st ?x [] u (Sending [])"] run_cons [OF user_pushes] run_cons [OF pushed]
        run_silent [OF swaps] run_silent [OF copies(1)])
qed

section \<open>Several protocols for one device\<close>

text \<open>
  \<open>multiplex_protocol\<close>: the protocols of a device, each with its pointer. A call goes to every one of
  them, whatever the others answer.
\<close>

record ('c, 'q) multiplex =
  mp_protocols :: "(nat \<times> 'q) list"
  mp_device :: "'c container node option"

definition call_each :: "('q \<Rightarrow> 'q \<times> bool) \<Rightarrow> ('c, 'q) multiplex \<Rightarrow> ('c, 'q) multiplex \<times> bool" where
  "call_each f m =
     (m\<lparr>mp_protocols := map (\<lambda>(i, q). (i, fst (f q))) (mp_protocols m)\<rparr>,
      list_all (\<lambda>(i, q). snd (f q)) (mp_protocols m))"

text \<open>The places of the parameters that \<open>observe_rec\<close> asks a protocol to observe.\<close>

definition observe_here :: "nat \<Rightarrow> 'c container node \<Rightarrow> nat list list" where
  "observe_here i c =
     (case node_param c of Some a \<Rightarrow> if \<not> callbacks_empty a then [[i]] else [] | None \<Rightarrow> [])"

function observe_rec :: "'c container node \<Rightarrow> nat list list" where
  "observe_rec (Node s p cs) =
     concat (map (\<lambda>(i, c). observe_here i c @ map ((#) i) (observe_rec c)) (enumerate 0 cs))"
  by pat_completeness auto
termination
  by (relation "measure size") (auto simp: enumerate_eq_zip less_Suc_eq_le dest!: set_zip_rightD intro!: trans_le_add2 size_list_estimation')

text \<open>
  The new protocol gets the device and then a request for each of these places. The device is read through
  a pointer that is null until the multiplexer is given its own: None. A protocol that is exposed is told
  nothing of a device that is set later.
\<close>

definition expose_to ::
    "('c container node \<Rightarrow> 'q \<Rightarrow> 'q) \<Rightarrow> (nat list \<Rightarrow> 'q \<Rightarrow> 'q) \<Rightarrow> (nat \<times> 'q) option \<Rightarrow> ('c, 'q) multiplex \<Rightarrow>
     ('c, 'q) multiplex option" where
  "expose_to set_dev observe_quietly p m =
     (case p of
        None \<Rightarrow> Some m
      | Some (i, q) \<Rightarrow>
          (case mp_device m of
             None \<Rightarrow> None
           | Some dev \<Rightarrow>
               Some (m\<lparr>mp_protocols := mp_protocols m @ [(i, fold observe_quietly (observe_rec dev) (set_dev dev q))]\<rparr>)))"

definition stop_expose_to :: "nat \<Rightarrow> ('c, 'q) multiplex \<Rightarrow> ('c, 'q) multiplex" where
  "stop_expose_to i m = m\<lparr>mp_protocols := filter (\<lambda>(j, q). j \<noteq> i) (mp_protocols m)\<rparr>"

definition clear_protocols :: "('c, 'q) multiplex \<Rightarrow> ('c, 'q) multiplex" where
  "clear_protocols m = m\<lparr>mp_protocols := []\<rparr>"

definition set_device :: "'c container node \<Rightarrow> ('c, 'q) multiplex \<Rightarrow> ('c, 'q) multiplex" where
  "set_device dev m = m\<lparr>mp_device := Some dev\<rparr>"

text \<open>A parameter of the tree that somebody listens to.\<close>

definition has_listener :: "'c container node \<Rightarrow> nat list \<Rightarrow> bool" where
  "has_listener n p \<longleftrightarrow>
     (case node_at n p of Some m \<Rightarrow> (case node_param m of Some a \<Rightarrow> \<not> callbacks_empty a | None \<Rightarrow> False) | None \<Rightarrow> False)"

lemma has_listener_Cons: "has_listener (Node s q cs) (i # p) \<longleftrightarrow> i < length cs \<and> has_listener (cs ! i) p"
  by (simp add: has_listener_def)

lemma observed_here: "observe_here i c = (if has_listener c [] then [[i]] else [])"
  by (simp add: observe_here_def has_listener_def split: option.split)

lemma observed_places: "p \<in> set (observe_rec n) \<longleftrightarrow> p \<noteq> [] \<and> has_listener n p"
proof (induction n arbitrary: p rule: observe_rec.induct)
  case (1 s q cs)
  show ?case
  proof (cases p)
    case (Cons i r)
    have "p \<in> set (observe_rec (Node s q cs)) \<longleftrightarrow>
        i < length cs \<and> (r = [] \<and> has_listener (cs ! i) [] \<or> r \<in> set (observe_rec (cs ! i)))"
      by (auto simp: Cons in_set_enumerate_eq observed_here split: if_splits intro!: bexI [of _ "(i, cs ! i)"])
    then show ?thesis using "1.IH" [of "(i, cs ! i)" i "cs ! i" r]
      by (auto simp: Cons has_listener_Cons in_set_enumerate_eq)
  qed (auto simp: observed_here split: if_splits)
qed

definition observe_from :: "nat \<Rightarrow> 'c container node list \<Rightarrow> nat list list" where
  "observe_from k cs = concat (map (\<lambda>(i, c). observe_here i c @ map ((#) i) (observe_rec c)) (enumerate k cs))"

lemma observe_from_Cons: "observe_from k (c # cs) = (observe_here k c @ map ((#) k) (observe_rec c)) @ observe_from (Suc k) cs"
  by (simp add: observe_from_def)

lemma observe_from_head: "p \<in> set (observe_from k cs) \<Longrightarrow> k \<le> hd p"
  by (auto simp: observe_from_def in_set_enumerate_eq observed_here split: if_splits)

lemma observed_from_once: "\<forall>c \<in> set cs. distinct (observe_rec c) \<Longrightarrow> distinct (observe_from k cs)"
proof (induction cs arbitrary: k)
  case (Cons c cs)
  have "distinct (observe_here k c @ map ((#) k) (observe_rec c))"
    using Cons.prems observed_places [of "[]" c] by (auto simp: distinct_map observed_here)
  moreover have "hd p = k" if "p \<in> set (observe_here k c @ map ((#) k) (observe_rec c))" for p
    using that by (auto simp: observed_here split: if_splits)
  moreover have "hd p \<noteq> k" if "p \<in> set (observe_from (Suc k) cs)" for p
    using observe_from_head [OF that] by simp
  ultimately show ?case using Cons.IH Cons.prems unfolding observe_from_Cons distinct_append by (metis disjoint_iff list.set_intros(2))
qed (simp add: observe_from_def)

lemma observed_once: "distinct (observe_rec n)"
proof (induction n rule: observe_rec.induct)
  case (1 s q cs)
  have "distinct (observe_rec c)" if c: "c \<in> set cs" for c
  proof -
    obtain i where "i < length cs" "cs ! i = c" using c by (auto simp: in_set_conv_nth)
    then show ?thesis using "1.IH" [of "(i, c)" i c] by (simp add: in_set_enumerate_eq)
  qed
  then show ?case using observed_from_once [of cs 0] by (simp add: observe_from_def)
qed

lemma exposed_then_stopped:
  assumes "expose_to sd ob (Some (i, q)) m = Some m'" "i \<notin> fst ` set (mp_protocols m)"
  shows "stop_expose_to i m' = m"
proof -
  have "filter (\<lambda>(j, q). j \<noteq> i) (mp_protocols m) = mp_protocols m"
    using assms(2) by (auto simp: filter_id_conv image_iff)
  then show ?thesis using assms(1) by (auto simp: expose_to_def stop_expose_to_def split: option.splits)
qed

lemma called_all: "map fst (mp_protocols (fst (call_each f m))) = map fst (mp_protocols m)"
  by (simp add: call_each_def comp_def case_prod_unfold)

end
