(* ===== verification/Spec2Isabelle.thy ===== *)
theory Spec2Isabelle
  imports Value_Compare Value_Clamp Value_Convert Value_Merge Name_Validation Domain_Apply
    Node_Tree Units Callbacks Message_Queue Parameter Osc Brace_Expansion Path Path_Pattern
    Osc_Protocol Json Preset Oscquery_Values Node_Attributes Oscquery_Nodes Tree_Replay
    Oscquery_Mirror Oscquery_Server Forwarding
begin

text \<open>
  \<^bold>\<open>libossia in the Unreal plug-in: values, trees of parameters and the OSC protocol\<close>

  The program is the library \<open>src/Source/libossia/Public/ossia\<close>. A device is a tree of named nodes;
  a node can carry a parameter, which has a typed value, a domain that bounds it, a unit and
  attributes. Values go in and out by protocols; here by OSC messages, whose address names a node
  or is a pattern for several. The paths below are under \<open>src/Source/libossia/Public/ossia\<close>.

  \<^bold>\<open>Theories\<close>, from the bottom:

  \<^item> \<open>Ossia_Prelude\<close>: results (\<open>res\<close>: a value or a fault, for exceptions and undefined behaviour),
    machine integers as words read with \<open>sint\<close>, and the collections of lemmas shared by all.
  \<^item> \<open>Ieee_Float\<close>: \<open>float\<close> and \<open>double\<close> with their rounding, \<open>fmod\<close>, \<open>remainder\<close> and conversions.
  \<^item> \<open>Math_Bounds\<close> (\<open>detail/math.hpp\<close>): clamp, wrap and fold of each scalar type; the locale of
    strict weak orders, interpreted on each of them.
  \<^item> \<open>Value\<close>, \<open>Value_Compare\<close>, \<open>Value_Clamp\<close>, \<open>Value_Convert\<close>, \<open>Value_Merge\<close> (\<open>network/value\<close>,
    \<open>network/domain/clamp.cpp\<close> and its siblings): the variant of values, its comparison, bounding,
    conversion and merging. The bounding functions are instances of one visitor of three values;
    its laws are proved once in locales and hold for clamp, wrap and fold by interpretation.
  \<^item> \<open>Lexical_Cast\<close>, \<open>Name_Validation\<close> (\<open>network/base/name_validation.cpp\<close>): names, instances of
    names and parts of addresses.
  \<^item> \<open>Flat_Set\<close>, \<open>Domain\<close>, \<open>Domain_Convert\<close>, \<open>Domain_Apply\<close> (\<open>network/domain\<close>): sorted vectors, domains,
    their construction, conversion and application to a value.
  \<^item> \<open>Node_Tree\<close> (\<open>network/base/node.cpp\<close>, \<open>node_functions.cpp\<close>, \<open>network/generic/generic_node.cpp\<close>): the
    tree, its operations and signals; a node is reached by the positions that lead to it.
  \<^item> \<open>Brace_Expansion\<close>, \<open>Path\<close>, \<open>Path_Pattern\<close> (\<open>node_functions.cpp\<close>, \<open>network/common/path.cpp\<close>):
    creation of nodes from a pattern; paths with patterns; what a pattern means.
  \<^item> \<open>Units\<close> (\<open>network/dataspace\<close>): units, their texts, types and default domains.
  \<^item> \<open>Callbacks\<close>, \<open>Message_Queue\<close> (\<open>detail/callback_container.hpp\<close>, \<open>network/base/message_queue.hpp\<close>):
    callbacks with iterators that can dangle, and the queue that registers them.
  \<^item> \<open>Parameter\<close> (\<open>network/generic/generic_parameter.cpp\<close>, \<open>network/common/complex_type.cpp\<close>): the state of
    a parameter and every operation on it, with signals and exceptions.
  \<^item> \<open>Osc\<close>, \<open>Osc_Protocol\<close> (\<open>network/osc\<close>): values as arguments of messages; pushing, observing,
    receiving and learning.
  \<^item> \<open>Json\<close>, \<open>Preset\<close> (\<open>preset/preset.cpp\<close>): JSON documents and their values; presets written to
    documents and read from them, made of a tree and applied to it, and the document of a tree.
  \<^item> \<open>Oscquery_Values\<close> (\<open>network/oscquery/detail\<close>): the tags of values, and the values, units, modes
    and domains that OSCQuery writes to JSON and reads from it.
  \<^item> \<open>Node_Attributes\<close> (\<open>network/base/node_attributes.cpp\<close>, \<open>device.hpp\<close>): the attributes kept with a
    node and their setters; each is an instance of one locale of attributes that are stored.
  \<^item> \<open>Oscquery_Nodes\<close> (\<open>json_writer_detail.cpp\<close>, \<open>json_reader_detail.cpp\<close>): whole nodes and trees as
    documents, and the tree that a mirror makes of them. An attribute that documents carry is an
    instance of a locale that extends the one of stored attributes.
  \<^item> \<open>Tree_Replay\<close>: the shape of a tree, and that the signals of its operations tell it.
  \<^item> \<open>Oscquery_Mirror\<close> (\<open>oscquery_server.cpp\<close>, \<open>oscquery_mirror.cpp\<close>): the messages that a server sends for
    the signals of its device, and the mirror that queues their commands and runs them. A server, the
    messages on their way and a mirror make a step relation, whose invariant is that what is queued
    and on its way, replayed, turns the shape of the mirror into the one of the server.
  \<^item> \<open>Oscquery_Server\<close> (\<open>oscquery_server.cpp\<close>, \<open>oscquery_client.hpp\<close>, the parsers of queries): requests, their
    parser and their answers, the clients of a server, and what is pushed and echoed to them.
  \<^item> \<open>Forwarding\<close> (\<open>network/rate_limiting_protocol.cpp\<close>, \<open>network/local/local.cpp\<close>): the protocol that limits
    the rate of another, a step relation of its thread and the threads that push, with the invariants
    that what is pushed last is kept and that nothing else is sent; and the protocols of one device.

  \<^bold>\<open>How state is modelled.\<close> An operation takes the state and returns it changed, with the list of
  its signals. An exception is a fault; the state it leaves behind is kept (\<open>Thrown\<close>) where a caller
  can go on with it. What the language leaves undefined (a read out of range, an overflow, a null or
  dangling pointer) is the fault \<open>Undefined_behaviour\<close> or \<open>Dangling_iterator\<close>. A loop that may not
  end is a partial function with \<open>None\<close> for no result. Each operation is atomic: mutexes and threads
  are not modelled, but for the thread of the rate limiter, whose steps are interleaved with pushes. \<open>std::regex\<close>, the readers and writers of floating-point texts and the capability
  of a device to change its tree are arguments of the definitions.

  \<^bold>\<open>What the properties say.\<close> The first group follows a value from one device to another and a
  pattern to the parameters it selects, and states the invariant that every message keeps. The second
  follows a tree through a preset and back, and the third a value, a domain and the modes of a
  parameter through OSCQuery to a mirror, which fetches the tree of its server, follows its changes and
  pulls its values. A fourth states that the rate limiter sends what is pushed last. Then come the tree (names of siblings, lookup after creation, signals of a removal), the patterns (the
  regular expression that is written means the pattern; paths and their cache; braces and ranges),
  the parameters (the invariant over all sequences of operations), callbacks and queues, the round
  trips of OSC values, the domains, and the comparison and bounding of values. Two properties of the
  first group and two of the third state faults.

  \<^bold>\<open>Bounds and fuel.\<close> \<open>pieces_of\<close> is called with the length of the text, and consumes a character per
  unit of it. All other recursions end by a measure, but the loop that writes ranges
  (\<open>count_loop\<close>), for which the property on ranges states when it ends.

  \<^bold>\<open>Not modelled\<close>: the conversion of values between units and their merging; the sessions of
  OSCQuery and its pages in HTML; the export of a device with the attributes of its nodes, and files; alias nodes and wrapped parameters; sockets, zeroconf, loggers and threads; the
  glue to the engine; the vendored libraries.
\<close>

section \<open>Instances for the witnesses\<close>

text \<open>The text conversions, a parameter and a device that the witnesses below are about.\<close>

definition sample_text :: text_io where
  "sample_text = \<lparr>read_int = \<lambda>s. 0, read_float = \<lambda>s. fl_zero, read_bool = \<lambda>s. None, read_char = \<lambda>s. None,
     write_int = \<lambda>n. int_to_string (sint n), write_float = \<lambda>x. [], write_char = \<lambda>c. []\<rparr>"

definition sample_lex :: lex_io where
  "sample_lex = \<lparr>lex_float = \<lambda>s. None, lex_bool = \<lambda>s. None, show_float = \<lambda>x. [], show_double = \<lambda>x. []\<rparr>"

definition sample_parameter :: parameter where
  "sample_parameter = generic_parameter\<lparr>p_value_type := T_INT, p_value := VInt 7, p_bounding := CLIP,
     p_domain := DInt \<lparr>num_min = Some 0, num_max = Some 255, num_values = []\<rparr>\<rparr>"

definition sample_root :: "parameter node" where
  "sample_root = Node ''dev'' None
     [Node ''a'' (Some sample_parameter) [], Node ''g'' None [Node ''ab'' (Some sample_parameter) []],
      Node ''ab'' (Some sample_parameter) []]"

definition sample_device :: "rx list osc_device" where
  "sample_device = \<lparr>dev_root = sample_root, dev_listening = Map.empty, dev_cache = Map.empty, dev_learning = False\<rparr>"

text \<open>The handling of a message that ended without an error.\<close>

fun returned :: "'a outcome option \<Rightarrow> bool" where
  "returned (Some (Returned s)) = True"
| "returned r = False"

lemma returnedE: "returned r \<Longrightarrow> \<exists>s t. r = Some (Returned (s, t))"
  by (cases r rule: returned.cases) auto

lemma wf_sample_text: "wf_text sample_text"
  by (simp add: wf_text_def sample_text_def)

lemma wf_sample_parameter: "wf_parameter sample_parameter"
  by (simp add: wf_parameter_def sample_parameter_def generic_parameter_def)

lemma wf_sample_root: "wf_tree sample_root"
  by code_simp

lemma sample_at: "param_at sample_root [0] = Some sample_parameter" "param_at sample_root [2] = Some sample_parameter"
  by (simp_all add: sample_root_def)

lemma sample_params: "param_at sample_root p = Some x \<Longrightarrow> x = sample_parameter"
  unfolding sample_root_def
  by (cases p; cases "tl p"; cases "tl (tl p)")
    (auto simp: nth_Cons' split: if_splits)

lemma wf_sample_device: "wf_device sample_device"
proof -
  have "typed_parameter sample_parameter"
    by (simp add: sample_parameter_def typed_parameter_def generic_parameter_def)
  then show ?thesis using wf_sample_root by (auto simp: wf_device_def sample_device_def dest: sample_params)
qed

section \<open>From one device to another\<close>

text \<open>C1: The message that \<open>push\<close> sends for a value, when it is handled by a device
  that has a parameter of that type at that address, sets this parameter to the value as the sender's
  domain bounded it, sends it to the callbacks and announces it, and changes nothing else; the
  receiver's own domain only has to leave that value as it is. The values are those an OSC message can
  carry.\<close>

theorem value_sent_is_received:
  assumes "osc_push io a p v = Ok (Some m)"
    and "domain_filter io (p_domain p) (p_bounding p) v = Ok w" "osc_faithful w" "wf_val w"
    and "target dev a = Some q" "param_at (dev_root dev) q = Some x" "wf_parameter x"
    and "get_type w = p_value_type x" "domain_filter_move io (p_domain x) (p_bounding x) w = Ok w"
  shows "handle_osc_message io lio compile matches False dev m =
    Some (Returned (dev\<lparr>dev_root := set_param_at (dev_root dev) q (x\<lparr>p_previous := p_value x, p_value := w\<rparr>)\<rparr>,
      [Effect q (Sent w), On_message q]))"
  using assms by (rule push_received)

theorem value_sent_is_received_witness:
  "handle_osc_message sample_text sample_lex parse_regex regex_matches False sample_device (''/a'', [A_int32 255]) =
    Some (Returned (sample_device\<lparr>dev_root := set_param_at sample_root [0]
        (sample_parameter\<lparr>p_previous := VInt 7, p_value := VInt 255\<rparr>)\<rparr>,
      [Effect [0] (Sent (VInt 255)), On_message [0]]))"
proof -
  have filter: "domain_filter sample_text (p_domain sample_parameter) (p_bounding sample_parameter) (VInt 300) = Ok (VInt 255)"
    by code_simp
  then have "osc_push sample_text ''/a'' sample_parameter (VInt 300) = Ok (Some (''/a'', [A_int32 255]))"
    by (simp add: osc_push_def outbound_value_def osc_outbound_def sample_parameter_def generic_parameter_def filter_value_def)
  moreover have "domain_filter_move sample_text (p_domain sample_parameter) (p_bounding sample_parameter) (VInt 255) = Ok (VInt 255)"
    by code_simp
  moreover have "target sample_device ''/a'' = Some [0]" by code_simp
  ultimately show ?thesis
    using value_sent_is_received [of sample_text "''/a''" sample_parameter "VInt 300" "(''/a'', [A_int32 255])" "VInt 255"
        sample_device "[0]" sample_parameter] filter wf_sample_parameter sample_at(1)
    by (simp add: sample_device_def sample_parameter_def)
qed

text \<open>C2: A message whose address is a pattern, for a device that has no node of that literal
  address, is always handled to an end, and when no conversion fails it is received by the parameters
  of the nodes whose names match the pattern part by part, and changes no other parameter. Of
  \<open>std::regex\<close> this uses what its documentation says of the part of the syntax that
  \<open>make_regex\<close> writes.\<close>

theorem pattern_message_reaches_matching:
  assumes "ecmascript compile matches" "cache_ok compile (dev_cache dev)" "pss \<noteq> []" "list_all valid_part pss"
    and "is_pattern (pattern_address pss)" "target dev (pattern_address pss) = None"
  shows "handle_osc_message io lio compile matches silent dev (pattern_address pss, args) \<noteq> None \<and>
    (\<forall>dev' evs. handle_osc_message io lio compile matches silent dev (pattern_address pss, args) =
        Some (Returned (dev', evs)) \<longrightarrow>
      (\<forall>q. param_at (dev_root dev') q = map_option
        (\<lambda>x. if list_all2 pat_matches pss (path_names (dev_root dev) q) then received io lio x args else x)
        (param_at (dev_root dev) q)))"
  using handle_pattern [OF assms] by blast

theorem pattern_message_reaches_matching_witness:
  "\<exists>dev' evs. handle_osc_message sample_text sample_lex parse_regex regex_matches False sample_device (''/a*'', [A_int32 9]) =
      Some (Returned (dev', evs)) \<and>
    param_at (dev_root dev') [2] = Some (received sample_text sample_lex sample_parameter [A_int32 9]) \<and>
    param_at (dev_root dev') [1, 0] = Some sample_parameter"
proof -
  let ?pss = "[[Plain CHR ''a'', Star]]"
  let ?run = "handle_osc_message sample_text sample_lex parse_regex regex_matches False sample_device"
  have a: "pattern_address ?pss = ''/a*''" "list_all valid_part ?pss" "is_pattern ''/a*''" "target sample_device ''/a*'' = None"
    by code_simp+
  have c: "cache_ok parse_regex (dev_cache sample_device)" by (simp add: cache_ok_def sample_device_def)
  note law = pattern_message_reaches_matching [OF ecmascript_instance c _ a(2) a(3,4) [folded a(1)],
      of sample_text sample_lex False "[A_int32 9]", unfolded a(1)]
  have "returned (?run (''/a*'', [A_int32 9]))" by code_simp
  then obtain dev' evs where run: "?run (''/a*'', [A_int32 9]) = Some (Returned (dev', evs))"
    using returnedE by blast
  then have "param_at (dev_root dev') q = map_option
      (\<lambda>x. if list_all2 pat_matches ?pss (path_names (dev_root sample_device) q)
         then received sample_text sample_lex x [A_int32 9] else x)
      (param_at (dev_root sample_device) q)" for q
    using law by simp
  note eq = this
  have "pat_matches [Plain CHR ''a'', Star] ''ab''" unfolding pattern_meaning [symmetric] by code_simp
  then have "param_at (dev_root dev') [2] = Some (received sample_text sample_lex sample_parameter [A_int32 9])"
    "param_at (dev_root dev') [1, 0] = Some sample_parameter"
    using eq [of "[2]"] eq [of "[1, 0]"] by (simp_all add: sample_device_def sample_root_def)
  with run show ?thesis by blast
qed

text \<open>C3: Whatever message a device receives, and whether it is learning or not: when the
  handling returns, the names of the tree are still distinct and valid among siblings, every parameter
  still has a value of its type, and every listened place still is that of a parameter.\<close>

theorem device_invariant:
  assumes "wf_device dev"
    and "on_received_message io lio compile matches change_tree dev m = Some (Returned (dev', evs))"
  shows "wf_device dev'"
  using assms by (rule on_received_message_wf)

theorem device_invariant_witness:
  "\<exists>dev' evs. on_received_message sample_text sample_lex parse_regex regex_matches True
      (sample_device\<lparr>dev_learning := True\<rparr>) (''/g/new'', [A_float fl_one]) = Some (Returned (dev', evs)) \<and> wf_device dev'"
proof -
  let ?dev = "sample_device\<lparr>dev_learning := True\<rparr>"
  have "wf_device ?dev" using wf_sample_device by (simp add: wf_device_def)
  moreover have "returned (on_received_message sample_text sample_lex parse_regex regex_matches True ?dev
      (''/g/new'', [A_float fl_one]))"
    by code_simp
  then obtain dev' evs where "on_received_message sample_text sample_lex parse_regex regex_matches True ?dev
      (''/g/new'', [A_float fl_one]) = Some (Returned (dev', evs))"
    using returnedE by blast
  ultimately show ?thesis using device_invariant by blast
qed

text \<open>C4: When a device learns, a message with a value for an address that has no node creates
  the missing nodes and a parameter that has the type and the value that were sent; the tree stays a
  tree and the other parameters keep their places and values. The next message for this address changes
  nothing. Booleans, characters and the lists that look like arrays of floats are not learned as what
  they were.\<close>

theorem learned_address_has_value:
  assumes "list_all valid_name (address_parts a)" "find_parts (dev_root dev) (address_parts a) = None"
    and "learnable v" "wf_val v"
  shows "\<exists>n p x evs. on_learn io True dev (a, osc_outbound v) = Returned (dev\<lparr>dev_root := n\<rparr>, evs) \<and>
    find_parts n (address_parts a) = Some p \<and> param_at n p = Some x \<and> p_value x = v \<and> p_value_type x = get_type v \<and>
    (wf_tree (dev_root dev) \<longrightarrow> wf_tree n) \<and>
    (\<forall>q y. param_at (dev_root dev) q = Some y \<longrightarrow> param_at n q = Some y) \<and>
    (\<forall>args. on_learn io True (dev\<lparr>dev_root := n\<rparr>) (a, args) = Returned (dev\<lparr>dev_root := n\<rparr>, []))"
proof -
  obtain u where u: "init_value (get_type v) = Ok u"
    using init_value_ok [of "get_type v"] assms(3) by (cases v) auto
  obtain n p evs where "on_learn io True dev (a, osc_outbound v) = Returned (dev\<lparr>dev_root := n\<rparr>, evs)"
      "find_parts n (address_parts a) = Some p" "param_at n p = Some (learned_parameter (get_type v) u v)"
      "wf_tree (dev_root dev) \<longrightarrow> wf_tree n" "\<forall>q y. param_at (dev_root dev) q = Some y \<longrightarrow> param_at n q = Some y"
    using on_learn_new [OF assms(1,2) learned_of_value [OF assms(3,4)] refl u] by blast
  then show ?thesis using on_learn_known [of "dev\<lparr>dev_root := n\<rparr>" a p io True]
    by (intro exI [of _ n] exI [of _ p] exI [of _ "learned_parameter (get_type v) u v"] exI [of _ evs])
      (simp add: learned_parameter_def)
qed

theorem learned_address_has_value_witness:
  "\<exists>n p x evs. on_learn sample_text True sample_device (''/g/new'', [A_float fl_one, A_float fl_zero]) =
      Returned (sample_device\<lparr>dev_root := n\<rparr>, evs) \<and>
    find_parts n [''g'', ''new''] = Some p \<and> param_at n p = Some x \<and> p_value x = VVec2f [fl_one, fl_zero]"
proof -
  have parts: "address_parts ''/g/new'' = [''g'', ''new'']" by code_simp
  have "list_all valid_name [''g'', ''new'']" "find_parts (dev_root sample_device) [''g'', ''new''] = None"
    by code_simp+
  then show ?thesis
    using learned_address_has_value [of "''/g/new''" sample_device "VVec2f [fl_one, fl_zero]" sample_text]
    unfolding parts by (auto simp: wf_vec_def osc_outbound_def)
qed

text \<open>C5: An address with a part that has a character which the names of nodes cannot have is
  looked up as it is but created with another name: it is not found after it has been learned, and each
  message for it adds at least one node to the tree.\<close>

theorem unsanitary_address_learned_again:
  assumes "wf_device dev" "\<not> list_all valid_name (address_parts a)"
    and "on_learn io ct dev (a, args) = Returned (dev', evs)"
  shows "wf_device dev' \<and> find_parts (dev_root dev') (address_parts a) = None \<and>
    node_count (dev_root dev) < node_count (dev_root dev')"
  using assms by (rule on_learn_invalid)

theorem unsanitary_address_learned_again_witness:
  "\<exists>dev' evs. on_learn sample_text True sample_device (''/x#'', [A_int32 1]) = Returned (dev', evs) \<and>
     find_parts (dev_root dev') [''x#''] = None \<and> 5 < node_count (dev_root dev')"
proof -
  have parts: "address_parts ''/x#'' = [''x#'']" by code_simp
  have "\<not> list_all valid_name [''x#'']" "node_count (dev_root sample_device) = 5" by code_simp+
  moreover have "returned (Some (on_learn sample_text True sample_device (''/x#'', [A_int32 1])))" by code_simp
  then obtain dev' evs where "on_learn sample_text True sample_device (''/x#'', [A_int32 1]) = Returned (dev', evs)"
    using returnedE by blast
  ultimately show ?thesis
    using unsanitary_address_learned_again [OF wf_sample_device, of "''/x#''"] parts by fastforce
qed


section \<open>Presets\<close>

text \<open>A tree to save, one of the same form with other values, and an order for the children of a node.\<close>

definition saved_tree :: "parameter node" where
  "saved_tree = Node ''d'' None
     [Node ''a'' (Some (int_parameter 3)) [],
      Node ''g'' None [Node ''b'' (Some (int_parameter 5)) []]]"

definition blank_tree :: "parameter node" where
  "blank_tree = Node ''d'' None
     [Node ''a'' (Some (int_parameter 0)) [],
      Node ''g'' None [Node ''b'' (Some (int_parameter 0)) []]]"

definition sibling_order :: arrangement where
  "sibling_order cs = [0..<length cs]"

lemma sibling_order_arranges: "arranges sibling_order"
  by (simp add: arranges_def sibling_order_def lessThan_atLeast0)

lemma int_parameter_fields [simp]:
  "p_value_type (int_parameter n) = T_INT" "p_value (int_parameter n) = VInt (word_of_int n)"
  by (simp_all add: int_parameter_def)

lemma int_parameter_wf: "wf_parameter (int_parameter n)"
  by (simp add: wf_parameter_def int_parameter_def generic_parameter_def)

lemma saved_tree_wf: "wf_tree saved_tree" "names_below plain_key saved_tree" "keyed_names saved_tree"
  by code_simp+


lemma saved_blank_alike: "rel_node alike saved_tree blank_tree"
  by (simp add: saved_tree_def blank_tree_def alike_def int_parameter_wf)



text \<open>C8: The document that is made of a tree by \<open>make_json_preset\<close>, applied by
  \<open>apply_json\<close> to a tree of the same form and types, restores the value of every parameter
  whose way from the device has no node that is marked as safe, and changes no other parameter. The
  values are those that are recalled through JSON, converted where they need to be.\<close>

theorem document_of_tree_restores:
  assumes "wf_tree n" "keyed_names n" "recalled_below n" "arranges arrange" "rel_node alike n m"
  shows "\<exists>doc m' evs. make_json_preset arrange n = Ok doc \<and>
    apply_json io safe fn (Some doc) m = (True, Returned (m', evs)) \<and>
    (\<forall>q x y. param_at n q = Some x \<longrightarrow> param_at m' q = Some y \<longrightarrow>
       (if q \<noteq> [] \<and> unmarked safe q then restored x y else param_at m q = Some y))"
  using assms by (rule json_preset_restores)

theorem document_of_tree_restores_witness:
  "\<exists>doc m' evs. make_json_preset sibling_order saved_tree = Ok doc \<and>
    apply_json sample_text (\<lambda>q. q = [1]) False (Some doc) blank_tree = (True, Returned (m', evs)) \<and>
    (\<forall>y. param_at m' [0] = Some y \<longrightarrow> p_value y = VInt 3) \<and>
    (\<forall>y. param_at m' [1, 0] = Some y \<longrightarrow> p_value y = VInt 0)"
proof -
  have "recalled_below saved_tree" by (simp add: recalled_below_def saved_tree_def)
  from document_of_tree_restores [OF saved_tree_wf(1,3) this sibling_order_arranges saved_blank_alike,
      of sample_text "\<lambda>q. q = [1]" False]
  obtain doc m' evs where "make_json_preset sibling_order saved_tree = Ok doc"
    "apply_json sample_text (\<lambda>q. q = [1]) False (Some doc) blank_tree = (True, Returned (m', evs))"
    and r: "\<And>q x y. param_at saved_tree q = Some x \<Longrightarrow> param_at m' q = Some y \<Longrightarrow>
       (if q \<noteq> [] \<and> unmarked (\<lambda>q. q = [1]) q then restored x y else param_at blank_tree q = Some y)"
    by blast
  moreover have "p_value y = VInt 3" if "param_at m' [0] = Some y" for y
    using r [of "[0]", OF _ that] by (simp add: saved_tree_def unmarked_def restored_def)
  moreover have "p_value y = VInt 0" if "param_at m' [1, 0] = Some y" for y
    using r [of "[1, 0]", OF _ that] by (auto simp: saved_tree_def blank_tree_def unmarked_def upt_rec)
  ultimately show ?thesis by blast
qed

text \<open>C9: Applying a preset that is to keep the architecture, with any keys and values and also
  when it throws in the middle, leaves a tree with the same nodes, whose parameters have the same types
  and domains, and reports no node as created.\<close>

theorem preset_keeps_tree:
  "rel_node (\<lambda>x y. p_value_type y = p_value_type x \<and> p_domain y = p_domain x) n
     (fst (state_of (apply_entries io ct True allow_nonterminal remove_first has_parent p n))) \<and>
   snd (snd (state_of (apply_entries io ct True allow_nonterminal remove_first has_parent p n))) = []"
  using apply_entries_keeps by (simp add: keeps_form_def same_form_def)

text \<open>Two faults with the instances of a name. Writing \<open>/foo\<close> and \<open>/foo.1\<close> to a document replaces the first value by the array of the second, which is read as a list with an unset element; and the key \<open>foo.0\<close> is taken for that of a child \<open>bar\<close>, whose name is shorter by two, so that \<open>bar\<close> gets the value and the node \<open>foo.0\<close> does not.\<close>

theorem instance_suffix_misread:
  "res_bind (write_json ''d'' [(''/foo'', VInt 1), (''/foo.1'', VInt 2)]) (read_json True) =
     Ok [(''/foo'', VList [VUnset, VInt 2])] \<and>
   (case apply_preset_node io ct True True (VInt 7) [''foo.0''] bar_tree of
      Returned (n, _) \<Rightarrow> map_option p_value (param_at n [0]) = Some (VInt 7) \<and>
        map_option p_value (param_at n [1]) = Some (VInt 2)
    | Thrown _ _ \<Rightarrow> False)"
  using instances_lose_first first_instance_of_another_name by blast

section \<open>OSCQuery\<close>

text \<open>C10: The value of a parameter without a unit, written to JSON with its tags, is read back
  as the same value by the parameter that a mirror creates from these tags. This holds for all values
  but lists that their tags confuse with another type, those with an array that is not the first of its
  kind, and numbers that are not finite.\<close>

theorem mirror_gets_value:
  assumes "oscquery_stable v"
  shows "mirrored None v = Ok (True, v)"
  using assms by (rule value_mirrored)

theorem mirror_gets_value_witness:
  "mirrored None (VList [VInt 4, VString ''x'', VList [VBool True]]) =
    Ok (True, VList [VInt 4, VString ''x'', VList [VBool True]])"
proof -
  have "oscquery_stable (VList [VInt 4, VString ''x'', VList [VBool True]])" by code_simp
  then show ?thesis by (rule mirror_gets_value)
qed

text \<open>A domain of Booleans, integers, numbers, texts or arrays is written to JSON and read back as the same domain by a parameter of its type, when it has bounds or values but not both, when an array has no values, and when its numbers are finite.\<close>

theorem mirror_gets_domain:
  assumes "readable_domain d"
  shows "\<exists>j. domain_to_json d = Ok (Some j) \<and> read_domain (domain_type d) j = Ok (Some d)"
  using assms by (rule domain_read_back)

theorem mirror_gets_domain_witness:
  "\<exists>j. domain_to_json (DInt \<lparr>num_min = Some 0, num_max = Some 255, num_values = []\<rparr>) = Ok (Some j) \<and>
    read_domain T_INT j = Ok (Some (DInt \<lparr>num_min = Some 0, num_max = Some 255, num_values = []\<rparr>))"
  using mirror_gets_domain [of "DInt \<lparr>num_min = Some 0, num_max = Some 255, num_values = []\<rparr>"]
  by (simp add: readable_num_def)

text \<open>Every unit is read back from the texts that it is written to, or, when it is written to none, from
  its tag; and so are the bounding modes and the access modes.\<close>

theorem mirror_gets_modes:
  assumes "concrete_unit d"
  shows "(case unit_writer d of
      Some (_, ss) \<Rightarrow> read_unit (JArr (map JStr ss)) = Some d
    | None \<Rightarrow> get_type_from_osc_typetag (get_osc_typetag (Some d) None v) = Of_unit (Some d)) \<and>
    read_bounding (JStr (bounding_text b)) = Some b \<and> read_access (JInt (access_number a)) = Ok (Some a)"
proof -
  have "list_all (\<lambda>d. unit_writer d = None \<longrightarrow> d = Color (Some rgba8_u)) make_unit_array" by code_simp
  then have "get_osc_typetag (Some d) None v = get_osc_typetag (Some d) None VUnset" if "unit_writer d = None"
    using that concrete_in_array [OF assms] by (auto simp: list_all_iff get_osc_typetag_def)
  then show ?thesis
    using units_read_back [OF assms] bounding_read_back access_read_back
    by (auto simp: unit_read_back_def split: option.splits)
qed

theorem mirror_gets_modes_witness:
  "read_unit (JArr (map JStr [''color.rgb.b'', ''color.rgb.g'', ''color.rgb.r''])) = Some (Color (Some bgr_u))"
  using mirror_gets_modes [of "Color (Some bgr_u)"] by (simp add: unit_writer_def concrete_unit_def)

text \<open>A device with a bounded parameter, a description and a default value, and one below a group.\<close>

definition described_attributes :: attributes where
  "described_attributes = no_attributes\<lparr>a_description := Some ''gain'', a_default_value := Some (VInt 3), a_hidden := True\<rparr>"

definition served_tree :: entry where
  "served_tree = Node ''dev'' None
     [Node ''a'' (Some \<lparr>d_parameter = Some sample_parameter, d_attributes = described_attributes\<rparr>) [],
      Node ''g'' None [Node ''b'' (Some \<lparr>d_parameter = Some (generic_parameter\<lparr>p_value_type := T_STRING, p_value := VString ''hi''\<rparr>),
        d_attributes = no_attributes\<rparr>) []]]"



text \<open>Maps that are visited in the order of insertion, and a server of this tree with one client.\<close>

definition sample_server_io :: "unit server_io" where
  "sample_server_io = \<lparr>sv_io = sample_text, sv_numbers = \<lparr>lex_single = \<lambda>s. None, lex_double = \<lambda>s. None\<rparr>, sv_order = \<lambda>m. m,
     sv_parse = \<lambda>s. None, sv_compile = \<lambda>s. None, sv_matches = \<lambda>r s. False\<rparr>"

definition sample_client :: client where
  "sample_client = \<lparr>c_handle = 1, c_listening = [], c_ip = ''10.0.0.2'', c_sender = Some (''10.0.0.2'', 9000), c_remote_port = 9001\<rparr>"

definition sample_server :: "unit osc_server" where
  "sample_server = \<lparr>sv_tree = served_tree, sv_osc_port = 9996, sv_listening = (\<lambda>a. None), sv_clients = [sample_client], sv_queue = [],
     sv_cache = (\<lambda>s. None)\<rparr>"


definition sample_settings :: settings where
  "sample_settings = \<lparr>s_change_tree = True, s_io = sample_text, s_query_host = ''localhost'', s_query_port = ''5678'',
     s_has_ws = True, s_receiver_port = 9996, s_sender_port = 9997, s_zombie_on_remove = False\<rparr>"



text \<open>A server with this tree, and a mirror of another name that has the same nodes.\<close>

definition sample_mirror :: osc_mirror where
  "sample_mirror = \<lparr>mi_tree = Node ''copy'' None (node_children served_tree), mi_queue = [], mi_pulls = [],
     mi_host = \<lparr>h_osc_ip = None, h_osc_port = None, h_transport = None, h_ws_ip = None, h_ws_port = None, h_extensions = []\<rparr>,
     mi_namespace_done = True\<rparr>"

definition sample_link :: link where
  "sample_link = \<lparr>l_server = served_tree, l_wire = [], l_mirror = sample_mirror\<rparr>"

text \<open>The tree with a node \<open>/g/c\<close> more.\<close>

definition grown_tree :: entry where
  "grown_tree =
     (let g = node_children served_tree ! 1
      in set_children [node_children served_tree ! 0, set_children (node_children g @ [Node ''c'' None []]) g] served_tree)"

lemma sample_synchronized: "synchronized sample_link"
proof -
  have "good_tree served_tree" by code_simp
  then show ?thesis
    by (simp add: synchronized_def sample_link_def sample_mirror_def same_tree_shape_def served_tree_def blank_def
        no_attributes_def described_attributes_def)
qed

text \<open>C12: A mirror that starts with the same nodes as its server follows it: whatever sequence
  of creations, removals and renamings the server goes through, and however the arrival of their
  messages and the runs of the queued commands of the mirror are interleaved with them, once the
  messages that are still on their way have arrived and the commands have run, without an exception,
  the mirror has the same nodes with the same names in the same order. The mirror has to be one that
  removes the nodes of which it is told, not one that keeps them as zombies.\<close>

theorem mirror_follows_server:
  assumes "following st" "synchronized l" "(link_step st)\<^sup>*\<^sup>* l l'"
  shows "\<exists>mi mi' evs. deliver_all st (l_wire l') (l_mirror l') = Ok mi \<and> run_commands st mi = Returned (mi', evs) \<and>
    same_tree_shape (l_server l') (mi_tree mi')"
  using assms(1) steps_keep_inv [OF assms(3,1) synchronized_inv [OF assms(2)]] by (rule mirror_catches_up)

theorem mirror_follows_server_witness:
  "\<exists>mi mi' evs. deliver_all sample_settings [path_added ''/g/c''] sample_mirror = Ok mi \<and>
    run_commands sample_settings mi = Returned (mi', evs) \<and>
    children_names (node_children grown_tree ! 1) = [''b'', ''c''] \<and> same_tree_shape grown_tree (mi_tree mi')"
proof -
  let ?g = "node_children served_tree ! 1"
  have "create_child True ?g ''c'' = Ok (set_children (node_children ?g @ [Node ''c'' None []]) ?g, [Created [''c'']], Some 1)"
    by code_simp
  then have changed: "change_server (Create_child [1] ''c'') served_tree = Returned (grown_tree, [Tree_changed (Created [''g'', ''c''])])"
    by (simp add: create_entry_child_def grown_tree_def served_tree_def on_child_def Let_def)
  have there: "allowed (Create_child [1] ''c'') (l_server sample_link)" by (simp add: sample_link_def served_tree_def)
  have sent: "map_res (on_signal (look_at (l_server sample_link))) [Tree_changed (Created [''g'', ''c''])] = Ok [[path_added ''/g/c'']]"
    by (simp add: address_of_def slash_names_def)
  from server_changes [OF there _ sent] changed
  have "link_step sample_settings sample_link (sample_link\<lparr>l_server := grown_tree, l_wire := l_wire sample_link @ concat [[path_added ''/g/c'']]\<rparr>)"
    by (simp add: sample_link_def del: change_server.simps)
  then have "(link_step sample_settings)\<^sup>*\<^sup>* sample_link (sample_link\<lparr>l_server := grown_tree, l_wire := [path_added ''/g/c'']\<rparr>)"
    by (simp add: sample_link_def r_into_rtranclp)
  from mirror_follows_server [OF _ sample_synchronized this] obtain mi mi' evs
    where "deliver_all sample_settings [path_added ''/g/c''] sample_mirror = Ok mi" "run_commands sample_settings mi = Returned (mi', evs)"
      "same_tree_shape grown_tree (mi_tree mi')"
    by (auto simp: following_def sample_settings_def sample_link_def)
  moreover have "children_names (node_children grown_tree ! 1) = [''b'', ''c'']" by (simp add: grown_tree_def served_tree_def children_names_def Let_def)
  ultimately show ?thesis by (intro exI conjI)
qed

text \<open>C13: When an attribute of a parameter of the server changes, the message of its signal,
  once it has arrived and the commands have run, gives the parameter of the mirror at the same address
  the access mode, domain, bounding mode, repetition filter, disabled or critical flag of the server,
  and changes neither the rest of the node nor the tree. The unit and the mute are not carried. A
  domain has to be readable, of the type of the parameters and other than the one that the mirror has,
  and a Boolean has no bounding mode.\<close>

theorem changed_attribute_is_mirrored:
  assumes "d_parameter (look ss) = Some x" "find_node (mi_tree mi) (address_of ss) = Some q"
    "d_parameter (data_in q mi) = Some y" "carriable a x y" "mi_queue mi = []"
  shows "\<exists>js mi1 mi2 evs. on_signal look (Changed ss (Of_parameter (Modified a))) = Ok js \<and>
    deliver_all st js mi = Ok mi1 \<and> run_commands st mi1 = Returned (mi2, evs) \<and>
    data_in q mi2 = (data_in q mi)\<lparr>d_parameter := Some (carried a x y)\<rparr> \<and> shape (mi_tree mi2) = shape (mi_tree mi)"
  using assms by (rule attribute_followed)

theorem changed_attribute_is_mirrored_witness:
  "\<exists>js mi1 mi2 evs.
    on_signal (\<lambda>_. \<lparr>d_parameter = Some (sample_parameter\<lparr>p_access := GET\<rparr>), d_attributes = no_attributes\<rparr>)
      (Changed [''a''] (Of_parameter (Modified Access_mode_attr))) = Ok js \<and>
    deliver_all sample_settings js sample_mirror = Ok mi1 \<and> run_commands sample_settings mi1 = Returned (mi2, evs) \<and>
    map_option p_access (d_parameter (data_in [0] mi2)) = Some GET \<and>
    map_option p_value (d_parameter (data_in [0] mi2)) = Some (VInt 7)"
proof -
  let ?look = "\<lambda>_. \<lparr>d_parameter = Some (sample_parameter\<lparr>p_access := GET\<rparr>), d_attributes = no_attributes\<rparr>"
  have 1: "d_parameter (?look [''a'']) = Some (sample_parameter\<lparr>p_access := GET\<rparr>)" by simp
  have 2: "find_node (mi_tree sample_mirror) (address_of [''a'']) = Some [0]" by code_simp
  have 3: "d_parameter (data_in [0] sample_mirror) = Some sample_parameter"
    by (simp add: sample_mirror_def served_tree_def data_in_def data_of_def)
  have 4: "carriable Access_mode_attr (sample_parameter\<lparr>p_access := GET\<rparr>) sample_parameter"
    by (simp add: carriable_def sample_parameter_def generic_parameter_def)
  obtain js mi1 mi2 evs where "on_signal ?look (Changed [''a''] (Of_parameter (Modified Access_mode_attr))) = Ok js"
    "deliver_all sample_settings js sample_mirror = Ok mi1" "run_commands sample_settings mi1 = Returned (mi2, evs)"
    "data_in [0] mi2 = (data_in [0] sample_mirror)\<lparr>d_parameter := Some (carried Access_mode_attr (sample_parameter\<lparr>p_access := GET\<rparr>) sample_parameter)\<rparr>"
    using changed_attribute_is_mirrored [where look = ?look and st = sample_settings, OF 1 2 3 4] by (auto simp: sample_mirror_def)
  moreover from this(4) have "map_option p_access (d_parameter (data_in [0] mi2)) = Some GET"
    "map_option p_value (d_parameter (data_in [0] mi2)) = Some (VInt 7)"
    by (simp_all add: sample_parameter_def generic_parameter_def)
  ultimately show ?thesis by blast
qed

text \<open>C14: The request of \<open>pull_async\<close> for a parameter of the server, its spaces
  escaped, is parsed and answered with the value, and the answer sets the parameter of the mirror at
  the same address to it, leaves the rest of the node and the tree as they were and leaves no pull
  waiting. The parameters have values of the same type; the value is no Boolean, no color of bytes, has
  only finite numbers and, in a list, no characters and arrays.\<close>

theorem pulled_value_arrives:
  assumes "visits (sv_order sio)" "good_tree (sv_tree sv)" "node_at (sv_tree sv) q = Some k"
    "d_parameter (data_of k) = Some x" "answer_kept (p_unit x) (p_value x)"
    "find_node (mi_tree mi) (osc_parameter_string (sv_tree sv) q) = Some q'" "d_parameter (data_in q' mi) = Some y"
    "get_type (p_value y) = get_type (p_value x)" "wf_val (p_value y)" "mi_pulls mi = []"
  shows "\<exists>mi1 t answer mi2 evs. pull_async (osc_parameter_string (sv_tree sv) q) mi = Returned (mi1, [Http_sent t]) \<and>
    on_http sio h (http_path t) sv = Some (Ok (sv, [Reply answer], Ok_status)) \<and>
    on_ws_message st answer mi1 = Ok (mi2, evs, True) \<and> mi_pulls mi2 = [] \<and>
    data_in q' mi2 = (data_in q' mi)\<lparr>d_parameter := Some (y\<lparr>p_previous := p_value y, p_value := p_value x\<rparr>)\<rparr> \<and>
    shape (mi_tree mi2) = shape (mi_tree mi)"
  using assms by (rule value_fetched)

theorem pulled_value_arrives_witness:
  "\<exists>mi1 t answer mi2 evs. pull_async ''/g/b'' sample_mirror = Returned (mi1, [Http_sent t]) \<and>
    on_http sample_server_io 1 (http_path t) sample_server = Some (Ok (sample_server, [Reply answer], Ok_status)) \<and>
    on_ws_message sample_settings answer mi1 = Ok (mi2, evs, True) \<and>
    map_option p_value (d_parameter (data_in [1, 0] mi2)) = Some (VString ''hi'')"
proof -
  let ?x = "generic_parameter\<lparr>p_value_type := T_STRING, p_value := VString ''hi''\<rparr>"
  let ?k = "Node ''b'' (Some \<lparr>d_parameter = Some ?x, d_attributes = no_attributes\<rparr>) []"
  have 1: "visits (sv_order sample_server_io)" by (simp add: visits_def sample_server_io_def)
  have 2: "good_tree (sv_tree sample_server)" using sample_synchronized by (simp add: sample_server_def synchronized_def sample_link_def)
  have 3: "node_at (sv_tree sample_server) [1, 0] = Some ?k" by (simp add: sample_server_def served_tree_def)
  have 4: "d_parameter (data_of ?k) = Some ?x" "answer_kept (p_unit ?x) (p_value ?x)" by simp_all
  have a: "osc_parameter_string (sv_tree sample_server) [1, 0] = ''/g/b''"
    by (simp add: osc_parameter_string_def slash_names_def sample_server_def served_tree_def)
  have 5: "find_node (mi_tree sample_mirror) (osc_parameter_string (sv_tree sample_server) [1, 0]) = Some [1, 0]"
    unfolding a by code_simp
  have 6: "d_parameter (data_in [1, 0] sample_mirror) = Some ?x"
    by (simp add: sample_mirror_def served_tree_def data_in_def)
  have 7: "get_type (p_value ?x) = get_type (p_value ?x)" "wf_val (p_value ?x)" "mi_pulls sample_mirror = []"
    by (simp_all add: sample_mirror_def)
  from pulled_value_arrives [OF 1 2 3 4 5 6 7, of 1 sample_settings] show ?thesis unfolding a by fastforce
qed



text \<open>C16: A fault of the vector of clients: moving a client leaves its remote port behind. Of
  two clients, the messages of the second are not echoed to it; once the first has left, its port is
  that of the second, and every message that the second sends comes back to it.\<close>

theorem echo_returns_to_sender:
  assumes "sv_clients sv = [c, d]" "c_handle c = h" "c_sender d = Some s" "c_sender c \<noteq> c_sender d"
    "c_remote_port c \<noteq> c_remote_port d"
  shows "Osc_to s m \<notin> set (echo_message True (c_remote_port d) m sv) \<and>
    echo_message True (c_remote_port d) m (on_connection_closed h sv) = [Osc_to s m]"
  using echo_after_close [OF assms] by blast

theorem echo_returns_to_sender_witness:
  "echo_message True 9003 (''/a'', [])
      (on_connection_closed 1 (sample_server\<lparr>sv_clients := [sample_client,
        sample_client\<lparr>c_handle := 2, c_sender := Some (''10.0.0.3'', 9002), c_remote_port := 9003\<rparr>]\<rparr>)) =
    [Osc_to (''10.0.0.3'', 9002) (''/a'', [])]"
  using echo_returns_to_sender [of "sample_server\<lparr>sv_clients := [sample_client,
      sample_client\<lparr>c_handle := 2, c_sender := Some (''10.0.0.3'', 9002), c_remote_port := 9003\<rparr>]\<rparr>" sample_client
      "sample_client\<lparr>c_handle := 2, c_sender := Some (''10.0.0.3'', 9002), c_remote_port := 9003\<rparr>" 1 "(''10.0.0.3'', 9002)" "(''/a'', [])"]
  by (simp add: sample_client_def)

text \<open>The tags of a list leave out its brackets, and an array in a list is only recognised where its tags occur for the first time: a mirror gets an integer for the list of one integer, an array for a list of two numbers, and a list for the second array of a list. When the default value of a list is read, its elements are added to those of the value.\<close>

theorem mirror_confuses_lists:
  "mirrored None (VList [VInt 5]) = Ok (True, VInt 5) \<and>
   mirrored None (VList [VFloat fl_one, VFloat fl_one]) = Ok (True, VVec2f [fl_one, fl_one]) \<and>
   mirrored None (VList [VVec2f [fl_one, fl_one], VVec2f [fl_one, fl_one]]) =
     Ok (True, VList [VVec2f [fl_one, fl_one], VList [VFloat fl_one, VFloat fl_one]]) \<and>
   parse_oscquery_value (VList [VInt 1, VInt 2]) (JArr [JInt 3, JInt 4]) ''ii'' =
     Ok (True, VList [VInt 1, VInt 2, VInt 3, VInt 4])"
  using list_of_one_is_element list_of_floats_is_array second_array_is_list default_list_after_value by blast

section \<open>Forwarding\<close>

text \<open>C17: Whatever was pushed, swapped, sent or refused so far, if the protocol accepts what
  follows, the thread of the rate limiter comes to a state where all that is left is sent without any
  other push, and then the value sent last to each parameter is the one pushed last to it. When the
  protocol never failed, the values sent to a parameter are a subsequence of those pushed to it.\<close>

theorem rate_limiter_delivers:
  assumes "limiter_run new_limiter tr l"
  shows "\<exists>es l'. limiter_run l es l' \<and> list_all is_sent es \<and> all_sent l' \<and>
    (\<forall>k. newest_last (sent_to k (tr @ es)) (pushed_to k tr)) \<and>
    (no_failure tr \<longrightarrow> (\<forall>k. subseq (sent_to k (tr @ es)) (pushed_to k tr)))"
proof -
  obtain es l' where "limiter_run l es l'" "list_all is_sent es" "all_sent l'"
    "\<And>k. newest_last (sent_to k (tr @ es)) (pushed_to k tr)"
    "\<And>k. no_failure tr \<Longrightarrow> subseq (sent_to k (tr @ es)) (pushed_to k tr)"
    using run_settles [OF assms] by metis
  then show ?thesis by (intro exI [of _ es] exI [of _ l']) simp
qed

theorem rate_limiter_delivers_witness:
  "\<exists>es l'. limiter_run (limiter_push 3 (VInt 6) (limiter_push 3 (VInt 5) new_limiter)) es l' \<and> all_sent l' \<and>
    sent_to 3 es \<noteq> [] \<and> last (sent_to 3 es) = VInt 6"
proof -
  have "limiter_run new_limiter [Value_pushed 3 (VInt 5), Value_pushed 3 (VInt 6)]
      (limiter_push 3 (VInt 6) (limiter_push 3 (VInt 5) new_limiter))"
    by (intro run_cons [OF user_pushes] run_nothing)
  then obtain es l' where run: "limiter_run (limiter_push 3 (VInt 6) (limiter_push 3 (VInt 5) new_limiter)) es l'" "all_sent l'"
    and newest: "\<forall>k. newest_last (sent_to k ([Value_pushed 3 (VInt 5), Value_pushed 3 (VInt 6)] @ es))
      (pushed_to k [Value_pushed 3 (VInt 5), Value_pushed 3 (VInt 6)])"
    by (metis rate_limiter_delivers)
  have "sent_to 3 es \<noteq> [] \<and> last (sent_to 3 es) = VInt 6"
    using spec [OF newest, of 3] by (simp add: newest_last_def)
  then show ?thesis using run by blast
qed

section \<open>The tree of nodes\<close>


text \<open>C18: Every operation on the tree keeps its names: creating, adding, removing and renaming a
  child, and creating nodes by address, leave the siblings of every node with distinct names made of
  valid characters.\<close>

theorem tree_operations_keep_names:
  assumes "wf_tree n"
  shows "(\<forall>s m evs r. create_child ct n s = Ok (m, evs, r) \<longrightarrow> wf_tree m) \<and>
    (\<forall>c m evs r. wf_tree c \<and> add_child ct n c = Ok (m, evs, r) \<longrightarrow> wf_tree m) \<and>
    (\<forall>s. wf_tree (fst (remove_child ct n s))) \<and>
    (\<forall>i s m evs. i < length (node_children n) \<and> set_child_name n i s = Ok (m, evs) \<longrightarrow> wf_tree m) \<and>
    (\<forall>a m evs p. create_node ct n a = Ok (m, evs, p) \<longrightarrow> wf_tree m)"
proof (intro conjI allI impI)
  fix i s m evs
  assume "i < length (node_children n) \<and> set_child_name n i s = Ok (m, evs)"
  then show "wf_tree m" using set_child_name_wf [OF _ assms] by blast
next
  fix a m evs p
  assume "create_node ct n a = Ok (m, evs, p)"
  then show "wf_tree m" using create_node_fresh assms by blast
qed (use create_child_wf [OF _ assms] add_child_wf [OF _ assms] remove_child_wf [OF assms] in \<open>blast+\<close>)

theorem tree_operations_keep_names_witness:
  "\<exists>m evs p. create_node True sample_root ''/g/ab'' = Ok (m, evs, p) \<and> wf_tree m \<and>
    address_string_from_node m p = ''dev:/g/ab.1''"
proof -
  have "case create_node True sample_root ''/g/ab'' of
      Ok (m, evs, p) \<Rightarrow> address_string_from_node m p = ''dev:/g/ab.1'' | Err e \<Rightarrow> False"
    by code_simp
  then obtain m evs p where "create_node True sample_root ''/g/ab'' = Ok (m, evs, p)"
      "address_string_from_node m p = ''dev:/g/ab.1''"
    by (cases "create_node True sample_root ''/g/ab''") auto
  then show ?thesis using tree_operations_keep_names [OF wf_sample_root, of True] by blast
qed

text \<open>C19: On a device whose tree can change, \<open>find_or_create_node\<close> succeeds for
  every address with valid characters; the address is found afterwards at the place it returned, a tree
  remains a tree, and every address found before is found at the same place. An address that is found
  is returned without a change.\<close>

theorem find_or_create_finds:
  assumes "valid_address a"
  shows "\<exists>m evs p. find_or_create_node True n a = Ok (m, evs, p) \<and> find_node m a = Some p \<and>
    (wf_tree n \<longrightarrow> wf_tree m) \<and> (\<forall>b q. find_node n b = Some q \<longrightarrow> find_node m b = Some q) \<and>
    (\<forall>q. find_node n a = Some q \<longrightarrow> m = n \<and> evs = [] \<and> p = q)"
proof -
  obtain m evs p where 1: "find_or_create_node True n a = Ok (m, evs, p)" "find_node m a = Some p"
      "wf_tree n \<longrightarrow> wf_tree m" "\<forall>b q. find_node n b = Some q \<longrightarrow> find_node m b = Some q"
    using find_or_create_node_spec [OF assms] by blast
  moreover have "\<forall>q. find_node n a = Some q \<longrightarrow> m = n \<and> evs = [] \<and> p = q"
    using find_or_create_found [of n a _ True] 1(1) by fastforce
  ultimately show ?thesis by blast
qed

theorem find_or_create_finds_witness:
  "\<exists>m evs p. find_or_create_node True sample_root ''/g/new/x'' = Ok (m, evs, p) \<and>
    find_node m ''/g/new/x'' = Some p \<and> find_node m ''/ab'' = Some [2]"
proof -
  have "valid_address ''/g/new/x''" "find_node sample_root ''/ab'' = Some [2]" by code_simp+
  then show ?thesis using find_or_create_finds [of "''/g/new/x''" sample_root] by blast
qed

text \<open>C20: In a tree, looking up the address of a node gives that node, and the address of the
  node that an address was looked up to is that address, with one slash before it.\<close>

theorem address_leads_back:
  assumes "wf_tree n"
  shows "(\<forall>p m. node_at n p = Some m \<and> [] \<notin> set (path_names n p) \<longrightarrow> find_node n (osc_parameter_string n p) = Some p) \<and>
    (\<forall>a p. find_node n a = Some p \<and> sanitize_address a \<noteq> [] \<longrightarrow> osc_parameter_string n p = CHR ''/'' # sanitize_address a)"
  using find_node_osc_string [OF assms] find_node_address by blast

theorem address_leads_back_witness: "find_node sample_root (osc_parameter_string sample_root [1, 0]) = Some [1, 0]"
proof -
  have "node_at sample_root [1, 0] \<noteq> None" "[] \<notin> set (path_names sample_root [1, 0])"
    by (simp_all add: sample_root_def)
  then show ?thesis using address_leads_back [OF wf_sample_root] by blast
qed



text \<open>\<open>create_node\<close> raises its exception exactly when the device does not allow its
  tree to change, whatever the address and the tree.\<close>

theorem creation_fails_iff_fixed: "create_node ct n a = Err Cannot_create_node \<longleftrightarrow> \<not> ct"
  by (rule create_node_error)

text \<open>C22: After the removal of a child its name is not found any more, and the other children
  are kept; one signal is sent for each node and one for each parameter that disappeared.\<close>

theorem removal_is_announced:
  assumes "wf_tree n" "remove_child True n s = (m, evs, r)"
  shows "find_child m (sanitize_name s) = None \<and>
    (\<forall>c\<in>set (node_children n). node_name c \<noteq> sanitize_name s \<longrightarrow> c \<in> set (node_children m)) \<and>
    node_count m + length (filter is_removing evs) = node_count n \<and>
    total_params m + length (filter is_parameter_removing evs) = total_params n"
proof -
  have m: "fst (remove_child True n s) = m" using assms(2) by simp
  have "\<forall>c\<in>set (node_children n). node_name c \<noteq> sanitize_name s \<longrightarrow> c \<in> set (node_children m)"
    using remove_child_others [of _ n s True, unfolded m] by (metis in_set_conv_nth)
  then show ?thesis
    using remove_child_gone [OF assms(1), of s, unfolded m] remove_child_counts [OF assms(2)] by blast
qed

theorem removal_is_announced_witness:
  "\<exists>m evs r. remove_child True sample_root ''g'' = (m, evs, r) \<and>
    find_child m ''g'' = None \<and> length (filter is_removing evs) = 2"
proof -
  obtain m evs r where run: "remove_child True sample_root ''g'' = (m, evs, r)" by (cases "remove_child True sample_root ''g''") auto
  have "sanitize_name ''g'' = ''g''" by code_simp
  moreover have "node_count (fst (remove_child True sample_root ''g'')) = 3" "node_count sample_root = 5" by code_simp+
  ultimately show ?thesis using removal_is_announced [OF wf_sample_root run] run by auto
qed

section \<open>Patterns\<close>

text \<open>C23: The text that \<open>make_regex\<close> writes for a pattern is a regular expression,
  and it matches exactly the names that the pattern means: a star any characters of a name, a question
  mark at most one, an exclamation mark an instance, braces one of their words, brackets one of their
  characters.\<close>

theorem pattern_regex_means_pattern:
  assumes "valid_part ps"
  shows "\<exists>rs. make_regex parse_regex (pat_text ps) = Some (Ok rs) \<and> (\<forall>s. regex_matches rs s \<longleftrightarrow> pat_matches ps s)"
  using make_regex_pattern [OF ecmascript_instance assms] .

theorem pattern_regex_means_pattern_witness:
  "\<exists>rs. make_regex parse_regex ''{foo,bar}!'' = Some (Ok rs) \<and>
    (\<forall>s. regex_matches rs s \<longleftrightarrow> pat_matches [Words [''foo'', ''bar''], Bang] s)"
proof -
  have "valid_part [Words [''foo'', ''bar''], Bang]" "pat_text [Words [''foo'', ''bar''], Bang] = ''{foo,bar}!''"
    by code_simp+
  then show ?thesis using pattern_regex_means_pattern [of "[Words [''foo'', ''bar''], Bang]"] by simp
qed

text \<open>C24: For an absolute address without special characters, going along its path from the root
  selects the node that \<open>find_node\<close> finds, once, or nothing when there is none.\<close>

theorem path_of_address_is_lookup:
  assumes "wf_tree device" "literal_parts parts"
  shows "\<exists>p. make_path compile cache (CHR ''/'' # join_slash parts) = Some (cache, Some p) \<and>
    apply_path matches device (child_functions p) [[]] =
      (case find_node device (CHR ''/'' # join_slash parts) of Some q \<Rightarrow> [q] | None \<Rightarrow> [])"
proof -
  have parts: "parts \<noteq> []" "\<forall>s\<in>set parts. s \<noteq> [] \<and> CHR ''/'' \<notin> set s"
    using assms(2) by (auto simp: literal_parts_def)
  show ?thesis
    using make_path_steps [OF literal_path_steps [OF assms(2), of compile cache]]
    by (simp add: find_node_absolute [OF parts] literal_apply [OF assms(1) parts(1)])
qed

theorem path_of_address_is_lookup_witness:
  "\<exists>p. make_path parse_regex Map.empty ''/g/ab'' = Some (Map.empty, Some p) \<and>
    apply_path regex_matches sample_root (child_functions p) [[]] = [[1, 0]]"
proof -
  have "literal_parts [''g'', ''ab'']" "find_node sample_root ''/g/ab'' = Some [1, 0]" by code_simp+
  then show ?thesis
    using path_of_address_is_lookup [OF wf_sample_root, of "[''g'', ''ab'']" parse_regex Map.empty regex_matches] by simp
qed

text \<open>C25: A path that starts with two slashes selects, from the root, each node of the tree
  whose last names are accepted by the steps, at any depth, and selects it once.\<close>

theorem any_depth_selects_all:
  assumes "list_all is_name_step steps"
  shows "distinct (apply_path matches device (All_step # steps) [[]]) \<and>
    set (apply_path matches device (All_step # steps) [[]]) =
      {p @ q | p q. node_at device (p @ q) \<noteq> None \<and>
         (\<exists>ss. path_names device (p @ q) = path_names device p @ ss \<and> list_all2 (step_accepts matches) steps ss)}"
  using apply_all_names [OF assms] by blast

theorem any_depth_selects_all_witness:
  "distinct (apply_path regex_matches sample_root [All_step, Name_is ''ab''] [[]]) \<and>
   apply_path regex_matches sample_root [All_step, Name_is ''ab''] [[]] = [[2], [1, 0]]"
proof
  show "distinct (apply_path regex_matches sample_root [All_step, Name_is ''ab''] [[]])"
    using any_depth_selects_all [of "[Name_is ''ab'']" regex_matches sample_root] by simp
qed code_simp

text \<open>C26: A cache of regular expressions in which every expression is the one its key compiles
  to has no effect on the path that is made for an address, and remains such a cache, also when the
  construction raises an exception.\<close>

theorem cache_has_no_effect:
  assumes "cache_ok compile cache"
  shows "map_option snd (make_path compile cache a) = map_option snd (make_path compile Map.empty a) \<and>
    (\<forall>c r. make_path compile cache a = Some (c, r) \<longrightarrow> cache_ok compile c)"
proof -
  have "cache_ok compile Map.empty" by (simp add: cache_ok_def)
  from make_path_same [OF assms this, of a] show ?thesis by (auto simp: same_outcome_def)
qed

theorem cache_has_no_effect_witness:
  "map_option snd (make_path parse_regex [''a*'' \<mapsto> the (parse_regex (regex_text ''a*''))] ''/a*'') =
     map_option snd (make_path parse_regex Map.empty ''/a*'')"
proof -
  have "make_regex parse_regex ''a*'' = Some (Ok (the (parse_regex (regex_text ''a*''))))" by code_simp
  then have "cache_ok parse_regex [''a*'' \<mapsto> the (parse_regex (regex_text ''a*''))]" by (simp add: cache_ok_def)
  then show ?thesis using cache_has_no_effect by blast
qed

text \<open>C27: The expansion of a text with groups of alternatives between braces, nested in any way,
  is the list of the words it stands for, in order: the products of the words of its parts, a group
  giving the words of its alternatives.\<close>

theorem braces_give_their_words:
  assumes "list_all valid_item items"
  shows "expand (concat (map item_text items)) = products (map item_words items)"
  using assms by (rule expand_items)

theorem braces_give_their_words_witness:
  "expand ''a{b,c{1,2}}'' = [''ab'', ''ac1'', ''ac2'']"
  using braces_give_their_words [of "[Lit ''a'', Group [[Lit ''b''], [Lit ''c'', Group [[Lit ''1''], [Lit ''2'']]]]]"]
  by (simp add: plain_char_def is_brace_token_def append_all_def)



section \<open>Parameters\<close>

text \<open>C29: However the operations on a parameter follow each other, and whether they return or
  throw, its value has its type, this type is one, and the value and the domain have the right number
  of components. The type that is set has to be one: the exception for the other leaves the parameter
  with it.\<close>

theorem parameter_keeps_its_type:
  assumes "wf_text io" "(param_step io)\<^sup>*\<^sup>* generic_parameter p"
  shows "get_type (p_value p) = p_value_type p \<and> p_value_type p \<noteq> T_NONE \<and> wf_val (p_value p) \<and> wf_domain (p_domain p) \<and>
    set_value_type io p T_NONE = Thrown Invalid_value_type (p\<lparr>p_value_type := T_NONE\<rparr>, [])"
  using param_steps_wf [OF assms(2,1) wf_generic_parameter] set_value_type_none
  by (simp add: wf_parameter_def)

theorem parameter_keeps_its_type_witness:
  "\<exists>p. (param_step sample_text)\<^sup>*\<^sup>* generic_parameter p \<and> p_value_type p = T_LIST \<and> get_type (p_value p) = T_LIST"
proof -
  let ?p = "fst (state_of (set_value_type sample_text generic_parameter T_LIST))"
  have "(param_step sample_text)\<^sup>*\<^sup>* generic_parameter ?p" by (intro r_into_rtranclp step_type) simp
  moreover have "p_value_type ?p = T_LIST" using set_value_type_state [OF wf_generic_parameter] by simp
  ultimately show ?thesis using parameter_keeps_its_type [OF wf_sample_text] by metis
qed

text \<open>C30: Setting up a parameter from a type, a unit or an extended type gives, when it returns,
  a parameter of the underlying type with a value of it, whether the node already had a parameter or
  not.\<close>

theorem setup_gives_underlying_type:
  assumes "wf_text io" "\<forall>q. p = Some q \<longrightarrow> wf_parameter q" "setup_parameter io t p = Some (Returned (p', es))"
  shows "p_value_type p' = underlying_type t \<and> get_type (p_value p') = underlying_type t"
proof -
  have "wf_parameter p' \<and> p_value_type p' = underlying_type t"
    by (rule setup_parameter_wf [OF assms(1) _ assms(3)]) (use assms(2) in blast)
  then show ?thesis by (simp add: wf_parameter_def)
qed

theorem setup_gives_underlying_type_witness:
  "\<exists>p' es. setup_parameter sample_text (Of_extended ''vecf'') (Some sample_parameter) = Some (Returned (p', es)) \<and>
     p_value_type p' = T_LIST"
proof -
  have "returned (setup_parameter sample_text (Of_extended ''vecf'') (Some sample_parameter))" by code_simp
  then obtain p' es where run: "setup_parameter sample_text (Of_extended ''vecf'') (Some sample_parameter) = Some (Returned (p', es))"
    using returnedE by blast
  moreover have "underlying_type (Of_extended ''vecf'') = T_LIST" by code_simp
  ultimately show ?thesis
    using setup_gives_underlying_type [OF wf_sample_text _ run] wf_sample_parameter by auto
qed



section \<open>Callbacks and queues\<close>

text \<open>C32: The hooks of a callback container tell the protocol to observe the parameter exactly
  when it has a callback: if this holds before a callback is added, one is removed or all are cleared,
  it holds after, and the list of callbacks remains one with different iterators.\<close>

theorem observed_while_called_back:
  assumes "wf_container k" "b = (\<not> callbacks_empty k)"
  shows "(\<forall>c k' hs i. add_callback k c = Done (k', hs, i) \<longrightarrow>
      wf_container k' \<and> observed_after b hs = (\<not> callbacks_empty k') \<and> i \<notin> set (callback_ids k)) \<and>
    (\<forall>i k' hs. remove_callback k i = Done (k', hs) \<longrightarrow>
      wf_container k' \<and> observed_after b hs = (\<not> callbacks_empty k')) \<and>
    observed_after b (snd (callbacks_clear k)) = (\<not> callbacks_empty (fst (callbacks_clear k)))"
proof (intro conjI allI impI)
  fix c k' hs i assume add: "add_callback k c = Done (k', hs, i)"
  show "wf_container k'" by (rule add_callback_wf [OF assms(1) add])
  show "observed_after b hs = (\<not> callbacks_empty k')" by (rule add_callback_observed [OF add assms(2)])
  show "i \<notin> set (callback_ids k)"
    using add_callback_Done [OF add] assms(1) by (auto simp: wf_container_def)
next
  fix i k' hs assume remove: "remove_callback k i = Done (k', hs)"
  show "wf_container k'" by (rule remove_callback_wf [OF assms(1) remove])
  show "observed_after b hs = (\<not> callbacks_empty k')" by (rule remove_callback_observed [OF assms(1) remove assms(2)])
qed (rule callbacks_clear_observed [OF assms(2)])

theorem observed_while_called_back_witness:
  "observed_after False [First_added] = (\<not> callbacks_empty \<lparr>next_id = 1, callbacks = [(0, Some ())]\<rparr>) \<and>
   observed_after True [Last_removed] = (\<not> callbacks_empty \<lparr>next_id = 1, callbacks = [] :: (nat \<times> unit option) list\<rparr>)"
proof -
  let ?k = "\<lparr>next_id = 1, callbacks = [(0, Some ())]\<rparr>" and ?e = "\<lparr>next_id = 1, callbacks = [] :: (nat \<times> unit option) list\<rparr>"
  have "False = (\<not> callbacks_empty (empty_container :: unit container))" "True = (\<not> callbacks_empty ?k)" "wf_container ?k"
    by (simp_all add: callbacks_empty_def empty_container_def wf_container_def callback_ids_def)
  note laws = observed_while_called_back [OF wf_empty this(1)] observed_while_called_back [OF this(3,2)]
  have "add_callback empty_container (Some ()) = Done (?k, [First_added], 0)"
    "remove_callback ?k 0 = Done (?e, [Last_removed])"
    by (simp_all add: add_callback_def remove_callback_def callback_ids_def empty_container_def)
  then show ?thesis using laws by blast
qed



text \<open>C34: The destructor of a message queue in a reachable state removes the callbacks of the
  queue from every parameter, leaves those of the others, and uses only iterators that are valid.\<close>

theorem queue_destruction_cleans_up:
  assumes "reachable q"
  shows "\<exists>ks. destroy_queue q = Done ks \<and>
    (\<forall>p. (\<forall>i. (i, Enqueue) \<notin> live_entries (ks p)) \<and> {e \<in> live_entries (ks p). snd e \<noteq> Enqueue} = other_entries q p)"
proof -
  obtain ks where run: "destroy_queue q = Done ks" and k: "\<And>p. {e \<in> live_entries (ks p). snd e = Enqueue} = {} \<and>
      {e \<in> live_entries (ks p). snd e \<noteq> Enqueue} = other_entries q p"
    using destroy_queue_spec [OF reachable_inv [OF assms]] by blast
  have "(i, Enqueue) \<notin> {e \<in> live_entries (ks p). snd e = Enqueue}" for i p
    unfolding conjunct1 [OF k] by simp
  then show ?thesis using conjunct2 [OF k] by (intro exI [of _ ks] conjI run allI) simp_all
qed

theorem queue_destruction_cleans_up_witness:
  "\<exists>(q :: (nat, unit) queue_state) ks. reachable q \<and> registered q 4 \<noteq> None \<and> destroy_queue q = Done ks \<and>
     (\<forall>i. (i, Enqueue) \<notin> live_entries (ks 4))"
proof -
  let ?q = "\<lparr>m_reg = [], containers = \<lambda>_. empty_container\<rparr> :: (nat, unit) queue_state"
  obtain q where q: "reg ?q 4 = Done q" "registered q 4 \<noteq> None"
    using reg_spec [OF init_inv, of "4 :: nat"] by blast
  have r: "reachable q" by (rule reachable_step [OF reachable_init mq_reg [OF q(1)]])
  obtain ks where "destroy_queue q = Done ks" "\<forall>i. (i, Enqueue) \<notin> live_entries (ks 4)"
    using queue_destruction_cleans_up [OF r] by (elim exE conjE) (drule spec [of _ 4], elim conjE)
  then show ?thesis using r q(2) by (intro exI [of _ q] exI [of _ ks] conjI)
qed

section \<open>Values on the wire\<close>



text \<open>A list of any depth that OSCQuery writes to a message is read back with the same structure
  and elements; the arrays of floats in it come back as lists of floats.\<close>

theorem oscquery_list_roundtrip:
  assumes "list_all all_valid vs"
  shows "create_list (oscquery_outbound 0 (VList vs)) = Ok (map query_form vs)"
  using assms by (rule query_list_roundtrip)

theorem oscquery_list_roundtrip_witness:
  "create_list (oscquery_outbound 0 (VList [VInt 1, VList [VBool True, VVec2f [fl_one, fl_zero]]])) =
     Ok [VInt 1, VList [VBool True, VList [VFloat fl_one, VFloat fl_zero]]]"
  using oscquery_list_roundtrip [of "[VInt 1, VList [VBool True, VVec2f [fl_one, fl_zero]]]"] by simp

section \<open>Domains\<close>





section \<open>Values\<close>

text \<open>Inserting a value into a list at an index of natural numbers succeeds; what is read at this index
  afterwards is the value merged with what was there, the other elements of the list are as they
  were, and it grows just enough for the index.\<close>

theorem inserted_value_is_read:
  assumes "\<forall>i\<in>set idx. 0 \<le> sint i" "idx \<noteq> []"
  shows "\<exists>us. insert_in_list sp vs v idx = Ok us \<and>
    get_value_at_index (VList us) idx = Ok (merge_value sp (slot vs (positions idx)) v) \<and>
    (\<forall>j. j \<noteq> nat (sint (hd idx)) \<longrightarrow> element us j = element vs j) \<and>
    length us = max (length vs) (nat (sint (hd idx)) + 1)"
proof -
  obtain us where us: "insert_in_list sp vs v idx = Ok us" using insert_in_list_ok [OF assms(1)] by blast
  obtain i js where idx: "idx = i # js" using assms(2) by (cases idx) auto
  have "0 \<le> sint i" "insert_in_list sp vs v (i # js) = Ok us" using assms(1) us idx by simp_all
  note frame = insert_in_list_frame [OF this]
  have "length us = max (length vs) (nat (sint i) + 1)" by (rule frame(2) [of "Suc (nat (sint i))"]) simp
  then show ?thesis using insert_in_list_read [OF assms us] frame(1) us idx by auto
qed

theorem inserted_value_is_read_witness:
  "\<exists>us. insert_in_list False [VInt 1] (VInt 5) [2] = Ok us \<and> length us = 3 \<and>
     get_value_at_index (VList us) [2] = Ok (VInt 5) \<and> element us 0 = VInt 1"
proof -
  obtain us where "insert_in_list False [VInt 1] (VInt 5) [2] = Ok us" "length us = 3"
      "get_value_at_index (VList us) [2] = Ok (VInt 5)" "\<forall>j. j \<noteq> 2 \<longrightarrow> element us j = element [VInt 1] j"
    using inserted_value_is_read [of "[2]" False "[VInt 1]" "VInt 5"]
    by (auto simp: positions_def element_def simp del: insert_in_list.simps)
  moreover have "element [VInt 1] 0 = VInt 1" by (simp add: element_def)
  ultimately show ?thesis by (metis zero_neq_numeral)
qed

text \<open>C38: The text of a unit is parsed to that unit in its dataspace, the text of the dataspace
  is parsed to the dataspace, and a unit is made from its indices.\<close>

theorem unit_text_roundtrip:
  assumes "concrete_unit d"
  shows "parse_unit (get_unit_text (Some d)) (parse_dataspace (get_dataspace_text (Some d))) = Some d \<and>
    make_unit (word_of_nat (dataspace_which d)) (word_of_nat (unit_which d)) = Some d"
  using parse_unit_get_text [OF assms] make_unit_which [OF assms] by (simp add: parse_dataspace_get_text)

theorem unit_text_roundtrip_witness:
  "parse_unit ''argb'' (Some (Color None)) = Some (Color (Some argb_u)) \<and> make_unit 5 0 = Some (Color (Some argb_u))"
proof -
  have "concrete_unit (Color (Some argb_u))" "get_unit_text (Some (Color (Some argb_u))) = ''argb''"
    "parse_dataspace (get_dataspace_text (Some (Color (Some argb_u)))) = Some (Color None)"
    "dataspace_which (Color (Some argb_u)) = 5" "unit_which (Color (Some argb_u)) = 0"
    by code_simp+
  then show ?thesis using unit_text_roundtrip [of "Color (Some argb_u)"] by simp
qed

section \<open>Reading, comparing and bounding values\<close>

text \<open>Reading a value at an index whose entries are not negative gives the element that the index
  leads to, or no value when there is none.\<close>

theorem index_reads_subvalue:
  assumes "\<forall>i\<in>set idx. 0 \<le> sint i"
  shows "get_value_at_index v idx =
    Ok (case descend v (map (\<lambda>i. nat (sint i)) idx) of None \<Rightarrow> VUnset | Some w \<Rightarrow> w)"
  using assms by (rule get_value_at_index_descend)

theorem index_reads_subvalue_witness:
  "get_value_at_index (VList [VInt 7, VVec2f [fl_zero, fl_one]]) [1, 1] = Ok (VFloat fl_one) \<and>
   get_value_at_index (VList [VInt 7]) [3] = Ok VUnset"
  using index_reads_subvalue [of "[1, 1]" "VList [VInt 7, VVec2f [fl_zero, fl_one]]"]
    index_reads_subvalue [of "[3]" "VList [VInt 7]"] by simp

text \<open>A value is equal to itself exactly when it holds no NaN and no list in it has an unset
  element.\<close>

theorem value_equality_reflexive: "value_eq v v \<longleftrightarrow> self_equal v"
  by (rule value_eq_refl)

text \<open>C39: Equality of values is symmetric, inequality is its negation, and the greater
  comparisons are the lower ones with the values swapped.\<close>

theorem value_comparison_consistent:
  "(value_eq a b \<longleftrightarrow> value_eq b a) \<and> (value_ne a b \<longleftrightarrow> \<not> value_eq a b) \<and>
   (value_gt a b \<longleftrightarrow> value_lt b a) \<and> (value_ge a b \<longleftrightarrow> value_le b a)"
  by (intro conjI value_eq_sym value_ne_eq value_gt_lt value_ge_le)

text \<open>The order of values is a strict weak order on the scalars of a type that are not NaN.\<close>

theorem value_order_strict_weak:
  assumes "scalar_of t x" "scalar_of t y" "scalar_of t z"
  shows "\<not> value_lt x x \<and> (value_lt x y \<and> value_lt y z \<longrightarrow> value_lt x z) \<and>
    (\<not> value_lt x y \<and> \<not> value_lt y z \<longrightarrow> \<not> value_lt x z)"
  using value_order.irrefl [OF assms(1)] value_order.trans [OF assms] value_order.incomp [OF assms] by blast

theorem value_order_strict_weak_witness:
  "value_lt (VString ''a'') (VString ''c'') \<and> \<not> value_lt (VInt 5) (VInt 3)"
  using value_order_strict_weak [of T_STRING "VString ''a''" "VString ''b''" "VString ''c''"]
    value_order_strict_weak [of T_INT "VInt 5" "VInt 4" "VInt 3"]
  by (simp add: scalar_of_def sint_lt_def)

text \<open>Clamping a value between bounds of its shape that are in order gives a value of its type that is
  not beyond the bounds, in each number it holds.\<close>

theorem clamp_in_range:
  assumes "lift3 clamp_pre_int clamp_pre_float v lo hi"
  shows "\<exists>w. value_clamp v lo hi = Ok w \<and> get_type w = get_type v \<and> lift3 in_range_int in_range_float w lo hi"
  unfolding value_clamp_def using assms by (rule clamp_range.apply_ternary_post)

theorem clamp_in_range_witness:
  "\<exists>w. value_clamp (VList [VInt 9, VVec2f [fl_one, fl_zero]]) (VList [VInt 0, VFloat fl_zero])
      (VList [VInt 5, VFloat fl_zero]) = Ok w \<and> get_type w = T_LIST"
  using clamp_in_range [of "VList [VInt 9, VVec2f [fl_one, fl_zero]]" "VList [VInt 0, VFloat fl_zero]"
      "VList [VInt 5, VFloat fl_zero]"]
  by (auto simp: clamp_pre_int_def clamp_pre_float_def lift3_vec_def fl_zero_def fl_one_def fl_le_def)

text \<open>A value that has been clamped is left as it is when it is clamped again by the same bounds.\<close>

theorem clamp_idempotent:
  assumes "lift3 clamp_pre_int clamp_pre_float v lo hi" "value_clamp v lo hi = Ok w"
  shows "value_clamp w lo hi = Ok w"
  using clamp_range.apply_ternary_post [OF assms(1)] assms(2) clamp_id.apply_ternary_id [of w lo hi]
  by (auto simp: value_clamp_def)

theorem clamp_idempotent_witness: "value_clamp (VChar 3) (VChar 1) (VChar 3) = Ok (VChar 3)"
  by (rule clamp_idempotent [of "VChar 9"]; code_simp)

text \<open>Clamping a value between two bounds of its shape is bounding it from above and then from
  below.\<close>

theorem clamp_is_max_then_min:
  assumes "same_shape v lo hi"
  shows "value_clamp v lo hi = res_bind (value_clamp_max v hi) (\<lambda>w. value_clamp_min w lo)"
  using assms by (rule value_clamp_decompose)

theorem clamp_is_max_then_min_witness:
  "value_clamp (VInt 9) (VInt 1) (VInt 3) = res_bind (value_clamp_max (VInt 9) (VInt 3)) (\<lambda>w. value_clamp_min w (VInt 1))"
  by (rule clamp_is_max_then_min) simp



text \<open>Where no difference overflows, the wrap of 32-bit integers is the mathematical one on the
  integers.\<close>

theorem wrap_int_exact:
  assumes "sint low < sint high" "in_i32 (sint val - sint low)" "in_i32 (sint low - sint val)"
    "in_i32 (sint low - sint high)"
  shows "wrap_i32 val low high = Ok (word_of_int (wrap_int (sint val) (sint low) (sint high)))"
  using assms by (rule wrap_i32_eq)

theorem wrap_int_exact_witness: "wrap_i32 12 0 5 = Ok 2"
  using wrap_int_exact [of 0 5 12] by (simp add: in_i32_def int32_min_def int32_max_def wrap_int_def)

text \<open>The name that is found for a new child is none of its siblings' and has only valid
  characters.\<close>

theorem sanitized_name_fresh:
  assumes "sanitize_name_among name brethren = Ok s"
  shows "s \<notin> set brethren \<and> valid_name s"
  using sanitize_name_among_fresh [OF assms] sanitize_name_among_valid [OF assms] by blast

theorem sanitized_name_fresh_witness: "''foo.4'' \<notin> set [''foo'', ''foo.3'', ''foo.1'']"
proof -
  have "sanitize_name_among ''foo'' [''foo'', ''foo.3'', ''foo.1''] = Ok ''foo.4''" by code_simp
  from sanitized_name_fresh [OF this] show ?thesis by blast
qed

end
